(* ===== verification/Prelude.thy ===== *)
theory Prelude
  imports Main
begin

text \<open>
  What the components of the development share: the collections their lemmas are
  declared into, the names of the model's addresses, and the generic facts on lists,
  options and function updates that the component proofs use.

  Objects that the Rust code shares through \<^verbatim>\<open>Arc\<close> (tokens, channels, cells, cancel
  flags, task handles) live in stores: total functions from an address to the object.
  An \<^verbatim>\<open>Arc\<close> is never dangling, so a store has no "absent" value; objects the program
  allocates while it runs get their address from a counter.
\<close>

named_theorems sync_simps \<open>equations of the concurrency core used by simp\<close>
named_theorems sync_frame \<open>what an operation of the concurrency core leaves alone\<close>
named_theorems chan_inv_intros \<open>operations that keep the invariant of a channel\<close>

type_synonym task_id = nat
type_synonym addr = nat

section \<open>Machine integers as natural numbers\<close>

text \<open>Unsigned 64-bit counters, with the wrap-around of atomics and of release builds.\<close>

definition U64_MAX :: nat where
  "U64_MAX = 2 ^ 64 - 1"

definition u64_add :: "nat \<Rightarrow> nat \<Rightarrow> nat" where
  "u64_add a b = (a + b) mod 2 ^ 64"

definition u64_sub :: "nat \<Rightarrow> nat \<Rightarrow> nat" where
  "u64_sub a b = (a + 2 ^ 64 - b mod 2 ^ 64) mod 2 ^ 64"

lemma u64_add_small: "a + b \<le> U64_MAX \<Longrightarrow> u64_add a b = a + b"
  by (simp add: u64_add_def U64_MAX_def)

lemma u64_sub_small: "b \<le> a \<Longrightarrow> a \<le> U64_MAX \<Longrightarrow> u64_sub a b = a - b"
proof -
  assume "b \<le> a" "a \<le> U64_MAX"
  then have "b mod 2 ^ 64 = b" "a - b < 2 ^ 64" by (auto simp: U64_MAX_def)
  moreover have "a + 2 ^ 64 - b = a - b + 2 ^ 64" using \<open>b \<le> a\<close> by simp
  ultimately show ?thesis unfolding u64_sub_def by (simp only: mod_add_self2 mod_less)
qed

section \<open>Lists\<close>

lemma filter_id_conv_all: "(\<forall>x \<in> set xs. P x) \<Longrightarrow> filter P xs = xs"
  by (induction xs) auto

lemma length_filter_split:
  "length (filter P xs) + length (filter (\<lambda>x. \<not> P x) xs) = length xs"
  by (induction xs) auto

lemma dropWhile_eq_Nil_iff: "dropWhile P xs = [] \<longleftrightarrow> (\<forall>x \<in> set xs. P x)"
  by (induction xs) auto

lemma set_dropWhile_subset: "set (dropWhile P xs) \<subseteq> set xs"
  by (induction xs) auto

lemma hd_dropWhile_not: "dropWhile P xs = y # ys \<Longrightarrow> \<not> P y"
  by (induction xs) (auto split: if_splits)

section \<open>Folding an update over a list\<close>

text \<open>
  An invariant that one call keeps is kept by a loop of calls, and a quantity one call
  leaves alone is left alone by the loop.
\<close>

lemma fold_invariant_simple:
  assumes "\<And>x s. x \<in> set xs \<Longrightarrow> P s \<Longrightarrow> P (f x s)" and "P s"
  shows "P (fold f xs s)"
  using assms by (induction xs arbitrary: s) auto

lemma fold_frame:
  assumes "\<And>x s. x \<in> set xs \<Longrightarrow> g (f x s) = g s"
  shows "g (fold f xs s) = g s"
  using assms by (induction xs arbitrary: s) auto

end
