(* ===== verification/Token.thy ===== *)
theory Token
  imports Prelude
begin

text \<open>
  The token of one wait (\<^verbatim>\<open>runtime/sync/token.rs\<close>) and what sits on a queue
  (\<^verbatim>\<open>runtime/sync/queue.rs\<close>).

  A token is a state machine: it is armed when its task is put on the queues, parked when
  the worker has given the task up, and it ends once, by being fired, cancelled or
  expired; the result of a fired token is taken once. The code keeps the state behind a
  lock and every operation below is one critical section of that lock, so an operation
  is one atomic step of the model.

  A \<^verbatim>\<open>panic!\<close>, \<^verbatim>\<open>unreachable!\<close> or failed \<^verbatim>\<open>assert!\<close> of the code sets the field
  \<open>panicked\<close> of the heap; that it is never set is a theorem, not an assumption.
\<close>

section \<open>Data\<close>

text \<open>How a channel was closed (\<^verbatim>\<open>channel.rs\<close>): the failure of the producer, and the
  handle of the stream stage whose failure it is.\<close>

record 'e close =
  failure :: "'e option"
  stage :: "addr option"

definition close_default :: "'e close" where
  "close_default = \<lparr>failure = None, stage = None\<rparr>"

datatype ('v, 'e) outcome =
    Received 'v
  | Sent
  | Closed "'e close"
  | Done
  | Asked

datatype ('v, 'e) fired = Arm nat "('v, 'e) outcome" | Deadline

datatype ('v, 'e) resumed =
    Resumed_Fired "('v, 'e) fired"
  | Resumed_Cancelled
  | Resumed_Expired

datatype ('v, 'e) token_state =
    Armed
  | Parked
  | Fired "('v, 'e) fired"
  | Cancelled
  | Expired
  | Taken

record ('v, 'e) token =
  tok_task :: task_id
  tok_cancel :: "addr option"
  tok_ended_by :: nat
  tok_state :: "('v, 'e) token_state"

text \<open>\<open>usize::MAX\<close> on a 64-bit target: no arm has this index.\<close>

definition NO_ARM :: nat where
  "NO_ARM = 2 ^ 64 - 1"

text \<open>The stores: the cancel flags of the tasks, and the tokens.\<close>

record ('v, 'e) heap =
  flags :: "addr \<Rightarrow> bool"
  tokens :: "addr \<Rightarrow> ('v, 'e) token"
  next_token :: addr
  panicked :: bool

record 'v waiter =
  w_token :: addr
  w_arm :: nat
  w_payload :: "'v option"

record wakes =
  wk_first :: "task_id option"
  wk_more :: "task_id list"

section \<open>Wakes\<close>

definition wakes_default :: wakes where
  "wakes_default = \<lparr>wk_first = None, wk_more = []\<rparr>"

definition wakes_push :: "wakes \<Rightarrow> task_id \<Rightarrow> wakes" where
  "wakes_push ws t =
     (case wk_first ws of
        None \<Rightarrow> ws\<lparr>wk_first := Some t\<rparr>
      | Some _ \<Rightarrow> ws\<lparr>wk_more := wk_more ws @ [t]\<rparr>)"

definition wakes_list :: "wakes \<Rightarrow> task_id list" where
  "wakes_list ws = (case wk_first ws of None \<Rightarrow> [] | Some t \<Rightarrow> [t]) @ wk_more ws"

text \<open>\<open>wake\<close> is the method of the trait \<^verbatim>\<open>Wake\<close>: the scheduler's side of a wake.\<close>

definition wakes_send :: "(task_id \<Rightarrow> 's \<Rightarrow> 's) \<Rightarrow> wakes \<Rightarrow> 's \<Rightarrow> 's" where
  "wakes_send wake ws s = fold wake (wakes_list ws) s"

section \<open>The operations of a token\<close>

definition waiter_is :: "'v waiter \<Rightarrow> addr \<Rightarrow> bool" where
  "waiter_is w t \<longleftrightarrow> w_token w = t"

definition is_set :: "('v, 'e, 'z) heap_scheme \<Rightarrow> addr option \<Rightarrow> bool" where
  "is_set h c = (case c of None \<Rightarrow> False | Some f \<Rightarrow> flags h f)"

definition token_new ::
  "task_id \<Rightarrow> addr option \<Rightarrow> ('v, 'e, 'z) heap_scheme \<Rightarrow> addr \<times> ('v, 'e, 'z) heap_scheme"
where
  "token_new task cancel h =
     (next_token h,
      h\<lparr>tokens := (tokens h)(next_token h :=
           \<lparr>tok_task = task, tok_cancel = cancel, tok_ended_by = NO_ARM, tok_state = Armed\<rparr>),
        next_token := Suc (next_token h)\<rparr>)"

definition ended_by :: "('v, 'e, 'z) heap_scheme \<Rightarrow> addr \<Rightarrow> nat option" where
  "ended_by h t =
     (let arm = tok_ended_by (tokens h t) in if arm = NO_ARM then None else Some arm)"

definition is_cancelled :: "('v, 'e, 'z) heap_scheme \<Rightarrow> addr \<Rightarrow> bool" where
  "is_cancelled h t = is_set h (tok_cancel (tokens h t))"

fun open_state :: "('v, 'e) token_state \<Rightarrow> bool" where
  "open_state Armed = True"
| "open_state Parked = True"
| "open_state _ = False"

definition is_waiting :: "('v, 'e, 'z) heap_scheme \<Rightarrow> addr \<Rightarrow> bool" where
  "is_waiting h t = open_state (tok_state (tokens h t))"

text \<open>A claim is the right to end the wait of a token: its address.\<close>

definition claim :: "('v, 'e, 'z) heap_scheme \<Rightarrow> addr \<Rightarrow> addr option" where
  "claim h t =
     (if is_set h (tok_cancel (tokens h t)) then None
      else if is_waiting h t then Some t else None)"

definition set_state ::
  "addr \<Rightarrow> ('v, 'e) token_state \<Rightarrow> ('v, 'e, 'z) heap_scheme \<Rightarrow> ('v, 'e, 'z) heap_scheme"
where
  "set_state t st h = h\<lparr>tokens := (tokens h)(t := (tokens h t)\<lparr>tok_state := st\<rparr>)\<rparr>"

definition fire ::
  "addr \<Rightarrow> ('v, 'e) fired \<Rightarrow> ('v, 'e, 'z) heap_scheme \<Rightarrow> wakes
    \<Rightarrow> ('v, 'e, 'z) heap_scheme \<times> wakes"
where
  "fire c f h ws =
     (let h1 = (case f of
          Arm arm _ \<Rightarrow> h\<lparr>tokens := (tokens h)(c := (tokens h c)\<lparr>tok_ended_by := arm\<rparr>)\<rparr>
        | Deadline \<Rightarrow> h);
        ws1 = (if tok_state (tokens h c) = Parked
               then wakes_push ws (tok_task (tokens h c)) else ws)
      in (set_state c (Fired f) h1, ws1))"

definition expire ::
  "addr \<Rightarrow> ('v, 'e, 'z) heap_scheme \<Rightarrow> wakes \<Rightarrow> ('v, 'e, 'z) heap_scheme \<times> wakes"
where
  "expire c h ws =
     (let ws1 = (if tok_state (tokens h c) = Parked
                 then wakes_push ws (tok_task (tokens h c)) else ws)
      in (set_state c Expired h, ws1))"

definition token_cancel ::
  "(task_id \<Rightarrow> ('v, 'e, 'z) heap_scheme \<Rightarrow> ('v, 'e, 'z) heap_scheme) \<Rightarrow> addr
    \<Rightarrow> ('v, 'e, 'z) heap_scheme \<Rightarrow> bool \<times> ('v, 'e, 'z) heap_scheme"
where
  "token_cancel wake t h =
     (case tok_state (tokens h t) of
        Armed \<Rightarrow> (True, set_state t Cancelled h)
      | Parked \<Rightarrow> (True, wake (tok_task (tokens h t)) (set_state t Cancelled h))
      | _ \<Rightarrow> (False, h))"

definition abandon :: "addr \<Rightarrow> ('v, 'e, 'z) heap_scheme \<Rightarrow> ('v, 'e, 'z) heap_scheme" where
  "abandon t h = (if is_waiting h t then set_state t Cancelled h else h)"

definition token_commit ::
  "addr \<Rightarrow> ('v, 'e, 'z) heap_scheme \<Rightarrow> bool \<times> ('v, 'e, 'z) heap_scheme"
where
  "token_commit t h =
     (case tok_state (tokens h t) of
        Armed \<Rightarrow> (True, set_state t Parked h)
      | Parked \<Rightarrow> (True, h)
      | _ \<Rightarrow> (False, h))"

definition token_take ::
  "addr \<Rightarrow> ('v, 'e, 'z) heap_scheme
    \<Rightarrow> ('v, 'e) resumed option \<times> ('v, 'e, 'z) heap_scheme"
where
  "token_take t h =
     (case tok_state (tokens h t) of
        Armed \<Rightarrow> (None, h)
      | Parked \<Rightarrow> (None, h)
      | Cancelled \<Rightarrow> (Some Resumed_Cancelled, h)
      | Expired \<Rightarrow> (Some Resumed_Expired, h)
      | Fired f \<Rightarrow> (Some (Resumed_Fired f), set_state t Taken h)
      | Taken \<Rightarrow> (None, h\<lparr>panicked := True\<rparr>))"

section \<open>Runs of one token\<close>

text \<open>
  What can happen to the token of a wait, in any order and from any thread: its worker
  gives the task up, a peer or the timer claims and ends it, it is cancelled or abandoned,
  its cancel flag is set, the task takes the result. The log records what the scheduler is
  told (\<open>woken\<close>), whether a commit said that the task is given up (\<open>given_up\<close>), and what
  the task found (\<open>results\<close>).
\<close>

datatype ('v, 'e) token_op =
    Op_Commit
  | Op_Fire "('v, 'e) fired"
  | Op_Expire
  | Op_Cancel
  | Op_Abandon
  | Op_Take
  | Op_Flag addr

record ('v, 'e) token_log = "('v, 'e) heap" +
  woken :: "task_id list"
  given_up :: bool
  results :: "('v, 'e) resumed list"

definition log_wake :: "task_id \<Rightarrow> ('v, 'e) token_log \<Rightarrow> ('v, 'e) token_log" where
  "log_wake k s = s\<lparr>woken := woken s @ [k]\<rparr>"

fun token_exec ::
  "addr \<Rightarrow> ('v, 'e) token_op \<Rightarrow> ('v, 'e) token_log \<Rightarrow> ('v, 'e) token_log"
where
  "token_exec t Op_Commit s =
     (let (ok, s1) = token_commit t s in s1\<lparr>given_up := given_up s1 \<or> ok\<rparr>)"
| "token_exec t (Op_Fire f) s =
     (case claim s t of
        None \<Rightarrow> s
      | Some c \<Rightarrow> (let (s1, ws) = fire c f s wakes_default in wakes_send log_wake ws s1))"
| "token_exec t Op_Expire s =
     (case claim s t of
        None \<Rightarrow> s
      | Some c \<Rightarrow> (let (s1, ws) = expire c s wakes_default in wakes_send log_wake ws s1))"
| "token_exec t Op_Cancel s = snd (token_cancel log_wake t s)"
| "token_exec t Op_Abandon s = abandon t s"
| "token_exec t Op_Take s =
     (case token_take t s of
        (None, s1) \<Rightarrow> s1
      | (Some r, s1) \<Rightarrow> s1\<lparr>results := results s1 @ [r]\<rparr>)"
| "token_exec t (Op_Flag f) s = s\<lparr>flags := (flags s)(f := True)\<rparr>"

definition token_start ::
  "task_id \<Rightarrow> addr option \<Rightarrow> ('v, 'e) token_log \<Rightarrow> addr \<times> ('v, 'e) token_log"
where
  "token_start k c s =
     (let (t, s1) = token_new k c s in (t, s1\<lparr>woken := [], given_up := False, results := []\<rparr>))"

section \<open>The state machine of a token\<close>

inductive tok_step :: "('v, 'e) token_state \<Rightarrow> ('v, 'e) token_state \<Rightarrow> bool" where
  step_commit: "tok_step Armed Parked"
| step_fire: "open_state s \<Longrightarrow> tok_step s (Fired f)"
| step_cancel: "open_state s \<Longrightarrow> tok_step s Cancelled"
| step_expire: "open_state s \<Longrightarrow> tok_step s Expired"
| step_take: "tok_step (Fired f) Taken"

inductive_cases tok_step_FiredE [elim!]: "tok_step (Fired f) s"
inductive_cases tok_step_CancelledE [elim!]: "tok_step Cancelled s"
inductive_cases tok_step_ExpiredE [elim!]: "tok_step Expired s"
inductive_cases tok_step_TakenE [elim!]: "tok_step Taken s"
inductive_cases tok_step_ArmedE: "tok_step s Armed"
inductive_cases tok_step_ParkedE: "tok_step s Parked"

text \<open>
  One heap is later than another when every token of the first went through the machine,
  kept its task and its cancel flag, and no flag was taken back.
\<close>

definition heap_le ::
  "('v, 'e, 'z) heap_scheme \<Rightarrow> ('v, 'e, 'z) heap_scheme \<Rightarrow> bool"
where
  "heap_le h h' \<longleftrightarrow>
     next_token h \<le> next_token h' \<and>
     (\<forall>f. flags h f \<longrightarrow> flags h' f) \<and>
     (\<forall>t < next_token h. tok_step\<^sup>*\<^sup>* (tok_state (tokens h t)) (tok_state (tokens h' t)) \<and>
        tok_task (tokens h' t) = tok_task (tokens h t) \<and>
        tok_cancel (tokens h' t) = tok_cancel (tokens h t))"

lemma tok_steps_ended:
  assumes "tok_step\<^sup>*\<^sup>* s s'" and "\<not> open_state s"
  shows "s' = s \<or> (\<exists>f. s = Fired f) \<and> s' = Taken"
  using assms
proof (induction rule: rtranclp_induct)
  case (step y z)
  then show ?case by (cases s) (auto elim: tok_step.cases)
qed simp

lemma tok_steps_open_back:
  assumes "tok_step\<^sup>*\<^sup>* s s'" and "open_state s'"
  shows "open_state s"
  using assms tok_steps_ended by fastforce

lemma tok_steps_end:
  assumes "open_state s"
  shows "tok_step\<^sup>*\<^sup>* s (Fired f)" and "tok_step\<^sup>*\<^sup>* s Cancelled" and "tok_step\<^sup>*\<^sup>* s Expired"
  using assms by (auto intro: step_fire step_cancel step_expire)

lemma heap_le_refl [simp, intro]: "heap_le h h"
  by (simp add: heap_le_def)

lemma heap_le_trans [trans]: "heap_le h h' \<Longrightarrow> heap_le h' h'' \<Longrightarrow> heap_le h h''"
  unfolding heap_le_def
proof (intro conjI allI impI, goal_cases)
  case (3 t)
  then have "t < next_token h'" by simp
  with 3 show ?case by (blast intro: rtranclp_trans)
qed auto

lemma heap_leD:
  assumes "heap_le h h'" and "t < next_token h"
  shows "tok_step\<^sup>*\<^sup>* (tok_state (tokens h t)) (tok_state (tokens h' t))"
    and "tok_task (tokens h' t) = tok_task (tokens h t)"
    and "tok_cancel (tokens h' t) = tok_cancel (tokens h t)"
  using assms by (auto simp: heap_le_def)

lemma heap_le_flags: "heap_le h h' \<Longrightarrow> is_set h c \<Longrightarrow> is_set h' c"
  by (auto simp: heap_le_def is_set_def split: option.splits)

lemma heap_le_waiting_back:
  "heap_le h h' \<Longrightarrow> t < next_token h \<Longrightarrow> is_waiting h' t \<Longrightarrow> is_waiting h t"
  unfolding is_waiting_def by (metis heap_leD(1) tok_steps_open_back)

lemma heap_le_claim_back:
  assumes "heap_le h h'" and "t < next_token h" and "claim h' t = Some c"
  shows "claim h t = Some t" and "c = t"
  using assms heap_le_waiting_back [OF assms(1,2)] heap_leD(3) [OF assms(1,2)]
    heap_le_flags [OF assms(1)]
  by (auto simp: claim_def split: if_splits)

section \<open>What each operation does to the heap\<close>

lemma claim_SomeD [dest]:
  "claim h t = Some c \<Longrightarrow> c = t \<and> is_waiting h t \<and> \<not> is_set h (tok_cancel (tokens h t))"
  by (auto simp: claim_def split: if_splits)

lemma claim_eq_Some_iff:
  "claim h t = Some c \<longleftrightarrow> c = t \<and> is_waiting h t \<and> \<not> is_set h (tok_cancel (tokens h t))"
  by (auto simp: claim_def)

lemma set_state_sel [sync_simps]:
  "tok_state (tokens (set_state t st h) u) = (if u = t then st else tok_state (tokens h u))"
  "tok_task (tokens (set_state t st h) u) = tok_task (tokens h u)"
  "tok_cancel (tokens (set_state t st h) u) = tok_cancel (tokens h u)"
  "tok_ended_by (tokens (set_state t st h) u) = tok_ended_by (tokens h u)"
  "flags (set_state t st h) = flags h"
  "next_token (set_state t st h) = next_token h"
  "panicked (set_state t st h) = panicked h"
  by (auto simp: set_state_def)

lemma is_set_set_state [sync_simps]: "is_set (set_state t st h) c = is_set h c"
  by (simp add: is_set_def sync_simps split: option.splits)

lemma fire_fst_sel [sync_simps]:
  "tok_state (tokens (fst (fire t f h ws)) u) = (if u = t then Fired f else tok_state (tokens h u))"
  "tok_task (tokens (fst (fire t f h ws)) u) = tok_task (tokens h u)"
  "tok_cancel (tokens (fst (fire t f h ws)) u) = tok_cancel (tokens h u)"
  "flags (fst (fire t f h ws)) = flags h"
  "next_token (fst (fire t f h ws)) = next_token h"
  "panicked (fst (fire t f h ws)) = panicked h"
  by (auto simp: fire_def Let_def sync_simps split: fired.splits)

lemma claim_set_state [sync_simps]:
  "claim (set_state t st h) u =
     (if u = t then (if open_state st \<and> \<not> is_set h (tok_cancel (tokens h t)) then Some t else None)
      else claim h u)"
  by (simp add: claim_def is_waiting_def sync_simps)

lemma claim_fire [sync_simps]: "claim (fst (fire t f h ws)) u = (if u = t then None else claim h u)"
  by (simp add: claim_def is_waiting_def is_set_def sync_simps split: option.splits)

lemma expire_fst_sel [sync_simps]:
  "fst (expire t h ws) = set_state t Expired h"
  by (simp add: expire_def Let_def)

lemma fire_wakes:
  "snd (fire t f h ws) =
     (if tok_state (tokens h t) = Parked then wakes_push ws (tok_task (tokens h t)) else ws)"
  by (simp add: fire_def Let_def)

lemma expire_wakes:
  "snd (expire t h ws) =
     (if tok_state (tokens h t) = Parked then wakes_push ws (tok_task (tokens h t)) else ws)"
  by (simp add: expire_def Let_def)

lemma wakes_list_push: "wakes_list (wakes_push ws k) = wakes_list ws @ [k]"
  if "wk_first ws = None \<longrightarrow> wk_more ws = []"
  using that by (auto simp: wakes_push_def wakes_list_def split: option.splits)

lemma wakes_list_default [simp]: "wakes_list wakes_default = []"
  by (simp add: wakes_default_def wakes_list_def)

lemma wakes_list_push_default [simp]: "wakes_list (wakes_push wakes_default k) = [k]"
  by (simp add: wakes_default_def wakes_list_def wakes_push_def)

lemma heap_le_set_state:
  assumes "tok_step\<^sup>*\<^sup>* (tok_state (tokens h t)) st"
  shows "heap_le h (set_state t st h)"
  using assms by (auto simp: heap_le_def sync_simps)

lemma heap_le_fire: "is_waiting h t \<Longrightarrow> heap_le h (fst (fire t f h ws))"
  by (auto simp: heap_le_def sync_simps is_waiting_def intro: step_fire)

lemma heap_le_expire: "is_waiting h t \<Longrightarrow> heap_le h (fst (expire t h ws))"
  by (auto simp: sync_simps is_waiting_def intro!: heap_le_set_state step_expire)

lemma heap_le_abandon: "heap_le h (abandon t h)"
  by (auto simp: abandon_def is_waiting_def intro!: heap_le_set_state step_cancel)

lemma heap_le_commit: "heap_le h (snd (token_commit t h))"
  by (auto simp: token_commit_def split: token_state.splits
      intro!: heap_le_set_state step_commit)

lemma heap_le_panic: "heap_le h (h\<lparr>panicked := b\<rparr>)"
  by (simp add: heap_le_def)

lemma heap_le_take: "heap_le h (snd (token_take t h))"
  by (auto simp: token_take_def split: token_state.splits
      intro!: heap_le_set_state step_take heap_le_panic)

lemma heap_le_new: "heap_le h (snd (token_new k c h))"
  by (auto simp: heap_le_def token_new_def)

lemma heap_le_cancel:
  assumes "\<And>k h. heap_le h (wake k h)"
  shows "heap_le h (snd (token_cancel wake t h))"
proof -
  have "heap_le h (set_state t Cancelled h)" if "open_state (tok_state (tokens h t))"
    using that by (intro heap_le_set_state) (auto intro: step_cancel)
  with assms show ?thesis
    by (auto simp: token_cancel_def split: token_state.splits intro: heap_le_trans)
qed

lemmas heap_le_ops = heap_le_fire heap_le_expire heap_le_abandon heap_le_commit heap_le_take
  heap_le_new heap_le_panic

section \<open>A wait ends once and wakes once\<close>

text \<open>
  The invariant of a run: while the wait is open nobody was woken; when it has ended and
  the task was given up before, the task was woken once (unless the token was abandoned,
  which wakes nobody because its task is gone).
\<close>

definition token_run_inv :: "addr \<Rightarrow> task_id \<Rightarrow> bool \<Rightarrow> ('v, 'e) token_log \<Rightarrow> bool" where
  "token_run_inv t k abandoned s \<longleftrightarrow>
     tok_task (tokens s t) = k \<and>
     (case tok_state (tokens s t) of
        Armed \<Rightarrow> woken s = [] \<and> \<not> given_up s
      | Parked \<Rightarrow> woken s = [] \<and> given_up s
      | _ \<Rightarrow> (if given_up s then woken s = [k] \<or> abandoned \<and> woken s = [] else woken s = []))"

lemma log_wake_sel [simp]:
  "tokens (log_wake k s) = tokens s" "woken (log_wake k s) = woken s @ [k]"
  "given_up (log_wake k s) = given_up s" "results (log_wake k s) = results s"
  by (simp_all add: log_wake_def)

lemma set_state_more [sync_simps]:
  "woken (set_state t st s) = woken s" "given_up (set_state t st s) = given_up s"
  "results (set_state t st s) = results s"
  for s :: "('v, 'e) token_log"
  by (simp_all add: set_state_def)

lemma fire_more [sync_simps]:
  "woken (fst (fire t f s ws)) = woken s" "given_up (fst (fire t f s ws)) = given_up s"
  for s :: "('v, 'e) token_log"
  by (simp_all add: fire_def Let_def sync_simps split: fired.splits)

lemma token_exec_inv:
  assumes "token_run_inv t k ab s"
  shows "token_run_inv t k (ab \<or> op = Op_Abandon) (token_exec t op s)"
proof (cases op)
  case (Op_Fire f)
  then show ?thesis using assms
    by (cases "tok_state (tokens s t)")
      (auto simp: token_run_inv_def claim_def is_waiting_def fire_wakes sync_simps wakes_send_def
        split_beta split: option.splits if_splits)
next
  case Op_Expire
  then show ?thesis using assms
    by (cases "tok_state (tokens s t)")
      (auto simp: token_run_inv_def claim_def is_waiting_def expire_wakes sync_simps wakes_send_def
        split_beta split: option.splits if_splits)
qed (use assms in \<open>auto simp: token_run_inv_def token_commit_def token_cancel_def abandon_def
        token_take_def is_waiting_def sync_simps split: token_state.splits if_splits\<close>)

lemma token_run_inv_mono: "token_run_inv t k ab s \<Longrightarrow> (ab \<Longrightarrow> ab') \<Longrightarrow> token_run_inv t k ab' s"
  by (auto simp: token_run_inv_def split: token_state.splits if_splits)

lemma token_run_inv_fold:
  assumes "token_run_inv t k ab s"
  shows "token_run_inv t k (ab \<or> Op_Abandon \<in> set ops) (fold (token_exec t) ops s)"
  using assms
proof (induction ops arbitrary: ab s)
  case (Cons op ops)
  from token_exec_inv [OF Cons.prems, of op] Cons.IH
  have "token_run_inv t k ((ab \<or> op = Op_Abandon) \<or> Op_Abandon \<in> set ops)
      (fold (token_exec t) ops (token_exec t op s))" by blast
  then show ?case by (auto elim: token_run_inv_mono)
qed simp

lemma token_exec_step:
  "tok_step\<^sup>*\<^sup>* (tok_state (tokens s t)) (tok_state (tokens (token_exec t op s) t))"
proof (cases op)
  case (Op_Fire f)
  then show ?thesis
    by (auto simp: claim_eq_Some_iff fire_wakes sync_simps wakes_send_def is_waiting_def split_beta
        split: option.splits if_splits intro: tok_steps_end)
next
  case Op_Expire
  then show ?thesis
    by (auto simp: claim_eq_Some_iff expire_wakes sync_simps wakes_send_def is_waiting_def
        split_beta split: option.splits if_splits intro: tok_steps_end)
qed (auto simp: token_commit_def token_cancel_def abandon_def token_take_def is_waiting_def
    sync_simps split: token_state.splits intro: step_commit tok_steps_end step_take)

lemma token_exec_steps:
  "tok_step\<^sup>*\<^sup>* (tok_state (tokens s t)) (tok_state (tokens (fold (token_exec t) ops s) t))"
proof (induction ops arbitrary: s)
  case (Cons op ops)
  show ?case
    using rtranclp_trans [OF token_exec_step Cons.IH [of "token_exec t op s"]] by simp
qed simp

lemma token_start_inv: "token_start k c s = (t, s0) \<Longrightarrow> token_run_inv t k False s0"
  by (auto simp: token_start_def token_new_def token_run_inv_def Let_def)

section \<open>Properties\<close>

text \<open>C12: However commits, claims, deadlines, cancels, abandons, takes and flags are
  interleaved on the token of one wait, the scheduler is told to wake the task at most once;
  it is told nothing while the wait is open or when the task was never given up, and exactly
  once when a task that was given up has its wait ended (otherwise than by dropping the task).\<close>

theorem wait_wakes_once:
  assumes "token_start k c s = (t, s0)" and "s1 = fold (token_exec t) ops s0"
  shows "(woken s1 = [] \<or> woken s1 = [k]) \<and>
    (is_waiting s1 t \<or> \<not> given_up s1 \<longrightarrow> woken s1 = []) \<and>
    (given_up s1 \<and> \<not> is_waiting s1 t \<and> Op_Abandon \<notin> set ops \<longrightarrow> woken s1 = [k])"
proof -
  have "token_run_inv t k (Op_Abandon \<in> set ops) s1"
    using token_run_inv_fold [OF token_start_inv [OF assms(1)], of ops] assms(2) by simp
  then show ?thesis
    by (auto simp: token_run_inv_def is_waiting_def split: token_state.splits if_splits)
qed

definition empty_log :: "('v, 'e) token_log" where
  "empty_log = \<lparr>flags = (\<lambda>_. False),
     tokens = (\<lambda>_. \<lparr>tok_task = 0, tok_cancel = None, tok_ended_by = 0, tok_state = Taken\<rparr>),
     next_token = 0, panicked = False, woken = [], given_up = False, results = []\<rparr>"

theorem wait_wakes_once_witness:
  "woken (fold (token_exec 0) [Op_Commit, Op_Fire (Arm 1 (Received (5::int))), Op_Cancel, Op_Take]
     (snd (token_start 7 (Some 3) (empty_log :: (int, string) token_log)))) = [7]"
proof -
  let ?ops = "[Op_Commit, Op_Fire (Arm 1 (Received (5::int))), Op_Cancel, Op_Take]"
  let ?s0 = "snd (token_start 7 (Some 3) (empty_log :: (int, string) token_log))"
  have start: "token_start 7 (Some 3) (empty_log :: (int, string) token_log) = (0, ?s0)"
    by (simp add: token_start_def token_new_def empty_log_def)
  have "given_up (fold (token_exec 0) ?ops ?s0) \<and> \<not> is_waiting (fold (token_exec 0) ?ops ?s0) 0"
    by (simp add: token_start_def token_new_def empty_log_def token_commit_def set_state_def
        claim_def is_set_def is_waiting_def fire_def wakes_send_def wakes_push_def wakes_default_def
        wakes_list_def log_wake_def token_cancel_def token_take_def Let_def)
  then show ?thesis
    using wait_wakes_once [OF start refl, of ?ops] by simp
qed

definition result_inv :: "addr \<Rightarrow> ('v, 'e) token_log \<Rightarrow> bool" where
  "result_inv t s \<longleftrightarrow>
     (case tok_state (tokens s t) of
        Cancelled \<Rightarrow> set (results s) \<subseteq> {Resumed_Cancelled}
      | Expired \<Rightarrow> set (results s) \<subseteq> {Resumed_Expired}
      | Taken \<Rightarrow> (\<exists>f. results s = [Resumed_Fired f])
      | _ \<Rightarrow> results s = [])"

lemma fire_results [sync_simps]: "results (fst (fire t f s ws)) = results s"
  for s :: "('v, 'e) token_log"
  by (simp add: fire_def Let_def sync_simps split: fired.splits)

lemma token_exec_result_inv: "result_inv t s \<Longrightarrow> result_inv t (token_exec t op s)"
proof (cases op)
  case (Op_Fire f)
  moreover assume "result_inv t s"
  ultimately show ?thesis
    by (cases "tok_state (tokens s t)")
      (auto simp: result_inv_def claim_def is_waiting_def fire_wakes sync_simps wakes_send_def
        split_beta split: option.splits if_splits)
next
  case Op_Expire
  moreover assume "result_inv t s"
  ultimately show ?thesis
    by (cases "tok_state (tokens s t)")
      (auto simp: result_inv_def claim_def is_waiting_def expire_wakes sync_simps wakes_send_def
        split_beta split: option.splits if_splits)
qed (auto simp: result_inv_def token_commit_def token_cancel_def abandon_def
        token_take_def is_waiting_def sync_simps split: token_state.splits)

text \<open>C14: The task finds one result: whatever is done to the token and however often the
  result is asked for, every result found is the same one, a completed arm or passed
  deadline is handed out at most once, and a token that has ended never ends otherwise.\<close>

theorem wait_has_one_result:
  assumes "token_start k c s = (t, s0)" and "s1 = fold (token_exec t) ops s0"
  shows "(\<exists>r n. results s1 = replicate n r) \<and>
    length (filter (\<lambda>r. \<exists>f. r = Resumed_Fired f) (results s1)) \<le> 1 \<and>
    (\<not> is_waiting s1 t \<longrightarrow>
       (\<forall>more. let st = tok_state (tokens s1 t);
           st' = tok_state (tokens (fold (token_exec t) more s1) t)
         in st' = st \<or> (\<exists>f. st = Fired f) \<and> st' = Taken))"
proof (intro conjI impI allI)
  have "result_inv t s0"
    using assms(1) by (auto simp: result_inv_def token_start_def token_new_def Let_def)
  then have "result_inv t s1"
    unfolding assms(2) by (rule fold_invariant_simple [rotated]) (rule token_exec_result_inv)
  then consider (none) "results s1 = []" | (one) f where "results s1 = [Resumed_Fired f]"
    | (many) r where "set (results s1) \<subseteq> {r}" and "\<forall>f. r \<noteq> Resumed_Fired f"
    by (auto simp: result_inv_def split: token_state.splits)
  then have "(\<exists>r n. results s1 = replicate n r) \<and>
    length (filter (\<lambda>r. \<exists>f. r = Resumed_Fired f) (results s1)) \<le> 1"
  proof cases
    case none
    have "results s1 = replicate 0 Resumed_Cancelled" by (simp add: none)
    with none show ?thesis by fastforce
  next
    case one
    then have "results s1 = replicate 1 (Resumed_Fired f)" by simp
    with one show ?thesis by fastforce
  next
    case many
    then have "results s1 = replicate (length (results s1)) r"
      by (intro replicate_eqI) auto
    moreover have "filter (\<lambda>r. \<exists>f. r = Resumed_Fired f) (results s1) = []"
      using many by (auto simp: filter_empty_conv)
    ultimately show ?thesis by (metis le0 list.size(3))
  qed
  then show "\<exists>r n. results s1 = replicate n r"
    and "length (filter (\<lambda>r. \<exists>f. r = Resumed_Fired f) (results s1)) \<le> 1" by auto
next
  fix more assume "\<not> is_waiting s1 t"
  then show "let st = tok_state (tokens s1 t);
      st' = tok_state (tokens (fold (token_exec t) more s1) t)
    in st' = st \<or> (\<exists>f. st = Fired f) \<and> st' = Taken"
    using tok_steps_ended [OF token_exec_steps, of s1 t more] by (simp add: is_waiting_def Let_def)
qed

theorem wait_has_one_result_witness:
  "\<exists>r n. results (fold (token_exec 0) [Op_Commit, Op_Expire, Op_Take, Op_Cancel, Op_Take]
     (snd (token_start 7 None (empty_log :: (int, string) token_log)))) = replicate n r"
proof -
  have start: "token_start 7 None (empty_log :: (int, string) token_log) =
      (0, snd (token_start 7 None (empty_log :: (int, string) token_log)))"
    by (simp add: token_start_def token_new_def empty_log_def)
  show ?thesis
    using wait_has_one_result [OF start refl, of "[Op_Commit, Op_Expire, Op_Take, Op_Cancel, Op_Take]"]
    by blast
qed

end
