(* ===== verification/Channel.thy ===== *)
theory Channel
  imports Token
begin

text \<open>
  A channel (\<^verbatim>\<open>runtime/sync/channel.rs\<close>): a buffer, a queue of parked receivers, a queue of
  parked senders and a queue of feeders that wait to be asked, behind one lock. The
  functions on \<open>chan_state\<close> are the methods of the Rust \<^verbatim>\<open>State\<close>; they change the channel
  and, through the tokens of the waiters they complete, the heap. The functions on an
  address are the methods of \<^verbatim>\<open>Channel\<close>: they lock the state, run one of the former, and
  wake the tasks once the lock is released.

  A closure that the code stores in a channel (\<^verbatim>\<open>on_abandon\<close>, \<^verbatim>\<open>on_drain\<close>) is a number;
  what the closure does is an argument of the operation that calls it.
\<close>

section \<open>Data\<close>

datatype ('v, 'e) try_send = TS_Sent | TS_Full 'v | TS_Closed "'e close"

datatype ('v, 'e) try_receive = TR_Value 'v | TR_Empty | TR_Closed "'e close"

record ('v, 'e) chan_state =
  capacity :: nat
  buf :: "'v list"
  closed :: "'e close option"
  recvq :: "'v waiter list"
  sendq :: "'v waiter list"
  demandq :: "'v waiter list"
  asked :: bool
  draining :: bool
  ahead :: nat
  stale :: nat

record ('v, 'e) channel =
  ch_id :: nat
  ch_capacity :: nat
  on_abandon :: "addr option"
  on_drain :: "addr option"
  closes_by_timer :: bool
  ch_state :: "('v, 'e) chan_state"

text \<open>The channels, and which task handles have a failure nobody has read yet.\<close>

record ('v, 'e) chan_heap = "('v, 'e) heap" +
  channels :: "addr \<Rightarrow> ('v, 'e) channel"
  unjoined_failure :: "addr \<Rightarrow> bool"

section \<open>The methods of the locked state\<close>

text \<open>The loop of \<open>send\<close> over the parked receivers: pop until one can be claimed. \<open>None\<close>
  when the queue runs out.\<close>

fun deliver ::
  "'v waiter list \<Rightarrow> 'v \<Rightarrow> ('v, 'e, 'z) heap_scheme \<Rightarrow> wakes
    \<Rightarrow> ('v waiter list \<times> ('v, 'e, 'z) heap_scheme \<times> wakes) option"
where
  "deliver [] v h ws = None"
| "deliver (r # q) v h ws =
     (case claim h (w_token r) of
        Some c \<Rightarrow> Some (q, fire c (Arm (w_arm r) (Received v)) h ws)
      | None \<Rightarrow> deliver q v h ws)"

definition send ::
  "('v, 'e) chan_state \<Rightarrow> 'v \<Rightarrow> ('v, 'e, 'z) heap_scheme \<Rightarrow> wakes
    \<Rightarrow> ('v, 'e) try_send \<times> ('v, 'e) chan_state \<times> ('v, 'e, 'z) heap_scheme \<times> wakes"
where
  "send st v h ws =
     (case closed st of
        Some c \<Rightarrow> (TS_Closed c, st, h, ws)
      | None \<Rightarrow>
         (case deliver (recvq st) v h ws of
            Some (q, h1, ws1) \<Rightarrow> (TS_Sent, st\<lparr>recvq := q, asked := (q \<noteq> [])\<rparr>, h1, ws1)
          | None \<Rightarrow>
             (let st1 = st\<lparr>recvq := [], asked := False\<rparr>
              in if length (buf st1) < capacity st1
                 then (TS_Sent, st1\<lparr>buf := buf st1 @ [v]\<rparr>, h, ws)
                 else (TS_Full v, st1, h, ws))))"

text \<open>The loop of \<open>take_from_sender\<close> over the parked senders.\<close>

fun take_sender ::
  "'v waiter list \<Rightarrow> ('v, 'e, 'z) heap_scheme \<Rightarrow> wakes
    \<Rightarrow> 'v option \<times> 'v waiter list \<times> ('v, 'e, 'z) heap_scheme \<times> wakes"
where
  "take_sender [] h ws = (None, [], h, ws)"
| "take_sender (s # q) h ws =
     (case claim h (w_token s) of
        Some c \<Rightarrow> (w_payload s, q, fire c (Arm (w_arm s) Sent) h ws)
      | None \<Rightarrow> take_sender q h ws)"

definition take_from_sender ::
  "('v, 'e) chan_state \<Rightarrow> ('v, 'e, 'z) heap_scheme \<Rightarrow> wakes
    \<Rightarrow> 'v option \<times> ('v, 'e) chan_state \<times> ('v, 'e, 'z) heap_scheme \<times> wakes"
where
  "take_from_sender st h ws =
     (let (v, q, h1, ws1) = take_sender (sendq st) h ws in (v, st\<lparr>sendq := q\<rparr>, h1, ws1))"

text \<open>Claim and fire every waiter of a list, in order.\<close>

fun fire_waiters ::
  "('v, 'e) outcome \<Rightarrow> 'v waiter list \<Rightarrow> ('v, 'e, 'z) heap_scheme \<Rightarrow> wakes
    \<Rightarrow> ('v, 'e, 'z) heap_scheme \<times> wakes"
where
  "fire_waiters out [] h ws = (h, ws)"
| "fire_waiters out (w # q) h ws =
     (case claim h (w_token w) of
        Some c \<Rightarrow> (let (h1, ws1) = fire c (Arm (w_arm w) out) h ws in fire_waiters out q h1 ws1)
      | None \<Rightarrow> fire_waiters out q h ws)"

definition demand :: "('v, 'e) chan_state \<Rightarrow> ('v, 'e) outcome option" where
  "demand st =
     (case closed st of
        Some c \<Rightarrow> Some (Closed c)
      | None \<Rightarrow>
         (let room = (if draining st then capacity st else ahead st)
          in if asked st \<or> length (buf st) < room then Some Asked else None))"

definition wake_feeders ::
  "('v, 'e) chan_state \<Rightarrow> ('v, 'e, 'z) heap_scheme \<Rightarrow> wakes
    \<Rightarrow> ('v, 'e) chan_state \<times> ('v, 'e, 'z) heap_scheme \<times> wakes"
where
  "wake_feeders st h ws = (st\<lparr>demandq := []\<rparr>, fire_waiters Asked (demandq st) h ws)"

definition receive ::
  "('v, 'e) chan_state \<Rightarrow> ('v, 'e, 'z) heap_scheme \<Rightarrow> wakes
    \<Rightarrow> ('v, 'e) try_receive \<times> ('v, 'e) chan_state \<times> ('v, 'e, 'z) heap_scheme \<times> wakes"
where
  "receive st h ws =
     (case buf st of
        v # rest \<Rightarrow>
         (let (taken, st1, h1, ws1) = take_from_sender (st\<lparr>buf := rest\<rparr>) h ws
          in case taken of
               Some v1 \<Rightarrow> (TR_Value v, st1\<lparr>buf := buf st1 @ [v1]\<rparr>, h1, ws1)
             | None \<Rightarrow> (if demand st1 \<noteq> None
                        then (TR_Value v, wake_feeders st1 h1 ws1)
                        else (TR_Value v, st1, h1, ws1)))
      | [] \<Rightarrow>
         (let (taken, st1, h1, ws1) = take_from_sender st h ws
          in case taken of
               Some v1 \<Rightarrow> (TR_Value v1, st1, h1, ws1)
             | None \<Rightarrow>
                (case closed st1 of
                   Some c \<Rightarrow> (TR_Closed c, st1, h1, ws1)
                 | None \<Rightarrow> (TR_Empty, wake_feeders (st1\<lparr>asked := True\<rparr>) h1 ws1))))"

definition close_state ::
  "('v, 'e) chan_state \<Rightarrow> 'e close \<Rightarrow> ('v, 'e, 'z) heap_scheme \<Rightarrow> wakes
    \<Rightarrow> bool \<times> ('v, 'e) chan_state \<times> ('v, 'e, 'z) heap_scheme \<times> wakes"
where
  "close_state st c h ws =
     (if closed st \<noteq> None then (False, st, h, ws)
      else (let queues = sendq st @ recvq st @ demandq st;
                (h1, ws1) = fire_waiters (Closed c) queues h ws
            in (True, st\<lparr>sendq := [], recvq := [], demandq := [], closed := Some c\<rparr>, h1, ws1)))"

section \<open>The methods of a channel\<close>

definition channel_fed :: "nat \<Rightarrow> nat \<Rightarrow> nat \<Rightarrow> ('v, 'e) channel" where
  "channel_fed i cap ah =
     \<lparr>ch_id = i, ch_capacity = cap, on_abandon = None, on_drain = None, closes_by_timer = False,
      ch_state = \<lparr>capacity = cap, buf = [], closed = None, recvq = [], sendq = [], demandq = [],
        asked = False, draining = False, ahead = ah, stale = 0\<rparr>\<rparr>"

definition channel_new :: "nat \<Rightarrow> nat \<Rightarrow> ('v, 'e) channel" where
  "channel_new i cap = channel_fed i cap cap"

abbreviation chan_at ::
  "('v, 'e, 'z) chan_heap_scheme \<Rightarrow> addr \<Rightarrow> ('v, 'e) chan_state"
where
  "chan_at s a \<equiv> ch_state (channels s a)"

definition set_chan ::
  "addr \<Rightarrow> ('v, 'e) chan_state \<Rightarrow> ('v, 'e, 'z) chan_heap_scheme \<Rightarrow> ('v, 'e, 'z) chan_heap_scheme"
where
  "set_chan a st s = s\<lparr>channels := (channels s)(a := (channels s a)\<lparr>ch_state := st\<rparr>)\<rparr>"

definition set_closes_by_timer ::
  "addr \<Rightarrow> ('v, 'e, 'z) chan_heap_scheme \<Rightarrow> ('v, 'e, 'z) chan_heap_scheme"
where
  "set_closes_by_timer a s =
     s\<lparr>channels := (channels s)(a := (channels s a)\<lparr>closes_by_timer := True\<rparr>)\<rparr>"

text \<open>\<open>Close::raise\<close>: a receive found the channel closed and empty.\<close>

definition close_raise ::
  "'e close \<Rightarrow> ('v, 'e, 'z) chan_heap_scheme \<Rightarrow> ('e + unit) \<times> ('v, 'e, 'z) chan_heap_scheme"
where
  "close_raise c s =
     (let s1 = (case stage c of
                  Some task \<Rightarrow> s\<lparr>unjoined_failure := (unjoined_failure s)(task := False)\<rparr>
                | None \<Rightarrow> s)
      in (case failure c of Some e \<Rightarrow> Inl e | None \<Rightarrow> Inr (), s1))"

definition try_send_at ::
  "(task_id \<Rightarrow> ('v, 'e, 'z) chan_heap_scheme \<Rightarrow> ('v, 'e, 'z) chan_heap_scheme) \<Rightarrow> addr \<Rightarrow> 'v
    \<Rightarrow> ('v, 'e, 'z) chan_heap_scheme \<Rightarrow> ('v, 'e) try_send \<times> ('v, 'e, 'z) chan_heap_scheme"
where
  "try_send_at wake a v s =
     (let (r, st, s1, ws) = send (chan_at s a) v s wakes_default
      in (r, wakes_send wake ws (set_chan a st s1)))"

definition try_receive_at ::
  "(task_id \<Rightarrow> ('v, 'e, 'z) chan_heap_scheme \<Rightarrow> ('v, 'e, 'z) chan_heap_scheme) \<Rightarrow> addr
    \<Rightarrow> ('v, 'e, 'z) chan_heap_scheme \<Rightarrow> ('v, 'e) try_receive \<times> ('v, 'e, 'z) chan_heap_scheme"
where
  "try_receive_at wake a s =
     (let (r, st, s1, ws) = receive (chan_at s a) s wakes_default
      in (r, wakes_send wake ws (set_chan a st s1)))"

definition close_at ::
  "(task_id \<Rightarrow> ('v, 'e, 'z) chan_heap_scheme \<Rightarrow> ('v, 'e, 'z) chan_heap_scheme) \<Rightarrow> addr
    \<Rightarrow> 'e close \<Rightarrow> ('v, 'e, 'z) chan_heap_scheme \<Rightarrow> bool \<times> ('v, 'e, 'z) chan_heap_scheme"
where
  "close_at wake a c s =
     (let (r, st, s1, ws) = close_state (chan_at s a) c s wakes_default
      in (r, wakes_send wake ws (set_chan a st s1)))"

text \<open>Setting a \<^verbatim>\<open>OnceLock\<close> a second time changes nothing.\<close>

definition stop_feeder_with ::
  "addr \<Rightarrow> addr \<Rightarrow> ('v, 'e, 'z) chan_heap_scheme \<Rightarrow> ('v, 'e, 'z) chan_heap_scheme"
where
  "stop_feeder_with a stop s =
     (case on_abandon (channels s a) of
        None \<Rightarrow> s\<lparr>channels := (channels s)(a := (channels s a)\<lparr>on_abandon := Some stop\<rparr>)\<rparr>
      | Some _ \<Rightarrow> s)"

definition drain_feeder_with ::
  "addr \<Rightarrow> addr \<Rightarrow> ('v, 'e, 'z) chan_heap_scheme \<Rightarrow> ('v, 'e, 'z) chan_heap_scheme"
where
  "drain_feeder_with a drain s =
     (case on_drain (channels s a) of
        None \<Rightarrow> s\<lparr>channels := (channels s)(a := (channels s a)\<lparr>on_drain := Some drain\<rparr>)\<rparr>
      | Some _ \<Rightarrow> s)"

definition abandon_at ::
  "(task_id \<Rightarrow> ('v, 'e, 'z) chan_heap_scheme \<Rightarrow> ('v, 'e, 'z) chan_heap_scheme)
    \<Rightarrow> (addr \<Rightarrow> ('v, 'e, 'z) chan_heap_scheme \<Rightarrow> ('v, 'e, 'z) chan_heap_scheme) \<Rightarrow> addr
    \<Rightarrow> ('v, 'e, 'z) chan_heap_scheme \<Rightarrow> ('v, 'e, 'z) chan_heap_scheme"
where
  "abandon_at wake call a s =
     (case on_abandon (channels s a) of
        Some stop \<Rightarrow> call stop (snd (close_at wake a close_default s))
      | None \<Rightarrow> s)"

definition drain_state ::
  "('v, 'e) chan_state \<Rightarrow> ('v, 'e, 'z) heap_scheme \<Rightarrow> wakes
    \<Rightarrow> ('v, 'e) chan_state \<times> ('v, 'e, 'z) heap_scheme \<times> wakes"
where
  "drain_state st h ws =
     (let st1 = st\<lparr>draining := True\<rparr>
      in if demand st1 \<noteq> None then wake_feeders st1 h ws else (st1, h, ws))"

definition drain_at ::
  "(task_id \<Rightarrow> ('v, 'e, 'z) chan_heap_scheme \<Rightarrow> ('v, 'e, 'z) chan_heap_scheme)
    \<Rightarrow> (addr \<Rightarrow> ('v, 'e, 'z) chan_heap_scheme \<Rightarrow> ('v, 'e, 'z) chan_heap_scheme) \<Rightarrow> addr
    \<Rightarrow> ('v, 'e, 'z) chan_heap_scheme \<Rightarrow> ('v, 'e, 'z) chan_heap_scheme"
where
  "drain_at wake call a s =
     (if draining (chan_at s a) then s
      else (let (st, s1, ws) = drain_state (chan_at s a) s wakes_default;
                s2 = wakes_send wake ws (set_chan a st s1)
            in case on_drain (channels s2 a) of Some d \<Rightarrow> call d s2 | None \<Rightarrow> s2))"

definition is_closed :: "('v, 'e, 'z) chan_heap_scheme \<Rightarrow> addr \<Rightarrow> bool" where
  "is_closed s a \<longleftrightarrow> closed (chan_at s a) \<noteq> None"

definition is_draining :: "('v, 'e, 'z) chan_heap_scheme \<Rightarrow> addr \<Rightarrow> bool" where
  "is_draining s a = draining (chan_at s a)"

definition is_asked :: "('v, 'e, 'z) chan_heap_scheme \<Rightarrow> addr \<Rightarrow> bool" where
  "is_asked s a = (case demand (chan_at s a) of Some Asked \<Rightarrow> True | _ \<Rightarrow> False)"

definition chan_len :: "('v, 'e, 'z) chan_heap_scheme \<Rightarrow> addr \<Rightarrow> nat" where
  "chan_len s a = length (buf (chan_at s a))"

definition chan_is_empty :: "('v, 'e, 'z) chan_heap_scheme \<Rightarrow> addr \<Rightarrow> bool" where
  "chan_is_empty s a \<longleftrightarrow> chan_len s a = 0"

definition chan_waiting :: "('v, 'e, 'z) chan_heap_scheme \<Rightarrow> addr \<Rightarrow> nat \<times> nat" where
  "chan_waiting s a =
     (let open = (\<lambda>q. length (filter (\<lambda>w. is_waiting s (w_token w)) q))
      in (open (recvq (chan_at s a)), open (sendq (chan_at s a))))"

definition SHORT :: nat where
  "SHORT = 32"

definition forget_state ::
  "('v, 'e) chan_state \<Rightarrow> addr \<Rightarrow> ('v, 'e, 'z) heap_scheme \<Rightarrow> ('v, 'e) chan_state"
where
  "forget_state st t h =
     (let queued = length (recvq st) + length (sendq st) + length (demandq st)
      in if queued \<le> SHORT
         then st\<lparr>recvq := filter (\<lambda>w. \<not> waiter_is w t) (recvq st),
                 sendq := filter (\<lambda>w. \<not> waiter_is w t) (sendq st),
                 demandq := filter (\<lambda>w. \<not> waiter_is w t) (demandq st)\<rparr>
         else (let st1 = st\<lparr>stale := Suc (stale st)\<rparr>
               in if queued \<le> stale st1 * 2
                  then st1\<lparr>recvq := filter (\<lambda>w. is_waiting h (w_token w)) (recvq st1),
                           sendq := filter (\<lambda>w. is_waiting h (w_token w)) (sendq st1),
                           demandq := filter (\<lambda>w. is_waiting h (w_token w)) (demandq st1),
                           stale := 0\<rparr>
                  else st1))"

definition forget_at ::
  "addr \<Rightarrow> addr \<Rightarrow> ('v, 'e, 'z) chan_heap_scheme \<Rightarrow> ('v, 'e, 'z) chan_heap_scheme"
where
  "forget_at a t s = set_chan a (forget_state (chan_at s a) t s) s"

section \<open>The loops over a queue\<close>

definition claimable :: "('v, 'e, 'z) heap_scheme \<Rightarrow> 'v waiter \<Rightarrow> bool" where
  "claimable h w \<longleftrightarrow> is_waiting h (w_token w) \<and> \<not> is_set h (tok_cancel (tokens h (w_token w)))"

lemma claim_eq: "claim h (w_token w) = (if claimable h w then Some (w_token w) else None)"
  by (simp add: claim_def claimable_def)

lemma claimable_waiting: "claimable h w \<Longrightarrow> is_waiting h (w_token w)"
  by (simp add: claimable_def)

lemma claimable_heap_le_back:
  "heap_le h h' \<Longrightarrow> w_token w < next_token h \<Longrightarrow> claimable h' w \<Longrightarrow> claimable h w"
  using heap_le_claim_back(1) [of h h' "w_token w"] by (simp add: claim_eq split: if_splits)

lemma deliver_None_iff: "deliver q v h ws = None \<longleftrightarrow> (\<forall>w \<in> set q. \<not> claimable h w)"
  by (induction q) (simp_all add: claim_eq)

lemma deliver_SomeD:
  "deliver q v h ws = Some (q', h', ws') \<Longrightarrow>
     \<exists>pre r. q = pre @ r # q' \<and> (\<forall>w \<in> set pre. \<not> claimable h w) \<and> claimable h r \<and>
       (h', ws') = fire (w_token r) (Arm (w_arm r) (Received v)) h ws"
proof (induction q)
  case (Cons r q)
  show ?case
  proof (cases "claimable h r")
    case False
    with Cons obtain pre r' where "q = pre @ r' # q'" "\<forall>w \<in> set pre. \<not> claimable h w"
      "claimable h r'" "(h', ws') = fire (w_token r') (Arm (w_arm r') (Received v)) h ws"
      by (auto simp: claim_eq)
    with False show ?thesis by (intro exI [of _ "r # pre"] exI [of _ r']) auto
  next
    case True
    with Cons.prems show ?thesis by (intro exI [of _ "[]"] exI [of _ r]) (auto simp: claim_eq)
  qed
qed simp

lemma take_senderD:
  assumes "take_sender q h ws = (x, q', h', ws')"
  shows "(\<forall>w \<in> set q. \<not> claimable h w) \<and> x = None \<and> q' = [] \<and> h' = h \<and> ws' = ws \<or>
     (\<exists>pre r. q = pre @ r # q' \<and> (\<forall>w \<in> set pre. \<not> claimable h w) \<and> claimable h r \<and>
       x = w_payload r \<and> (h', ws') = fire (w_token r) (Arm (w_arm r) Sent) h ws)"
  using assms
proof (induction q)
  case (Cons r q)
  show ?case
  proof (cases "claimable h r")
    case False
    with Cons.prems have "take_sender q h ws = (x, q', h', ws')" by (simp add: claim_eq)
    from Cons.IH [OF this] show ?thesis
    proof (elim disjE exE)
      fix pre r' assume "q = pre @ r' # q' \<and> (\<forall>w \<in> set pre. \<not> claimable h w) \<and> claimable h r' \<and>
        x = w_payload r' \<and> (h', ws') = fire (w_token r') (Arm (w_arm r') Sent) h ws"
      with False show ?thesis by (intro disjI2 exI [of _ "r # pre"] exI [of _ r']) simp
    qed (use False in simp)
  next
    case True
    with Cons.prems show ?thesis
      by (intro disjI2 exI [of _ "[]"] exI [of _ r]) (simp add: claim_eq)
  qed
qed simp

lemma fire_waiters_heap_le:
  "heap_le h (fst (fire_waiters out q h ws))"
proof (induction q arbitrary: h ws)
  case (Cons w q)
  show ?case
    using Cons heap_le_trans [OF heap_le_fire [OF claimable_waiting] Cons]
    by (simp add: split_beta claim_eq)
qed simp

lemma fire_waiters_next [sync_frame]:
  "next_token (fst (fire_waiters out q h ws)) = next_token h"
  by (induction q arbitrary: h ws) (auto simp: split_beta sync_simps split: option.splits)

lemma fire_waiters_ended:
  "claim h t = None \<Longrightarrow> claim (fst (fire_waiters out q h ws)) t = None"
  by (induction q arbitrary: h ws) (auto simp: split_beta sync_simps split: option.splits)

text \<open>A waiter that could be claimed when the loop began has been fired, with its own arm.\<close>

lemma fire_waiters_ends:
  assumes "w \<in> set q"
  shows "claim (fst (fire_waiters out q h ws)) (w_token w) = None"
  using assms
proof (induction q arbitrary: h ws)
  case (Cons x q)
  then show ?case
    by (cases "w = x") (auto simp: split_beta sync_simps fire_waiters_ended split: option.splits)
qed simp

section \<open>Case analysis of the operations\<close>

lemma send_cases:
  assumes "send st v h ws = (r, st', h', ws')"
  obtains (closed) c where "closed st = Some c" "r = TS_Closed c" "st' = st" "h' = h" "ws' = ws"
  | (handed) pre w q where "closed st = None" "recvq st = pre @ w # q" "claimable h w"
      "\<forall>x \<in> set pre. \<not> claimable h x" "r = TS_Sent" "st' = st\<lparr>recvq := q, asked := (q \<noteq> [])\<rparr>"
      "(h', ws') = fire (w_token w) (Arm (w_arm w) (Received v)) h ws"
  | (buffered) "closed st = None" "\<forall>x \<in> set (recvq st). \<not> claimable h x"
      "length (buf st) < capacity st" "r = TS_Sent"
      "st' = st\<lparr>recvq := [], asked := False, buf := buf st @ [v]\<rparr>" "h' = h" "ws' = ws"
  | (full) "closed st = None" "\<forall>x \<in> set (recvq st). \<not> claimable h x"
      "capacity st \<le> length (buf st)" "r = TS_Full v"
      "st' = st\<lparr>recvq := [], asked := False\<rparr>" "h' = h" "ws' = ws"
proof (cases "closed st")
  case (Some c)
  with assms have "r = TS_Closed c" "st' = st" "h' = h" "ws' = ws" by (simp_all add: send_def)
  with Some show ?thesis by (rule that(1))
next
  case None
  show ?thesis
  proof (cases "deliver (recvq st) v h ws")
    case (Some x)
    obtain q h1 ws1 where x: "x = (q, h1, ws1)" by (metis prod_cases3)
    from deliver_SomeD [OF Some [unfolded x]] obtain pre w where
      w: "recvq st = pre @ w # q" "\<forall>x \<in> set pre. \<not> claimable h x" "claimable h w"
        "(h1, ws1) = fire (w_token w) (Arm (w_arm w) (Received v)) h ws" by blast
    from None Some x assms have "r = TS_Sent" "st' = st\<lparr>recvq := q, asked := (q \<noteq> [])\<rparr>"
      "h' = h1" "ws' = ws1" by (simp_all add: send_def)
    with that(2) [OF None w(1,3,2)] w(4) show ?thesis by simp
  next
    case no: None
    have "\<forall>x \<in> set (recvq st). \<not> claimable h x" using no by (simp add: deliver_None_iff)
    note idle = None this
    show ?thesis
    proof (cases "length (buf st) < capacity st")
      case True
      with None no assms that(3) [OF idle True] show ?thesis by (simp add: send_def)
    next
      case False
      with None no assms that(4) [OF idle] show ?thesis by (simp add: send_def not_less)
    qed
  qed
qed

lemma receive_cases:
  assumes "receive st h ws = (r, st', h', ws')" and "\<forall>w \<in> set (sendq st). w_payload w \<noteq> None"
  obtains (refilled) v rest pre w q y where "buf st = v # rest" "sendq st = pre @ w # q"
      "claimable h w" "\<forall>x \<in> set pre. \<not> claimable h x" "w_payload w = Some y" "r = TR_Value v"
      "st' = st\<lparr>sendq := q, buf := rest @ [y]\<rparr>"
      "(h', ws') = fire (w_token w) (Arm (w_arm w) Sent) h ws"
  | (buffered) v rest where "buf st = v # rest" "\<forall>x \<in> set (sendq st). \<not> claimable h x"
      "r = TR_Value v"
      "(st', h', ws') = (let st1 = st\<lparr>buf := rest, sendq := []\<rparr> in
         if demand st1 \<noteq> None then wake_feeders st1 h ws else (st1, h, ws))"
  | (direct) pre w q y where "buf st = []" "sendq st = pre @ w # q"
      "claimable h w" "\<forall>x \<in> set pre. \<not> claimable h x" "w_payload w = Some y" "r = TR_Value y"
      "st' = st\<lparr>sendq := q\<rparr>" "(h', ws') = fire (w_token w) (Arm (w_arm w) Sent) h ws"
  | (closed) c where "buf st = []" "\<forall>x \<in> set (sendq st). \<not> claimable h x" "closed st = Some c"
      "r = TR_Closed c" "st' = st\<lparr>sendq := []\<rparr>" "h' = h" "ws' = ws"
  | (empty) "buf st = []" "\<forall>x \<in> set (sendq st). \<not> claimable h x" "closed st = None"
      "r = TR_Empty" "(st', h', ws') = wake_feeders (st\<lparr>sendq := [], asked := True\<rparr>) h ws"
proof -
  obtain x q h1 ws1 where ts: "take_sender (sendq st) h ws = (x, q, h1, ws1)" by (metis prod_cases4)
  from take_senderD [OF ts] consider
    (none) "\<forall>x \<in> set (sendq st). \<not> claimable h x" "x = None" "q = []" "h1 = h" "ws1 = ws"
  | (some) pre w where "sendq st = pre @ w # q" "\<forall>x \<in> set pre. \<not> claimable h x" "claimable h w"
      "x = w_payload w" "(h1, ws1) = fire (w_token w) (Arm (w_arm w) Sent) h ws" by blast
  then show ?thesis
  proof cases
    case none
    show ?thesis
    proof (cases "buf st")
      case (Cons v rest)
      from assms(1) ts none Cons have "r = TR_Value v"
        "(st', h', ws') = (let st1 = st\<lparr>buf := rest, sendq := []\<rparr> in
         if demand st1 \<noteq> None then wake_feeders st1 h ws else (st1, h, ws))"
        by (auto simp: receive_def take_from_sender_def wake_feeders_def Let_def split: if_splits)
      with buffered Cons none(1) show ?thesis by blast
    next
      case Nil
      show ?thesis
      proof (cases "closed st")
        case None
        from assms(1) ts none Nil None have "r = TR_Empty"
          "(st', h', ws') = wake_feeders (st\<lparr>sendq := [], asked := True\<rparr>) h ws"
          by (simp_all add: receive_def take_from_sender_def)
        with empty Nil none(1) None show ?thesis by blast
      next
        case (Some c)
        from assms(1) ts none Nil Some have "r = TR_Closed c" "st' = st\<lparr>sendq := []\<rparr>" "h' = h" "ws' = ws"
          by (simp_all add: receive_def take_from_sender_def)
        with closed Nil none(1) Some show ?thesis by blast
      qed
    qed
  next
    case some
    from some(1) assms(2) obtain y where y: "w_payload w = Some y" by auto
    show ?thesis
    proof (cases "buf st")
      case (Cons v rest)
      from assms(1) ts some(4) y Cons
      have "r = TR_Value v" "st' = st\<lparr>sendq := q, buf := rest @ [y]\<rparr>" "h' = h1" "ws' = ws1"
        by (simp_all add: receive_def take_from_sender_def)
      with refilled Cons some y show ?thesis by blast
    next
      case Nil
      from assms(1) ts some(4) y Nil
      have "r = TR_Value y" "st' = st\<lparr>sendq := q\<rparr>" "h' = h1" "ws' = ws1"
        by (simp_all add: receive_def take_from_sender_def)
      with direct Nil some y show ?thesis by blast
    qed
  qed
qed

section \<open>The invariant of a channel\<close>

text \<open>
  What the comments on the fields of \<^verbatim>\<open>State\<close> say, and what holds besides: the buffer keeps
  to its capacity; a receiver is queued only while the buffer is empty, a sender only while
  it is full; a closed channel has no queue; a queued sender has its value; and no receiver
  and sender of two different waits that could both be completed are queued together.
\<close>

definition chan_inv :: "('v, 'e, 'z) heap_scheme \<Rightarrow> ('v, 'e) chan_state \<Rightarrow> bool" where
  "chan_inv h st \<longleftrightarrow>
     length (buf st) \<le> capacity st \<and>
     (recvq st \<noteq> [] \<longrightarrow> buf st = []) \<and>
     (sendq st \<noteq> [] \<longrightarrow> length (buf st) = capacity st) \<and>
     (closed st \<noteq> None \<longrightarrow> recvq st = [] \<and> sendq st = [] \<and> demandq st = []) \<and>
     (\<forall>w \<in> set (sendq st). w_payload w \<noteq> None) \<and>
     (\<forall>w \<in> set (recvq st @ sendq st @ demandq st). w_token w < next_token h) \<and>
     (\<forall>r \<in> set (recvq st). \<forall>s \<in> set (sendq st).
        claimable h r \<and> claimable h s \<longrightarrow> w_token r = w_token s)"

text \<open>The invariant of the feeders' queue. A queued receiver whose wait is open asks, unless its wait
  also sends here (a select that receives and sends on one channel: its own send, which found no
  room, took the question back). A feeder whose wait is open is queued only while it may not work
  ahead, and while no other wait's receiver waits that does not itself send here.\<close>

definition also_sends :: "('v, 'e) chan_state \<Rightarrow> 'v waiter \<Rightarrow> bool" where
  "also_sends st r \<longleftrightarrow> (\<exists>s \<in> set (sendq st). w_token s = w_token r)"

definition room_ahead :: "('v, 'e) chan_state \<Rightarrow> bool" where
  "room_ahead st \<longleftrightarrow> length (buf st) < (if draining st then capacity st else ahead st)"

definition demand_inv :: "('v, 'e, 'z) heap_scheme \<Rightarrow> ('v, 'e) chan_state \<Rightarrow> bool" where
  "demand_inv h st \<longleftrightarrow>
     (\<forall>w \<in> set (recvq st @ demandq st). w_token w < next_token h) \<and>
     (\<forall>r \<in> set (recvq st). claimable h r \<longrightarrow> asked st \<or> also_sends st r) \<and>
     (\<forall>w \<in> set (demandq st). claimable h w \<longrightarrow> \<not> room_ahead st \<and>
       (\<forall>r \<in> set (recvq st). claimable h r \<longrightarrow> also_sends st r \<or> w_token r = w_token w))"

lemma chan_inv_heap_le:
  assumes "chan_inv h st" and "heap_le h h'"
  shows "chan_inv h' st"
proof -
  have "next_token h \<le> next_token h'" using assms(2) by (simp add: heap_le_def)
  moreover have "claimable h w"
    if "claimable h' w" "w \<in> set (recvq st @ sendq st @ demandq st)" for w
    using that assms(1) by (auto simp: chan_inv_def intro: claimable_heap_le_back [OF assms(2)])
  moreover have "\<forall>w \<in> set (recvq st @ sendq st @ demandq st). w_token w < next_token h"
    using assms(1) by (simp add: chan_inv_def)
  ultimately have "\<forall>w \<in> set (recvq st @ sendq st @ demandq st).
      w_token w < next_token h' \<and> (claimable h' w \<longrightarrow> claimable h w)"
    by (meson less_le_trans)
  then show ?thesis
    using assms(1) unfolding chan_inv_def by simp
qed

lemma chan_inv_payloads: "chan_inv h st \<Longrightarrow> \<forall>w \<in> set (sendq st). w_payload w \<noteq> None"
  by (simp add: chan_inv_def)

lemma heap_le_fired:
  assumes "(h', ws') = fire (w_token w) f h ws" and "claimable h w"
  shows "heap_le h h'"
  using heap_le_fire [OF claimable_waiting [OF assms(2)], of f ws] assms(1) by (metis fst_conv)

lemma heap_le_wake_feeders:
  assumes "(st', h', ws') = wake_feeders st h ws"
  shows "heap_le h h'"
  using fire_waiters_heap_le [of h Asked "demandq st" ws] assms
  by (metis fst_conv prod.inject wake_feeders_def)

lemma send_heap_le: "send st v h ws = (r, st', h', ws') \<Longrightarrow> heap_le h h'"
  by (erule send_cases) (auto intro: heap_le_fired)

lemma receive_heap_le:
  assumes "receive st h ws = (r, st', h', ws')" and "\<forall>w \<in> set (sendq st). w_payload w \<noteq> None"
  shows "heap_le h h'"
  using assms
  by (cases rule: receive_cases)
    (auto simp: Let_def split: if_splits intro: heap_le_fired heap_le_wake_feeders)

text \<open>An operation that only takes waiters off the queues and moves the heap on keeps the
  invariant if the buffer still fits the queues that are left.\<close>

lemma chan_inv_shrink:
  assumes "chan_inv h st" and "heap_le h h'"
    and "set (recvq st') \<subseteq> set (recvq st)" and "set (sendq st') \<subseteq> set (sendq st)"
    and "set (demandq st') \<subseteq> set (demandq st)" and "length (buf st') \<le> capacity st'"
    and "recvq st' \<noteq> [] \<Longrightarrow> buf st' = []" and "sendq st' \<noteq> [] \<Longrightarrow> length (buf st') = capacity st'"
    and "closed st' \<noteq> None \<Longrightarrow> recvq st' = [] \<and> sendq st' = [] \<and> demandq st' = []"
  shows "chan_inv h' st'"
proof -
  have "chan_inv h' st" using assms(1,2) by (rule chan_inv_heap_le)
  then have "(\<forall>w \<in> set (recvq st @ sendq st @ demandq st). w_token w < next_token h') \<and>
      (\<forall>w \<in> set (sendq st). w_payload w \<noteq> None) \<and>
      (\<forall>r \<in> set (recvq st). \<forall>s \<in> set (sendq st).
        claimable h' r \<and> claimable h' s \<longrightarrow> w_token r = w_token s)"
    unfolding chan_inv_def by blast
  then have "(\<forall>w \<in> set (recvq st' @ sendq st' @ demandq st'). w_token w < next_token h') \<and>
      (\<forall>w \<in> set (sendq st'). w_payload w \<noteq> None) \<and>
      (\<forall>r \<in> set (recvq st'). \<forall>s \<in> set (sendq st').
        claimable h' r \<and> claimable h' s \<longrightarrow> w_token r = w_token s)"
    using assms(3,4,5) unfolding set_append by blast
  then show ?thesis using assms(6-9) unfolding chan_inv_def by simp
qed

lemma wake_feeders_sel [sync_simps]:
  assumes "(st', h', ws') = wake_feeders st h ws"
  shows "st' = st\<lparr>demandq := []\<rparr>"
  using assms by (simp add: wake_feeders_def)

lemma chan_inv_send [chan_inv_intros]:
  assumes "chan_inv h st" and "send st v h ws = (r, st', h', ws')"
  shows "chan_inv h' st'"
proof -
  note le = send_heap_le [OF assms(2)]
  from assms(2) show ?thesis
  proof (cases rule: send_cases)
    case closed
    with assms(1) show ?thesis by simp
  next
    case (handed pre w q)
    with assms(1) show ?thesis
      by (intro chan_inv_shrink [OF assms(1) le]) (auto simp: chan_inv_def)
  next
    case buffered
    with assms(1) show ?thesis
      by (intro chan_inv_shrink [OF assms(1) le]) (auto simp: chan_inv_def)
  next
    case full
    with assms(1) show ?thesis
      by (intro chan_inv_shrink [OF assms(1) le]) (auto simp: chan_inv_def)
  qed
qed

lemma chan_inv_receive [chan_inv_intros]:
  assumes "chan_inv h st" and "receive st h ws = (r, st', h', ws')"
  shows "chan_inv h' st'"
proof -
  note pay = chan_inv_payloads [OF assms(1)]
  note le = receive_heap_le [OF assms(2) pay]
  from assms(2) pay show ?thesis
  proof (cases rule: receive_cases)
    case (refilled v rest pre w q y)
    have "recvq st = []" "length (v # rest) = capacity st" "closed st = None"
      using refilled(1,2) assms(1) by (auto simp: chan_inv_def)
    with refilled(2,7) show ?thesis
      by (intro chan_inv_shrink [OF assms(1) le]) auto
  next
    case (buffered v rest)
    then have st': "recvq st' = recvq st" "sendq st' = []" "buf st' = rest"
      "set (demandq st') \<subseteq> set (demandq st)" "closed st' = closed st" "capacity st' = capacity st"
      by (auto simp: Let_def wake_feeders_def split: if_splits)
    have "recvq st = []" "length (v # rest) \<le> capacity st" "closed st \<noteq> None \<Longrightarrow> demandq st = []"
      using buffered(1) assms(1) by (auto simp: chan_inv_def)
    with st' show ?thesis
      by (intro chan_inv_shrink [OF assms(1) le]) simp_all
  next
    case (direct pre w q y)
    with assms(1) show ?thesis
      by (intro chan_inv_shrink [OF assms(1) le]) (auto simp: chan_inv_def)
  next
    case (closed c)
    with assms(1) show ?thesis
      by (intro chan_inv_shrink [OF assms(1) le]) (auto simp: chan_inv_def)
  next
    case empty
    then have "st' = st\<lparr>sendq := [], asked := True, demandq := []\<rparr>"
      by (simp add: wake_feeders_def)
    with empty assms(1) show ?thesis
      by (intro chan_inv_shrink [OF assms(1) le]) (auto simp: chan_inv_def)
  qed
qed

lemma close_heap_le: "close_state st c h ws = (r, st', h', ws') \<Longrightarrow> heap_le h h'"
  using fire_waiters_heap_le [of h "Closed c" "sendq st @ recvq st @ demandq st" ws]
  by (auto simp: close_state_def split_beta Let_def split: if_splits)

lemma chan_inv_close [chan_inv_intros]:
  assumes "chan_inv h st" and "close_state st c h ws = (r, st', h', ws')"
  shows "chan_inv h' st'"
  using assms by (intro chan_inv_shrink [OF assms(1) close_heap_le [OF assms(2)]])
    (auto simp: close_state_def chan_inv_def split_beta Let_def split: if_splits)

lemma drain_heap_le: "drain_state st h ws = (st', h', ws') \<Longrightarrow> heap_le h h'"
  by (auto simp: drain_state_def Let_def split: if_splits intro: heap_le_wake_feeders [OF sym])

lemma chan_inv_drain [chan_inv_intros]:
  assumes "chan_inv h st" and "drain_state st h ws = (st', h', ws')"
  shows "chan_inv h' st'"
  using assms by (intro chan_inv_shrink [OF assms(1) drain_heap_le [OF assms(2)]])
    (auto simp: drain_state_def chan_inv_def wake_feeders_def Let_def split: if_splits)

lemma filter_neq_Nil: "filter P xs \<noteq> [] \<Longrightarrow> xs \<noteq> []"
  by auto

lemma chan_inv_forget [chan_inv_intros]:
  assumes "chan_inv h st"
  shows "chan_inv h (forget_state st t h)"
  using assms by (intro chan_inv_shrink [OF assms heap_le_refl])
    (auto simp: forget_state_def chan_inv_def Let_def split: if_splits dest!: filter_neq_Nil)

section \<open>Waiters that join a queue\<close>

text \<open>What \<^verbatim>\<open>park\<close> does to the queues once no arm could be completed: under the same lock, a
  receive that found nothing joins the receivers, a send that found no room the senders, a
  feeder nobody asks the feeders.\<close>

definition push_recv :: "'v waiter \<Rightarrow> ('v, 'e) chan_state \<Rightarrow> ('v, 'e) chan_state" where
  "push_recv w st = st\<lparr>recvq := recvq st @ [w]\<rparr>"

definition push_send :: "'v waiter \<Rightarrow> ('v, 'e) chan_state \<Rightarrow> ('v, 'e) chan_state" where
  "push_send w st = st\<lparr>sendq := sendq st @ [w]\<rparr>"

definition push_demand :: "'v waiter \<Rightarrow> ('v, 'e) chan_state \<Rightarrow> ('v, 'e) chan_state" where
  "push_demand w st = st\<lparr>demandq := demandq st @ [w]\<rparr>"

lemma chan_inv_push_recv [chan_inv_intros]:
  assumes "chan_inv h st" and "buf st = []" and "closed st = None" and "w_token w < next_token h"
    and "\<forall>s \<in> set (sendq st). claimable h s \<longrightarrow> w_token s = w_token w"
  shows "chan_inv h (push_recv w st)"
  using assms by (simp add: chan_inv_def push_recv_def ball_Un)

lemma chan_inv_push_send [chan_inv_intros]:
  assumes "chan_inv h st" and "length (buf st) = capacity st" and "closed st = None"
    and "w_token w < next_token h" and "w_payload w \<noteq> None"
    and "\<forall>r \<in> set (recvq st). claimable h r \<longrightarrow> w_token r = w_token w"
  shows "chan_inv h (push_send w st)"
  using assms by (simp add: chan_inv_def push_send_def ball_Un)

lemma chan_inv_push_demand [chan_inv_intros]:
  assumes "chan_inv h st" and "closed st = None" and "w_token w < next_token h"
  shows "chan_inv h (push_demand w st)"
  using assms by (simp add: chan_inv_def push_demand_def ball_Un)

lemma receive_EmptyD:
  assumes "receive st h ws = (TR_Empty, st', h', ws')" and "\<forall>w \<in> set (sendq st). w_payload w \<noteq> None"
  shows "buf st = []" "closed st = None" "st' = st\<lparr>sendq := [], asked := True, demandq := []\<rparr>"
  using assms by (cases rule: receive_cases; auto simp: wake_feeders_def)+

lemma send_FullD:
  assumes "send st v h ws = (TS_Full v', st', h', ws')"
  shows "v' = v" "closed st = None" "capacity st \<le> length (buf st)" "h' = h" "ws' = ws"
    "st' = st\<lparr>recvq := [], asked := False\<rparr>"
  using assms by (cases rule: send_cases; auto)+

section \<open>The feeders' queue\<close>

text \<open>An operation that takes waiters off the queues keeps the invariant if a receiver that is left keeps
  the senders of its wait, if the question stands where receivers are left, and if it gives the feeders
  that are left no room.\<close>

lemma demand_inv_keep:
  assumes "demand_inv h st" and "heap_le h h'"
    and "set (recvq st') \<subseteq> set (recvq st)" and "set (demandq st') \<subseteq> set (demandq st)"
    and keeps: "\<And>r s. r \<in> set (recvq st') \<Longrightarrow> claimable h' r \<Longrightarrow> s \<in> set (sendq st) \<Longrightarrow>
      w_token s = w_token r \<Longrightarrow> s \<in> set (sendq st')"
    and "recvq st' \<noteq> [] \<Longrightarrow> asked st \<Longrightarrow> asked st'"
    and "demandq st' \<noteq> [] \<Longrightarrow> \<not> room_ahead st \<Longrightarrow> \<not> room_ahead st'"
  shows "demand_inv h' st'"
proof -
  have below: "\<forall>w \<in> set (recvq st @ demandq st). w_token w < next_token h" using assms(1) by (simp add: demand_inv_def)
  have was: "claimable h w" if "w \<in> set (recvq st') \<union> set (demandq st')" "claimable h' w" for w
    using that below assms(3,4) claimable_heap_le_back [OF assms(2)] by auto
  have too: "also_sends st' r" if "r \<in> set (recvq st')" "claimable h' r" "also_sends st r" for r
    using that keeps unfolding also_sends_def by blast
  have "w_token w < next_token h'" if "w \<in> set (recvq st' @ demandq st')" for w
  proof -
    have "w \<in> set (recvq st @ demandq st)" using that assms(3,4) by auto
    moreover have "next_token h \<le> next_token h'" using assms(2) by (simp add: heap_le_def)
    ultimately show ?thesis using below less_le_trans by blast
  qed
  moreover have "asked st' \<or> also_sends st' r" if r: "r \<in> set (recvq st')" "claimable h' r" for r
  proof -
    have "asked st \<or> also_sends st r" using assms(1,3) was r by (auto simp: demand_inv_def)
    moreover have "recvq st' \<noteq> []" using r(1) by auto
    ultimately show ?thesis using too [OF r] assms(6) by blast
  qed
  moreover have "\<not> room_ahead st' \<and>
      (\<forall>r \<in> set (recvq st'). claimable h' r \<longrightarrow> also_sends st' r \<or> w_token r = w_token w)"
    if w: "w \<in> set (demandq st')" "claimable h' w" for w
  proof -
    have "\<not> room_ahead st \<and> (\<forall>r \<in> set (recvq st). claimable h r \<longrightarrow> also_sends st r \<or> w_token r = w_token w)"
      using assms(1,4) was [of w] w unfolding demand_inv_def by blast
    moreover have "demandq st' \<noteq> []" using w(1) by auto
    ultimately show ?thesis using too was assms(3,7) by blast
  qed
  ultimately show ?thesis by (simp add: demand_inv_def)
qed

lemma demand_inv_heap_le: "demand_inv h st \<Longrightarrow> heap_le h h' \<Longrightarrow> demand_inv h' st"
  by (erule (1) demand_inv_keep) simp_all

lemma demand_inv_send:
  assumes "demand_inv h st" and "send st v h ws = (r, st', h', ws')"
  shows "demand_inv h' st'"
proof -
  note keep = demand_inv_keep [OF assms(1) send_heap_le [OF assms(2)]]
  from assms(2) show ?thesis
  proof (cases rule: send_cases)
    case closed
    then show ?thesis using assms(1) by simp
  next
    case (handed pre w q)
    then show ?thesis by (intro keep) (auto simp: room_ahead_def)
  next
    case buffered
    then show ?thesis by (intro keep) (auto simp: room_ahead_def)
  next
    case full
    then show ?thesis by (intro keep) (auto simp: room_ahead_def)
  qed
qed

lemma demand_same [simp]:
  "demand (st\<lparr>sendq := q\<rparr>) = demand st" "demand (st\<lparr>recvq := q\<rparr>) = demand st"
  "demand (st\<lparr>demandq := q\<rparr>) = demand st" "demand (st\<lparr>stale := n\<rparr>) = demand st"
  by (simp_all add: demand_def Let_def split: option.splits)

lemma demand_None: "demand st = None \<Longrightarrow> closed st = None \<and> \<not> asked st \<and> \<not> room_ahead st"
  by (auto simp: demand_def room_ahead_def Let_def split: option.splits if_splits)

text \<open>A sender that a receive passes over or completes is not open any more.\<close>

lemma claimable_same_token: "w_token w = w_token w' \<Longrightarrow> claimable h w = claimable h w'"
  by (simp add: claimable_def)

lemma demand_inv_receive:
  assumes "demand_inv h st" and "receive st h ws = (r, st', h', ws')"
    and "chan_inv h st"
  shows "demand_inv h' st'"
proof -
  note pay = chan_inv_payloads [OF assms(3)]
  note le = receive_heap_le [OF assms(2) pay]
  have closed_sender: "\<not> claimable h' r" if "s \<in> set (sendq st)" "\<not> claimable h s" "w_token s = w_token r" for r s
  proof -
    have "w_token s < next_token h" using that(1) assms(3) by (simp add: chan_inv_def)
    then show ?thesis using that(2,3) claimable_heap_le_back [OF le, of s] claimable_same_token [of r s h'] by auto
  qed
  have fired_sender: "\<not> claimable h' r"
    if "(h', ws') = fire (w_token w) (Arm (w_arm w) Sent) h ws" "w_token w = w_token r" for r w
  proof -
    have "h' = fst (fire (w_token w) (Arm (w_arm w) Sent) h ws)" using that(1) by (metis fst_conv)
    then have "claim h' (w_token r) = None" using that(2) by (simp add: claim_fire)
    then show ?thesis by (simp add: claim_eq split: if_splits)
  qed
  from assms(2) pay show ?thesis
  proof (cases rule: receive_cases)
    case (refilled v rest pre w q y)
    show ?thesis
      by (rule demand_inv_keep [OF assms(1) le])
        (use refilled closed_sender fired_sender [OF refilled(8)] in \<open>auto simp: room_ahead_def\<close>)
  next
    case (buffered v rest)
    let ?st1 = "st\<lparr>buf := rest, sendq := []\<rparr>"
    have "st' = ?st1 \<and> demand ?st1 = None \<or> st' = ?st1\<lparr>demandq := []\<rparr>"
      using buffered(4) by (auto simp: wake_feeders_def Let_def split: if_splits)
    then show ?thesis
      using demand_None [of ?st1]
      by (elim disjE; intro demand_inv_keep [OF assms(1) le])
        (use buffered closed_sender in \<open>auto simp: room_ahead_def\<close>)
  next
    case (direct pre w q y)
    show ?thesis
      by (rule demand_inv_keep [OF assms(1) le])
        (use direct closed_sender fired_sender [OF direct(8)] in \<open>auto simp: room_ahead_def\<close>)
  next
    case (closed c)
    show ?thesis
      by (rule demand_inv_keep [OF assms(1) le])
        (use closed closed_sender in \<open>auto simp: room_ahead_def\<close>)
  next
    case empty
    then have "st' = st\<lparr>sendq := [], asked := True, demandq := []\<rparr>" by (simp add: wake_feeders_def)
    then show ?thesis
      by (intro demand_inv_keep [OF assms(1) le])
        (use empty closed_sender in \<open>auto simp: room_ahead_def\<close>)
  qed
qed

lemma demand_inv_close:
  assumes "demand_inv h st" and "close_state st c h ws = (r, st', h', ws')"
  shows "demand_inv h' st'"
  using demand_inv_heap_le [OF assms(1) close_heap_le [OF assms(2)]] assms(2)
  by (auto simp: close_state_def demand_inv_def split_beta Let_def split: if_splits)

lemma demand_inv_drain:
  assumes "demand_inv h st" and "drain_state st h ws = (st', h', ws')"
  shows "demand_inv h' st'"
proof -
  have "st' = st\<lparr>draining := True\<rparr> \<and> \<not> room_ahead (st\<lparr>draining := True\<rparr>) \<or> st' = st\<lparr>draining := True, demandq := []\<rparr>"
    using assms(2) demand_None [of "st\<lparr>draining := True\<rparr>"] by (auto simp: drain_state_def wake_feeders_def Let_def split: if_splits)
  then show ?thesis
    by (intro demand_inv_keep [OF assms(1) drain_heap_le [OF assms(2)]]) (auto simp: room_ahead_def)
qed

lemma demand_inv_forget:
  assumes "demand_inv h st"
  shows "demand_inv h (forget_state st t h)"
  using assms
  by (rule demand_inv_keep [OF _ heap_le_refl])
    (auto simp: forget_state_def room_ahead_def waiter_is_def Let_def split: if_splits dest!: filter_neq_Nil)

section \<open>First in, first out\<close>

text \<open>
  The contract of a queue whose steps accept and deliver values: what was in it and was
  accepted is, in this order, what was delivered and is still in it.
\<close>

inductive fifo_run ::
  "('s \<Rightarrow> 'v list \<Rightarrow> 'v list \<Rightarrow> 's \<Rightarrow> bool) \<Rightarrow> 's \<Rightarrow> 'v list \<Rightarrow> 'v list \<Rightarrow> 's \<Rightarrow> bool"
  for step :: "'s \<Rightarrow> 'v list \<Rightarrow> 'v list \<Rightarrow> 's \<Rightarrow> bool"
where
  run_start: "fifo_run step s [] [] s"
| run_step: "fifo_run step s acc del s1 \<Longrightarrow> step s1 a d s2 \<Longrightarrow> fifo_run step s (acc @ a) (del @ d) s2"

locale fifo_queue =
  fixes step :: "'s \<Rightarrow> 'v list \<Rightarrow> 'v list \<Rightarrow> 's \<Rightarrow> bool"
    and content :: "'s \<Rightarrow> 'v list"
    and inv :: "'s \<Rightarrow> bool"
  assumes step_inv: "inv s \<Longrightarrow> step s a d s' \<Longrightarrow> inv s'"
    and step_conserves: "inv s \<Longrightarrow> step s a d s' \<Longrightarrow> content s @ a = d @ content s'"
begin

lemma run_inv: "fifo_run step s acc del s' \<Longrightarrow> inv s \<Longrightarrow> inv s'"
  by (induction rule: fifo_run.induct) (auto intro: step_inv)

lemma run_conserves:
  assumes "fifo_run step s acc del s'" and "inv s"
  shows "content s @ acc = del @ content s'"
  using assms
proof (induction rule: fifo_run.induct)
  case (run_step s acc del s1 a d s2)
  have "content s @ acc @ a = (del @ content s1) @ a"
    using run_step.IH run_step.prems by (simp flip: append_assoc)
  also have "\<dots> = del @ d @ content s2"
    using step_conserves [OF run_inv [OF run_step.hyps(1) run_step.prems] run_step.hyps(2)] by simp
  finally show ?case by simp
qed simp

end

text \<open>
  What the parked tasks of a queue saw happen between two heaps: the values that parked
  receivers were handed, and the values of parked senders whose send was completed.
\<close>

definition got :: "'v waiter list \<Rightarrow> ('v, 'e, 'z) heap_scheme \<Rightarrow> ('v, 'e, 'z) heap_scheme \<Rightarrow> 'v list" where
  "got q h h' = concat (map (\<lambda>w.
     if is_waiting h (w_token w)
     then (case tok_state (tokens h' (w_token w)) of
             Fired (Arm i (Received v)) \<Rightarrow> if i = w_arm w then [v] else []
           | _ \<Rightarrow> [])
     else []) q)"

definition gave :: "'v waiter list \<Rightarrow> ('v, 'e, 'z) heap_scheme \<Rightarrow> ('v, 'e, 'z) heap_scheme \<Rightarrow> 'v list" where
  "gave q h h' = concat (map (\<lambda>w.
     if is_waiting h (w_token w)
     then (case tok_state (tokens h' (w_token w)) of
             Fired (Arm i Sent) \<Rightarrow>
               if i = w_arm w then (case w_payload w of Some v \<Rightarrow> [v] | None \<Rightarrow> []) else []
           | _ \<Rightarrow> [])
     else []) q)"

text \<open>
  The arms of one wait that are on this channel. \<^verbatim>\<open>park\<close> holds the channel's lock while it tries
  them, in the order it comes to them, and while it puts the task on the queues; in between it may try
  arms elsewhere, which completes none of this channel's arms. \<open>failed xs s acc del s'\<close>: the arms \<open>xs\<close>
  were tried and none could be completed.
\<close>

datatype 'v chan_arm = CA_Recv | CA_Send 'v | CA_Demand

inductive failed ::
  "(nat \<times> 'v chan_arm) list \<Rightarrow> ('v, 'e) chan_state \<times> ('v, 'e) heap \<Rightarrow> 'v list \<Rightarrow> 'v list
    \<Rightarrow> ('v, 'e) chan_state \<times> ('v, 'e) heap \<Rightarrow> bool"
where
  failed_none: "failed [] s [] [] s"
| failed_recv: "failed xs s acc del (st, h) \<Longrightarrow> receive st h ws = (TR_Empty, st', h', ws') \<Longrightarrow>
     failed (xs @ [(i, CA_Recv)]) s (acc @ gave (sendq st) h h') (del @ got (recvq st) h h') (st', h')"
| failed_send: "failed xs s acc del (st, h) \<Longrightarrow> send st v h ws = (TS_Full v1, st', h', ws') \<Longrightarrow>
     failed (xs @ [(i, CA_Send v1)]) s (acc @ gave (sendq st) h h') (del @ got (recvq st) h h') (st', h')"
| failed_demand: "failed xs s acc del (st, h) \<Longrightarrow> demand st = None \<Longrightarrow>
     failed (xs @ [(i, CA_Demand)]) s acc del (st, h)"
| failed_other: "failed xs s acc del (st, h) \<Longrightarrow> heap_le h h' \<Longrightarrow> gave (sendq st) h h' = [] \<Longrightarrow>
     got (recvq st) h h' = [] \<Longrightarrow> failed xs s acc del (st, h')"

fun push_arm :: "addr \<Rightarrow> nat \<times> 'v chan_arm \<Rightarrow> ('v, 'e) chan_state \<Rightarrow> ('v, 'e) chan_state" where
  "push_arm t (i, CA_Recv) st = push_recv \<lparr>w_token = t, w_arm = i, w_payload = None\<rparr> st"
| "push_arm t (i, CA_Send v) st = push_send \<lparr>w_token = t, w_arm = i, w_payload = Some v\<rparr> st"
| "push_arm t (i, CA_Demand) st = push_demand \<lparr>w_token = t, w_arm = i, w_payload = None\<rparr> st"

text \<open>
  A step of one channel: one of its operations, a task that parks on it with any arms (none of
  which could be completed, and which then join the queues in the order of their numbers), a
  waiter that leaves, or any step of the rest of the program, which may end waits and set
  cancel flags but completes none of this channel's arms. The two lists are the values the
  senders saw accepted and the values the receivers saw delivered.
\<close>

inductive chan_step ::
  "('v, 'e) chan_state \<times> ('v, 'e) heap \<Rightarrow> 'v list \<Rightarrow> 'v list
    \<Rightarrow> ('v, 'e) chan_state \<times> ('v, 'e) heap \<Rightarrow> bool"
where
  cs_send: "send st v h ws = (r, st', h', ws') \<Longrightarrow>
     chan_step (st, h) ((if r = TS_Sent then [v] else []) @ gave (sendq st) h h')
       (got (recvq st) h h') (st', h')"
| cs_receive: "receive st h ws = (r, st', h', ws') \<Longrightarrow>
     chan_step (st, h) (gave (sendq st) h h')
       ((case r of TR_Value x \<Rightarrow> [x] | _ \<Rightarrow> []) @ got (recvq st) h h') (st', h')"
| cs_close: "close_state st c h ws = (r, st', h', ws') \<Longrightarrow>
     chan_step (st, h) (gave (sendq st) h h') (got (recvq st) h h') (st', h')"
| cs_drain: "drain_state st h ws = (st', h', ws') \<Longrightarrow>
     chan_step (st, h) (gave (sendq st) h h') (got (recvq st) h h') (st', h')"
| cs_park: "failed xs s acc del (st1, h1) \<Longrightarrow> token_new k c h1 = (t, h') \<Longrightarrow>
     set ys = set xs \<Longrightarrow> distinct (map fst ys) \<Longrightarrow>
     chan_step s acc del (fold (push_arm t) ys st1, h')"
| cs_forget: "chan_step (st, h) [] [] (forget_state st t h, h)"
| cs_other: "heap_le h h' \<Longrightarrow> gave (sendq st) h h' = [] \<Longrightarrow> got (recvq st) h h' = [] \<Longrightarrow>
     chan_step (st, h) [] [] (st, h')"

text \<open>The invariant of a run: that of the channel, that of its feeders, and that no wait is
  on one queue twice with the same arm.\<close>

definition seats :: "'v waiter list \<Rightarrow> (addr \<times> nat) list" where
  "seats q = map (\<lambda>w. (w_token w, w_arm w)) q"

definition chan_run_inv :: "('v, 'e) chan_state \<times> ('v, 'e) heap \<Rightarrow> bool" where
  "chan_run_inv s \<longleftrightarrow> (case s of (st, h) \<Rightarrow>
     chan_inv h st \<and> demand_inv h st \<and> distinct (seats (recvq st)) \<and> distinct (seats (sendq st)))"

lemma got_append: "got (q @ q') h h' = got q h h' @ got q' h h'"
  by (simp add: got_def)

lemma gave_append: "gave (q @ q') h h' = gave q h h' @ gave q' h h'"
  by (simp add: gave_def)

lemma got_unchanged:
  assumes "\<And>w. w \<in> set q \<Longrightarrow> is_waiting h (w_token w) \<Longrightarrow>
     \<forall>v. tok_state (tokens h' (w_token w)) \<noteq> Fired (Arm (w_arm w) (Received v))"
  shows "got q h h' = []"
  using assms unfolding got_def
  by (auto split: token_state.splits fired.splits outcome.splits)

lemma gave_unchanged:
  assumes "\<And>w. w \<in> set q \<Longrightarrow> is_waiting h (w_token w) \<Longrightarrow>
     tok_state (tokens h' (w_token w)) \<noteq> Fired (Arm (w_arm w) Sent)"
  shows "gave q h h' = []"
  using assms unfolding gave_def
  by (auto split: token_state.splits fired.splits outcome.splits)

lemma waiting_state: "is_waiting h t \<Longrightarrow> tok_state (tokens h t) \<noteq> Fired f"
  by (auto simp: is_waiting_def)

lemma got_fire:
  assumes "q = pre @ w # post" and "distinct (seats q)" and "is_waiting h (w_token w)"
    and "tok_state (tokens h' (w_token w)) = Fired (Arm (w_arm w) (Received v))"
    and "\<And>t. t \<noteq> w_token w \<Longrightarrow> is_waiting h t \<Longrightarrow> tok_state (tokens h' t) = tok_state (tokens h t)"
  shows "got q h h' = [v]"
proof -
  have "got q' h h' = []" if "\<forall>x \<in> set q'. (w_token x, w_arm x) \<noteq> (w_token w, w_arm w)" for q'
  proof (rule got_unchanged)
    fix x assume "x \<in> set q'" "is_waiting h (w_token x)"
    with that assms(3-5) show "\<forall>v. tok_state (tokens h' (w_token x)) \<noteq> Fired (Arm (w_arm x) (Received v))"
      by (cases "w_token x = w_token w") (auto simp: is_waiting_def)
  qed
  moreover have "\<forall>x \<in> set pre. (w_token x, w_arm x) \<noteq> (w_token w, w_arm w)"
    and "\<forall>x \<in> set post. (w_token x, w_arm x) \<noteq> (w_token w, w_arm w)"
    using assms(2) unfolding assms(1) seats_def by (auto simp: image_iff)
  ultimately have "got pre h h' = []" "got post h h' = []" by auto
  moreover have "got [w] h h' = [v]" using assms(3,4) by (simp add: got_def)
  ultimately show ?thesis using got_append [of pre "[w] @ post" h h'] got_append [of "[w]" post h h']
    unfolding assms(1) by simp
qed

lemma gave_fire:
  assumes "q = pre @ w # post" and "distinct (seats q)" and "is_waiting h (w_token w)"
    and "tok_state (tokens h' (w_token w)) = Fired (Arm (w_arm w) Sent)" and "w_payload w = Some v"
    and "\<And>t. t \<noteq> w_token w \<Longrightarrow> is_waiting h t \<Longrightarrow> tok_state (tokens h' t) = tok_state (tokens h t)"
  shows "gave q h h' = [v]"
proof -
  have "gave q' h h' = []" if "\<forall>x \<in> set q'. (w_token x, w_arm x) \<noteq> (w_token w, w_arm w)" for q'
  proof (rule gave_unchanged)
    fix x assume "x \<in> set q'" "is_waiting h (w_token x)"
    with that assms(3,4,6) show "tok_state (tokens h' (w_token x)) \<noteq> Fired (Arm (w_arm x) Sent)"
      by (cases "w_token x = w_token w") (auto simp: is_waiting_def)
  qed
  moreover have "\<forall>x \<in> set pre. (w_token x, w_arm x) \<noteq> (w_token w, w_arm w)"
    and "\<forall>x \<in> set post. (w_token x, w_arm x) \<noteq> (w_token w, w_arm w)"
    using assms(2) unfolding assms(1) seats_def by (auto simp: image_iff)
  ultimately have "gave pre h h' = []" "gave post h h' = []" by auto
  moreover have "gave [w] h h' = [v]" using assms(3,4,5) by (simp add: gave_def)
  ultimately show ?thesis using gave_append [of pre "[w] @ post" h h'] gave_append [of "[w]" post h h']
    unfolding assms(1) by simp
qed

lemma fire_waiters_state:
  "tok_state (tokens (fst (fire_waiters out q h ws)) t) = tok_state (tokens h t) \<or>
   (\<exists>i. tok_state (tokens (fst (fire_waiters out q h ws)) t) = Fired (Arm i out))"
proof (induction q arbitrary: h ws)
  case (Cons w q)
  show ?case
    using Cons [of "fst (fire (w_token w) (Arm (w_arm w) out) h ws)"
        "snd (fire (w_token w) (Arm (w_arm w) out) h ws)"] Cons [of h ws]
    by (auto simp: claim_eq split_beta sync_simps split: if_splits)
qed simp

lemma got_fire_waiters:
  assumes "fst (fire_waiters out q' h ws) = h'" and "\<And>v. out \<noteq> Received v" and "out \<noteq> Sent"
  shows "got q h h' = []" and "gave q h h' = []"
  using fire_waiters_state [of out q' h ws] assms
  by (auto intro!: got_unchanged gave_unchanged dest: waiting_state)
    (metis fired.inject(1) token_state.inject waiting_state)+

lemma got_gave_refl [simp]: "got q h h = []" "gave q h h = []"
  by (auto intro!: got_unchanged gave_unchanged dest: waiting_state)

lemma fire_others:
  assumes "(h', ws') = fire t f h ws"
  shows "tok_state (tokens h' t) = Fired f"
    and "u \<noteq> t \<Longrightarrow> tok_state (tokens h' u) = tok_state (tokens h u)"
  using fire_fst_sel(1) [of t f h ws] assms by (metis fst_conv)+

lemma gave_received:
  assumes "(h', ws') = fire t (Arm i (Received v)) h ws"
  shows "gave q h h' = []"
proof (rule gave_unchanged)
  fix w assume "is_waiting h (w_token w)"
  with fire_others [OF assms] show "tok_state (tokens h' (w_token w)) \<noteq> Fired (Arm (w_arm w) Sent)"
    by (cases "w_token w = t") (auto simp: is_waiting_def)
qed

lemma got_sent:
  assumes "(h', ws') = fire t (Arm i Sent) h ws"
  shows "got q h h' = []"
proof (rule got_unchanged)
  fix w assume "is_waiting h (w_token w)"
  with fire_others [OF assms]
  show "\<forall>v. tok_state (tokens h' (w_token w)) \<noteq> Fired (Arm (w_arm w) (Received v))"
    by (cases "w_token w = t") (auto simp: is_waiting_def)
qed

lemma send_conserves:
  assumes "send st v h ws = (r, st', h', ws')" and "chan_inv h st" and "distinct (seats (recvq st))"
  shows "buf st @ (if r = TS_Sent then [v] else []) = got (recvq st) h h' @ buf st'"
    and "gave q h h' = []"
proof -
  have "buf st @ (if r = TS_Sent then [v] else []) = got (recvq st) h h' @ buf st' \<and> gave q h h' = []"
    using assms(1)
  proof (cases rule: send_cases)
    case (handed pre w post)
    have "got (recvq st) h h' = [v]"
      using fire_others [OF handed(7)]
      by (intro got_fire [OF handed(2) assms(3) claimable_waiting [OF handed(3)]])
    moreover have "buf st = []" using assms(2) handed(2) by (auto simp: chan_inv_def)
    ultimately show ?thesis using handed(5,6) gave_received [OF handed(7)] by simp
  qed simp_all
  then show "buf st @ (if r = TS_Sent then [v] else []) = got (recvq st) h h' @ buf st'"
    and "gave q h h' = []" by auto
qed

lemma wake_feeders_got:
  assumes "(st', h', ws') = wake_feeders st h ws"
  shows "got q h h' = []" and "gave q h h' = []" and "buf st' = buf st"
  using got_fire_waiters [of Asked "demandq st" h ws h' q] assms
  by (auto simp: wake_feeders_def) (metis fst_conv)+

lemma receive_conserves:
  assumes "receive st h ws = (r, st', h', ws')" and "chan_inv h st" and "distinct (seats (sendq st))"
  shows "buf st @ gave (sendq st) h h' = (case r of TR_Value x \<Rightarrow> [x] | _ \<Rightarrow> []) @ buf st'"
    and "got q h h' = []"
proof -
  have "buf st @ gave (sendq st) h h' = (case r of TR_Value x \<Rightarrow> [x] | _ \<Rightarrow> []) @ buf st' \<and>
      got q h h' = []"
    using assms(1) chan_inv_payloads [OF assms(2)]
  proof (cases rule: receive_cases)
    case (refilled v rest pre w post y)
    have "gave (sendq st) h h' = [y]"
      using fire_others [OF refilled(8)]
      by (intro gave_fire [OF refilled(2) assms(3) claimable_waiting [OF refilled(3)] _ refilled(5)])
    then show ?thesis using refilled(1,6,7) got_sent [OF refilled(8)] by simp
  next
    case (buffered v rest)
    show ?thesis
    proof (cases "demand (st\<lparr>buf := rest, sendq := []\<rparr>) = None")
      case True
      with buffered show ?thesis by simp
    next
      case False
      with buffered(4) have "(st', h', ws') = wake_feeders (st\<lparr>buf := rest, sendq := []\<rparr>) h ws" by simp
      from wake_feeders_got [OF this] buffered(1,3) show ?thesis by simp
    qed
  next
    case (direct pre w post y)
    have "gave (sendq st) h h' = [y]"
      using fire_others [OF direct(8)]
      by (intro gave_fire [OF direct(2) assms(3) claimable_waiting [OF direct(3)] _ direct(5)])
    then show ?thesis using direct(1,6,7) got_sent [OF direct(8)] by simp
  next
    case empty
    from wake_feeders_got [OF empty(5)] empty(1,4) show ?thesis by simp
  qed simp
  then show "buf st @ gave (sendq st) h h' = (case r of TR_Value x \<Rightarrow> [x] | _ \<Rightarrow> []) @ buf st'"
    and "got q h h' = []" by auto
qed

lemma seats_suffix: "distinct (seats (pre @ w # q)) \<Longrightarrow> distinct (seats q)"
  by (simp add: seats_def)

lemma seats_filter: "distinct (seats q) \<Longrightarrow> distinct (seats (filter P q))"
  by (simp add: seats_def distinct_map_filter)

lemma send_seats:
  assumes "send st v h ws = (r, st', h', ws')" and "distinct (seats (recvq st))"
  shows "distinct (seats (recvq st'))" and "sendq st' = sendq st" and "demandq st' = demandq st"
proof -
  have "distinct (seats (recvq st')) \<and> sendq st' = sendq st \<and> demandq st' = demandq st" using assms(1)
  proof (cases rule: send_cases)
    case (handed pre w q)
    then show ?thesis using assms(2) seats_suffix [of pre w q] by simp
  qed (use assms(2) in \<open>simp_all add: seats_def\<close>)
  then show "distinct (seats (recvq st'))" "sendq st' = sendq st" "demandq st' = demandq st" by auto
qed

lemma receive_seats:
  assumes "receive st h ws = (r, st', h', ws')" and "\<forall>w \<in> set (sendq st). w_payload w \<noteq> None"
    and "distinct (seats (sendq st))"
  shows "distinct (seats (sendq st'))" and "recvq st' = recvq st"
proof -
  have "distinct (seats (sendq st')) \<and> recvq st' = recvq st" using assms(1,2)
  proof (cases rule: receive_cases)
    case (refilled v rest pre w q y)
    then show ?thesis using assms(3) seats_suffix [of pre w q] by simp
  next
    case (direct pre w q y)
    then show ?thesis using assms(3) seats_suffix [of pre w q] by simp
  qed (auto simp: seats_def wake_feeders_def Let_def split: if_splits)
  then show "distinct (seats (sendq st'))" "recvq st' = recvq st" by auto
qed

lemma token_new_facts:
  assumes "token_new k c h = (t, h')"
  shows "heap_le h h'" and "t = next_token h" and "t < next_token h'"
  using heap_le_new [of h k c] assms by (auto simp: token_new_def)

lemma chan_inv_below: "chan_inv h st \<Longrightarrow>
    \<forall>w \<in> set (recvq st @ sendq st @ demandq st). w_token w < next_token h"
  by (simp add: chan_inv_def)

text \<open>The operations and steps elsewhere keep the invariant of a run.\<close>

lemma chan_run_inv_send:
  "chan_run_inv (st, h) \<Longrightarrow> send st v h ws = (r, st', h', ws') \<Longrightarrow> chan_run_inv (st', h')"
  using chan_inv_send demand_inv_send send_seats by (fastforce simp: chan_run_inv_def)

lemma chan_run_inv_receive:
  assumes "chan_run_inv (st, h)" and "receive st h ws = (r, st', h', ws')"
  shows "chan_run_inv (st', h')"
proof -
  have inv: "chan_inv h st" "demand_inv h st" using assms(1) by (auto simp: chan_run_inv_def)
  show ?thesis
    using assms(1) chan_inv_receive [OF inv(1) assms(2)] demand_inv_receive [OF inv(2) assms(2) inv(1)]
      receive_seats [OF assms(2) chan_inv_payloads [OF inv(1)]] by (simp add: chan_run_inv_def)
qed

lemma chan_run_inv_heap_le: "chan_run_inv (st, h) \<Longrightarrow> heap_le h h' \<Longrightarrow> chan_run_inv (st, h')"
  by (auto simp: chan_run_inv_def intro: chan_inv_heap_le demand_inv_heap_le)

subsection \<open>A task parks\<close>

text \<open>What the arms that were tried have shown of the channel.\<close>

definition tried_ok :: "'v chan_arm set \<Rightarrow> ('v, 'e) chan_state \<Rightarrow> ('v, 'e) heap \<Rightarrow> bool" where
  "tried_ok as st h \<longleftrightarrow> (as \<noteq> {} \<longrightarrow> closed st = None) \<and>
     (CA_Recv \<in> as \<longrightarrow> buf st = [] \<and> sendq st = [] \<and> demandq st = [] \<and> (asked st \<or> (\<exists>v. CA_Send v \<in> as))) \<and>
     (\<forall>v. CA_Send v \<in> as \<longrightarrow> length (buf st) = capacity st \<and> recvq st = []) \<and>
     (CA_Demand \<in> as \<longrightarrow> \<not> room_ahead st \<and> (\<forall>r \<in> set (recvq st). claimable h r \<longrightarrow> also_sends st r))"

lemma tried_okD:
  assumes "tried_ok as st h"
  shows "CA_Recv \<in> as \<Longrightarrow> buf st = [] \<and> sendq st = [] \<and> demandq st = []"
    and "CA_Recv \<in> as \<Longrightarrow> asked st \<or> (\<exists>v. CA_Send v \<in> as)"
    and "CA_Send v \<in> as \<Longrightarrow> length (buf st) = capacity st \<and> recvq st = []"
    and "CA_Demand \<in> as \<Longrightarrow> \<not> room_ahead st"
    and "CA_Demand \<in> as \<Longrightarrow> r \<in> set (recvq st) \<Longrightarrow> claimable h r \<Longrightarrow> also_sends st r"
    and "closed st \<noteq> None \<Longrightarrow> as = {}"
  using assms unfolding tried_ok_def by (blast, blast, blast, blast, blast, metis)

lemma tried_ok_heap_le:
  assumes "tried_ok as st h" and "heap_le h h'" and "chan_inv h st"
  shows "tried_ok as st h'"
  using assms claimable_heap_le_back [OF assms(2)] by (auto simp: tried_ok_def chan_inv_def)

lemma tried_ok_recv:
  assumes "tried_ok as st h" and "receive st h ws = (TR_Empty, st', h', ws')" and "chan_inv h st"
  shows "tried_ok (insert CA_Recv as) st' h'"
proof -
  note pay = chan_inv_payloads [OF assms(3)]
  note e = receive_EmptyD [OF assms(2) pay]
  have none: "\<not> claimable h s" if "s \<in> set (sendq st)" for s
    using assms(2) pay that by (cases rule: receive_cases) auto
  have idle: "\<not> claimable h' r" if r: "r \<in> set (recvq st)" "CA_Demand \<in> as" for r
  proof
    assume "claimable h' r"
    moreover have "w_token r < next_token h" using assms(3) r(1) by (simp add: chan_inv_def)
    ultimately have "claimable h r" using claimable_heap_le_back [OF receive_heap_le [OF assms(2) pay]] by blast
    moreover from this have "also_sends st r" using assms(1) r by (simp add: tried_ok_def)
    ultimately show False using none claimable_same_token [of _ r h] unfolding also_sends_def by metis
  qed
  have "room_ahead st' = room_ahead st" using e by (simp add: room_ahead_def)
  then show ?thesis using assms(1) e idle unfolding tried_ok_def by simp
qed

lemma tried_ok_send:
  assumes "tried_ok as st h" and "send st v h ws = (TS_Full v1, st', h', ws')" and "chan_inv h st"
  shows "tried_ok (insert (CA_Send v1) as) st' h'"
  using assms(1,3) send_FullD [OF assms(2)] by (auto simp: tried_ok_def room_ahead_def chan_inv_def)

lemma tried_ok_demand:
  assumes "tried_ok as st h" and "demand st = None" and "demand_inv h st"
  shows "tried_ok (insert CA_Demand as) st h"
  using assms(1,3) demand_None [OF assms(2)] by (auto simp: tried_ok_def demand_inv_def)

lemma failed_inv:
  assumes "failed xs s acc del s'" and "chan_run_inv s"
  shows "chan_run_inv s' \<and> tried_ok (snd ` set xs) (fst s') (snd s')"
  using assms
proof (induction rule: failed.induct)
  case (failed_none s)
  then show ?case by (simp add: tried_ok_def)
next
  case (failed_recv xs s acc del st h ws st' h' ws' i)
  then have inv: "chan_run_inv (st, h)" "tried_ok (snd ` set xs) st h" "chan_inv h st" by (auto simp: chan_run_inv_def)
  show ?case
    using chan_run_inv_receive [OF inv(1) failed_recv.hyps(2)] tried_ok_recv [OF inv(2) failed_recv.hyps(2) inv(3)] by simp
next
  case (failed_send xs s acc del st h v ws v1 st' h' ws' i)
  then have inv: "chan_run_inv (st, h)" "tried_ok (snd ` set xs) st h" "chan_inv h st" by (auto simp: chan_run_inv_def)
  show ?case
    using chan_run_inv_send [OF inv(1) failed_send.hyps(2)] tried_ok_send [OF inv(2) failed_send.hyps(2) inv(3)] by simp
next
  case (failed_demand xs s acc del st h i)
  then have inv: "chan_run_inv (st, h)" "tried_ok (snd ` set xs) st h" "demand_inv h st" by (auto simp: chan_run_inv_def)
  show ?case using inv tried_ok_demand [OF inv(2) failed_demand.hyps(2) inv(3)] by simp
next
  case (failed_other xs s acc del st h h')
  then have inv: "chan_run_inv (st, h)" "tried_ok (snd ` set xs) st h" "chan_inv h st" by (auto simp: chan_run_inv_def)
  show ?case
    using chan_run_inv_heap_le [OF inv(1) failed_other.hyps(2)] tried_ok_heap_le [OF inv(2) failed_other.hyps(2) inv(3)] by simp
qed

lemma failed_conserves:
  assumes "failed xs s acc del s'" and "chan_run_inv s"
  shows "buf (fst s) @ acc = del @ buf (fst s')"
  using assms
proof (induction rule: failed.induct)
  case (failed_recv xs s acc del st h ws st' h' ws' i)
  then have inv: "chan_inv h st" "distinct (seats (sendq st))" using failed_inv [OF failed_recv.hyps(1)] by (auto simp: chan_run_inv_def)
  have "(buf (fst s) @ acc) @ gave (sendq st) h h' = del @ buf st @ gave (sendq st) h h'" using failed_recv by simp
  then show ?case using receive_conserves [OF failed_recv.hyps(2) inv] by simp
next
  case (failed_send xs s acc del st h v ws v1 st' h' ws' i)
  then have inv: "chan_inv h st" "distinct (seats (recvq st))" using failed_inv [OF failed_send.hyps(1)] by (auto simp: chan_run_inv_def)
  have "(buf (fst s) @ acc) @ gave (sendq st) h h' = del @ buf st @ gave (sendq st) h h'" using failed_send by simp
  then show ?case using send_conserves [OF failed_send.hyps(2) inv] by simp
qed simp_all

lemma failed_capacity:
  assumes "failed xs s acc del s'" and "chan_run_inv s"
  shows "capacity (fst s') = capacity (fst s)"
  using assms
proof (induction rule: failed.induct)
  case (failed_recv xs s acc del st h ws st' h' ws' i)
  then have "chan_inv h st" using failed_inv by (fastforce simp: chan_run_inv_def)
  from receive_EmptyD(3) [OF failed_recv.hyps(2) chan_inv_payloads [OF this]] show ?case using failed_recv by simp
next
  case (failed_send xs s acc del st h v ws v1 st' h' ws' i)
  then show ?case using send_FullD(6) [OF failed_send.hyps(2)] by simp
qed simp_all

text \<open>The waiters that join each queue.\<close>

fun arm_recv :: "addr \<Rightarrow> nat \<times> 'v chan_arm \<Rightarrow> 'v waiter list" where
  "arm_recv t (i, CA_Recv) = [\<lparr>w_token = t, w_arm = i, w_payload = None\<rparr>]"
| "arm_recv t _ = []"

fun arm_send :: "addr \<Rightarrow> nat \<times> 'v chan_arm \<Rightarrow> 'v waiter list" where
  "arm_send t (i, CA_Send v) = [\<lparr>w_token = t, w_arm = i, w_payload = Some v\<rparr>]"
| "arm_send t _ = []"

fun arm_demand :: "addr \<Rightarrow> nat \<times> 'v chan_arm \<Rightarrow> 'v waiter list" where
  "arm_demand t (i, CA_Demand) = [\<lparr>w_token = t, w_arm = i, w_payload = None\<rparr>]"
| "arm_demand t _ = []"

lemma arm_recvD: "w \<in> set (arm_recv t x) \<Longrightarrow> w_token w = t \<and> w_arm w = fst x \<and> snd x = CA_Recv"
  by (cases x; cases "snd x") auto

lemma arm_sendD:
  "w \<in> set (arm_send t x) \<Longrightarrow> w_token w = t \<and> w_arm w = fst x \<and> (\<exists>v. snd x = CA_Send v \<and> w_payload w = Some v)"
  by (cases x; cases "snd x") auto

lemma arm_demandD: "w \<in> set (arm_demand t x) \<Longrightarrow> w_token w = t \<and> snd x = CA_Demand"
  by (cases x; cases "snd x") auto

lemma fold_push:
  "recvq (fold (push_arm t) ys st) = recvq st @ concat (map (arm_recv t) ys)"
  "sendq (fold (push_arm t) ys st) = sendq st @ concat (map (arm_send t) ys)"
  "demandq (fold (push_arm t) ys st) = demandq st @ concat (map (arm_demand t) ys)"
  "buf (fold (push_arm t) ys st) = buf st" "capacity (fold (push_arm t) ys st) = capacity st"
  "closed (fold (push_arm t) ys st) = closed st" "asked (fold (push_arm t) ys st) = asked st"
  "draining (fold (push_arm t) ys st) = draining st" "ahead (fold (push_arm t) ys st) = ahead st"
proof -
  have one: "recvq (push_arm t y st) = recvq st @ arm_recv t y \<and> sendq (push_arm t y st) = sendq st @ arm_send t y \<and>
      demandq (push_arm t y st) = demandq st @ arm_demand t y \<and> buf (push_arm t y st) = buf st \<and>
      capacity (push_arm t y st) = capacity st \<and> closed (push_arm t y st) = closed st \<and>
      asked (push_arm t y st) = asked st \<and> draining (push_arm t y st) = draining st \<and>
      ahead (push_arm t y st) = ahead st" for y and st :: "('a, 'b) chan_state"
    by (cases y; cases "snd y") (auto simp: push_recv_def push_send_def push_demand_def)
  have "recvq (fold (push_arm t) ys st) = recvq st @ concat (map (arm_recv t) ys) \<and>
      sendq (fold (push_arm t) ys st) = sendq st @ concat (map (arm_send t) ys) \<and>
      demandq (fold (push_arm t) ys st) = demandq st @ concat (map (arm_demand t) ys) \<and>
      buf (fold (push_arm t) ys st) = buf st \<and> capacity (fold (push_arm t) ys st) = capacity st \<and>
      closed (fold (push_arm t) ys st) = closed st \<and> asked (fold (push_arm t) ys st) = asked st \<and>
      draining (fold (push_arm t) ys st) = draining st \<and> ahead (fold (push_arm t) ys st) = ahead st"
    by (induction ys arbitrary: st) (simp_all add: one)
  then show "recvq (fold (push_arm t) ys st) = recvq st @ concat (map (arm_recv t) ys)"
    "sendq (fold (push_arm t) ys st) = sendq st @ concat (map (arm_send t) ys)"
    "demandq (fold (push_arm t) ys st) = demandq st @ concat (map (arm_demand t) ys)"
    "buf (fold (push_arm t) ys st) = buf st" "capacity (fold (push_arm t) ys st) = capacity st"
    "closed (fold (push_arm t) ys st) = closed st" "asked (fold (push_arm t) ys st) = asked st"
    "draining (fold (push_arm t) ys st) = draining st" "ahead (fold (push_arm t) ys st) = ahead st"
    by simp_all
qed

lemma seats_join:
  assumes "distinct (seats q)" and "\<forall>x \<in> set q. w_token x < t" and "distinct (map fst ys)"
    and "\<And>y. length (f y) \<le> 1" and "\<And>y w. w \<in> set (f y) \<Longrightarrow> w_token w = t \<and> w_arm w = fst y"
  shows "distinct (seats (q @ concat (map f ys)))"
proof -
  have one: "distinct (seats (f y))" for y
    using assms(4) [of y] by (cases "f y") (auto simp: seats_def)
  have "distinct (seats (concat (map f ys)))"
    using assms(3)
  proof (induction ys)
    case (Cons y ys)
    have "(t, fst y) \<notin> set (seats (concat (map f ys)))"
    proof
      assume "(t, fst y) \<in> set (seats (concat (map f ys)))"
      then obtain z w where "z \<in> set ys" "w \<in> set (f z)" "w_arm w = fst y" by (auto simp: seats_def)
      then have "fst y \<in> fst ` set ys" using assms(5) by (metis imageI)
      then show False using Cons.prems by simp
    qed
    moreover have "set (seats (f y)) \<subseteq> {(t, fst y)}" using assms(5) by (auto simp: seats_def)
    ultimately have "set (seats (f y)) \<inter> set (seats (concat (map f ys))) = {}" by blast
    then show ?case using Cons one [of y] by (simp add: seats_def)
  qed (simp add: seats_def)
  moreover have "w_token w = t" if "w \<in> set (concat (map f ys))" for w using that assms(5) by auto
  ultimately show ?thesis using assms(1,2) by (fastforce simp: seats_def)
qed

lemma arm_length: "length (arm_recv t y) \<le> 1" "length (arm_send t y) \<le> 1"
  by (cases y; cases "snd y"; auto)+

lemma chan_run_inv_park:
  assumes "chan_run_inv (st, h)" and "tried_ok (snd ` set ys) st h" and "token_new k c h = (t, h')"
    and "distinct (map fst ys)"
  shows "chan_run_inv (fold (push_arm t) ys st, h')"
proof -
  let ?R = "concat (map (arm_recv t) ys)" and ?S = "concat (map (arm_send t) ys)" and ?D = "concat (map (arm_demand t) ys)"
  let ?st = "fold (push_arm t) ys st"
  note new = token_new_facts [OF assms(3)] 
  have old: "chan_inv h st" and inv: "chan_inv h' st" "demand_inv h' st"
    and seats: "distinct (seats (recvq st))" "distinct (seats (sendq st))"
    using assms(1) chan_run_inv_heap_le [OF assms(1) new(1)] by (auto simp: chan_run_inv_def)
  have chan: "length (buf st) \<le> capacity st" "recvq st \<noteq> [] \<Longrightarrow> buf st = []" "sendq st \<noteq> [] \<Longrightarrow> length (buf st) = capacity st"
    "closed st \<noteq> None \<Longrightarrow> recvq st = [] \<and> sendq st = [] \<and> demandq st = []"
    "\<And>w. w \<in> set (sendq st) \<Longrightarrow> w_payload w \<noteq> None"
    "\<And>w. w \<in> set (recvq st) \<union> set (sendq st) \<union> set (demandq st) \<Longrightarrow> w_token w < next_token h'"
    "\<And>r s. r \<in> set (recvq st) \<Longrightarrow> s \<in> set (sendq st) \<Longrightarrow> claimable h' r \<Longrightarrow> claimable h' s \<Longrightarrow> w_token r = w_token s"
    using inv(1) unfolding chan_inv_def by (blast, blast, blast, blast, blast, simp, blast)
  have feed: "\<And>r. r \<in> set (recvq st) \<Longrightarrow> claimable h' r \<Longrightarrow> asked st \<or> also_sends st r"
    "\<And>w. w \<in> set (demandq st) \<Longrightarrow> claimable h' w \<Longrightarrow> \<not> room_ahead st"
    "\<And>w r. w \<in> set (demandq st) \<Longrightarrow> claimable h' w \<Longrightarrow> r \<in> set (recvq st) \<Longrightarrow> claimable h' r \<Longrightarrow>
      also_sends st r \<or> w_token r = w_token w"
    using inv(2) unfolding demand_inv_def by blast+
  have below: "\<forall>w \<in> set (recvq st @ sendq st @ demandq st). w_token w < t"
    using old new(2) by (simp add: chan_inv_def)
  have was: "claimable h w" if "w \<in> set (recvq st)" "claimable h' w" for w
    using that below new(1,2) claimable_heap_le_back by auto
  have R: "w_token w = t \<and> CA_Recv \<in> snd ` set ys" if "w \<in> set ?R" for w
    using that by (auto dest!: arm_recvD intro: rev_image_eqI)
  have S: "w_token w = t \<and> w_payload w \<noteq> None \<and> (\<exists>v. CA_Send v \<in> snd ` set ys)" if "w \<in> set ?S" for w
    using that by (fastforce dest!: arm_sendD intro: rev_image_eqI)
  have D: "w_token w = t \<and> CA_Demand \<in> snd ` set ys" if "w \<in> set ?D" for w
    using that by (auto dest!: arm_demandD intro: rev_image_eqI)
  have sends: "\<exists>s \<in> set ?S. w_token s = t" if "CA_Send v \<in> snd ` set ys" for v
    using that by (force intro!: bexI)
  have too: "also_sends ?st r" if "also_sends st r" for r using that by (auto simp: also_sends_def fold_push)
  note tried = tried_okD [OF assms(2)]
  have room: "room_ahead ?st = room_ahead st" by (simp add: room_ahead_def fold_push)
  have "chan_inv h' ?st"
    unfolding chan_inv_def fold_push
  proof (intro conjI impI ballI)
    show "length (buf st) \<le> capacity st" by (rule chan(1))
    show "buf st = []" if "recvq st @ ?R \<noteq> []"
    proof (cases "?R = []")
      case False
      then show ?thesis using tried(1) R [OF hd_in_set] by blast
    qed (use that chan(2) in simp)
    show "length (buf st) = capacity st" if "sendq st @ ?S \<noteq> []"
    proof (cases "?S = []")
      case False
      then show ?thesis using tried(3) S [OF hd_in_set] by blast
    qed (use that chan(3) in simp)
    show "recvq st @ ?R = []" "sendq st @ ?S = []" "demandq st @ ?D = []" if "closed st \<noteq> None"
      using chan(4) [OF that] tried(6) [OF that] by simp_all
    show "w_payload w \<noteq> None" if "w \<in> set (sendq st @ ?S)" for w
      using that chan(5) [of w] S [of w] by (cases "w \<in> set ?S") simp_all
    show "w_token w < next_token h'" if "w \<in> set ((recvq st @ ?R) @ (sendq st @ ?S) @ demandq st @ ?D)" for w
    proof -
      have "w \<in> set (recvq st) \<union> set (sendq st) \<union> set (demandq st) \<or> w \<in> set ?R \<or> w \<in> set ?S \<or> w \<in> set ?D"
        using that by (simp only: set_append Un_iff) blast
      then show ?thesis using chan(6) [of w] R [of w] S [of w] D [of w] new(3) by blast
    qed
    show "w_token r = w_token s" if "r \<in> set (recvq st @ ?R)" "s \<in> set (sendq st @ ?S)" "claimable h' r \<and> claimable h' s" for r s
    proof (cases "r \<in> set ?R \<or> s \<in> set ?S")
      case True
      moreover have "s \<in> set ?S" if "r \<in> set ?R" using tried(1) R [OF that] \<open>s \<in> set (sendq st @ ?S)\<close> by simp
      moreover have "r \<in> set ?R" if "s \<in> set ?S" using tried(3) S [OF that] \<open>r \<in> set (recvq st @ ?R)\<close> by fastforce
      ultimately have "r \<in> set ?R" "s \<in> set ?S" by blast+
      then show ?thesis using R [of r] S [of s] by simp
    next
      case False
      then show ?thesis using that chan(7) [of r s] by simp
    qed
  qed
  moreover have "demand_inv h' ?st"
    unfolding demand_inv_def
  proof (intro conjI impI ballI)
    show "w_token w < next_token h'" if "w \<in> set (recvq ?st @ demandq ?st)" for w
      using that chan(6) [of w] R [of w] D [of w] new(3)
      by (cases "w \<in> set ?R \<or> w \<in> set ?D") (auto simp: fold_push)
    show "asked ?st \<or> also_sends ?st r" if r: "r \<in> set (recvq ?st)" "claimable h' r" for r
    proof (cases "r \<in> set ?R")
      case True
      then have t: "w_token r = t" "CA_Recv \<in> snd ` set ys" using R by simp_all
      from tried(2) [OF t(2)] show ?thesis
        using sends t(1) unfolding also_sends_def by (auto simp: fold_push)
    next
      case False
      then show ?thesis using r feed(1) [of r] too by (auto simp: fold_push)
    qed
    fix w assume w: "w \<in> set (demandq ?st)" "claimable h' w"
    show "\<not> room_ahead ?st"
      using w feed(2) [of w] tried(4) D [of w] unfolding room by (cases "w \<in> set ?D") (simp_all add: fold_push)
    show "also_sends ?st r \<or> w_token r = w_token w" if r: "r \<in> set (recvq ?st)" "claimable h' r" for r
    proof (cases "r \<in> set ?R")
      case True
      then have "w_token r = t" "demandq st = []" using R tried(1) by simp_all
      then show ?thesis using w(1) D [of w] by (simp add: fold_push)
    next
      case False
      then have "r \<in> set (recvq st)" using r(1) by (simp add: fold_push)
      then have "also_sends st r \<or> w_token r = w_token w"
        using w r(2) feed(3) [of w r] tried(5) [of r] was [of r] D [of w] by (cases "w \<in> set ?D") (simp_all add: fold_push)
      then show ?thesis using too by blast
    qed
  qed
  moreover have "distinct (seats (recvq ?st))"
    unfolding fold_push
    by (rule seats_join [OF seats(1), where t = t, OF _ assms(4) arm_length(1)]) (use below in simp, use arm_recvD in fast)
  moreover have "distinct (seats (sendq ?st))"
    unfolding fold_push
    by (rule seats_join [OF seats(2), where t = t, OF _ assms(4) arm_length(2)]) (use below in simp, use arm_sendD in fast)
  ultimately show ?thesis by (simp add: chan_run_inv_def)
qed

lemma close_got:
  assumes "close_state st c h ws = (r, st', h', ws')"
  shows "got q h h' = []" and "gave q h h' = []" and "buf st' = buf st"
proof -
  consider "st' = st \<and> h' = h" | "fst (fire_waiters (Closed c) (sendq st @ recvq st @ demandq st) h ws) = h' \<and>
      st' = st\<lparr>sendq := [], recvq := [], demandq := [], closed := Some c\<rparr>"
    using assms by (auto simp: close_state_def split_beta Let_def split: if_splits)
  then show "got q h h' = []" "gave q h h' = []" "buf st' = buf st"
    using got_fire_waiters [of "Closed c" "sendq st @ recvq st @ demandq st" h ws h' q] by (cases; simp)+
qed

lemma drain_got:
  assumes "drain_state st h ws = (st', h', ws')"
  shows "got q h h' = []" and "gave q h h' = []" and "buf st' = buf st"
proof -
  consider "st' = st\<lparr>draining := True\<rparr> \<and> h' = h"
    | "(st', h', ws') = wake_feeders (st\<lparr>draining := True\<rparr>) h ws"
    using assms by (auto simp: drain_state_def Let_def split: if_splits)
  then have "got q h h' = [] \<and> gave q h h' = [] \<and> buf st' = buf st"
  proof cases
    case 2
    from wake_feeders_got [OF 2] show ?thesis by simp
  qed simp
  then show "got q h h' = []" "gave q h h' = []" "buf st' = buf st" by auto
qed

lemma close_seats:
  "close_state st c h ws = (r, st', h', ws') \<Longrightarrow> distinct (seats (recvq st)) \<Longrightarrow>
   distinct (seats (sendq st)) \<Longrightarrow> distinct (seats (recvq st')) \<and> distinct (seats (sendq st'))"
  by (auto simp: close_state_def seats_def split_beta Let_def split: if_splits)

lemma drain_queues:
  "drain_state st h ws = (st', h', ws') \<Longrightarrow> recvq st' = recvq st \<and> sendq st' = sendq st"
  by (auto simp: drain_state_def wake_feeders_def Let_def split: if_splits)

lemma forget_seats:
  assumes "distinct (seats (recvq st))" and "distinct (seats (sendq st))"
  shows "distinct (seats (recvq (forget_state st t h)))"
    and "distinct (seats (sendq (forget_state st t h)))"
  using assms by (simp_all add: forget_state_def Let_def seats_filter)

lemma forget_buf [simp]: "buf (forget_state st t h) = buf st"
  by (simp add: forget_state_def Let_def)

lemma chan_step_inv: "chan_run_inv s \<Longrightarrow> chan_step s a d s' \<Longrightarrow> chan_run_inv s'"
proof (erule chan_step.cases, goal_cases)
  case 1 then show ?case by (auto intro: chan_run_inv_send)
next
  case 2 then show ?case by (auto intro: chan_run_inv_receive)
next
  case (3 st c h ws r st' h' ws')
  then show ?case
    using chan_inv_close [OF _ 3(6)] demand_inv_close [OF _ 3(6)] close_seats [OF 3(6)]
    by (simp add: chan_run_inv_def)
next
  case (4 st h ws st' h' ws')
  then show ?case
    using chan_inv_drain [OF _ 4(6)] demand_inv_drain [OF _ 4(6)] drain_queues [OF 4(6)]
    by (simp add: chan_run_inv_def)
next
  case (5 xs s0 acc del st1 h1 k c t h' ys)
  then have "chan_run_inv (st1, h1)" "tried_ok (snd ` set ys) st1 h1" using failed_inv [of xs s0] by auto
  from chan_run_inv_park [OF this 5(7,9)] show ?case using 5 by simp
next
  case 6 then show ?case
    by (auto simp: chan_run_inv_def chan_inv_forget demand_inv_forget forget_seats)
next
  case 7 then show ?case by (auto intro: chan_run_inv_heap_le)
qed

lemma chan_step_conserves:
  "chan_run_inv s \<Longrightarrow> chan_step s a d s' \<Longrightarrow> buf (fst s) @ a = d @ buf (fst s')"
proof (erule chan_step.cases, goal_cases)
  case (1 st v h ws r st' h' ws')
  then show ?case using send_conserves [OF 1(6)] by (simp add: chan_run_inv_def)
next
  case (2 st h ws r st' h' ws')
  then show ?case using receive_conserves [OF 2(6)] by (simp add: chan_run_inv_def)
next
  case (3 st c h ws r st' h' ws')
  then show ?case using close_got [OF 3(6)] by simp
next
  case (4 st h ws st' h' ws')
  then show ?case using drain_got [OF 4(6)] by simp
next
  case (5 xs s0 acc del st1 h1 k c t h' ys)
  then show ?case using failed_conserves [of xs s0] by (simp add: fold_push)
qed simp_all

interpretation chan: fifo_queue chan_step "buf \<circ> fst" chan_run_inv
  by unfold_locales (auto intro: chan_step_inv dest: chan_step_conserves)

lemma chan_step_capacity: "chan_run_inv s \<Longrightarrow> chan_step s a d s' \<Longrightarrow> capacity (fst s') = capacity (fst s)"
proof (erule chan_step.cases, goal_cases)
  case (1 st v h ws r st' h' ws')
  then show ?case by (auto elim: send_cases)
next
  case (2 st h ws r st' h' ws')
  then have "\<forall>w \<in> set (sendq st). w_payload w \<noteq> None" by (simp add: chan_run_inv_def chan_inv_def)
  with 2(6) have "capacity st' = capacity st"
    by (cases rule: receive_cases) (auto simp: wake_feeders_def Let_def split: if_splits)
  with 2 show ?case by simp
next
  case (5 xs s0 acc del st1 h1 k c t h' ys)
  from failed_capacity [OF 5(6)] show ?case using 5 by (simp add: fold_push)
qed (auto simp: close_state_def drain_state_def wake_feeders_def forget_state_def
    Let_def split_beta split: if_splits)

lemma chan_run_capacity:
  assumes "fifo_run chan_step s acc del s'" and "chan_run_inv s"
  shows "capacity (fst s') = capacity (fst s)"
  using assms
proof (induction rule: fifo_run.induct)
  case (run_step s acc del s1 a d s2)
  then show ?case using chan_step_capacity [OF chan.run_inv] by metis
qed simp

lemma chan_run_inv_new: "chan_run_inv (ch_state (channel_fed i cap ah), h)"
  by (simp add: chan_run_inv_def chan_inv_def demand_inv_def channel_fed_def seats_def)

lemmas chan_run_new = chan.run_conserves [OF _ chan_run_inv_new] chan.run_inv [OF _ chan_run_inv_new]
  chan_run_capacity [OF _ chan_run_inv_new]

section \<open>Properties\<close>

definition heap_empty :: "('v, 'e) heap" where
  "heap_empty = \<lparr>flags = (\<lambda>_. False),
     tokens = (\<lambda>_. \<lparr>tok_task = 0, tok_cancel = None, tok_ended_by = 0, tok_state = Taken\<rparr>),
     next_token = 0, panicked = False\<rparr>"

text \<open>C11: A channel is first in, first out and neither loses nor doubles a value: in every run
  of a new channel (sends, receives, closes, drains, tasks that park on it, waiters that leave,
  and anything the rest of the program does to the tokens), the values the senders saw accepted
  are, in order, the values the receivers saw delivered followed by those in the buffer, and the
  buffer never holds more than the capacity.\<close>

theorem channel_fifo:
  assumes "fifo_run chan_step (ch_state (channel_fed i cap ah), h) acc del (st, h')"
  shows "acc = del @ buf st \<and> length (buf st) \<le> cap"
proof -
  have "acc = del @ buf st"
    using chan_run_new(1) [OF assms] by (simp add: channel_fed_def)
  moreover have "chan_inv h' st"
    using chan_run_new(2) [OF assms] by (simp add: chan_run_inv_def)
  then have "length (buf st) \<le> capacity st" by (simp add: chan_inv_def)
  moreover have "capacity st = cap"
    using chan_run_new(3) [OF assms] by (simp add: channel_fed_def)
  ultimately show ?thesis by simp
qed

lemma fifo_run_one: "step s a d s' \<Longrightarrow> fifo_run step s a d s'"
  using fifo_run.run_step [OF fifo_run.run_start, of step s a d s'] by simp

lemma fifo_run_trans1: "fifo_run step s acc del s1 \<Longrightarrow> step s1 a d s2 \<Longrightarrow> acc' = acc @ a \<Longrightarrow>
    del' = del @ d \<Longrightarrow> fifo_run step s acc' del' s2"
  by (simp add: fifo_run.run_step)

theorem channel_fifo_witness:
  "\<exists>st. fifo_run chan_step (ch_state (channel_fed 0 1 0), heap_empty :: (int, string) heap)
      [5] [] (st, heap_empty) \<and> [5] = buf st \<and> length (buf st) \<le> 1"
proof -
  let ?st = "ch_state (channel_fed 0 1 0) :: (int, string) chan_state"
  let ?st1 = "?st\<lparr>recvq := [], asked := False, buf := [5]\<rparr>"
  have "send ?st 5 heap_empty wakes_default = (TS_Sent, ?st1, heap_empty, wakes_default)"
    by (simp add: send_def channel_fed_def)
  from fifo_run_one [of chan_step, OF cs_send [OF this]]
  have run: "fifo_run chan_step (?st, heap_empty) [5] [] (?st1, heap_empty)"
    by (simp add: channel_fed_def got_def gave_def)
  with channel_fifo [OF run] show ?thesis by auto
qed

text \<open>C13: No wait is left open on a channel that could end it, also with selects that have several arms on
  the channel. In every state of a run of a new channel: receivers are queued only while the buffer is
  empty, senders only while it is full; a receiver and a sender whose waits are both open are arms of one
  select, which may not complete itself; a receiver whose wait is open asks the feeders for a value,
  unless its own select also sends here; a feeder whose wait is open may not work ahead, and no receiver
  waits that another wait has queued and that does not also send here; and a closed channel has nobody on
  its queues.\<close>

theorem channel_no_missed_wake:
  assumes "fifo_run chan_step (ch_state (channel_fed i cap ah), h) acc del (st, h')"
  shows "(recvq st \<noteq> [] \<longrightarrow> buf st = []) \<and> (sendq st \<noteq> [] \<longrightarrow> length (buf st) = cap) \<and>
    (\<forall>r s. r \<in> set (recvq st) \<and> s \<in> set (sendq st) \<and> claimable h' r \<and> claimable h' s
       \<longrightarrow> w_token r = w_token s) \<and>
    (\<forall>r. r \<in> set (recvq st) \<and> claimable h' r \<longrightarrow> asked st \<or> also_sends st r) \<and>
    (\<forall>w. w \<in> set (demandq st) \<and> claimable h' w \<longrightarrow> \<not> room_ahead st \<and>
       (\<forall>r. r \<in> set (recvq st) \<and> claimable h' r \<longrightarrow> also_sends st r \<or> w_token r = w_token w)) \<and>
    (closed st \<noteq> None \<longrightarrow> recvq st = [] \<and> sendq st = [] \<and> demandq st = [])"
proof -
  have "chan_inv h' st" "demand_inv h' st"
    using chan_run_new(2) [OF assms] by (simp_all add: chan_run_inv_def)
  moreover have "capacity st = cap"
    using chan_run_new(3) [OF assms] by (simp add: channel_fed_def)
  ultimately show ?thesis unfolding chan_inv_def demand_inv_def by blast
qed

text \<open>A select that receives and sends on one channel of capacity 0: both arms are queued.\<close>

lemma select_both_fails:
  fixes st :: "(int, string) chan_state"
  assumes "st = ch_state (channel_fed 0 0 0)"
  shows "failed [(0, CA_Recv), (1, CA_Send 5)] (st, heap_empty) [] []
    (st\<lparr>sendq := [], asked := True, demandq := [], recvq := [], asked := False\<rparr>, heap_empty)"
proof -
  have r: "receive st heap_empty wakes_default =
      (TR_Empty, st\<lparr>sendq := [], asked := True, demandq := []\<rparr>, heap_empty, wakes_default)"
    using assms by (simp add: receive_def take_from_sender_def wake_feeders_def channel_fed_def)
  have s: "send (st\<lparr>sendq := [], asked := True, demandq := []\<rparr>) 5 heap_empty wakes_default =
      (TS_Full 5, st\<lparr>sendq := [], asked := True, demandq := [], recvq := [], asked := False\<rparr>, heap_empty, wakes_default)"
    using assms by (simp add: send_def channel_fed_def)
  show ?thesis
    using failed_send [OF failed_recv [OF failed_none r, where i = 0] s, where i = 1] assms
    by (simp add: got_def gave_def channel_fed_def)
qed

theorem channel_no_missed_wake_witness:
  "\<exists>st h'. fifo_run chan_step (ch_state (channel_fed 0 0 0), heap_empty :: (int, string) heap)
      [] [] (st, h') \<and> recvq st \<noteq> [] \<and> sendq st \<noteq> [] \<and> \<not> asked st \<and> buf st = [] \<and> length (buf st) = 0"
proof -
  let ?st = "ch_state (channel_fed 0 0 0) :: (int, string) chan_state"
  let ?st1 = "?st\<lparr>sendq := [], asked := True, demandq := [], recvq := [], asked := False\<rparr>"
  let ?ys = "[(0, CA_Recv), (1, CA_Send (5 :: int))]"
  let ?h = "snd (token_new 3 None heap_empty) :: (int, string) heap"
  have "token_new 3 None heap_empty = (0, ?h)" by (simp add: token_new_def heap_empty_def)
  from cs_park [OF select_both_fails [OF refl] this, of ?ys]
  have run: "fifo_run chan_step (?st, heap_empty) [] [] (fold (push_arm 0) ?ys ?st1, ?h)"
    by (simp add: fifo_run_one)
  have "recvq (fold (push_arm 0) ?ys ?st1) \<noteq> [] \<and> sendq (fold (push_arm 0) ?ys ?st1) \<noteq> [] \<and>
      \<not> asked (fold (push_arm 0) ?ys ?st1)"
    by (simp add: push_recv_def push_send_def)
  with run channel_no_missed_wake [OF run] show ?thesis by blast
qed

text \<open>C18: After a close nothing is sent any more and what was buffered is still received: the
  first close stands and completes every wait on the channel that can be completed; from then on
  a send gives the close back, a receive gives the buffered values in order and then the close,
  and neither changes anything else.\<close>

theorem channel_close_stands:
  assumes "chan_inv h st" and "close_state st c h ws = (True, st1, h1, ws1)"
  shows "closed st1 = Some c \<and> buf st1 = buf st \<and>
    (\<forall>w. w \<in> set (sendq st @ recvq st @ demandq st) \<longrightarrow> claim h1 (w_token w) = None) \<and>
    close_state st1 c' h2 ws2 = (False, st1, h2, ws2) \<and>
    send st1 v h2 ws2 = (TS_Closed c, st1, h2, ws2) \<and>
    receive st1 h2 ws2 =
      (case buf st of [] \<Rightarrow> (TR_Closed c, st1, h2, ws2)
       | v # rest \<Rightarrow> (TR_Value v, st1\<lparr>buf := rest\<rparr>, h2, ws2))"
proof -
  let ?q = "sendq st @ recvq st @ demandq st"
  have st1: "st1 = st\<lparr>sendq := [], recvq := [], demandq := [], closed := Some c\<rparr>"
    and h1: "h1 = fst (fire_waiters (Closed c) ?q h ws)"
    using assms(2) by (auto simp: close_state_def split_beta Let_def split: if_splits)
  have "claim h1 (w_token w) = None" if "w \<in> set ?q" for w
    unfolding h1 by (rule fire_waiters_ends [OF that])
  moreover have "receive st1 h2 ws2 = (case buf st of [] \<Rightarrow> (TR_Closed c, st1, h2, ws2)
       | v # rest \<Rightarrow> (TR_Value v, st1\<lparr>buf := rest\<rparr>, h2, ws2))"
    by (cases "buf st")
      (simp_all add: st1 receive_def take_from_sender_def demand_def wake_feeders_def)
  ultimately show ?thesis by (simp add: st1 close_state_def send_def)
qed

theorem channel_close_stands_witness:
  "closed (fst (snd (close_state (ch_state (channel_fed 0 2 0)\<lparr>buf := [1, 2]\<rparr>)
      close_default (heap_empty :: (int, string) heap) wakes_default))) = Some close_default"
proof -
  let ?st = "ch_state (channel_fed 0 2 0)\<lparr>buf := [1, 2]\<rparr> :: (int, string) chan_state"
  have "chan_inv (heap_empty :: (int, string) heap) ?st"
    by (simp add: chan_inv_def channel_fed_def)
  moreover have "close_state ?st close_default heap_empty wakes_default =
      (True, ?st\<lparr>sendq := [], recvq := [], demandq := [], closed := Some close_default\<rparr>,
       heap_empty, wakes_default)"
    by (simp add: close_state_def channel_fed_def)
  ultimately show ?thesis
    using channel_close_stands [of heap_empty ?st close_default wakes_default] by auto
qed

lemma fire_waiters_flagged:
  assumes "is_set h (tok_cancel (tokens h t))"
  shows "tok_state (tokens (fst (fire_waiters out q h ws)) t) = tok_state (tokens h t)"
  using assms
proof (induction q arbitrary: h ws)
  case (Cons w q)
  have "is_set (fst (fire u f h ws)) c = is_set h c" for u f c
    by (simp add: is_set_def sync_simps split: option.splits)
  with Cons show ?case
    by (auto simp: claim_eq claimable_def split_beta sync_simps)
qed simp

lemma fired_not_flagged:
  assumes "(h', ws') = fire (w_token w) f h ws" and "claimable h w"
    and "is_set h (tok_cancel (tokens h t))"
  shows "tok_state (tokens h' t) = tok_state (tokens h t)"
  using fire_others(2) [OF assms(1), of t] assms(2,3) by (cases "t = w_token w") (auto simp: claimable_def)

text \<open>C15: A task that was cancelled takes nothing and gives nothing: once its flag is set, no
  send, receive, close or drain of any channel changes the state of its token, so none of its
  arms is completed and no value is handed to it or taken from it.\<close>

theorem cancelled_wait_untouched:
  assumes "chan_inv h st" and "is_set h (tok_cancel (tokens h t))"
  shows "(send st v h ws = (r1, st1, h1, ws1) \<longrightarrow> tok_state (tokens h1 t) = tok_state (tokens h t)) \<and>
    (receive st h ws = (r2, st2, h2, ws2) \<longrightarrow> tok_state (tokens h2 t) = tok_state (tokens h t)) \<and>
    (close_state st c h ws = (r3, st3, h3, ws3) \<longrightarrow>
       tok_state (tokens h3 t) = tok_state (tokens h t)) \<and>
    (drain_state st h ws = (st4, h4, ws4) \<longrightarrow> tok_state (tokens h4 t) = tok_state (tokens h t))"
proof (intro conjI impI)
  have feeders: "tok_state (tokens h' t) = tok_state (tokens h t)"
    if "(st', h', ws') = wake_feeders st0 h ws" for st' h' ws' st0
    using that fire_waiters_flagged [OF assms(2), of Asked "demandq st0" ws]
    by (auto simp: wake_feeders_def) (metis fst_conv)
  show "tok_state (tokens h1 t) = tok_state (tokens h t)" if "send st v h ws = (r1, st1, h1, ws1)"
    using that by (auto elim!: send_cases dest: fired_not_flagged [OF _ _ assms(2)])
  show "tok_state (tokens h2 t) = tok_state (tokens h t)" if "receive st h ws = (r2, st2, h2, ws2)"
    using that by (auto elim!: receive_cases [OF _ chan_inv_payloads [OF assms(1)]] simp: Let_def
        split: if_splits dest: fired_not_flagged [OF _ _ assms(2)] feeders)
  show "tok_state (tokens h3 t) = tok_state (tokens h t)"
    if "close_state st c h ws = (r3, st3, h3, ws3)"
    using that fire_waiters_flagged [OF assms(2), of "Closed c" "sendq st @ recvq st @ demandq st" ws]
    by (auto simp: close_state_def split_beta Let_def split: if_splits)
  show "tok_state (tokens h4 t) = tok_state (tokens h t)" if "drain_state st h ws = (st4, h4, ws4)"
    using that by (auto simp: drain_state_def Let_def split: if_splits dest: feeders [OF sym])
qed

theorem cancelled_wait_untouched_witness:
  "let h = snd (token_new 4 (Some 0) (heap_empty\<lparr>flags := (\<lambda>_. True)\<rparr>)) :: (int, string) heap;
       st = push_recv \<lparr>w_token = 0, w_arm = 0, w_payload = None\<rparr> (ch_state (channel_fed 0 1 0))
   in tok_state (tokens (fst (snd (snd (send st 5 h wakes_default)))) 0) = tok_state (tokens h 0)"
proof -
  let ?h = "snd (token_new 4 (Some 0) (heap_empty\<lparr>flags := (\<lambda>_. True)\<rparr>)) :: (int, string) heap"
  let ?st = "push_recv \<lparr>w_token = 0, w_arm = 0, w_payload = None\<rparr>
      (ch_state (channel_fed 0 1 0)) :: (int, string) chan_state"
  have inv: "chan_inv ?h ?st"
    by (simp add: chan_inv_def push_recv_def channel_fed_def token_new_def heap_empty_def)
  have flag: "is_set ?h (tok_cancel (tokens ?h 0))"
    by (simp add: token_new_def heap_empty_def is_set_def)
  obtain r1 st1 h1 ws1 where "send ?st 5 ?h wakes_default = (r1, st1, h1, ws1)" by (metis prod_cases4)
  with cancelled_wait_untouched [OF inv flag, of 5 wakes_default r1 st1 h1 ws1] show ?thesis
    by (simp add: Let_def)
qed

text \<open>C20: A waiter that leaves a channel takes nobody with it: \<open>forget\<close> keeps every waiter of
  another wait that is still open, in its order, on all three queues; on short queues the
  waiters of the ended wait are gone at once, and on long ones the waiters left behind since the
  last sweep stay fewer than half of what is queued.\<close>

theorem forget_keeps_open_waits:
  "let st' = forget_state st t h;
       others = filter (\<lambda>w. w_token w \<noteq> t \<and> is_waiting h (w_token w));
       queued = length (recvq st) + length (sendq st) + length (demandq st)
   in others (recvq st') = others (recvq st) \<and> others (sendq st') = others (sendq st) \<and>
      others (demandq st') = others (demandq st) \<and> buf st' = buf st \<and> closed st' = closed st \<and>
      (if queued \<le> SHORT then t \<notin> w_token ` set (recvq st' @ sendq st' @ demandq st')
       else stale st' * 2 < queued)"
  unfolding Let_def forget_state_def
  by (auto simp: waiter_is_def SHORT_def intro!: filter_cong)

end
