(* ===== verification/Cell.thy ===== *)
theory Cell
  imports Channel
begin

text \<open>
  A cell (\<^verbatim>\<open>runtime/sync/cell.rs\<close>): a value that is set once, with the queue of those who
  wait for it; the result of a task and the result of an I/O operation are cells.

  \<^verbatim>\<open>complete\<close> is two atomic steps: the value is set (\<^verbatim>\<open>OnceLock::set\<close>), and then the queue is
  drained under its lock. A waiter may join between the two, and the theory shows that it is
  not lost.
\<close>

section \<open>Data and operations\<close>

record 'v cell =
  cell_label :: "string option"
  cell_value :: "'v option"
  cell_waiters :: "'v waiter list"

record ('v, 'e) cell_heap = "('v, 'e) chan_heap" +
  cells :: "addr \<Rightarrow> 'v cell"

definition cell_default :: "'v cell" where
  "cell_default = \<lparr>cell_label = None, cell_value = None, cell_waiters = []\<rparr>"

definition cell_labelled :: "string \<Rightarrow> 'v cell" where
  "cell_labelled l = cell_default\<lparr>cell_label := Some l\<rparr>"

definition cell_get :: "'v cell \<Rightarrow> 'v option" where
  "cell_get c = cell_value c"

definition cell_is_done :: "'v cell \<Rightarrow> bool" where
  "cell_is_done c \<longleftrightarrow> cell_value c \<noteq> None"

definition cell_waiting :: "'v cell \<Rightarrow> ('v, 'e, 'z) heap_scheme \<Rightarrow> nat" where
  "cell_waiting c h = length (filter (\<lambda>w. is_waiting h (w_token w)) (cell_waiters c))"

text \<open>\<^verbatim>\<open>OnceLock::set\<close>: the first value stands, a later one comes back.\<close>

definition cell_set :: "'v \<Rightarrow> 'v cell \<Rightarrow> ('v + unit) \<times> 'v cell" where
  "cell_set v c =
     (case cell_value c of
        Some _ \<Rightarrow> (Inl v, c)
      | None \<Rightarrow> (Inr (), c\<lparr>cell_value := Some v\<rparr>))"

definition cell_drain ::
  "'v cell \<Rightarrow> ('v, 'e, 'z) heap_scheme \<Rightarrow> wakes
    \<Rightarrow> 'v cell \<times> ('v, 'e, 'z) heap_scheme \<times> wakes"
where
  "cell_drain c h ws = (c\<lparr>cell_waiters := []\<rparr>, fire_waiters Done (cell_waiters c) h ws)"

definition cell_enqueue ::
  "'v waiter \<Rightarrow> 'v cell \<Rightarrow> ('v, 'e, 'z) heap_scheme \<Rightarrow> wakes
    \<Rightarrow> 'v cell \<times> ('v, 'e, 'z) heap_scheme \<times> wakes"
where
  "cell_enqueue w c h ws =
     (if cell_is_done c
      then (case claim h (w_token w) of
              Some t \<Rightarrow> (c, fire t (Arm (w_arm w) Done) h ws)
            | None \<Rightarrow> (c, h, ws))
      else (c\<lparr>cell_waiters := cell_waiters c @ [w]\<rparr>, h, ws))"

definition cell_forget :: "addr \<Rightarrow> 'v cell \<Rightarrow> 'v cell" where
  "cell_forget t c = c\<lparr>cell_waiters := filter (\<lambda>w. \<not> waiter_is w t) (cell_waiters c)\<rparr>"

definition set_cell ::
  "addr \<Rightarrow> 'v cell \<Rightarrow> ('v, 'e, 'z) cell_heap_scheme \<Rightarrow> ('v, 'e, 'z) cell_heap_scheme"
where
  "set_cell a c s = s\<lparr>cells := (cells s)(a := c)\<rparr>"

definition complete_at ::
  "(task_id \<Rightarrow> ('v, 'e, 'z) cell_heap_scheme \<Rightarrow> ('v, 'e, 'z) cell_heap_scheme) \<Rightarrow> addr \<Rightarrow> 'v
    \<Rightarrow> ('v, 'e, 'z) cell_heap_scheme \<Rightarrow> ('v + unit) \<times> ('v, 'e, 'z) cell_heap_scheme"
where
  "complete_at wake a v s =
     (case cell_set v (cells s a) of
        (Inl v1, _) \<Rightarrow> (Inl v1, s)
      | (Inr _, c) \<Rightarrow>
         (let (c1, s1, ws) = cell_drain c s wakes_default
          in (Inr (), wakes_send wake ws (set_cell a c1 s1))))"

definition enqueue_at ::
  "addr \<Rightarrow> 'v waiter \<Rightarrow> ('v, 'e, 'z) cell_heap_scheme \<Rightarrow> wakes
    \<Rightarrow> ('v, 'e, 'z) cell_heap_scheme \<times> wakes"
where
  "enqueue_at a w s ws =
     (let (c, s1, ws1) = cell_enqueue w (cells s a) s ws in (set_cell a c s1, ws1))"

definition cell_forget_at ::
  "addr \<Rightarrow> addr \<Rightarrow> ('v, 'e, 'z) cell_heap_scheme \<Rightarrow> ('v, 'e, 'z) cell_heap_scheme"
where
  "cell_forget_at a t s = set_cell a (cell_forget t (cells s a)) s"

section \<open>Runs of one cell\<close>

text \<open>
  The state of a run: the cell, the heap, whether the thread that set the value has yet to
  drain the queue, and the waiters that have joined. Any thread may complete, join or leave,
  and the rest of the program may end waits.
\<close>

inductive cell_run :: "'v cell \<Rightarrow> ('v, 'e) heap \<Rightarrow> bool \<Rightarrow> 'v waiter set \<Rightarrow> bool" where
  cr_start: "cell_run cell_default h False {}"
| cr_set: "cell_run c h d J \<Longrightarrow> cell_set v c = (Inr (), c') \<Longrightarrow> cell_run c' h True J"
| cr_set_again: "cell_run c h d J \<Longrightarrow> cell_set v c = (Inl v', c') \<Longrightarrow> cell_run c' h d J"
| cr_drain: "cell_run c h True J \<Longrightarrow> cell_drain c h ws = (c', h', ws') \<Longrightarrow> cell_run c' h' False J"
| cr_enqueue: "cell_run c h d J \<Longrightarrow> w_token w < next_token h \<Longrightarrow>
     cell_enqueue w c h ws = (c', h', ws') \<Longrightarrow> cell_run c' h' d (insert w J)"
| cr_forget: "cell_run c h d J \<Longrightarrow> \<not> is_waiting h t \<Longrightarrow> cell_run (cell_forget t c) h d J"
| cr_other: "cell_run c h d J \<Longrightarrow> heap_le h h' \<Longrightarrow> cell_run c h' d J"

definition cell_inv :: "'v cell \<Rightarrow> ('v, 'e) heap \<Rightarrow> bool \<Rightarrow> 'v waiter set \<Rightarrow> bool" where
  "cell_inv c h d J \<longleftrightarrow>
     (cell_value c = None \<longrightarrow> \<not> d) \<and>
     (cell_value c \<noteq> None \<and> \<not> d \<longrightarrow> cell_waiters c = []) \<and>
     (\<forall>w \<in> J. w_token w < next_token h \<and> (claimable h w \<longrightarrow> w \<in> set (cell_waiters c)))"

lemma cell_inv_heap_le:
  assumes "cell_inv c h d J" and "heap_le h h'"
  shows "cell_inv c h' d J"
proof -
  have "next_token h \<le> next_token h'" using assms(2) by (simp add: heap_le_def)
  then have "w_token w < next_token h' \<and> (claimable h' w \<longrightarrow> w \<in> set (cell_waiters c))"
    if "w \<in> J" for w
    using that assms(1) claimable_heap_le_back [OF assms(2)]
    unfolding cell_inv_def by (meson less_le_trans)
  then show ?thesis using assms(1) unfolding cell_inv_def by blast
qed

lemma cell_drain_heap_le: "cell_drain c h ws = (c', h', ws') \<Longrightarrow> heap_le h h'"
  using fire_waiters_heap_le [of h Done "cell_waiters c" ws] by (auto simp: cell_drain_def)

lemma cell_enqueue_heap_le: "cell_enqueue w c h ws = (c', h', ws') \<Longrightarrow> heap_le h h'"
  using heap_le_fire [OF claimable_waiting, of h w "Arm (w_arm w) Done" ws]
  by (auto simp: cell_enqueue_def claim_eq split: if_splits)

lemma claim_None_iff: "claim h (w_token w) = None \<longleftrightarrow> \<not> claimable h w"
  by (simp add: claim_eq)

lemma cell_run_inv: "cell_run c h d J \<Longrightarrow> cell_inv c h d J"
proof (induction rule: cell_run.induct)
  case (cr_drain c h J ws c' h' ws')
  note le = cell_inv_heap_le [OF cr_drain.IH cell_drain_heap_le [OF cr_drain.hyps(2)]]
  have "c' = c\<lparr>cell_waiters := []\<rparr>" "h' = fst (fire_waiters Done (cell_waiters c) h ws)"
    using cr_drain.hyps(2) by (auto simp: cell_drain_def)
  moreover have "\<not> claimable h' w" if "w \<in> set (cell_waiters c)" for w
    using fire_waiters_ends [OF that, of Done h ws] calculation(2) by (simp add: claim_None_iff)
  ultimately show ?case using le by (auto simp: cell_inv_def)
next
  case (cr_enqueue c h d J w ws c' h' ws')
  note le = cell_inv_heap_le [OF cr_enqueue.IH cell_enqueue_heap_le [OF cr_enqueue.hyps(3)]]
  show ?case
  proof (cases "cell_is_done c")
    case False
    with cr_enqueue.hyps(2,3) le show ?thesis
      by (auto simp: cell_enqueue_def cell_inv_def cell_is_done_def)
  next
    case True
    have "\<not> claimable h' w"
    proof (cases "claimable h w")
      case claimed: True
      with True cr_enqueue.hyps(3) have "h' = fst (fire (w_token w) (Arm (w_arm w) Done) h ws)"
        by (auto simp: cell_enqueue_def claim_eq)
      then show ?thesis by (simp add: sync_simps flip: claim_None_iff)
    qed (use True cr_enqueue.hyps(3) in \<open>simp add: cell_enqueue_def claim_eq\<close>)
    moreover have "c' = c" "next_token h \<le> next_token h'"
      using True cr_enqueue.hyps(3) cell_enqueue_heap_le [OF cr_enqueue.hyps(3)]
      by (auto simp: cell_enqueue_def heap_le_def split: option.splits)
    ultimately show ?thesis using le cr_enqueue.hyps(2) by (auto simp: cell_inv_def)
  qed
next
  case (cr_forget c h d J t)
  then show ?case
    by (auto simp: cell_inv_def cell_forget_def waiter_is_def claimable_def)
next
  case (cr_other c h d J h')
  then show ?case by (blast intro: cell_inv_heap_le)
qed (auto simp: cell_inv_def cell_set_def cell_default_def split: option.splits)

section \<open>Properties\<close>

text \<open>C19: Nobody waits for a cell that is complete: however completions, waiters that join or
  leave and the rest of the program are interleaved (a waiter may join between the moment the
  value is set and the moment the queue is drained), once the thread that set the value has
  drained the queue, no waiter that ever joined has a wait that is open and not cancelled, and
  the queue is empty; and the value set first is never replaced.\<close>

theorem cell_no_lost_waiter:
  assumes "cell_run c h d J"
  shows "(cell_is_done c \<and> \<not> d \<longrightarrow>
      cell_waiters c = [] \<and> (\<forall>w. w \<in> J \<longrightarrow> claim h (w_token w) = None)) \<and>
    (\<forall>v. cell_is_done c \<longrightarrow> cell_set v c = (Inl v, c)) \<and>
    (\<forall>w. w \<in> J \<and> claim h (w_token w) \<noteq> None \<longrightarrow> w \<in> set (cell_waiters c))"
  using cell_run_inv [OF assms]
  by (auto simp: cell_inv_def cell_is_done_def cell_set_def claim_eq split: if_splits)

theorem cell_no_lost_waiter_witness:
  "\<exists>c h. cell_run c h False {\<lparr>w_token = 0, w_arm = 1, w_payload = None\<rparr> :: int waiter} \<and>
     cell_is_done c \<and> claim (h :: (int, string) heap) 0 = None"
proof -
  let ?h = "snd (token_new 3 None heap_empty) :: (int, string) heap"
  let ?w = "\<lparr>w_token = 0, w_arm = 1, w_payload = None\<rparr> :: int waiter"
  let ?c1 = "cell_default\<lparr>cell_waiters := [?w]\<rparr> :: int cell"
  let ?c2 = "?c1\<lparr>cell_value := Some 7\<rparr>"
  have "cell_run ?c1 ?h False (insert ?w {})"
    by (rule cr_enqueue [OF cr_start, where w = ?w and ws = wakes_default])
      (simp_all add: token_new_def heap_empty_def cell_enqueue_def cell_is_done_def cell_default_def)
  then have "cell_run ?c2 ?h True {?w}"
    by (rule cr_set [where v = 7]) (simp add: cell_set_def cell_default_def)
  then have run: "cell_run (?c2\<lparr>cell_waiters := []\<rparr>)
      (fst (fire_waiters Done [?w] ?h wakes_default)) False {?w}"
    by (rule cr_drain [where ws = wakes_default
          and ws' = "snd (fire_waiters Done [?w] ?h wakes_default)"])
      (simp add: cell_drain_def del: fire_waiters.simps)
  have "cell_is_done (?c2\<lparr>cell_waiters := []\<rparr>)" by (simp add: cell_is_done_def)
  moreover from this cell_no_lost_waiter [OF run]
  have "claim (fst (fire_waiters Done [?w] ?h wakes_default)) (w_token ?w) = None" by blast
  then have "claim (fst (fire_waiters Done [?w] ?h wakes_default)) 0 = None"
    by (simp only: waiter.select_convs)
  ultimately show ?thesis using run by blast
qed

end
