(* ===== verification/Timer.thy ===== *)
theory Timer
  imports Cell "HOL-Library.Product_Lexorder"
begin

text \<open>
  Deadlines on the VM's clock (\<^verbatim>\<open>runtime/sync/timer.rs\<close>, and the clock side of
  \<^verbatim>\<open>vm/io.rs\<close>). The entries are an ordered map from a deadline and a number to what is to
  happen then; the model of the \<^verbatim>\<open>BTreeMap\<close> is its entries in key order.

  A \<^verbatim>\<open>Duration\<close> is a number of nanoseconds. The reading of the clock is part of the state; an
  embedder's clock can give any reading, and can have panicked (\<open>clock_failure\<close>).
\<close>

section \<open>Data\<close>

type_synonym timer_id = "nat \<times> nat"

datatype action = Act_Fire addr | Act_Expire addr | Act_Close addr

record ('v, 'e) sync = "('v, 'e) cell_heap" +
  timer_next :: nat
  by_deadline :: "(timer_id \<times> action) list"
  pending :: nat
  clock :: nat
  system_clock :: bool
  clock_failure :: bool
  fires_every_deadline :: bool

text \<open>The largest \<^verbatim>\<open>Duration\<close>: \<open>2 ^ 64 - 1\<close> seconds and \<open>999999999\<close> nanoseconds.\<close>

definition DURATION_MAX :: nat where
  "DURATION_MAX = 2 ^ 64 * 1000000000 - 1"

definition POLL :: nat where
  "POLL = 1000000"

section \<open>The ordered map of the entries\<close>

fun bt_insert :: "timer_id \<Rightarrow> action \<Rightarrow> (timer_id \<times> action) list \<Rightarrow> (timer_id \<times> action) list" where
  "bt_insert k v [] = [(k, v)]"
| "bt_insert k v ((k', v') # xs) =
     (if k < k' then (k, v) # (k', v') # xs
      else if k = k' then (k, v) # xs
      else (k', v') # bt_insert k v xs)"

definition bt_remove :: "timer_id \<Rightarrow> (timer_id \<times> action) list \<Rightarrow> (timer_id \<times> action) list" where
  "bt_remove k xs = filter (\<lambda>e. fst e \<noteq> k) xs"

text \<open>\<^verbatim>\<open>split_off\<close> leaves the entries below the key and returns the others.\<close>

definition bt_split_off ::
  "timer_id \<Rightarrow> (timer_id \<times> action) list \<Rightarrow> (timer_id \<times> action) list \<times> (timer_id \<times> action) list"
where
  "bt_split_off k xs = (filter (\<lambda>e. fst e < k) xs, filter (\<lambda>e. \<not> fst e < k) xs)"

section \<open>The operations of the timer\<close>

definition deadline_of :: "timer_id \<Rightarrow> nat" where
  "deadline_of i = fst i"

definition ends_passed_deadlines_at_once :: "('v, 'e, 'z) sync_scheme \<Rightarrow> bool" where
  "ends_passed_deadlines_at_once s = (\<not> fires_every_deadline s)"

definition deadline_after :: "('v, 'e, 'z) sync_scheme \<Rightarrow> nat \<Rightarrow> nat option" where
  "deadline_after s d = (if clock s + d \<le> DURATION_MAX then Some (clock s + d) else None)"

definition io_real_wait :: "('v, 'e, 'z) sync_scheme \<Rightarrow> nat \<Rightarrow> nat" where
  "io_real_wait s left = (if system_clock s then left else min left POLL)"

definition timer_arm ::
  "nat \<Rightarrow> action \<Rightarrow> ('v, 'e, 'z) sync_scheme \<Rightarrow> timer_id \<times> ('v, 'e, 'z) sync_scheme"
where
  "timer_arm d act s =
     (let i = (d, timer_next s)
      in (i, s\<lparr>timer_next := u64_add (timer_next s) 1,
               by_deadline := bt_insert i act (by_deadline s),
               pending := u64_add (pending s) 1\<rparr>))"

definition fire_at ::
  "nat \<Rightarrow> addr \<Rightarrow> ('v, 'e, 'z) sync_scheme \<Rightarrow> timer_id \<times> ('v, 'e, 'z) sync_scheme"
where
  "fire_at d t s = timer_arm d (Act_Fire t) s"

definition expire_at ::
  "nat \<Rightarrow> addr \<Rightarrow> ('v, 'e, 'z) sync_scheme \<Rightarrow> timer_id \<times> ('v, 'e, 'z) sync_scheme"
where
  "expire_at d t s = timer_arm d (Act_Expire t) s"

definition timer_close_at ::
  "nat \<Rightarrow> addr \<Rightarrow> ('v, 'e, 'z) sync_scheme \<Rightarrow> timer_id \<times> ('v, 'e, 'z) sync_scheme"
where
  "timer_close_at d a s = timer_arm d (Act_Close a) (set_closes_by_timer a s)"

definition disarm ::
  "timer_id \<Rightarrow> ('v, 'e, 'z) sync_scheme \<Rightarrow> bool \<times> ('v, 'e, 'z) sync_scheme"
where
  "disarm i s =
     (let removed = (i \<in> fst ` set (by_deadline s));
          s1 = s\<lparr>by_deadline := bt_remove i (by_deadline s)\<rparr>
      in (removed, if removed then s1\<lparr>pending := u64_sub (pending s1) 1\<rparr> else s1))"

definition next_deadline :: "('v, 'e, 'z) sync_scheme \<Rightarrow> nat option" where
  "next_deadline s = (case by_deadline s of [] \<Rightarrow> None | (i, _) # _ \<Rightarrow> Some (fst i))"

text \<open>Subtraction on natural numbers stops at zero, as \<^verbatim>\<open>saturating_sub\<close> does.\<close>

definition real_wait :: "('v, 'e, 'z) sync_scheme \<Rightarrow> nat option" where
  "real_wait s = map_option (\<lambda>d. io_real_wait s (d - clock s)) (next_deadline s)"

fun carry_out ::
  "(task_id \<Rightarrow> ('v, 'e, 'z) sync_scheme \<Rightarrow> ('v, 'e, 'z) sync_scheme) \<Rightarrow> (timer_id \<times> action) list
    \<Rightarrow> ('v, 'e, 'z) sync_scheme \<Rightarrow> wakes \<Rightarrow> ('v, 'e, 'z) sync_scheme \<times> wakes"
where
  "carry_out wake [] s ws = (s, ws)"
| "carry_out wake ((_, Act_Fire t) # due) s ws =
     (case claim s t of
        Some c \<Rightarrow> (let (s1, ws1) = fire c Deadline s ws in carry_out wake due s1 ws1)
      | None \<Rightarrow> carry_out wake due s ws)"
| "carry_out wake ((_, Act_Expire t) # due) s ws =
     (case claim s t of
        Some c \<Rightarrow> (let (s1, ws1) = expire c s ws in carry_out wake due s1 ws1)
      | None \<Rightarrow> carry_out wake due s ws)"
| "carry_out wake ((_, Act_Close a) # due) s ws =
     carry_out wake due (snd (close_at wake a close_default s)) ws"

definition take_due ::
  "('v, 'e, 'z) sync_scheme \<Rightarrow> (timer_id \<times> action) list \<times> (timer_id \<times> action) list"
where
  "take_due s =
     (if clock_failure s then (by_deadline s, [])
      else bt_split_off (clock s, U64_MAX) (by_deadline s))"

definition fire_due ::
  "(task_id \<Rightarrow> ('v, 'e, 'z) sync_scheme \<Rightarrow> ('v, 'e, 'z) sync_scheme)
    \<Rightarrow> ('v, 'e, 'z) sync_scheme \<Rightarrow> nat \<times> ('v, 'e, 'z) sync_scheme"
where
  "fire_due wake s =
     (let (due, later) = take_due s;
          (s1, ws) = carry_out wake due (s\<lparr>by_deadline := later\<rparr>) wakes_default;
          s2 = wakes_send wake ws s1;
          count = length due
      in (count, s2\<lparr>pending := u64_sub (pending s2) count\<rparr>))"

text \<open>A runtime that has not started: no token, channel \<open>a\<close> with capacity \<open>cap a\<close>, no entry in
  the timer.\<close>

definition sync_empty :: "(addr \<Rightarrow> nat) \<Rightarrow> ('v, 'e) sync" where
  "sync_empty cap = \<lparr>flags = (\<lambda>_. False),
     tokens = (\<lambda>_. \<lparr>tok_task = 0, tok_cancel = None, tok_ended_by = 0, tok_state = Taken\<rparr>),
     next_token = 0, panicked = False, channels = (\<lambda>a. channel_new a (cap a)),
     unjoined_failure = (\<lambda>_. False), cells = (\<lambda>_. cell_default), timer_next = 0, by_deadline = [],
     pending = 0, clock = 0, system_clock = True, clock_failure = False, fires_every_deadline = False\<rparr>"

section \<open>The invariant of the timer\<close>

text \<open>
  The entries are in key order, their numbers were handed out, and \<open>pending\<close> counts them
  together with the \<open>n\<close> entries that are being carried out. The counter of the numbers has not
  come to its end: fewer than \<open>2 ^ 64 - 1\<close> deadlines were ever set.
\<close>

definition keys :: "(timer_id \<times> action) list \<Rightarrow> timer_id list" where
  "keys xs = map fst xs"

definition timer_inv :: "nat \<Rightarrow> ('v, 'e, 'z) sync_scheme \<Rightarrow> bool" where
  "timer_inv n s \<longleftrightarrow>
     sorted_wrt (<) (keys (by_deadline s)) \<and>
     (\<forall>i \<in> set (keys (by_deadline s)). snd i < timer_next s) \<and> timer_next s \<le> U64_MAX \<and>
     pending s = length (by_deadline s) + n \<and> pending s \<le> U64_MAX"

lemma set_keys_insert: "set (keys (bt_insert k v xs)) = insert k (set (keys xs))"
  by (induction k v xs rule: bt_insert.induct) (auto simp: keys_def)

lemma sorted_bt_insert: "sorted_wrt (<) (keys xs) \<Longrightarrow> sorted_wrt (<) (keys (bt_insert k v xs))"
proof (induction k v xs rule: bt_insert.induct)
  case (2 k v k' v' xs)
  have "set (keys (bt_insert k v xs)) = insert k (set (keys xs))" by (rule set_keys_insert)
  with 2 show ?case by (auto simp: keys_def)
qed (simp add: keys_def)

lemma length_bt_insert: "k \<notin> set (keys xs) \<Longrightarrow> length (bt_insert k v xs) = Suc (length xs)"
  by (induction k v xs rule: bt_insert.induct) (auto simp: keys_def)

lemma bt_remove_absent: "k \<notin> set (keys xs) \<Longrightarrow> bt_remove k xs = xs"
  by (induction xs) (auto simp: bt_remove_def keys_def)

lemma bt_remove_insert: "k \<notin> set (keys xs) \<Longrightarrow> bt_remove k (bt_insert k v xs) = xs"
proof (induction k v xs rule: bt_insert.induct)
  case (2 k v k' v' xs)
  with bt_remove_absent [of k xs] show ?case by (auto simp: keys_def bt_remove_def)
qed (simp add: bt_remove_def)

lemma set_bt_insert: "k \<notin> set (keys xs) \<Longrightarrow> set (bt_insert k v xs) = insert (k, v) (set xs)"
  by (induction k v xs rule: bt_insert.induct) (auto simp: keys_def)

lemma sorted_keys_filter: "sorted_wrt (<) (keys xs) \<Longrightarrow> sorted_wrt (<) (keys (filter P xs))"
  by (induction xs) (auto simp: keys_def)

lemma set_keys_filter: "set (keys (filter P xs)) \<subseteq> set (keys xs)"
  by (auto simp: keys_def)

lemma length_bt_remove:
  assumes "sorted_wrt (<) (keys xs)" and "k \<in> set (keys xs)"
  shows "Suc (length (bt_remove k xs)) = length xs"
  using assms
proof (induction xs)
  case (Cons x xs)
  show ?case
  proof (cases "fst x = k")
    case True
    with Cons.prems have "k \<notin> set (keys xs)" by (auto simp: keys_def)
    then have "bt_remove k xs = xs" by (rule bt_remove_absent)
    with True show ?thesis by (simp add: bt_remove_def)
  next
    case False
    with Cons show ?thesis by (simp add: keys_def bt_remove_def)
  qed
qed (simp add: keys_def)

lemma keys_fresh: "timer_inv n s \<Longrightarrow> (d, timer_next s) \<notin> set (keys (by_deadline s))"
  by (auto simp: timer_inv_def)

lemma timer_inv_arm:
  assumes "timer_inv n s" and "timer_next s < U64_MAX" and "pending s < U64_MAX"
    and "timer_arm d act s = (i, s')"
  shows "timer_inv n s'"
proof -
  have "u64_add (timer_next s) 1 = Suc (timer_next s)" "u64_add (pending s) 1 = Suc (pending s)"
    using assms(2,3) by (simp_all add: u64_add_small)
  moreover have "length (bt_insert (d, timer_next s) act (by_deadline s)) = Suc (length (by_deadline s))"
    by (rule length_bt_insert [OF keys_fresh [OF assms(1)]])
  moreover have "\<forall>j \<in> set (keys (bt_insert (d, timer_next s) act (by_deadline s))).
      snd j < Suc (timer_next s)"
    using assms(1) unfolding set_keys_insert timer_inv_def by (fastforce intro: less_SucI)
  moreover have "s' = s\<lparr>timer_next := u64_add (timer_next s) 1,
      by_deadline := bt_insert (d, timer_next s) act (by_deadline s), pending := u64_add (pending s) 1\<rparr>"
    using assms(4) by (auto simp: timer_arm_def Let_def)
  ultimately show ?thesis
    using assms(1-3) sorted_bt_insert [of "by_deadline s" "(d, timer_next s)" act]
    by (simp add: timer_inv_def)
qed

lemma timer_inv_disarm:
  assumes "timer_inv n s" and "disarm i s = (b, s')"
  shows "timer_inv n s'"
proof (cases "i \<in> fst ` set (by_deadline s)")
  case True
  with assms(1) have "Suc (length (bt_remove i (by_deadline s))) = length (by_deadline s)"
    by (intro length_bt_remove) (auto simp: timer_inv_def keys_def)
  moreover have "u64_sub (pending s) 1 = pending s - 1"
    using assms(1) calculation by (intro u64_sub_small) (auto simp: timer_inv_def)
  moreover have "\<forall>j \<in> set (keys (bt_remove i (by_deadline s))). snd j < timer_next s"
    using assms(1) set_keys_filter unfolding timer_inv_def bt_remove_def by fastforce
  moreover have "sorted_wrt (<) (keys (bt_remove i (by_deadline s)))"
    using assms(1) unfolding timer_inv_def bt_remove_def by (blast intro: sorted_keys_filter)
  moreover have "s' = s\<lparr>by_deadline := bt_remove i (by_deadline s), pending := u64_sub (pending s) 1\<rparr>"
    using True assms(2) by (auto simp: disarm_def Let_def)
  ultimately show ?thesis
    using assms(1) by (auto simp add: timer_inv_def simp del: split_paired_All)
next
  case False
  then have "bt_remove i (by_deadline s) = by_deadline s"
    by (simp add: bt_remove_absent keys_def)
  with False assms show ?thesis by (simp add: timer_inv_def disarm_def Let_def)
qed

text \<open>What \<^verbatim>\<open>split_off\<close> at \<open>(now, u64::MAX)\<close> separates: the deadlines that have come from those
  that have not.\<close>

lemma take_due_eq:
  assumes "timer_inv n s" and "\<not> clock_failure s"
  shows "take_due s = (filter (\<lambda>e. fst (fst e) \<le> clock s) (by_deadline s),
     filter (\<lambda>e. clock s < fst (fst e)) (by_deadline s))"
proof -
  have "fst e < (clock s, U64_MAX) \<longleftrightarrow> fst (fst e) \<le> clock s" if "e \<in> set (by_deadline s)" for e
  proof -
    have "snd (fst e) < U64_MAX"
      using that assms(1) unfolding timer_inv_def keys_def by (auto dest: less_le_trans)
    then show ?thesis by (cases e) (auto simp: less_prod_def)
  qed
  then show ?thesis
    using assms(2) by (auto simp: take_due_def bt_split_off_def intro!: filter_cong)
qed

end
