(* ===== verification/Wait.thy ===== *)
theory Wait
  imports Timer
begin

text \<open>
  What a task waits for, and the park that starts the wait (\<^verbatim>\<open>runtime/sync/wait.rs\<close>).

  \<^verbatim>\<open>park\<close> holds the locks of all channels of the wait from the first look at an arm until the
  task is on every queue, so the search for an arm that can be completed and the entry into the
  queues are one atomic step; the completion of a cell that comes after it is found when the
  task joins the cell's queue. \<open>wake\<close> is the scheduler's side of a wake.
\<close>

section \<open>Data\<close>

datatype 'v arm = Arm_Recv addr | Arm_Send addr 'v | Arm_Cell addr | Arm_Demand addr

datatype source = Source_Recv addr | Source_Send addr | Source_Cell addr | Source_Demand addr

record 'v wait =
  arms :: "'v arm list"
  deadline :: "nat option"
  first :: nat
  wait_cancel :: "addr option"
  task_deadline :: "nat option"
  bounded :: bool

record parked =
  p_token :: addr
  p_sources :: "source list"
  p_timer :: "timer_id option"

datatype ('v, 'e) park_result =
    Park_Ready "('v, 'e) fired"
  | Park_Parked parked
  | Park_Cancelled
  | Park_Expired

record times =
  t_deadline :: "nat option"
  t_expired :: bool
  t_task_deadline :: "nat option"
  t_task_expired :: bool

section \<open>Arms, sources and waits\<close>

fun arm_split :: "'v arm \<Rightarrow> source \<times> 'v option" where
  "arm_split (Arm_Recv a) = (Source_Recv a, None)"
| "arm_split (Arm_Send a v) = (Source_Send a, Some v)"
| "arm_split (Arm_Cell a) = (Source_Cell a, None)"
| "arm_split (Arm_Demand a) = (Source_Demand a, None)"

definition wait_new :: "'v arm list \<Rightarrow> 'v wait" where
  "wait_new as = \<lparr>arms = as, deadline = None, first = 0, wait_cancel = None,
     task_deadline = None, bounded = True\<rparr>"

definition wait_unbounded :: "'v wait \<Rightarrow> 'v wait" where
  "wait_unbounded w = w\<lparr>bounded := False\<rparr>"

definition with_task_deadline :: "nat option \<Rightarrow> 'v wait \<Rightarrow> 'v wait" where
  "with_task_deadline d w = (if bounded w then w\<lparr>task_deadline := d\<rparr> else w)"

definition with_deadline :: "nat option \<Rightarrow> 'v wait \<Rightarrow> 'v wait" where
  "with_deadline d w = w\<lparr>deadline := d\<rparr>"

definition wait_first :: "nat \<Rightarrow> 'v wait \<Rightarrow> 'v wait" where
  "wait_first i w = w\<lparr>first := i\<rparr>"

definition with_cancel :: "addr option \<Rightarrow> 'v wait \<Rightarrow> 'v wait" where
  "with_cancel c w = w\<lparr>wait_cancel := c\<rparr>"

fun source_channel :: "source \<Rightarrow> addr option" where
  "source_channel (Source_Recv a) = Some a"
| "source_channel (Source_Send a) = Some a"
| "source_channel (Source_Demand a) = Some a"
| "source_channel (Source_Cell a) = None"

definition source_closes_by_timer :: "('v, 'e, 'z) sync_scheme \<Rightarrow> source \<Rightarrow> bool" where
  "source_closes_by_timer s src =
     (case source_channel src of Some a \<Rightarrow> closes_by_timer (channels s a) | None \<Rightarrow> False)"

text \<open>The locks of a wait, in the order they are taken: by address, each once.\<close>

definition park_locks :: "source list \<Rightarrow> addr list" where
  "park_locks srcs = remdups_adj (sort (List.map_filter source_channel srcs))"

definition takes_nothing_new :: "bool \<Rightarrow> bool \<Rightarrow> bool" where
  "takes_nothing_new cancelled task_expired \<longleftrightarrow> cancelled \<or> task_expired"

section \<open>Trying the arms\<close>

definition update_chan ::
  "addr \<Rightarrow> (('v, 'e) chan_state \<Rightarrow> ('v, 'e) chan_state) \<Rightarrow> ('v, 'e, 'z) sync_scheme
    \<Rightarrow> ('v, 'e, 'z) sync_scheme"
where
  "update_chan a f s = set_chan a (f (chan_at s a)) s"

definition recv_arm ::
  "addr \<Rightarrow> ('v, 'e, 'z) sync_scheme \<Rightarrow> wakes
    \<Rightarrow> ('v, 'e) outcome option \<times> ('v, 'e, 'z) sync_scheme \<times> wakes"
where
  "recv_arm a s ws =
     (let (r, st, s1, ws1) = receive (chan_at s a) s ws;
          s2 = set_chan a st s1
      in case r of
           TR_Value v \<Rightarrow> (Some (Received v), s2, ws1)
         | TR_Closed c \<Rightarrow> (Some (Closed c), s2, ws1)
         | TR_Empty \<Rightarrow> (None, s2, ws1))"

text \<open>A send arm gives its value back when it could not be sent.\<close>

definition send_arm ::
  "addr \<Rightarrow> 'v \<Rightarrow> ('v, 'e, 'z) sync_scheme \<Rightarrow> wakes
    \<Rightarrow> ('v, 'e) outcome option \<times> 'v option \<times> ('v, 'e, 'z) sync_scheme \<times> wakes"
where
  "send_arm a v s ws =
     (let (r, st, s1, ws1) = send (chan_at s a) v s ws;
          s2 = set_chan a st s1
      in case r of
           TS_Sent \<Rightarrow> (Some Sent, None, s2, ws1)
         | TS_Closed c \<Rightarrow> (Some (Closed c), None, s2, ws1)
         | TS_Full v1 \<Rightarrow> (None, Some v1, s2, ws1))"

fun try_arm ::
  "bool \<Rightarrow> source \<Rightarrow> 'v option \<Rightarrow> ('v, 'e, 'z) sync_scheme \<Rightarrow> wakes
    \<Rightarrow> ('v, 'e) outcome option \<times> 'v option \<times> ('v, 'e, 'z) sync_scheme \<times> wakes"
where
  "try_arm no_takes (Source_Recv a) p s ws =
     (if no_takes then (None, p, s, ws)
      else (let (out, s1, ws1) = recv_arm a s ws in (out, p, s1, ws1)))"
| "try_arm no_takes (Source_Demand a) p s ws =
     (if no_takes then (None, p, s, ws) else (demand (chan_at s a), p, s, ws))"
| "try_arm no_takes (Source_Send a) p s ws =
     (case p of
        Some v \<Rightarrow> send_arm a v s ws
      | None \<Rightarrow> (None, None, s\<lparr>panicked := True\<rparr>, ws))"
| "try_arm no_takes (Source_Cell a) p s ws =
     (if cell_is_done (cells s a) then Some Done else None, p, s, ws)"

fun try_arms ::
  "bool \<Rightarrow> nat list \<Rightarrow> source list \<Rightarrow> 'v option list \<Rightarrow> ('v, 'e, 'z) sync_scheme \<Rightarrow> wakes
    \<Rightarrow> ('v, 'e) fired option \<times> 'v option list \<times> ('v, 'e, 'z) sync_scheme \<times> wakes"
where
  "try_arms no_takes [] srcs ps s ws = (None, ps, s, ws)"
| "try_arms no_takes (i # is) srcs ps s ws =
     (let (out, p, s1, ws1) = try_arm no_takes (srcs ! i) (ps ! i) s ws;
          ps1 = ps[i := p]
      in case out of
           Some r \<Rightarrow> (Some (Arm i r), ps1, s1, ws1)
         | None \<Rightarrow> try_arms no_takes is srcs ps1 s1 ws1)"

definition arm_order :: "nat \<Rightarrow> nat \<Rightarrow> nat list" where
  "arm_order from count = map (\<lambda>i. (from + i) mod count) [0..<count]"

section \<open>Joining the queues\<close>

fun push_source ::
  "addr \<Rightarrow> nat \<Rightarrow> source \<Rightarrow> 'v option \<Rightarrow> ('v, 'e, 'z) sync_scheme \<Rightarrow> ('v, 'e, 'z) sync_scheme"
where
  "push_source t i (Source_Recv a) p s =
     update_chan a (push_recv \<lparr>w_token = t, w_arm = i, w_payload = p\<rparr>) s"
| "push_source t i (Source_Send a) p s =
     update_chan a (push_send \<lparr>w_token = t, w_arm = i, w_payload = p\<rparr>) s"
| "push_source t i (Source_Demand a) p s =
     update_chan a (push_demand \<lparr>w_token = t, w_arm = i, w_payload = p\<rparr>) s"
| "push_source t i (Source_Cell a) p s = s"

fun push_sources ::
  "addr \<Rightarrow> nat \<Rightarrow> (source \<times> 'v option) list \<Rightarrow> ('v, 'e, 'z) sync_scheme \<Rightarrow> ('v, 'e, 'z) sync_scheme"
where
  "push_sources t i [] s = s"
| "push_sources t i ((src, p) # rest) s = push_sources t (Suc i) rest (push_source t i src p s)"

fun enqueue_cells ::
  "addr \<Rightarrow> nat \<Rightarrow> source list \<Rightarrow> ('v, 'e, 'z) sync_scheme \<Rightarrow> wakes
    \<Rightarrow> ('v, 'e, 'z) sync_scheme \<times> wakes"
where
  "enqueue_cells t i [] s ws = (s, ws)"
| "enqueue_cells t i (Source_Cell a # rest) s ws =
     (let (s1, ws1) = enqueue_at a \<lparr>w_token = t, w_arm = i, w_payload = None\<rparr> s ws
      in enqueue_cells t (Suc i) rest s1 ws1)"
| "enqueue_cells t i (src # rest) s ws = enqueue_cells t (Suc i) rest s ws"

text \<open>One entry in the timer, at the earlier of the two times; at the same reading it is the
  task's.\<close>

definition times_arm ::
  "times \<Rightarrow> addr \<Rightarrow> ('v, 'e, 'z) sync_scheme \<Rightarrow> timer_id option \<times> ('v, 'e, 'z) sync_scheme"
where
  "times_arm ti t s =
     (case (t_deadline ti, t_task_deadline ti) of
        (Some own, Some task) \<Rightarrow>
          (if own < task then map_prod Some id (fire_at own t s)
           else map_prod Some id (expire_at task t s))
      | (None, Some task) \<Rightarrow> map_prod Some id (expire_at task t s)
      | (Some own, None) \<Rightarrow> map_prod Some id (fire_at own t s)
      | (None, None) \<Rightarrow> (None, s))"

section \<open>Park\<close>

definition park_many ::
  "(task_id \<Rightarrow> ('v, 'e, 'z) sync_scheme \<Rightarrow> ('v, 'e, 'z) sync_scheme) \<Rightarrow> task_id \<Rightarrow> 'v arm list
    \<Rightarrow> nat \<Rightarrow> times \<Rightarrow> addr option \<Rightarrow> ('v, 'e, 'z) sync_scheme
    \<Rightarrow> ('v, 'e) park_result \<times> ('v, 'e, 'z) sync_scheme"
where
  "park_many wake task as from ti cancel s =
     (let srcs = map (fst \<circ> arm_split) as;
          ps = map (snd \<circ> arm_split) as;
          cancelled = is_set s cancel;
          no_takes = takes_nothing_new cancelled (t_task_expired ti);
          (ready, ps1, s1, ws1) =
            try_arms no_takes (arm_order from (length srcs)) srcs ps s wakes_default
      in if ready = None \<and> cancelled then (Park_Cancelled, s1)
         else if ready = None \<and> t_task_expired ti then (Park_Expired, s1)
         else (let ready1 = (if ready = None \<and> t_expired ti then Some Deadline else ready)
               in case ready1 of
                    Some f \<Rightarrow> (Park_Ready f, wakes_send wake ws1 s1)
                  | None \<Rightarrow>
                     (let (t, s2) = token_new task cancel s1;
                          s3 = push_sources t 0 (zip srcs ps1) s2;
                          (s4, ws2) = enqueue_cells t 0 srcs s3 ws1;
                          s5 = wakes_send wake ws2 s4;
                          (tm, s6) = times_arm ti t s5
                      in (Park_Parked \<lparr>p_token = t, p_sources = srcs, p_timer = tm\<rparr>, s6))))"

text \<open>The fast path for a wait whose one arm is on a channel. The end both branches of the
  code share: the wakes, the timer, the result.\<close>

definition park_one_end ::
  "(task_id \<Rightarrow> ('v, 'e, 'z) sync_scheme \<Rightarrow> ('v, 'e, 'z) sync_scheme) \<Rightarrow> source \<Rightarrow> times \<Rightarrow> addr
    \<Rightarrow> ('v, 'e, 'z) sync_scheme \<Rightarrow> wakes \<Rightarrow> ('v, 'e) park_result \<times> ('v, 'e, 'z) sync_scheme"
where
  "park_one_end wake src ti t s ws =
     (let s1 = wakes_send wake ws s;
          (tm, s2) = times_arm ti t s1
      in (Park_Parked \<lparr>p_token = t, p_sources = [src], p_timer = tm\<rparr>, s2))"

definition park_one ::
  "(task_id \<Rightarrow> ('v, 'e, 'z) sync_scheme \<Rightarrow> ('v, 'e, 'z) sync_scheme) \<Rightarrow> task_id \<Rightarrow> 'v arm
    \<Rightarrow> times \<Rightarrow> addr option \<Rightarrow> ('v, 'e, 'z) sync_scheme
    \<Rightarrow> ('v, 'e) park_result \<times> ('v, 'e, 'z) sync_scheme"
where
  "park_one wake task arm ti cancel s =
     (let cancelled = is_set s cancel;
          refused = takes_nothing_new cancelled (t_task_expired ti);
          finish = (\<lambda>out s1 ws1 join.
            case out of
              Some r \<Rightarrow> (Park_Ready (Arm 0 r), wakes_send wake ws1 s1)
            | None \<Rightarrow>
               (if cancelled then (Park_Cancelled, s1)
                else if t_task_expired ti then (Park_Expired, s1)
                else if t_expired ti then (Park_Ready Deadline, wakes_send wake ws1 s1)
                else (let (t, s2) = token_new task cancel s1 in join t s2)))
      in case arm_split arm of
           (Source_Recv a, _) \<Rightarrow>
             (let (out, s1, ws1) = (if refused then (None, s, wakes_default)
                                    else recv_arm a s wakes_default)
              in finish out s1 ws1 (\<lambda>t s2. park_one_end wake (Source_Recv a) ti t
                   (update_chan a (push_recv \<lparr>w_token = t, w_arm = 0, w_payload = None\<rparr>) s2) ws1))
         | (Source_Demand a, _) \<Rightarrow>
             (let out = (if refused then None else demand (chan_at s a))
              in finish out s wakes_default (\<lambda>t s2. park_one_end wake (Source_Demand a) ti t
                   (update_chan a (push_demand \<lparr>w_token = t, w_arm = 0, w_payload = None\<rparr>) s2)
                   wakes_default))
         | (Source_Send a, Some v) \<Rightarrow>
             (let (out, p, s1, ws1) = send_arm a v s wakes_default
              in finish out s1 ws1 (\<lambda>t s2. park_one_end wake (Source_Send a) ti t
                   (update_chan a (push_send \<lparr>w_token = t, w_arm = 0, w_payload = p\<rparr>) s2) ws1))
         | _ \<Rightarrow> (Park_Cancelled, s\<lparr>panicked := True\<rparr>))"

definition park_times :: "'v wait \<Rightarrow> ('v, 'e, 'z) sync_scheme \<Rightarrow> times" where
  "park_times w s =
     (let now = (if deadline w \<noteq> None \<or> task_deadline w \<noteq> None then Some (clock s) else None);
          over = (\<lambda>at. case (at, now) of (Some d, Some n) \<Rightarrow> d \<le> n | _ \<Rightarrow> False)
      in \<lparr>t_deadline = deadline w,
          t_expired = (over (deadline w) \<and> ends_passed_deadlines_at_once s),
          t_task_deadline = task_deadline w,
          t_task_expired = over (task_deadline w)\<rparr>)"

definition park ::
  "(task_id \<Rightarrow> ('v, 'e, 'z) sync_scheme \<Rightarrow> ('v, 'e, 'z) sync_scheme) \<Rightarrow> task_id \<Rightarrow> 'v wait
    \<Rightarrow> ('v, 'e, 'z) sync_scheme \<Rightarrow> ('v, 'e) park_result \<times> ('v, 'e, 'z) sync_scheme"
where
  "park wake task w s =
     (let ti = park_times w s
      in case arms w of
           [arm] \<Rightarrow>
             (case arm of
                Arm_Cell _ \<Rightarrow> park_many wake task [arm] (first w) ti (wait_cancel w) s
              | _ \<Rightarrow> park_one wake task arm ti (wait_cancel w) s)
         | as \<Rightarrow> park_many wake task as (first w) ti (wait_cancel w) s)"

section \<open>The place of a parked task\<close>

definition parked_deadline :: "parked \<Rightarrow> nat option" where
  "parked_deadline p = map_option deadline_of (p_timer p)"

definition parked_commit ::
  "parked \<Rightarrow> ('v, 'e, 'z) sync_scheme \<Rightarrow> bool \<times> ('v, 'e, 'z) sync_scheme"
where
  "parked_commit p s = token_commit (p_token p) s"

fun forget_sources ::
  "addr \<Rightarrow> nat option \<Rightarrow> nat \<Rightarrow> source list \<Rightarrow> ('v, 'e, 'z) sync_scheme \<Rightarrow> ('v, 'e, 'z) sync_scheme"
where
  "forget_sources t by i [] s = s"
| "forget_sources t by i (src # rest) s =
     forget_sources t by (Suc i) rest
       (if by = Some i then s
        else (case src of
                Source_Cell a \<Rightarrow> cell_forget_at a t s
              | Source_Recv a \<Rightarrow> forget_at a t s
              | Source_Send a \<Rightarrow> forget_at a t s
              | Source_Demand a \<Rightarrow> forget_at a t s))"

definition drop_parked :: "parked \<Rightarrow> ('v, 'e, 'z) sync_scheme \<Rightarrow> ('v, 'e, 'z) sync_scheme" where
  "drop_parked p s =
     (let s1 = abandon (p_token p) s;
          s2 = forget_sources (p_token p) (ended_by s1 (p_token p)) 0 (p_sources p) s1
      in case p_timer p of Some i \<Rightarrow> snd (disarm i s2) | None \<Rightarrow> s2)"

text \<open>\<open>finish\<close> consumes the \<^verbatim>\<open>Parked\<close>: when the wait has ended, it is dropped.\<close>

definition parked_finish ::
  "parked \<Rightarrow> ('v, 'e, 'z) sync_scheme \<Rightarrow> ('v, 'e) resumed option \<times> ('v, 'e, 'z) sync_scheme"
where
  "parked_finish p s =
     (case token_take (p_token p) s of
        (Some r, s1) \<Rightarrow> (Some r, drop_parked p s1)
      | (None, s1) \<Rightarrow> (None, s1))"

section \<open>The fast path is the general path\<close>

lemma arm_order_one [simp]: "arm_order f (Suc 0) = [0]"
  by (simp add: arm_order_def)

lemma park_one_recv:
  "park_one wake task (Arm_Recv a) ti cancel s = park_many wake task [Arm_Recv a] f ti cancel s"
proof -
  obtain out s1 ws1 where r: "recv_arm a s wakes_default = (out, s1, ws1)" by (metis prod_cases3)
  obtain t s2 where t: "token_new task cancel s1 = (t, s2)" by fastforce
  show ?thesis
    by (cases "takes_nothing_new (is_set s cancel) (t_task_expired ti)"; cases out)
      (simp_all add: park_one_def park_many_def park_one_end_def takes_nothing_new_def r t)
qed

lemma park_one_demand:
  "park_one wake task (Arm_Demand a) ti cancel s = park_many wake task [Arm_Demand a] f ti cancel s"
proof -
  obtain t s2 where t: "token_new task cancel s = (t, s2)" by fastforce
  show ?thesis
    by (cases "takes_nothing_new (is_set s cancel) (t_task_expired ti)"; cases "demand (chan_at s a)")
      (simp_all add: park_one_def park_many_def park_one_end_def takes_nothing_new_def t)
qed

lemma park_one_send:
  "park_one wake task (Arm_Send a v) ti cancel s = park_many wake task [Arm_Send a v] f ti cancel s"
proof -
  obtain out p s1 ws1 where r: "send_arm a v s wakes_default = (out, p, s1, ws1)" by (metis prod_cases4)
  obtain t s2 where t: "token_new task cancel s1 = (t, s2)" by fastforce
  show ?thesis
    by (cases out) (simp_all add: park_one_def park_many_def park_one_end_def takes_nothing_new_def r t)
qed

text \<open>C17: The fast path of \<open>park\<close> for a wait with one arm on a channel does what the general
  path does for it: the same result, the same channel, tokens, timer and wakes. So \<open>park\<close> is
  the general path for every wait.\<close>

theorem park_is_park_many:
  "park wake task w s = park_many wake task (arms w) (first w) (park_times w s) (wait_cancel w) s"
proof (cases "arms w")
  case (Cons arm rest)
  then show ?thesis
    using park_one_recv [of wake task] park_one_send [of wake task] park_one_demand [of wake task]
    by (cases arm; cases rest) (simp_all add: park_def Let_def)
qed (simp add: park_def)

end
