(* ===== verification/Wake_Contract.thy ===== *)
theory Wake_Contract
  imports Wait "HOL-Library.Multiset"
begin

text \<open>
  The contract between the operations that end waits and the scheduler that is told of it (the
  trait \<^verbatim>\<open>Wake\<close> of \<^verbatim>\<open>runtime/sync/token.rs\<close>).

  \<open>owes W s\<close> says that the state is as it should be except that the tasks in \<open>W\<close> have yet to
  be woken. A scheduler promises that a wake pays what is owed for its task, and that ending a
  wait leaves it owing the wake of a task that was given up, and nothing else. From these laws
  every operation of the channels, the cells, the timer and \<open>park\<close> leaves the scheduler owing
  what it owed before: no wake is forgotten and none is sent for nothing.
\<close>

lemma mset_wakes_push: "mset (wakes_list (wakes_push ws k)) = add_mset k (mset (wakes_list ws))"
  by (auto simp: wakes_list_def wakes_push_def split: option.splits)

text \<open>What ending the wait of the token \<open>t\<close> adds to what is owed.\<close>

definition debt :: "('v, 'e, 'z) heap_scheme \<Rightarrow> addr \<Rightarrow> task_id multiset" where
  "debt h t = (if tok_state (tokens h t) = Parked then {#tok_task (tokens h t)#} else {#})"

lemma mset_fire_wakes: "mset (wakes_list (snd (fire t f h ws))) = mset (wakes_list ws) + debt h t"
  by (simp add: fire_wakes debt_def mset_wakes_push)

lemma mset_expire_wakes: "mset (wakes_list (snd (expire t h ws))) = mset (wakes_list ws) + debt h t"
  by (simp add: expire_wakes debt_def mset_wakes_push)

lemma fire_fst_wakes: "fst (fire t f h ws) = fst (fire t f h wakes_default)"
  by (simp add: fire_def Let_def)

text \<open>A park that is refused tried only sends and cells; when none of them could be completed,
  nobody is to be woken.\<close>

lemma try_arms_refused:
  "try_arms True is srcs ps s ws = (None, ps', s', ws') \<Longrightarrow> ws' = ws"
proof (induction "is" arbitrary: ps s ws)
  case (Cons i "is")
  obtain out p s1 ws1 where t: "try_arm True (srcs ! i) (ps ! i) s ws = (out, p, s1, ws1)"
    by (metis prod_cases4)
  from Cons.prems t have "out = None" by (cases out) auto
  with t have "ws1 = ws"
    by (cases "srcs ! i"; cases "ps ! i")
      (auto simp: send_arm_def send_def Let_def split: prod.splits try_send.splits option.splits if_splits)
  with Cons t \<open>out = None\<close> show ?case by auto
qed simp

text \<open>What \<open>park\<close> did when it left the task on the queues.\<close>

lemma park_many_ParkedD:
  assumes "park_many wake k as from ti cancel s = (Park_Parked p, s')"
  obtains ps1 s1 ws1 s2 s4 ws2 where
    "try_arms False (arm_order from (length as)) (map (fst \<circ> arm_split) as) (map (snd \<circ> arm_split) as)
      s wakes_default = (None, ps1, s1, ws1)"
    "token_new k cancel s1 = (p_token p, s2)"
    "enqueue_cells (p_token p) 0 (p_sources p) (push_sources (p_token p) 0 (zip (p_sources p) ps1) s2) ws1
      = (s4, ws2)"
    "s' = snd (times_arm ti (p_token p) (wakes_send wake ws2 s4))"
    "p_sources p = map (fst \<circ> arm_split) as" "\<not> is_set s cancel"
    "\<not> t_task_expired ti" "\<not> t_expired ti"
proof -
  define no where "no = takes_nothing_new (is_set s cancel) (t_task_expired ti)"
  define srcs where "srcs = map (fst \<circ> arm_split) as"
  obtain ready ps1 s1 ws1 where t: "try_arms no (arm_order from (length as)) srcs
      (map (snd \<circ> arm_split) as) s wakes_default = (ready, ps1, s1, ws1)"
    by (metis prod_cases4)
  obtain tk s2 where n: "token_new k cancel s1 = (tk, s2)" by fastforce
  obtain s4 ws2 where e: "enqueue_cells tk 0 srcs (push_sources tk 0 (zip srcs ps1) s2) ws1 = (s4, ws2)"
    by fastforce
  obtain tm s6 where a: "times_arm ti tk (wakes_send wake ws2 s4) = (tm, s6)" by fastforce
  have none: "ready = None" "\<not> is_set s cancel" "\<not> t_task_expired ti" "\<not> t_expired ti"
    "p = \<lparr>p_token = tk, p_sources = srcs, p_timer = tm\<rparr>" "s' = s6"
    using assms [unfolded park_many_def Let_def length_map, folded srcs_def no_def, unfolded t]
    by (cases ready; cases "is_set s cancel"; cases "t_task_expired ti"; cases "t_expired ti";
        simp add: n e a)+
  have "\<not> no" using none by (simp add: no_def takes_nothing_new_def)
  with t have "try_arms False (arm_order from (length as)) srcs (map (snd \<circ> arm_split) as) s
      wakes_default = (None, ps1, s1, ws1)" using none(1) by simp
  then show ?thesis
    by (rule that [of ps1 s1 ws1 s2 s4 ws2, folded srcs_def]) (use n e a none in simp_all)
qed

locale wake_contract =
  fixes wake :: "task_id \<Rightarrow> ('v, 'e, 'z) sync_scheme \<Rightarrow> ('v, 'e, 'z) sync_scheme"
    and owes :: "task_id multiset \<Rightarrow> ('v, 'e, 'z) sync_scheme \<Rightarrow> bool"
  assumes wake_pays: "owes (add_mset k W) s \<Longrightarrow> owes W (wake k s)"
    and fire_owes: "owes W s \<Longrightarrow> claim s t = Some c \<Longrightarrow>
      owes (W + debt s t) (fst (fire c f s wakes_default))"
    and expire_owes: "owes W s \<Longrightarrow> claim s t = Some c \<Longrightarrow> owes (W + debt s t) (set_state t Expired s)"
    and cancel_owes: "owes W s \<Longrightarrow> is_waiting s t \<Longrightarrow> owes (W + debt s t) (set_state t Cancelled s)"
    and token_new_owes: "owes W s \<Longrightarrow> owes W (snd (token_new k flag s))"
    and panicked_owes: "owes W s \<Longrightarrow> owes W (s\<lparr>panicked := b\<rparr>)"
    and channels_owes: "owes W s \<Longrightarrow> owes W (s\<lparr>channels := chans\<rparr>)"
    and cells_owes: "owes W s \<Longrightarrow> owes W (s\<lparr>cells := cs\<rparr>)"
    and timer_owes: "owes W s \<Longrightarrow>
      owes W (s\<lparr>timer_next := n, by_deadline := entries, pending := p\<rparr>)"
begin

definition pays :: "('v, 'e, 'z) sync_scheme \<Rightarrow> wakes \<Rightarrow> ('v, 'e, 'z) sync_scheme \<Rightarrow> wakes \<Rightarrow> bool"
where
  "pays s ws s' ws' \<longleftrightarrow>
     (\<forall>W. owes (W + mset (wakes_list ws)) s \<longrightarrow> owes (W + mset (wakes_list ws')) s')"

lemma pays_refl [simp, intro]: "pays s ws s ws"
  by (simp add: pays_def)

lemma pays_trans [trans]: "pays s ws s1 ws1 \<Longrightarrow> pays s1 ws1 s2 ws2 \<Longrightarrow> pays s ws s2 ws2"
  by (simp add: pays_def)

lemma wakes_send_pays:
  assumes "owes (W + mset (wakes_list ws)) s"
  shows "owes W (wakes_send wake ws s)"
proof -
  have "owes (W + mset ks) s \<Longrightarrow> owes W (fold wake ks s)" for ks
    by (induction ks arbitrary: s) (auto dest: wake_pays)
  with assms show ?thesis by (simp add: wakes_send_def)
qed

lemma pays_fire: "claim s t = Some c \<Longrightarrow> fire c f s ws = (s', ws') \<Longrightarrow> pays s ws s' ws'"
proof -
  assume c: "claim s t = Some c" and f: "fire c f s ws = (s', ws')"
  then have "c = t" "s' = fst (fire c f s wakes_default)"
    "mset (wakes_list ws') = mset (wakes_list ws) + debt s c"
    using mset_fire_wakes [of c f s ws] fire_fst_wakes [of c f s ws] by auto
  with fire_owes [OF _ c, of _ f] show ?thesis by (simp add: pays_def add.assoc [symmetric])
qed

lemma pays_expire: "claim s t = Some c \<Longrightarrow> expire c s ws = (s', ws') \<Longrightarrow> pays s ws s' ws'"
proof -
  assume c: "claim s t = Some c" and e: "expire c s ws = (s', ws')"
  then have "c = t" "s' = set_state c Expired s"
    "mset (wakes_list ws') = mset (wakes_list ws) + debt s c"
    using mset_expire_wakes [of c s ws] expire_fst_sel [of c s ws] by auto
  with expire_owes [OF _ c] show ?thesis by (simp add: pays_def add.assoc [symmetric])
qed

lemma pays_deliver: "deliver q v s ws = Some (q', s', ws') \<Longrightarrow> pays s ws s' ws'"
  by (induction q) (auto split: option.splits intro: pays_fire)

lemma pays_take_sender: "take_sender q s ws = (v, q', s', ws') \<Longrightarrow> pays s ws s' ws'"
  by (induction q) (auto split: option.splits intro: pays_fire)

lemma pays_fire_waiters: "fire_waiters out q s ws = (s', ws') \<Longrightarrow> pays s ws s' ws'"
  by (induction q arbitrary: s ws)
    (auto split: option.splits prod.splits intro: pays_fire pays_trans)

lemma pays_wake_feeders: "wake_feeders st s ws = (st', s', ws') \<Longrightarrow> pays s ws s' ws'"
  by (auto simp: wake_feeders_def intro: pays_fire_waiters)

lemma pays_set_chan: "pays s ws s' ws' \<Longrightarrow> pays s ws (set_chan a st s') ws'"
  by (auto simp: pays_def set_chan_def intro: channels_owes)

lemma pays_set_cell: "pays s ws s' ws' \<Longrightarrow> pays s ws (set_cell a c s') ws'"
  by (auto simp: pays_def set_cell_def intro: cells_owes)

lemma pays_panic: "pays s ws (s\<lparr>panicked := b\<rparr>) ws"
  by (auto simp: pays_def intro: panicked_owes)

lemma pays_send: "send st v s ws = (r, st', s', ws') \<Longrightarrow> pays s ws s' ws'"
  by (auto simp: send_def Let_def split: option.splits if_splits intro: pays_deliver)

lemma pays_receive:
  assumes "receive st s ws = (r, st', s', ws')"
  shows "pays s ws s' ws'"
proof -
  obtain taken st1 h1 ws1 where t: "take_from_sender (st\<lparr>buf := tl (buf st)\<rparr>) s ws = (taken, st1, h1, ws1)"
    by (metis prod_cases4)
  obtain taken2 st2 h2 ws2 where t2: "take_from_sender st s ws = (taken2, st2, h2, ws2)"
    by (metis prod_cases4)
  have 1: "pays s ws h1 ws1" "pays s ws h2 ws2"
    using t t2 by (auto simp: take_from_sender_def Let_def split: prod.splits intro: pays_take_sender)
  have 2: "pays s ws s' ws'" if "wake_feeders st3 h1 ws1 = (st', s', ws')" for st3
    using 1(1) pays_wake_feeders [OF that] by (rule pays_trans)
  have 3: "pays s ws s' ws'" if "wake_feeders st3 h2 ws2 = (st', s', ws')" for st3
    using 1(2) pays_wake_feeders [OF that] by (rule pays_trans)
  show ?thesis
    using assms t t2 1 2 3
    by (cases "buf st"; cases taken; cases taken2)
      (auto simp: receive_def split: if_splits option.splits)
qed

lemma pays_close: "close_state st c s ws = (r, st', s', ws') \<Longrightarrow> pays s ws s' ws'"
  by (auto simp: close_state_def Let_def split: if_splits prod.splits intro: pays_fire_waiters)

lemma pays_drain: "drain_state st s ws = (st', s', ws') \<Longrightarrow> pays s ws s' ws'"
  by (auto simp: drain_state_def Let_def split: if_splits intro: pays_wake_feeders)

lemma paysD: "pays s wakes_default s' ws' \<Longrightarrow> owes W s \<Longrightarrow> owes W (wakes_send wake ws' s')"
  by (rule wakes_send_pays) (simp add: pays_def)

lemma try_send_owes: "owes W s \<Longrightarrow> owes W (snd (try_send_at wake a v s))"
  by (auto simp: try_send_at_def split: prod.splits intro: paysD pays_set_chan pays_send)

lemma try_receive_owes: "owes W s \<Longrightarrow> owes W (snd (try_receive_at wake a s))"
  by (auto simp: try_receive_at_def split: prod.splits intro: paysD pays_set_chan pays_receive)

lemma close_owes: "owes W s \<Longrightarrow> owes W (snd (close_at wake a c s))"
  by (auto simp: close_at_def split: prod.splits intro: paysD pays_set_chan pays_close)

lemma abandon_at_owes:
  assumes "owes W s" and "\<And>f s. owes W s \<Longrightarrow> owes W (call f s)"
  shows "owes W (abandon_at wake call a s)"
  using assms close_owes by (auto simp: abandon_at_def split: option.splits)

lemma drain_at_owes:
  assumes "owes W s" and "\<And>f s. owes W s \<Longrightarrow> owes W (call f s)"
  shows "owes W (drain_at wake call a s)"
  using assms
  by (auto simp: drain_at_def Let_def split: prod.splits option.splits
      intro!: assms(2) intro: paysD [OF pays_set_chan] pays_drain)

lemma complete_owes:
  assumes "owes W s"
  shows "owes W (snd (complete_at wake a v s))"
proof (cases "cell_value (cells s a)")
  case None
  obtain c s1 ws where d: "cell_drain ((cells s a)\<lparr>cell_value := Some v\<rparr>) s wakes_default = (c, s1, ws)"
    by (metis prod_cases3)
  then have "pays s wakes_default s1 ws"
    by (auto simp: cell_drain_def intro: pays_fire_waiters)
  with None d assms show ?thesis
    by (simp add: complete_at_def cell_set_def paysD [OF pays_set_cell])
qed (use assms in \<open>simp add: complete_at_def cell_set_def\<close>)

lemma pays_enqueue: "enqueue_at a w s ws = (s', ws') \<Longrightarrow> pays s ws s' ws'"
  by (auto simp: enqueue_at_def cell_enqueue_def split: prod.splits option.splits if_splits
      intro!: pays_set_cell intro: pays_fire)

lemma pays_carry_out: "carry_out wake due s ws = (s', ws') \<Longrightarrow> pays s ws s' ws'"
proof (induction due arbitrary: s ws)
  case (Cons d due)
  obtain i act where d: "d = (i, act)" by (cases d)
  show ?case
  proof (cases act)
    case (Act_Close a)
    have "pays s ws (snd (close_at wake a close_default s)) ws" by (simp add: pays_def close_owes)
    moreover have "pays (snd (close_at wake a close_default s)) ws s' ws'"
      using Cons d Act_Close by simp
    ultimately show ?thesis by (rule pays_trans)
  qed (use Cons d in \<open>auto split: option.splits prod.splits intro: pays_fire pays_expire pays_trans\<close>)
qed simp

lemma timer_frame_owes:
  assumes "owes W s"
  shows "owes W (s\<lparr>by_deadline := xs\<rparr>)" "owes W (s\<lparr>pending := p\<rparr>)"
    "owes W (s\<lparr>by_deadline := xs, pending := p\<rparr>)"
  using timer_owes [OF assms, where n = "timer_next s" and entries = xs and p = "pending s"]
    timer_owes [OF assms, where n = "timer_next s" and entries = "by_deadline s" and p = p]
    timer_owes [OF assms, where n = "timer_next s" and entries = xs and p = p]
  by simp_all

lemma fire_due_owes:
  assumes "owes W s"
  shows "owes W (snd (fire_due wake s))"
proof -
  obtain due later where d: "take_due s = (due, later)" by fastforce
  obtain s1 ws where c: "carry_out wake due (s\<lparr>by_deadline := later\<rparr>) wakes_default = (s1, ws)"
    by fastforce
  have "owes W (wakes_send wake ws s1)"
    using pays_carry_out [OF c] timer_frame_owes(1) [OF assms] by (rule paysD)
  then show ?thesis by (simp add: fire_due_def d c Let_def timer_frame_owes(2))
qed

lemma disarm_owes: "owes W s \<Longrightarrow> owes W (snd (disarm i s))"
  by (simp add: disarm_def Let_def timer_frame_owes)

lemma timer_arm_owes: "owes W s \<Longrightarrow> owes W (snd (timer_arm d act s))"
  by (simp add: timer_arm_def Let_def timer_owes)

lemma times_arm_owes: "owes W s \<Longrightarrow> owes W (snd (times_arm ti t s))"
  by (simp add: times_arm_def fire_at_def expire_at_def timer_arm_owes split: option.splits)

lemma forget_at_owes: "owes W s \<Longrightarrow> owes W (forget_at a t s)"
  by (simp add: forget_at_def set_chan_def channels_owes)

lemma cell_forget_at_owes: "owes W s \<Longrightarrow> owes W (cell_forget_at a t s)"
  by (simp add: cell_forget_at_def set_cell_def cells_owes)

lemma forget_sources_owes: "owes W s \<Longrightarrow> owes W (forget_sources t by i srcs s)"
  by (induction srcs arbitrary: i s)
    (auto split: source.splits simp: forget_at_owes cell_forget_at_owes)

lemma token_cancel_owes:
  assumes "owes W s"
  shows "owes W (snd (token_cancel wake t s))"
proof -
  have "owes (W + debt s t) (set_state t Cancelled s)" if "is_waiting s t"
    using assms that by (rule cancel_owes)
  then show ?thesis
    using assms by (auto simp: token_cancel_def debt_def is_waiting_def split: token_state.splits
        intro: wake_pays)
qed

lemma pays_try_arm:
  "try_arm no_takes src p s ws = (out, p', s', ws') \<Longrightarrow> pays s ws s' ws'"
  by (cases src) (auto simp: recv_arm_def send_arm_def Let_def split: prod.splits if_splits
      option.splits try_receive.splits try_send.splits
      intro!: pays_set_chan pays_panic intro: pays_receive pays_send)

lemma pays_try_arms:
  "try_arms no_takes is srcs ps s ws = (r, ps', s', ws') \<Longrightarrow> pays s ws s' ws'"
proof (induction no_takes "is" srcs ps s ws rule: try_arms.induct)
  case (2 no_takes i "is" srcs ps s ws)
  obtain out p s1 ws1 where t: "try_arm no_takes (srcs ! i) (ps ! i) s ws = (out, p, s1, ws1)"
    by (metis prod_cases4)
  have "pays s ws s1 ws1" using t by (rule pays_try_arm)
  with 2 t show ?case by (cases out) (auto intro: pays_trans)
qed simp

lemma push_sources_owes: "owes W s \<Longrightarrow> owes W (push_sources t i xs s)"
proof (induction t i xs s rule: push_sources.induct)
  case (2 t i src p rest s)
  then show ?case
    by (cases src) (simp_all add: update_chan_def set_chan_def channels_owes)
qed simp

lemma pays_enqueue_cells: "enqueue_cells t i srcs s ws = (s', ws') \<Longrightarrow> pays s ws s' ws'"
  by (induction t i srcs s ws rule: enqueue_cells.induct)
    (auto split: prod.splits intro: pays_enqueue pays_trans)

text \<open>The second half of \<open>park\<close>, from the new token on.\<close>

lemma join_owes:
  assumes "owes (W + mset (wakes_list ws1)) s2"
    and "enqueue_cells t 0 srcs (push_sources t 0 xs s2) ws1 = (s4, ws2)"
  shows "owes W (snd (times_arm ti t (wakes_send wake ws2 s4)))"
proof -
  have "owes (W + mset (wakes_list ws2)) s4"
    using pays_enqueue_cells [OF assms(2)] push_sources_owes [OF assms(1)] by (auto simp: pays_def)
  then show ?thesis by (intro times_arm_owes wakes_send_pays)
qed

text \<open>Starting a wait leaves the scheduler owing what it owed, whatever the result.\<close>

lemma park_many_owes:
  assumes "owes W s" and "park_many wake k as from ti cancel s = (r, s')"
  shows "owes W s'"
proof -
  define srcs where "srcs = map (fst \<circ> arm_split) as"
  obtain ready ps1 s1 ws1 where t: "try_arms (takes_nothing_new (is_set s cancel) (t_task_expired ti))
      (arm_order from (length as)) (map (fst \<circ> arm_split) as) (map (snd \<circ> arm_split) as) s
      wakes_default = (ready, ps1, s1, ws1)"
    by (metis prod_cases4)
  have p1: "pays s wakes_default s1 ws1" using t by (rule pays_try_arms)
  have none: "owes W s1" if "wakes_list ws1 = []"
    using p1 assms(1) that by (force simp: pays_def)
  obtain tk s2 where n: "token_new k cancel s1 = (tk, s2)" by fastforce
  have p2: "pays s wakes_default (push_sources tk 0 (zip srcs ps1) s2) ws1"
    using p1 token_new_owes [of _ s1 k cancel] n push_sources_owes by (auto simp: pays_def)
  obtain s4 ws2 where e: "enqueue_cells tk 0 srcs (push_sources tk 0 (zip srcs ps1) s2) ws1 = (s4, ws2)"
    by fastforce
  have "owes W (wakes_send wake ws2 s4)"
    using p2 pays_enqueue_cells [OF e] assms(1) by (blast intro: paysD pays_trans)
  then have last: "owes W (snd (times_arm ti tk (wakes_send wake ws2 s4)))" by (rule times_arm_owes)
  show ?thesis
  proof (cases "ready = None \<and> (is_set s cancel \<or> t_task_expired ti)")
    case True
    with assms(2) t have "s' = s1" by (auto simp: park_many_def Let_def split: if_splits)
    moreover have "ws1 = wakes_default"
      using True t try_arms_refused by (auto simp: takes_nothing_new_def)
    ultimately show ?thesis using none by simp
  next
    case False
    with assms(2) last paysD [OF p1 assms(1)] show ?thesis
      by (cases ready; cases "t_expired ti"; cases "times_arm ti tk (wakes_send wake ws2 s4)")
        (auto simp: park_many_def Let_def t n e [unfolded srcs_def])
  qed
qed

end

text \<open>
  The scheduler also knows tasks that are being parked: \<open>T\<close> are their waits, each with its task and
  cancel flag, while the task is still with its worker, and \<open>K\<close> are tasks that nobody can wake. A wait that
  \<open>park\<close> starts is a wait of this kind.
\<close>

locale park_contract =
  fixes wake :: "task_id \<Rightarrow> ('v, 'e, 'z) sync_scheme \<Rightarrow> ('v, 'e, 'z) sync_scheme"
    and owes :: "task_id set \<Rightarrow> (addr \<times> task_id \<times> addr option) set \<Rightarrow> task_id multiset
      \<Rightarrow> ('v, 'e, 'z) sync_scheme \<Rightarrow> bool"
  assumes contract: "wake_contract wake (owes K T)"
    and new_wait: "owes K T W s \<Longrightarrow> token_new k flag s = (t, s') \<Longrightarrow> owes K (insert (t, k, flag) T) W s'"

sublocale park_contract \<subseteq> wake_contract wake "owes K T" for K T
  by (rule contract)

context park_contract
begin

lemma park_owes:
  assumes "owes K T W s" and "park wake k w s = (r, s')"
  shows "owes K T W s'"
  using park_many_owes [OF assms(1)] assms(2) unfolding park_is_park_many .

lemma park_parked_owes:
  assumes "owes K T W s" and "park wake k w s = (Park_Parked p, s')"
  shows "owes K (insert (p_token p, k, wait_cancel w) T) W s'" and "\<not> is_set s (wait_cancel w)"
proof -
  from assms(2) [unfolded park_is_park_many] obtain ps1 s1 ws1 s2 s4 ws2 where
    t: "try_arms False (arm_order (first w) (length (arms w))) (map (fst \<circ> arm_split) (arms w))
      (map (snd \<circ> arm_split) (arms w)) s wakes_default = (None, ps1, s1, ws1)"
    and n: "token_new k (wait_cancel w) s1 = (p_token p, s2)"
    and e: "enqueue_cells (p_token p) 0 (p_sources p)
      (push_sources (p_token p) 0 (zip (p_sources p) ps1) s2) ws1 = (s4, ws2)"
    and s': "s' = snd (times_arm (park_times w s) (p_token p) (wakes_send wake ws2 s4))"
    and "\<not> is_set s (wait_cancel w)"
    by (rule park_many_ParkedD)
  show "\<not> is_set s (wait_cancel w)" by fact
  have "owes K T (W + mset (wakes_list ws1)) s1"
    using pays_try_arms [OF t, of K T] assms(1) by (auto simp: pays_def)
  then have "owes K (insert (p_token p, k, wait_cancel w) T) (W + mset (wakes_list ws1)) s2"
    using n by (rule new_wait)
  then show "owes K (insert (p_token p, k, wait_cancel w) T) W s'"
    unfolding s' using e by (rule join_owes)
qed

end

end
