(* ===== verification/Parking.thy ===== *)
theory Parking
  imports Wake_Contract
begin

text \<open>
  The parked tasks (\<^verbatim>\<open>runtime/sync/parking.rs\<close>): who holds a task while it waits. The registry
  keeps the tasks in 16 maps, each behind a lock of its own; it is the \<^verbatim>\<open>Wake\<close> that the
  operations of the other theories are given, and it hands a task whose wait has ended to the
  scheduler's run queue (\<open>ready_log\<close>: the calls of \<^verbatim>\<open>ready\<close>, in order).

  A map is the list of its entries, in no particular order; \<^verbatim>\<open>inspect\<close> and \<^verbatim>\<open>shutdown\<close> sort what
  they read from it. A failed \<^verbatim>\<open>assert!\<close> and a reached \<^verbatim>\<open>unreachable!\<close> of this file set the
  field \<open>broken\<close>.
\<close>

section \<open>Data\<close>

record 't entry =
  e_task :: 't
  e_parked :: parked
  e_committed :: bool

definition SHARDS :: nat where
  "SHARDS = 16"

record ('v, 'e, 't) parking = "('v, 'e) sync" +
  shards :: "nat \<Rightarrow> (task_id \<times> 't entry) list"
  waiting_count :: nat
  shut_down :: bool
  ready_log :: "('t \<times> ('v, 'e) resumed) list"
  broken :: bool

record 't waiting =
  wt_task :: task_id
  wt_sleeper :: 't
  wt_on :: "source list"
  wt_deadline :: "nat option"

section \<open>The maps\<close>

definition shard :: "task_id \<Rightarrow> nat" where
  "shard k = k mod SHARDS"

definition entry_of :: "('v, 'e, 't, 'z) parking_scheme \<Rightarrow> task_id \<Rightarrow> 't entry option" where
  "entry_of s k = map_of (shards s (shard k)) k"

definition remove_entry ::
  "task_id \<Rightarrow> ('v, 'e, 't, 'z) parking_scheme \<Rightarrow> ('v, 'e, 't, 'z) parking_scheme"
where
  "remove_entry k s =
     s\<lparr>shards := (shards s)(shard k := filter (\<lambda>x. fst x \<noteq> k) (shards s (shard k)))\<rparr>"

definition put_entry ::
  "task_id \<Rightarrow> 't entry \<Rightarrow> ('v, 'e, 't, 'z) parking_scheme \<Rightarrow> ('v, 'e, 't, 'z) parking_scheme"
where
  "put_entry k e s =
     s\<lparr>shards := (shards s)(shard k := (k, e) # filter (\<lambda>x. fst x \<noteq> k) (shards s (shard k)))\<rparr>"

definition all_entries :: "('v, 'e, 't, 'z) parking_scheme \<Rightarrow> (task_id \<times> 't entry) list" where
  "all_entries s = concat (map (shards s) [0..<SHARDS])"

section \<open>The operations of the registry\<close>

text \<open>\<open>finish\<close> of a wait that must have ended.\<close>

definition finish ::
  "parked \<Rightarrow> ('v, 'e, 't, 'z) parking_scheme
    \<Rightarrow> ('v, 'e) resumed option \<times> ('v, 'e, 't, 'z) parking_scheme"
where
  "finish p s =
     (case parked_finish p s of
        (Some r, s1) \<Rightarrow> (Some r, s1)
      | (None, s1) \<Rightarrow> (None, s1\<lparr>broken := True\<rparr>))"

definition parking_wake ::
  "task_id \<Rightarrow> ('v, 'e, 't, 'z) parking_scheme \<Rightarrow> ('v, 'e, 't, 'z) parking_scheme"
where
  "parking_wake k s =
     (case entry_of s k of
        None \<Rightarrow> s
      | Some e \<Rightarrow>
         (let s1 = remove_entry k s;
              s2 = s1\<lparr>waiting_count := u64_sub (waiting_count s1) 1\<rparr>
          in case finish (e_parked e) s2 of
               (Some r, s3) \<Rightarrow> s3\<lparr>ready_log := ready_log s3 @ [(e_task e, r)]\<rparr>
             | (None, s3) \<Rightarrow> s3))"

text \<open>
  \<open>park\<close> takes the lock of the shard twice; between the two it looks at the reasons to end the
  wait. Each of the three parts is a step of its own.
\<close>

definition park_insert ::
  "task_id \<Rightarrow> 't \<Rightarrow> parked \<Rightarrow> ('v, 'e, 't, 'z) parking_scheme
    \<Rightarrow> ('t \<times> ('v, 'e) resumed) option \<times> ('v, 'e, 't, 'z) parking_scheme"
where
  "park_insert k task p s =
     (if shut_down s then (Some (task, Resumed_Cancelled), drop_parked p s)
      else (let before = entry_of s k;
                s1 = put_entry k \<lparr>e_task = task, e_parked = p, e_committed = False\<rparr> s
            in (None, if before = None then s1 else s1\<lparr>broken := True\<rparr>)))"

definition park_check ::
  "(task_id \<Rightarrow> ('v, 'e, 't, 'z) parking_scheme \<Rightarrow> ('v, 'e, 't, 'z) parking_scheme) \<Rightarrow> bool \<Rightarrow> addr
    \<Rightarrow> ('v, 'e, 't, 'z) parking_scheme \<Rightarrow> ('v, 'e, 't, 'z) parking_scheme"
where
  "park_check wake refused t s =
     (if refused \<or> is_cancelled s t then snd (token_cancel wake t s) else s)"

definition park_commit ::
  "task_id \<Rightarrow> addr \<Rightarrow> ('v, 'e, 't, 'z) parking_scheme
    \<Rightarrow> ('t \<times> ('v, 'e) resumed) option \<times> ('v, 'e, 't, 'z) parking_scheme"
where
  "park_commit k t s =
     (let (ok, s1) = token_commit t s
      in if ok
         then (None,
               case entry_of s1 k of
                 Some e \<Rightarrow> (put_entry k (e\<lparr>e_committed := True\<rparr>) s1)
                   \<lparr>waiting_count := u64_add (waiting_count s1) 1\<rparr>
               | None \<Rightarrow> s1)
         else (case entry_of s1 k of
                 None \<Rightarrow> (None, s1)
               | Some e \<Rightarrow>
                  (case finish (e_parked e) (remove_entry k s1) of
                     (Some r, s2) \<Rightarrow> (Some (e_task e, r), s2)
                   | (None, s2) \<Rightarrow> (None, s2))))"

text \<open>\<open>refused\<close> is a closure of the caller that reads the state of the scheduler.\<close>

definition parking_park ::
  "task_id \<Rightarrow> 't \<Rightarrow> 'v wait \<Rightarrow> (('v, 'e, 't, 'z) parking_scheme \<Rightarrow> bool)
    \<Rightarrow> ('v, 'e, 't, 'z) parking_scheme
    \<Rightarrow> ('t \<times> ('v, 'e) resumed) option \<times> ('v, 'e, 't, 'z) parking_scheme"
where
  "parking_park k task w refused s =
     (if refused s then (Some (task, Resumed_Cancelled), s)
      else (case park parking_wake k w s of
              (Park_Ready f, s1) \<Rightarrow> (Some (task, Resumed_Fired f), s1)
            | (Park_Cancelled, s1) \<Rightarrow> (Some (task, Resumed_Cancelled), s1)
            | (Park_Expired, s1) \<Rightarrow> (Some (task, Resumed_Expired), s1)
            | (Park_Parked p, s1) \<Rightarrow>
                (case park_insert k task p s1 of
                   (Some r, s2) \<Rightarrow> (Some r, s2)
                 | (None, s2) \<Rightarrow>
                     park_commit k (p_token p)
                       (park_check parking_wake (refused s2) (p_token p) s2))))"

definition parking_cancel ::
  "task_id \<Rightarrow> ('v, 'e, 't, 'z) parking_scheme \<Rightarrow> bool \<times> ('v, 'e, 't, 'z) parking_scheme"
where
  "parking_cancel k s =
     (case entry_of s k of
        None \<Rightarrow> (False, s)
      | Some e \<Rightarrow> token_cancel parking_wake (p_token (e_parked e)) s)"

definition is_parked :: "('v, 'e, 't, 'z) parking_scheme \<Rightarrow> task_id \<Rightarrow> bool" where
  "is_parked s k = (case entry_of s k of Some e \<Rightarrow> e_committed e | None \<Rightarrow> False)"

definition inspect :: "('v, 'e, 't, 'z) parking_scheme \<Rightarrow> 't waiting list" where
  "inspect s =
     sort_key wt_task
       (map (\<lambda>(k, e). \<lparr>wt_task = k, wt_sleeper = e_task e, wt_on = p_sources (e_parked e),
               wt_deadline = parked_deadline (e_parked e)\<rparr>)
         (filter (\<lambda>(k, e). e_committed e) (all_entries s)))"

text \<open>\<open>shutdown\<close> empties one shard after the other, then drops what it found.\<close>

definition drain_shard ::
  "nat \<Rightarrow> ('v, 'e, 't, 'z) parking_scheme
    \<Rightarrow> (task_id \<times> 't entry) list \<times> ('v, 'e, 't, 'z) parking_scheme"
where
  "drain_shard i s =
     (shards s i,
      s\<lparr>waiting_count := u64_sub (waiting_count s)
           (length (filter (\<lambda>(k, e). e_committed e) (shards s i))),
        shards := (shards s)(i := [])\<rparr>)"

fun drain_shards ::
  "nat list \<Rightarrow> ('v, 'e, 't, 'z) parking_scheme
    \<Rightarrow> (task_id \<times> 't entry) list \<times> ('v, 'e, 't, 'z) parking_scheme"
where
  "drain_shards [] s = ([], s)"
| "drain_shards (i # is) s =
     (let (xs, s1) = drain_shard i s; (ys, s2) = drain_shards is s1 in (xs @ ys, s2))"

definition shutdown ::
  "('v, 'e, 't, 'z) parking_scheme
    \<Rightarrow> (task_id \<times> 't) list \<times> ('v, 'e, 't, 'z) parking_scheme"
where
  "shutdown s =
     (let (xs, s1) = drain_shards [0..<SHARDS] (s\<lparr>shut_down := True\<rparr>);
          s2 = fold (\<lambda>(k, e). drop_parked (e_parked e)) xs s1
      in (sort_key fst (map (\<lambda>(k, e). (k, e_task e)) xs), s2))"

text \<open>A registry starts empty; the rest of the state is the runtime's.\<close>

definition parking_new :: "('v, 'e) sync \<Rightarrow> ('v, 'e, 't) parking" where
  "parking_new s = sync.extend s (parking.fields (\<lambda>_. []) 0 False [] False)"

section \<open>What each operation leaves alone\<close>

text \<open>The registry's own part of the state.\<close>

definition reg ::
  "('v, 'e, 't, 'z) parking_scheme
    \<Rightarrow> (nat \<Rightarrow> (task_id \<times> 't entry) list) \<times> nat \<times> bool \<times> ('t \<times> ('v, 'e) resumed) list \<times> bool
       \<times> 'z"
where
  "reg s = (shards s, waiting_count s, shut_down s, ready_log s, broken s, parking.more s)"

lemma reg_eqD:
  assumes "reg s' = reg s"
  shows "shards s' = shards s" "waiting_count s' = waiting_count s" "shut_down s' = shut_down s"
    "ready_log s' = ready_log s" "broken s' = broken s" "parking.more s' = parking.more s"
    "entry_of s' = entry_of s" "all_entries s' = all_entries s"
proof -
  from assms show 1: "shards s' = shards s" by (simp add: reg_def)
  show "entry_of s' = entry_of s" "all_entries s' = all_entries s"
    by (simp_all add: entry_of_def [abs_def] all_entries_def 1)
qed (use assms in \<open>auto simp: reg_def\<close>)

lemma reg_frame [simp]:
  "reg (s\<lparr>flags := fl\<rparr>) = reg s" "reg (s\<lparr>tokens := ts\<rparr>) = reg s" "reg (s\<lparr>next_token := n\<rparr>) = reg s"
  "reg (s\<lparr>panicked := b\<rparr>) = reg s" "reg (s\<lparr>channels := chans\<rparr>) = reg s"
  "reg (s\<lparr>unjoined_failure := u\<rparr>) = reg s" "reg (s\<lparr>cells := cs\<rparr>) = reg s"
  "reg (s\<lparr>timer_next := tn\<rparr>) = reg s" "reg (s\<lparr>by_deadline := bd\<rparr>) = reg s"
  "reg (s\<lparr>pending := p\<rparr>) = reg s" "reg (s\<lparr>clock := c\<rparr>) = reg s"
  by (simp_all add: reg_def)

lemma reg_set_state [simp]: "reg (set_state t st s) = reg s"
  by (simp add: set_state_def)

lemma reg_fire [simp]: "reg (fst (fire t f s ws)) = reg s"
  by (simp add: fire_def Let_def split: fired.splits)

lemma reg_token_new [simp]: "reg (snd (token_new k c s)) = reg s"
  by (simp add: token_new_def)

lemma reg_token_commit [simp]: "reg (snd (token_commit t s)) = reg s"
  by (simp add: token_commit_def split: token_state.splits)

lemma reg_token_take [simp]: "reg (snd (token_take t s)) = reg s"
  by (simp add: token_take_def split: token_state.splits)

lemma reg_disarm [simp]: "reg (snd (disarm i s)) = reg s"
  by (simp add: disarm_def Let_def)

lemma reg_abandon [simp]: "reg (abandon t s) = reg s"
  by (simp add: abandon_def)

lemma reg_forget_sources [simp]: "reg (forget_sources t by i srcs s) = reg s"
  by (induction srcs arbitrary: i s)
    (auto simp: forget_at_def cell_forget_at_def set_chan_def set_cell_def split: source.splits)

lemma reg_drop_parked [simp]: "reg (drop_parked p s) = reg s"
  by (simp add: drop_parked_def Let_def split: option.splits)

text \<open>The heap part that dropping a place leaves alone: every token but its own, and its own
  too when the wait has ended.\<close>

definition toks :: "('v, 'e, 'z) heap_scheme \<Rightarrow> (addr \<Rightarrow> ('v, 'e) token) \<times> nat \<times> (addr \<Rightarrow> bool)" where
  "toks s = (tokens s, next_token s, flags s)"

lemma toks_frame [simp]:
  "toks (s\<lparr>channels := chans\<rparr>) = toks s" "toks (s\<lparr>unjoined_failure := u\<rparr>) = toks s"
  for s :: "('v, 'e, 'z) chan_heap_scheme"
  by (simp_all add: toks_def)

lemma toks_frame_sync [simp]:
  "toks (s\<lparr>cells := cs\<rparr>) = toks s" "toks (s\<lparr>timer_next := tn\<rparr>) = toks s"
  "toks (s\<lparr>by_deadline := bd\<rparr>) = toks s" "toks (s\<lparr>pending := p\<rparr>) = toks s"
  "toks (s\<lparr>clock := c\<rparr>) = toks s" "toks (s\<lparr>panicked := b\<rparr>) = toks s"
  for s :: "('v, 'e, 'z) sync_scheme"
  by (simp_all add: toks_def)

lemma toks_frame_parking [simp]:
  "toks (s\<lparr>shards := sh\<rparr>) = toks s" "toks (s\<lparr>waiting_count := n\<rparr>) = toks s"
  "toks (s\<lparr>shut_down := b\<rparr>) = toks s" "toks (s\<lparr>ready_log := l\<rparr>) = toks s"
  "toks (s\<lparr>broken := b\<rparr>) = toks s"
  for s :: "('v, 'e, 't, 'z) parking_scheme"
  by (simp_all add: toks_def)

lemma toks_eqD:
  assumes "toks s' = toks s"
  shows "tokens s' = tokens s" "next_token s' = next_token s" "flags s' = flags s"
  using assms by (auto simp: toks_def)

lemma toks_forget_sources [simp]: "toks (forget_sources t by i srcs s) = toks s"
  by (induction srcs arbitrary: i s)
    (auto simp: forget_at_def cell_forget_at_def set_chan_def set_cell_def split: source.splits)

lemma toks_disarm [simp]: "toks (snd (disarm i s)) = toks s"
  by (simp add: disarm_def Let_def)

lemma toks_drop_parked: "toks (drop_parked p s) = toks (abandon (p_token p) s)"
  by (simp add: drop_parked_def Let_def split: option.splits)

lemma toks_drop_ended [simp]: "\<not> is_waiting s (p_token p) \<Longrightarrow> toks (drop_parked p s) = toks s"
  by (simp add: toks_drop_parked abandon_def)

section \<open>The maps as one map\<close>

lemma entry_of_put [simp]: "entry_of (put_entry k e s) j = (if j = k then Some e else entry_of s j)"
proof -
  have "map_of (filter (\<lambda>x. fst x \<noteq> k) xs) j = (if j = k then None else map_of xs j)" for xs
    by (induction xs) auto
  then show ?thesis by (auto simp: entry_of_def put_entry_def)
qed

lemma entry_of_remove [simp]: "entry_of (remove_entry k s) j = (if j = k then None else entry_of s j)"
proof -
  have "map_of (filter (\<lambda>x. fst x \<noteq> k) xs) j = (if j = k then None else map_of xs j)" for xs
    by (induction xs) auto
  then show ?thesis by (auto simp: entry_of_def remove_entry_def)
qed

lemma put_remove_sel [simp]:
  "toks (put_entry k e s) = toks s" "toks (remove_entry k s) = toks s"
  "waiting_count (put_entry k e s) = waiting_count s" "waiting_count (remove_entry k s) = waiting_count s"
  "shut_down (put_entry k e s) = shut_down s" "shut_down (remove_entry k s) = shut_down s"
  "ready_log (put_entry k e s) = ready_log s" "ready_log (remove_entry k s) = ready_log s"
  "broken (put_entry k e s) = broken s" "broken (remove_entry k s) = broken s"
  "parking.more (put_entry k e s) = parking.more s" "parking.more (remove_entry k s) = parking.more s"
  by (simp_all add: put_entry_def remove_entry_def)

lemma entry_of_frame [simp]:
  "entry_of (s\<lparr>waiting_count := n\<rparr>) = entry_of s" "entry_of (s\<lparr>shut_down := b\<rparr>) = entry_of s"
  "entry_of (s\<lparr>ready_log := l\<rparr>) = entry_of s" "entry_of (s\<lparr>broken := b\<rparr>) = entry_of s"
  by (auto simp: entry_of_def fun_eq_iff)

text \<open>Every entry is in the map of its task, once; and how many are committed.\<close>

definition shards_ok :: "('v, 'e, 't, 'z) parking_scheme \<Rightarrow> bool" where
  "shards_ok s \<longleftrightarrow> (\<forall>i. distinct (map fst (shards s i)) \<and> (\<forall>k \<in> fst ` set (shards s i). shard k = i))"

definition committed_count :: "('v, 'e, 't, 'z) parking_scheme \<Rightarrow> nat" where
  "committed_count s = length (filter (\<lambda>(k, e). e_committed e) (all_entries s))"

lemma shard_less: "shard k < SHARDS"
  by (simp add: shard_def SHARDS_def)

lemma committed_count_sum:
  "committed_count s = (\<Sum>i < SHARDS. length (filter (\<lambda>(k, e). e_committed e) (shards s i)))"
proof -
  have "length (filter P (concat (map f [0..<n]))) = (\<Sum>i < n. length (filter P (f i)))" for P f n
    by (induction n) auto
  then show ?thesis by (simp add: committed_count_def all_entries_def)
qed

lemma committed_count_upd:
  assumes "shards s' = (shards s)(shard k := xs)"
  shows "committed_count s' + length (filter (\<lambda>(k, e). e_committed e) (shards s (shard k))) =
    committed_count s + length (filter (\<lambda>(k, e). e_committed e) xs)"
proof -
  have "(\<Sum>i<SHARDS. f i) = f (shard k) + (\<Sum>i \<in> {..<SHARDS} - {shard k}. f i)" for f :: "nat \<Rightarrow> nat"
    by (rule sum.remove) (simp_all add: shard_less)
  moreover have "(\<Sum>i \<in> {..<SHARDS} - {shard k}. length (filter P (((shards s)(shard k := xs)) i))) =
      (\<Sum>i \<in> {..<SHARDS} - {shard k}. length (filter P (shards s i)))" for P
    by (rule sum.cong) auto
  ultimately show ?thesis unfolding committed_count_sum assms by simp
qed
section \<open>The invariant of the registry\<close>

text \<open>A wait that has ended and whose result nobody has taken.\<close>

definition over :: "('v, 'e) token_state \<Rightarrow> bool" where
  "over st \<longleftrightarrow> \<not> open_state st \<and> st \<noteq> Taken"

lemma over_simps [simp]:
  "over (Fired f)" "over Cancelled" "over Expired" "\<not> over Armed" "\<not> over Parked" "\<not> over Taken"
  by (simp_all add: over_def)

lemma over_cases: "over st \<Longrightarrow> (\<exists>f. st = Fired f) \<or> st = Cancelled \<or> st = Expired"
  by (cases st) auto

text \<open>
  An entry holds the wait of its task. When the task is given up (the entry is committed), the
  wait is open and nobody owes a wake, or it has ended and exactly one wake is on its way. While
  the worker still holds the task, no wake is on its way.
\<close>

definition entry_ok ::
  "task_id multiset \<Rightarrow> ('v, 'e, 't, 'z) parking_scheme \<Rightarrow> task_id \<Rightarrow> 't entry \<Rightarrow> bool"
where
  "entry_ok W s k e \<longleftrightarrow>
     (let t = p_token (e_parked e); st = tok_state (tokens s t)
      in t < next_token s \<and> tok_task (tokens s t) = k \<and>
         (if e_committed e then st = Parked \<and> count W k = 0 \<or> over st \<and> count W k = 1
          else (st = Armed \<or> over st) \<and> count W k = 0))"

text \<open>
  \<open>W\<close> are the wakes that are on their way, \<open>D\<close> the tasks that a shutdown has taken. The other
  direction of the correspondence: a task that was given up has its entry, and so has a task
  for which a wake is on its way.
\<close>

definition reg_inv ::
  "task_id set \<Rightarrow> task_id multiset \<Rightarrow> ('v, 'e, 't, 'z) parking_scheme \<Rightarrow> bool"
where
  "reg_inv D W s \<longleftrightarrow>
     shards_ok s \<and>
     (\<forall>k e. entry_of s k = Some e \<longrightarrow> k \<notin> D \<and> entry_ok W s k e) \<and>
     (\<forall>t. tok_state (tokens s t) = Parked \<longrightarrow> tok_task (tokens s t) \<in> D \<or>
        (\<exists>e. entry_of s (tok_task (tokens s t)) = Some e \<and> p_token (e_parked e) = t \<and> e_committed e)) \<and>
     (\<forall>k. k \<in># W \<longrightarrow> k \<in> D \<or> entry_of s k \<noteq> None) \<and>
     (\<forall>t \<ge> next_token s. \<not> is_waiting s t) \<and>
     waiting_count s = committed_count s mod 2 ^ 64 \<and> \<not> broken s"

lemma reg_invI:
  assumes "shards_ok s" and "\<And>k e. entry_of s k = Some e \<Longrightarrow> k \<notin> D"
    and "\<And>k e. entry_of s k = Some e \<Longrightarrow> entry_ok W s k e"
    and "\<And>t. tok_state (tokens s t) = Parked \<Longrightarrow> tok_task (tokens s t) \<in> D \<or>
        (\<exists>e. entry_of s (tok_task (tokens s t)) = Some e \<and> p_token (e_parked e) = t \<and> e_committed e)"
    and "\<And>k. k \<in># W \<Longrightarrow> k \<in> D \<or> entry_of s k \<noteq> None"
    and "\<And>t. next_token s \<le> t \<Longrightarrow> \<not> is_waiting s t"
    and "waiting_count s = committed_count s mod 2 ^ 64" and "\<not> broken s"
  shows "reg_inv D W s"
  using assms unfolding reg_inv_def by blast

lemma reg_inv_entry: "reg_inv D W s \<Longrightarrow> entry_of s k = Some e \<Longrightarrow> entry_ok W s k e"
  by (simp add: reg_inv_def)

lemma committed_count_cong: "reg s' = reg s \<Longrightarrow> committed_count s' = committed_count s"
  unfolding committed_count_def by (drule reg_eqD(8)) simp

lemma reg_inv_cong:
  assumes "reg s' = reg s" and "tokens s' = tokens s" and "next_token s' = next_token s"
  shows "reg_inv D W s' = reg_inv D W s"
  unfolding reg_inv_def shards_ok_def entry_ok_def is_waiting_def committed_count_cong [OF assms(1)]
    reg_eqD [OF assms(1)] assms(2,3) ..

lemma reg_inv_frame:
  "reg_inv D W s \<Longrightarrow> reg s' = reg s \<Longrightarrow> toks s' = toks s \<Longrightarrow> reg_inv D W s'"
  using reg_inv_cong [OF _ toks_eqD(1,2)] by blast

lemma reg_inv_end:
  assumes inv: "reg_inv D W s" and t: "is_waiting s t" and st: "over st"
    and reg: "reg s' = reg s" and nxt: "next_token s' = next_token s"
    and state: "\<And>u. tok_state (tokens s' u) = (if u = t then st else tok_state (tokens s u))"
    and task: "\<And>u. tok_task (tokens s' u) = tok_task (tokens s u)"
  shows "reg_inv D (W + debt s t) s'"
proof -
  have below: "t < next_token s" using inv t by (meson reg_inv_def not_le)
  have "entry_ok (W + debt s t) s' k e" if e: "entry_of s k = Some e" for k e
  proof -
    have ok: "entry_ok W s k e" using inv e by (simp add: reg_inv_def)
    show ?thesis
    proof (cases "p_token (e_parked e) = t")
      case True
      with ok t st show ?thesis
        by (auto simp: entry_ok_def Let_def state task nxt debt_def is_waiting_def over_def
            split: if_splits)
    next
      case False
      have "k \<notin># debt s t"
      proof
        assume "k \<in># debt s t"
        then have "tok_state (tokens s t) = Parked" "tok_task (tokens s t) = k"
          by (auto simp: debt_def split: if_splits)
        with inv e False show False by (auto simp: reg_inv_def)
      qed
      with ok False show ?thesis
        by (auto simp: entry_ok_def Let_def state task nxt not_in_iff split: if_splits)
    qed
  qed
  moreover have "\<forall>k. k \<in># W + debt s t \<longrightarrow> k \<in> D \<or> entry_of s k \<noteq> None"
    using inv by (auto simp: reg_inv_def debt_def)
  moreover have "\<not> is_waiting s' u" if "next_token s \<le> u" for u
    using inv that below by (auto simp: reg_inv_def is_waiting_def state)
  moreover have "tok_state (tokens s u) = Parked" if "tok_state (tokens s' u) = Parked" for u
    using that st by (auto simp: state split: if_splits)
  ultimately show ?thesis
    using inv unfolding reg_inv_def shards_ok_def
    by (auto simp: reg_eqD [OF reg] committed_count_cong [OF reg] nxt task)
qed

lemma reg_inv_token_new: "reg_inv D W s \<Longrightarrow> reg_inv D W (snd (token_new k c s))"
proof -
  assume inv: "reg_inv D W s"
  let ?s = "snd (token_new k c s)"
  note reg = reg_token_new [of k c s]
  have "entry_ok W ?s j e" if "entry_of s j = Some e" for j e
  proof -
    have "entry_ok W s j e" using inv that by (simp add: reg_inv_def)
    then show ?thesis by (auto simp: entry_ok_def Let_def token_new_def)
  qed
  moreover have "tok_state (tokens s u) = Parked \<and> tok_task (tokens ?s u) = tok_task (tokens s u)"
    if "tok_state (tokens ?s u) = Parked" for u
    using that by (auto simp: token_new_def split: if_splits)
  moreover have "\<not> is_waiting ?s u" if "next_token ?s \<le> u" for u
    using inv that by (auto simp: reg_inv_def is_waiting_def token_new_def)
  ultimately show ?thesis
    using inv unfolding reg_inv_def shards_ok_def
    by (auto simp: reg_eqD [OF reg] committed_count_cong [OF reg])
qed
text \<open>Waking a task pays what is owed for it.\<close>

lemma finish_over:
  assumes "over (tok_state (tokens s (p_token p)))" and "finish p s = (r, s')"
  shows "r \<noteq> None" "reg s' = reg s" "next_token s' = next_token s" "flags s' = flags s"
    "tokens s' = tokens (snd (token_take (p_token p) s))"
proof -
  let ?t = "p_token p"
  obtain r1 s1 where t: "token_take ?t s = (r1, s1)" by fastforce
  have r1: "r1 \<noteq> None" "\<not> is_waiting s1 ?t" "toks s1 = (tokens s1, next_token s, flags s)"
    using assms(1) t over_cases [OF assms(1)]
    by (auto simp: token_take_def is_waiting_def sync_simps toks_def split: token_state.splits)
  then obtain res where "r1 = Some res" by auto
  with assms(2) t have s': "s' = drop_parked p s1" "r = Some res"
    by (simp_all add: finish_def parked_finish_def)
  have "reg s1 = reg s" using reg_token_take [of ?t s] t by simp
  with s' r1 show "r \<noteq> None" "reg s' = reg s" by simp_all
  have "toks s' = toks s1" using s' r1(2) by simp
  then show "next_token s' = next_token s" "flags s' = flags s"
    "tokens s' = tokens (snd (token_take (p_token p) s))"
    using r1(3) t by (auto simp: toks_def)
qed

lemma committed_count_remove:
  assumes "shards_ok s" and "entry_of s k = Some e"
  shows "committed_count s = committed_count (remove_entry k s) + (if e_committed e then 1 else 0)"
proof -
  have "map_of xs k = Some e \<Longrightarrow> distinct (map fst xs) \<Longrightarrow>
    length (filter (\<lambda>(k, e). e_committed e) xs) =
    length (filter (\<lambda>(k, e). e_committed e) (filter (\<lambda>x. fst x \<noteq> k) xs)) +
      (if e_committed e then 1 else 0)" for xs
  proof (induction xs)
    case (Cons x xs)
    show ?case
    proof (cases "fst x = k")
      case True
      with Cons.prems have "filter (\<lambda>x. fst x \<noteq> k) xs = xs"
        by (intro filter_id_conv_all) (auto simp: image_iff)
      with True Cons.prems show ?thesis by (cases x) (simp del: filter_filter)
    next
      case False
      with Cons show ?thesis by (cases x) (simp del: filter_filter)
    qed
  qed simp
  from this [of "shards s (shard k)"] assms
    committed_count_upd [of "remove_entry k s" s k "filter (\<lambda>x. fst x \<noteq> k) (shards s (shard k))"]
  show ?thesis
    by (simp add: shards_ok_def entry_of_def remove_entry_def del: filter_filter)
qed

lemma shards_ok_remove: "shards_ok s \<Longrightarrow> shards_ok (remove_entry k s)"
  by (auto simp: shards_ok_def remove_entry_def distinct_map_filter)

lemma shards_ok_put: "shards_ok s \<Longrightarrow> shards_ok (put_entry k e s)"
  by (auto simp: shards_ok_def put_entry_def distinct_map_filter)

lemma shards_ok_cong: "shards s' = shards s \<Longrightarrow> shards_ok s' = shards_ok s"
  by (simp add: shards_ok_def)

lemma mod_dec: "0 < c \<Longrightarrow> (c mod n + n - 1) mod n = (c - 1) mod n" for c n :: nat
proof (cases "n = 0")
  case False
  assume "0 < c"
  with False have "c mod n + n - 1 = c mod n + (n - 1)" "c + (n - 1) = (c - 1) + n" by simp_all
  then show ?thesis by (metis mod_add_left_eq mod_add_self2)
qed simp
lemma token_take_over:
  assumes "over (tok_state (tokens s t))"
  shows "tok_state (tokens (snd (token_take t s)) u) = tok_state (tokens s u) \<or>
      u = t \<and> tok_state (tokens (snd (token_take t s)) u) = Taken"
    and "tok_task (tokens (snd (token_take t s)) u) = tok_task (tokens s u)"
    and "tok_cancel (tokens (snd (token_take t s)) u) = tok_cancel (tokens s u)"
  using over_cases [OF assms] by (auto simp: token_take_def sync_simps split: if_splits)

lemma reg_inv_remove:
  assumes inv: "reg_inv D W s" and e: "entry_of s k = Some e"
    and over: "over (tok_state (tokens s (p_token (e_parked e))))"
    and sh: "shards s' = shards (remove_entry k s)" and nxt: "next_token s' = next_token s"
    and toks: "tokens s' = tokens (snd (token_take (p_token (e_parked e)) s))"
    and cnt: "waiting_count s' = committed_count s' mod 2 ^ 64" and nb: "\<not> broken s'"
    and W': "k \<notin># W'" "\<And>j. j \<noteq> k \<Longrightarrow> count W' j = count W j"
  shows "reg_inv D W' s'"
proof -
  let ?t = "p_token (e_parked e)"
  have entries: "entry_of s' j = (if j = k then None else entry_of s j)" for j
    using entry_of_remove [of k s j] sh by (simp add: entry_of_def)
  have task: "tok_task (tokens s' u) = tok_task (tokens s u)" for u
    using token_take_over(2) [OF over] toks by simp
  have tk: "tok_task (tokens s ?t) = k"
    using inv e by (auto simp: reg_inv_def entry_ok_def Let_def)
  have state: "tok_state (tokens s' u) = tok_state (tokens s u)" if "u \<noteq> ?t" for u
    using token_take_over(1) [OF over, of u] toks that by auto
  have opn: "open_state (tok_state (tokens s u))" "u \<noteq> ?t" if "open_state (tok_state (tokens s' u))" for u
    using token_take_over(1) [OF over, of u] toks that over by (auto simp: over_def)
  have "entry_ok W' s' j d" if "entry_of s j = Some d" "j \<noteq> k" for j d
  proof -
    have ok: "entry_ok W s j d" using inv that by (simp add: reg_inv_def)
    then have "p_token (e_parked d) \<noteq> ?t" using tk that(2) by (auto simp: entry_ok_def Let_def)
    with ok that(2) state task show ?thesis
      by (auto simp: entry_ok_def Let_def nxt W'(2) split: if_splits)
  qed
  moreover have "tok_task (tokens s u) \<in> D \<or> tok_task (tokens s u) \<noteq> k \<and>
      (\<exists>e. entry_of s (tok_task (tokens s u)) = Some e \<and> p_token (e_parked e) = u \<and> e_committed e)"
    if "tok_state (tokens s' u) = Parked" for u
  proof -
    have "tok_state (tokens s u) = Parked" "u \<noteq> ?t" using opn [of u] state [of u] that by simp_all
    with inv e show ?thesis unfolding reg_inv_def by fastforce
  qed
  moreover have "shards_ok s'"
    using shards_ok_remove shards_ok_cong [OF sh] inv by (auto simp: reg_inv_def)
  moreover have "j \<in> D \<or> entry_of s j \<noteq> None" if "j \<in># W'" for j
    using that inv W' by (metis reg_inv_def not_in_iff)
  moreover have "\<not> is_waiting s' u" if "next_token s \<le> u" for u
    using inv opn [of u] that by (auto simp: reg_inv_def is_waiting_def)
  ultimately show ?thesis
    using inv cnt nb e W'(1) unfolding reg_inv_def by (simp add: entries nxt task) metis
qed

lemma reg_inv_wake:
  assumes inv: "reg_inv D (add_mset k W) s"
  shows "reg_inv D W (parking_wake k s)"
proof (cases "entry_of s k")
  case None
  then have "entry_ok (add_mset k W) s j e = entry_ok W s j e" if "entry_of s j = Some e" for j e
    using that by (cases "j = k") (auto simp: entry_ok_def Let_def)
  with inv None show ?thesis
    unfolding reg_inv_def by (auto simp: parking_wake_def)
next
  case (Some e)
  let ?t = "p_token (e_parked e)"
  have ok: "entry_ok (add_mset k W) s k e" using inv Some by (simp add: reg_inv_def)
  then have over: "over (tok_state (tokens s ?t))" and com: "e_committed e" and W: "k \<notin># W"
    by (auto simp: entry_ok_def Let_def not_in_iff split: if_splits)
  let ?s2 = "(remove_entry k s)\<lparr>waiting_count := u64_sub (waiting_count s) 1\<rparr>"
  have tk2: "tokens ?s2 = tokens s" "next_token ?s2 = next_token s"
    by (simp_all add: remove_entry_def)
  obtain r s3 where f: "finish (e_parked e) ?s2 = (r, s3)" by fastforce
  note fin = finish_over [OF _ f, unfolded tk2, OF over]
  from fin(1) obtain res where r: "r = Some res" by auto
  have s': "parking_wake k s = s3\<lparr>ready_log := ready_log s3 @ [(e_task e, res)]\<rparr>"
    using Some f r by (simp add: parking_wake_def Let_def)
  have "committed_count s = Suc (committed_count (remove_entry k s))"
    using committed_count_remove [OF _ Some] inv com by (simp add: reg_inv_def)
  moreover have cc: "committed_count s3 = committed_count (remove_entry k s)"
    using reg_eqD(1) [OF fin(2)] by (simp add: committed_count_def all_entries_def)
  ultimately have cnt: "waiting_count s3 = committed_count s3 mod 2 ^ 64"
    using inv mod_dec [of "committed_count s" "2 ^ 64"]
    by (simp add: reg_eqD(2) [OF fin(2)] reg_inv_def u64_sub_def)
  show ?thesis
    unfolding s'
  proof (rule reg_inv_remove [OF inv Some over])
    have take: "tokens (snd (token_take ?t ?s2)) = tokens (snd (token_take ?t s))"
      using tk2 by (simp add: token_take_def set_state_def split: token_state.splits)
    show "tokens (s3\<lparr>ready_log := ready_log s3 @ [(e_task e, res)]\<rparr>) = tokens (snd (token_take ?t s))"
      using fin(5) take by simp
    show "waiting_count (s3\<lparr>ready_log := ready_log s3 @ [(e_task e, res)]\<rparr>) =
      committed_count (s3\<lparr>ready_log := ready_log s3 @ [(e_task e, res)]\<rparr>) mod 2 ^ 64"
      using cnt by (simp add: committed_count_def all_entries_def)
  qed (use fin W inv reg_eqD [OF fin(2)] in \<open>simp_all add: reg_inv_def\<close>)
qed

lemma reg_inv_fire:
  "reg_inv D W s \<Longrightarrow> claim s t = Some c \<Longrightarrow> reg_inv D (W + debt s t) (fst (fire c f s wakes_default))"
  using reg_inv_end [of D W s t "Fired f" "fst (fire t f s wakes_default)"] by (auto simp: sync_simps)

lemma reg_inv_expire:
  "reg_inv D W s \<Longrightarrow> claim s t = Some c \<Longrightarrow> reg_inv D (W + debt s t) (set_state t Expired s)"
  by (rule reg_inv_end) (auto simp: sync_simps)

lemma reg_inv_cancel:
  "reg_inv D W s \<Longrightarrow> is_waiting s t \<Longrightarrow> reg_inv D (W + debt s t) (set_state t Cancelled s)"
  by (rule reg_inv_end) (auto simp: sync_simps)

section \<open>Tasks that are not in the registry\<close>

text \<open>
  The tasks of \<open>K\<close> have no entry, and the waits of \<open>T\<close>, each with its task, belong to no entry
  yet: their tokens are armed, or have ended before the task was given up.
\<close>

definition loose ::
  "('v, 'e, 't, 'z) parking_scheme \<Rightarrow> addr \<Rightarrow> task_id \<Rightarrow> addr option \<Rightarrow> bool"
where
  "loose s t k c \<longleftrightarrow>
     t < next_token s \<and> tok_task (tokens s t) = k \<and> tok_cancel (tokens s t) = c \<and>
     (tok_state (tokens s t) = Armed \<or> over (tok_state (tokens s t))) \<and>
     (\<forall>j e. entry_of s j = Some e \<longrightarrow> p_token (e_parked e) \<noteq> t)"

definition aside ::
  "task_id set \<Rightarrow> (addr \<times> task_id \<times> addr option) set \<Rightarrow> ('v, 'e, 't, 'z) parking_scheme \<Rightarrow> bool"
where
  "aside K T s \<longleftrightarrow>
     (\<forall>k \<in> K. entry_of s k = None) \<and>
     (\<forall>t k c. (t, k, c) \<in> T \<longrightarrow> loose s t k c)"

definition all_committed :: "('v, 'e, 't, 'z) parking_scheme \<Rightarrow> bool" where
  "all_committed s \<longleftrightarrow> (\<forall>k e. entry_of s k = Some e \<longrightarrow> e_committed e)"

lemma aside_frame:
  assumes "aside K T s" and "reg s' = reg s" and "toks s' = toks s"
  shows "aside K T s'"
  using assms(1) unfolding aside_def loose_def reg_eqD [OF assms(2)] toks_eqD [OF assms(3)] .

lemma aside_end:
  assumes "aside K T s" and "is_waiting s t" and "over st" and "reg s' = reg s"
    and "next_token s' = next_token s"
    and "\<And>u. tok_state (tokens s' u) = (if u = t then st else tok_state (tokens s u))"
    and "\<And>u. tok_task (tokens s' u) = tok_task (tokens s u)"
    and "\<And>u. tok_cancel (tokens s' u) = tok_cancel (tokens s u)"
  shows "aside K T s'"
  using assms(1-3) unfolding aside_def loose_def reg_eqD [OF assms(4)] by (auto simp: assms(5-))

lemma aside_token_new:
  assumes "aside K T s"
  shows "aside K T (snd (token_new k c s))"
  using assms unfolding aside_def loose_def reg_eqD [OF reg_token_new]
  by (auto simp: token_new_def intro: less_SucI)

lemma aside_remove:
  assumes "aside K T s" and "entry_of s k = Some e"
    and "over (tok_state (tokens s (p_token (e_parked e))))"
    and "shards s' = shards (remove_entry k s)" and "next_token s' = next_token s"
    and "tokens s' = tokens (snd (token_take (p_token (e_parked e)) s))"
  shows "aside K T s'"
proof -
  have entries: "entry_of s' j = (if j = k then None else entry_of s j)" for j
    using entry_of_remove [of k s j] assms(4) by (simp add: entry_of_def)
  have toks: "tok_task (tokens s' u) = tok_task (tokens s u)"
    "tok_cancel (tokens s' u) = tok_cancel (tokens s u)"
    "u \<noteq> p_token (e_parked e) \<Longrightarrow> tok_state (tokens s' u) = tok_state (tokens s u)" for u
    using token_take_over [OF assms(3), of u] assms(6) by auto
  have "loose s' t j c" if "(t, j, c) \<in> T" for t j c
  proof -
    have 1: "loose s t j c" using assms(1) that by (simp add: aside_def)
    with assms(2) have "t \<noteq> p_token (e_parked e)" unfolding loose_def by metis
    with 1 show ?thesis by (simp add: loose_def entries toks assms(5))
  qed
  with assms(1) show ?thesis by (simp add: aside_def entries)
qed
lemma parking_wake_cases:
  assumes inv: "reg_inv D (add_mset k W) s"
  obtains (gone) "entry_of s k = None" "parking_wake k s = s"
  | (handed) e r s' where "entry_of s k = Some e" "parking_wake k s = s'" "k \<notin># W" "e_committed e"
      "over (tok_state (tokens s (p_token (e_parked e))))"
      "shards s' = shards (remove_entry k s)" "next_token s' = next_token s" "flags s' = flags s"
      "tokens s' = tokens (snd (token_take (p_token (e_parked e)) s))"
      "ready_log s' = ready_log s @ [(e_task e, r)]" "shut_down s' = shut_down s"
      "fst (token_take (p_token (e_parked e)) s) = Some r"
      "parking.more s' = parking.more s"
proof (cases "entry_of s k")
  case None
  then show ?thesis by (simp add: gone parking_wake_def)
next
  case (Some e)
  let ?t = "p_token (e_parked e)"
  have ok: "entry_ok (add_mset k W) s k e" using inv Some by (simp add: reg_inv_def)
  then have over: "over (tok_state (tokens s ?t))" and com: "e_committed e" and W: "k \<notin># W"
    by (auto simp: entry_ok_def Let_def not_in_iff split: if_splits)
  let ?s2 = "(remove_entry k s)\<lparr>waiting_count := u64_sub (waiting_count s) 1\<rparr>"
  have tk2: "tokens ?s2 = tokens s" "next_token ?s2 = next_token s" "flags ?s2 = flags s"
    by (simp_all add: remove_entry_def)
  have take: "tokens (snd (token_take ?t ?s2)) = tokens (snd (token_take ?t s))"
    "fst (token_take ?t ?s2) = fst (token_take ?t s)"
    using tk2 by (simp_all add: token_take_def set_state_def split: token_state.splits)
  obtain r s3 where f: "finish (e_parked e) ?s2 = (r, s3)" by fastforce
  note fin = finish_over [OF _ f, unfolded tk2, OF over]
  from fin(1) obtain res where r: "r = Some res" by auto
  have "fst (token_take ?t ?s2) = Some res"
    using f r by (auto simp: finish_def parked_finish_def split: prod.splits option.splits)
  moreover have "parking_wake k s = s3\<lparr>ready_log := ready_log s3 @ [(e_task e, res)]\<rparr>"
    using Some f r by (simp add: parking_wake_def Let_def)
  ultimately show ?thesis
    using handed [OF Some, of _ res] fin reg_eqD [OF fin(2)] take over com W by simp
qed

lemma aside_wake:
  assumes "reg_inv D (add_mset k W) s" and "aside K T s"
  shows "aside K T (parking_wake k s)"
  using assms(1)
proof (cases rule: parking_wake_cases)
  case (handed e r s')
  with aside_remove [OF assms(2)] show ?thesis by simp
qed (use assms(2) in simp)

lemma all_committed_wake:
  assumes "reg_inv D (add_mset k W) s" and "all_committed s"
  shows "all_committed (parking_wake k s)"
  using assms(1)
proof (cases rule: parking_wake_cases)
  case (handed e r s')
  then have "entry_of s' j = (if j = k then None else entry_of s j)" for j
    using entry_of_remove [of k s j] by (simp add: entry_of_def)
  with handed assms(2) show ?thesis by (simp add: all_committed_def)
qed (use assms(2) in simp)

lemma all_committed_frame: "all_committed s \<Longrightarrow> reg s' = reg s \<Longrightarrow> all_committed s'"
  unfolding all_committed_def by (drule reg_eqD(7)) simp

text \<open>The registry keeps the contract of \<^verbatim>\<open>Wake\<close>.\<close>

definition registry_owes ::
  "task_id set \<Rightarrow> (addr \<times> task_id \<times> addr option) set \<Rightarrow> task_id multiset \<Rightarrow> ('v, 'e, 't, 'z) parking_scheme \<Rightarrow> bool"
where
  "registry_owes K T W s \<longleftrightarrow> reg_inv {} W s \<and> all_committed s \<and> aside K T s"

lemma registry_contract: "wake_contract parking_wake (registry_owes K T)"
proof unfold_locales
  fix W s t c f assume "registry_owes K T W s" and c: "claim s t = Some c"
  with aside_end [of K T s t "Fired f" "fst (fire t f s wakes_default)"] c
  show "registry_owes K T (W + debt s t) (fst (fire c f s wakes_default))"
    by (auto simp: registry_owes_def sync_simps intro: reg_inv_fire all_committed_frame)
next
  fix W s t c assume "registry_owes K T W s" and c: "claim s t = Some c"
  with aside_end [of K T s t Expired "set_state t Expired s"] c
  show "registry_owes K T (W + debt s t) (set_state t Expired s)"
    by (auto simp: registry_owes_def sync_simps intro: reg_inv_expire all_committed_frame)
next
  fix W s t assume "registry_owes K T W s" and c: "is_waiting s t"
  with aside_end [of K T s t Cancelled "set_state t Cancelled s"]
  show "registry_owes K T (W + debt s t) (set_state t Cancelled s)"
    by (auto simp: registry_owes_def sync_simps intro: reg_inv_cancel all_committed_frame)
next
  fix W s k assume "registry_owes K T (add_mset k W) s"
  then show "registry_owes K T W (parking_wake k s)"
    unfolding registry_owes_def by (blast intro: reg_inv_wake aside_wake all_committed_wake)
next
  fix W s k c assume "registry_owes K T W s"
  then show "registry_owes K T W (snd (token_new k c s))"
    unfolding registry_owes_def
    by (metis reg_inv_token_new aside_token_new all_committed_frame reg_token_new)
qed (auto simp: registry_owes_def elim!: reg_inv_frame aside_frame all_committed_frame)

lemma aside_new_wait:
  assumes "aside K T s" and "reg_inv D W s" and "token_new k c s = (t, s')"
  shows "aside K (insert (t, k, c) T) s'"
proof -
  have "aside K T s'" using aside_token_new [OF assms(1), of k c] assms(3) by simp
  moreover have "aside {} {(t, k, c)} s'"
  proof -
    have "p_token (e_parked e) \<noteq> next_token s" if "entry_of s j = Some e" for j e
      using reg_inv_entry [OF assms(2) that] by (auto simp: entry_ok_def Let_def)
    moreover have "reg s' = reg s"
      using reg_token_new [of k c s] assms(3) by simp
    then have "entry_of s' = entry_of s" by (rule reg_eqD)
    moreover have "t = next_token s" "t < next_token s'" "tok_task (tokens s' t) = k"
      "tok_cancel (tokens s' t) = c" "tok_state (tokens s' t) = Armed"
      using assms(3) by (auto simp: token_new_def)
    ultimately show ?thesis by (simp add: aside_def loose_def)
  qed
  ultimately show ?thesis unfolding aside_def by auto
qed

interpretation registry: park_contract parking_wake registry_owes
proof (rule park_contract.intro)
  fix K T W s k c t s' assume o: "registry_owes K T W s" and n: "token_new k c s = (t, s')"
  have "reg s' = reg s" using reg_token_new [of k c s] n by simp
  moreover have "reg_inv {} W s'" using reg_inv_token_new [of "{}" W s k c] o n
    by (simp add: registry_owes_def)
  ultimately show "registry_owes K (insert (t, k, c) T) W s'"
    using o aside_new_wait [OF _ _ n] all_committed_frame unfolding registry_owes_def by blast
qed (rule registry_contract)
section \<open>The steps of \<open>park\<close>\<close>

lemma committed_count_shards: "shards s' = shards s \<Longrightarrow> committed_count s' = committed_count s"
  by (simp add: committed_count_def all_entries_def)

lemma committed_count_put:
  "committed_count (put_entry k e s) = committed_count (remove_entry k s) + (if e_committed e then 1 else 0)"
  using committed_count_upd [of "put_entry k e s" s k "(k, e) # filter (\<lambda>x. fst x \<noteq> k) (shards s (shard k))"]
    committed_count_upd [of "remove_entry k s" s k "filter (\<lambda>x. fst x \<noteq> k) (shards s (shard k))"]
  by (auto simp: put_entry_def remove_entry_def split: if_splits)

lemma remove_absent: "entry_of s k = None \<Longrightarrow> shards (remove_entry k s) = shards s"
proof -
  assume "entry_of s k = None"
  then have "filter (\<lambda>x. fst x \<noteq> k) (shards s (shard k)) = shards s (shard k)"
    by (intro filter_id_conv_all) (auto simp: entry_of_def map_of_eq_None_iff image_iff)
  then show ?thesis by (simp add: remove_entry_def)
qed

lemma committed_count_put_new:
  "entry_of s k = None \<Longrightarrow>
    committed_count (put_entry k e s) = committed_count s + (if e_committed e then 1 else 0)"
  using committed_count_put [of k e s] committed_count_shards [OF remove_absent] by simp

lemma reg_inv_insert:
  assumes inv: "reg_inv D W s" and k: "entry_of s k = None" "k \<notin> D" "k \<notin># W"
    and p: "p_token p < next_token s" "tok_task (tokens s (p_token p)) = k"
      "tok_state (tokens s (p_token p)) = Armed \<or> over (tok_state (tokens s (p_token p)))"
  shows "reg_inv D W (put_entry k \<lparr>e_task = task, e_parked = p, e_committed = False\<rparr> s)"
    (is "reg_inv D W ?s")
proof -
  have toks: "tokens ?s = tokens s" "next_token ?s = next_token s" "is_waiting ?s = is_waiting s"
    by (simp_all add: put_entry_def is_waiting_def fun_eq_iff)
  have "entry_ok W ?s j e = entry_ok W s j e" for j e by (simp add: entry_ok_def toks)
  moreover have "entry_ok W s k \<lparr>e_task = task, e_parked = p, e_committed = False\<rparr>"
    using p k(3) by (simp add: entry_ok_def not_in_iff)
  moreover have "tok_task (tokens s u) \<noteq> k" if "tok_state (tokens s u) = Parked" "tok_task (tokens s u) \<notin> D" for u
    using inv k(1) that by (auto simp: reg_inv_def)
  ultimately show ?thesis
    using inv k unfolding reg_inv_def by (auto simp: toks committed_count_put_new shards_ok_put)
qed

lemma token_cancel_armed:
  "tok_state (tokens s t) \<noteq> Parked \<Longrightarrow> snd (token_cancel wake t s) = abandon t s"
  by (auto simp: token_cancel_def abandon_def is_waiting_def split: token_state.splits)

lemma reg_inv_abandon:
  assumes "reg_inv D W s" and "tok_state (tokens s t) \<noteq> Parked"
  shows "reg_inv D W (abandon t s)"
  using reg_inv_cancel [OF assms(1), of t] assms by (auto simp: abandon_def debt_def)

lemma reg_inv_drop:
  assumes "reg_inv D W s" and "tok_state (tokens s (p_token p)) \<noteq> Parked"
  shows "reg_inv D W (drop_parked p s)"
  using reg_inv_abandon [OF assms] by (rule reg_inv_frame) (simp_all add: toks_drop_parked)

lemma reg_inv_commit:
  assumes inv: "reg_inv D W s" and e: "entry_of s k = Some e" "\<not> e_committed e"
    and t: "t = p_token (e_parked e)" "tok_state (tokens s t) = Armed"
    and s': "s' = (put_entry k (e\<lparr>e_committed := True\<rparr>) (set_state t Parked s))
      \<lparr>waiting_count := u64_add (waiting_count s) 1\<rparr>"
  shows "reg_inv D W s'"
proof -
  let ?e = "e\<lparr>e_committed := True\<rparr>"
  have ok: "entry_ok W s k e" using inv e by (simp add: reg_inv_def)
  note reg = reg_set_state [of t Parked s]
  have toks: "next_token s' = next_token s" "tok_task (tokens s' u) = tok_task (tokens s u)"
    "tok_state (tokens s' u) = (if u = t then Parked else tok_state (tokens s u))" for u
    unfolding s' by (simp_all add: put_entry_def sync_simps)
  have entries: "entry_of s' j = (if j = k then Some ?e else entry_of s j)" for j
    unfolding s' using reg_eqD(7) [OF reg] by simp
  have "entry_ok W s' j d" if "entry_of s j = Some d" "j \<noteq> k" for j d
  proof -
    have "entry_ok W s j d" using inv that by (simp add: reg_inv_def)
    with ok that(2) show ?thesis unfolding entry_ok_def Let_def toks t(1) by auto
  qed
  moreover have "entry_ok W s' k ?e"
    using ok e(2) t unfolding entry_ok_def Let_def toks by auto
  moreover have "committed_count s' = Suc (committed_count s)"
    using committed_count_put [of k ?e "set_state t Parked s"]
      committed_count_remove [OF _ e(1)] e(2) inv
      committed_count_shards [of "remove_entry k (set_state t Parked s)" "remove_entry k s"]
      committed_count_shards [of s' "put_entry k ?e (set_state t Parked s)"]
    unfolding s' by (simp add: reg_inv_def remove_entry_def reg_eqD [OF reg])
  then have "waiting_count s' = committed_count s' mod 2 ^ 64"
    using inv by (simp add: s' reg_inv_def u64_add_def mod_Suc_eq)
  moreover have "shards_ok s'"
  proof -
    have "shards_ok (set_state t Parked s)"
      using inv shards_ok_cong [OF reg_eqD(1) [OF reg]] by (simp only: reg_inv_def)
    then have "shards_ok (put_entry k ?e (set_state t Parked s))" by (rule shards_ok_put)
    then show ?thesis unfolding s' by (rule shards_ok_cong [THEN iffD2, rotated]) simp
  qed
  moreover have tk: "tok_task (tokens s t) = k" "t < next_token s"
    using ok t(1) by (simp_all add: entry_ok_def Let_def)
  moreover have "\<not> is_waiting s' u" if "next_token s \<le> u" for u
    using inv tk(2) that unfolding reg_inv_def is_waiting_def toks by auto
  moreover have "\<not> broken s'"
    using inv reg_eqD(5) [OF reg] by (simp add: s' reg_inv_def)
  moreover have "tok_task (tokens s u) \<in> D \<or>
      (\<exists>d. entry_of s' (tok_task (tokens s u)) = Some d \<and> p_token (e_parked d) = u \<and> e_committed d)"
    if "tok_state (tokens s' u) = Parked" for u
  proof (cases "u = t")
    case False
    with that have "tok_state (tokens s u) = Parked" by (simp add: toks)
    with inv have "tok_task (tokens s u) \<in> D \<or> (\<exists>d. entry_of s (tok_task (tokens s u)) = Some d \<and>
        p_token (e_parked d) = u \<and> e_committed d)" by (simp add: reg_inv_def)
    with e show ?thesis by (auto simp: entries)
  qed (use t(1) tk(1) in \<open>simp add: entries\<close>)
  moreover have "j \<in> D \<or> entry_of s' j \<noteq> None" if "j \<in># W" for j
    using inv that by (auto simp: reg_inv_def entries)
  moreover have "j \<notin> D" if "entry_of s' j = Some d" for j d
    using inv e(1) that by (auto simp: reg_inv_def entries split: if_splits)
  moreover have "entry_ok W s' j d" if "entry_of s' j = Some d" for j d
    using calculation(1,2) that by (auto simp: entries split: if_splits)
  ultimately show ?thesis
    by (intro reg_invI) (simp_all only: toks(1,2) simp_thms)
qed

text \<open>What the second lock section of \<open>park\<close> finds and does.\<close>

lemma token_commit_over: "over (tok_state (tokens s t)) \<Longrightarrow> token_commit t s = (False, s)"
  by (auto dest!: over_cases simp: token_commit_def)

lemma token_commit_armed: "tok_state (tokens s t) = Armed \<Longrightarrow> token_commit t s = (True, set_state t Parked s)"
  by (simp add: token_commit_def)

lemma park_commit_armed:
  assumes "tok_state (tokens s t) = Armed" and "entry_of s k = Some e"
  shows "park_commit k t s = (None, (put_entry k (e\<lparr>e_committed := True\<rparr>) (set_state t Parked s))
      \<lparr>waiting_count := u64_add (waiting_count s) 1\<rparr>)"
  using assms reg_eqD(2,7) [OF reg_set_state, of t Parked s]
  by (simp add: park_commit_def token_commit_armed)

lemma park_commit_over:
  assumes over: "over (tok_state (tokens s t))" and e: "entry_of s k = Some e"
    and t: "p_token (e_parked e) = t" and c: "park_commit k t s = (r, s')"
  shows "\<exists>res. r = Some (e_task e, res) \<and> fst (token_take t s) = Some res"
    and "reg s' = reg (remove_entry k s)" and "next_token s' = next_token s" and "flags s' = flags s"
    and "tokens s' = tokens (snd (token_take t s))"
proof -
  have tk: "tokens (remove_entry k s) = tokens s" "next_token (remove_entry k s) = next_token s"
    "flags (remove_entry k s) = flags s"
    by (simp_all add: remove_entry_def)
  have take: "tokens (snd (token_take t (remove_entry k s))) = tokens (snd (token_take t s))"
    "fst (token_take t (remove_entry k s)) = fst (token_take t s)"
    using tk by (simp_all add: token_take_def set_state_def split: token_state.splits)
  obtain r1 s1 where f: "finish (e_parked e) (remove_entry k s) = (r1, s1)" by fastforce
  note fin = finish_over [OF _ f, unfolded tk t, OF over]
  from fin(1) obtain res where r: "r1 = Some res" by auto
  have "fst (token_take t s) = Some res"
    using f r take(2) t by (auto simp: finish_def parked_finish_def split: prod.splits option.splits)
  moreover have "r = Some (e_task e, res)" and s': "s' = s1"
    using c e f r by (simp_all add: park_commit_def token_commit_over [OF over])
  ultimately show "\<exists>res. r = Some (e_task e, res) \<and> fst (token_take t s) = Some res" by simp
  show "reg s' = reg (remove_entry k s)" "next_token s' = next_token s" "flags s' = flags s"
    "tokens s' = tokens (snd (token_take t s))"
    using fin take s' by simp_all
qed

lemma reg_inv_park_commit:
  assumes inv: "reg_inv D W s" and e: "entry_of s k = Some e" "\<not> e_committed e"
    and t: "p_token (e_parked e) = t" and c: "park_commit k t s = (r, s')"
  shows "reg_inv D W s'"
proof -
  have ok: "entry_ok W s k e" using inv e by (simp add: reg_inv_def)
  with e(2) t consider "tok_state (tokens s t) = Armed" | "over (tok_state (tokens s t))"
    by (auto simp: entry_ok_def Let_def)
  then show ?thesis
  proof cases
    case 1
    with park_commit_armed [OF 1 e(1)] c show ?thesis
      by (intro reg_inv_commit [OF inv e t [symmetric] 1]) simp
  next
    case 2
    note pc = park_commit_over [OF 2 e(1) t c]
    have "committed_count s = committed_count (remove_entry k s)"
      using committed_count_remove [OF _ e(1)] e(2) inv by (simp add: reg_inv_def)
    then have cnt: "waiting_count s' = committed_count s' mod 2 ^ 64"
      using inv reg_eqD(2) [OF pc(2)] committed_count_cong [OF pc(2)] by (simp add: reg_inv_def)
    have W: "k \<notin># W" using ok e(2) by (simp add: entry_ok_def Let_def not_in_iff)
    show ?thesis
      by (rule reg_inv_remove [OF inv e(1), of s' W])
        (use 2 pc cnt W inv reg_eqD [OF pc(2)] t in \<open>simp_all add: reg_inv_def\<close>)
  qed
qed
section \<open>The steps of \<open>shutdown\<close>\<close>

lemma entry_of_Some_in: "shards_ok s \<Longrightarrow> entry_of s k = Some e \<longleftrightarrow> (k, e) \<in> set (shards s (shard k))"
  by (simp add: entry_of_def shards_ok_def)

lemma shards_in_entry: "shards_ok s \<Longrightarrow> (k, e) \<in> set (shards s i) \<Longrightarrow> entry_of s k = Some e \<and> i = shard k"
  by (fastforce simp: shards_ok_def entry_of_def)

lemma entry_of_drain:
  assumes "shards_ok s" and "drain_shard i s = (xs, s')"
  shows "entry_of s' k = (if k \<in> fst ` set xs then None else entry_of s k)"
proof -
  have "k \<in> fst ` set (shards s i) \<longleftrightarrow> i = shard k \<and> entry_of s k \<noteq> None"
  proof
    assume "k \<in> fst ` set (shards s i)"
    then obtain e where "(k, e) \<in> set (shards s i)" by auto
    then show "i = shard k \<and> entry_of s k \<noteq> None" using shards_in_entry [OF assms(1)] by blast
  next
    assume "i = shard k \<and> entry_of s k \<noteq> None"
    then obtain e where "(k, e) \<in> set (shards s i)" using entry_of_Some_in [OF assms(1)] by blast
    then show "k \<in> fst ` set (shards s i)" by (rule image_eqI [rotated]) simp
  qed
  moreover have "entry_of s' k = (if shard k = i then None else entry_of s k)"
    using assms(2) by (auto simp: drain_shard_def entry_of_def)
  moreover have "xs = shards s i" using assms(2) by (auto simp: drain_shard_def)
  ultimately show ?thesis by auto
qed

lemma u64_sub_mod:
  assumes "b \<le> a"
  shows "u64_sub (a mod 2 ^ 64) b = (a - b) mod 2 ^ 64"
proof -
  have "(a mod n + n - b mod n) mod n = (a - b) mod n" if "0 < n" for n :: nat
  proof -
    have "b mod n \<le> n" using that by (simp add: less_imp_le)
    moreover obtain c where "a = b + c" using assms le_Suc_ex by blast
    moreover have "b = b div n * n + b mod n" by simp
    ultimately have "a + (n - b mod n) = (a - b) + (b div n * n + n)" by linarith
    then have "a + (n - b mod n) = (a - b) + (b div n + 1) * n" by simp
    moreover have "a mod n + n - b mod n = a mod n + (n - b mod n)" using \<open>b mod n \<le> n\<close> by simp
    ultimately show ?thesis by (metis mod_add_left_eq mod_mult_self1)
  qed
  then show ?thesis by (simp only: u64_sub_def zero_less_power zero_less_numeral)
qed

lemma committed_count_drain:
  assumes "i < SHARDS" and "drain_shard i s = (xs, s')"
  shows "committed_count s = committed_count s' + length (filter (\<lambda>(k, e). e_committed e) xs)"
proof -
  have "shard i = i" using assms(1) by (simp add: shard_def)
  with committed_count_upd [of s' s i "[]"] assms(2) show ?thesis
    by (auto simp: drain_shard_def)
qed

lemma reg_inv_drain:
  assumes inv: "reg_inv D W s" and i: "i < SHARDS" and d: "drain_shard i s = (xs, s')"
  shows "reg_inv (D \<union> fst ` set xs) W s'"
proof -
  have ok: "shards_ok s" using inv by (simp add: reg_inv_def)
  note entries = entry_of_drain [OF ok d]
  have s': "tokens s' = tokens s" "next_token s' = next_token s" "is_waiting s' = is_waiting s"
    "broken s' = broken s" "shards s' = (shards s)(i := [])"
    "waiting_count s' = u64_sub (waiting_count s) (length (filter (\<lambda>(k, e). e_committed e) xs))"
    using d by (auto simp: drain_shard_def is_waiting_def fun_eq_iff)
  have "waiting_count s' = committed_count s' mod 2 ^ 64"
    using inv committed_count_drain [OF i d] u64_sub_mod by (simp add: s'(6) reg_inv_def)
  moreover have "shards_ok s'" using ok by (auto simp: shards_ok_def s'(5))
  moreover have "entry_ok W s' k e" if "entry_of s' k = Some e" for k e
  proof -
    have "entry_ok W s k e" using that reg_inv_entry [OF inv] by (simp add: entries split: if_splits)
    then show ?thesis by (simp add: entry_ok_def s')
  qed
  moreover have "k \<notin> D \<union> fst ` set xs" if "entry_of s' k = Some e" for k e
    using that inv by (auto simp: entries reg_inv_def split: if_splits)
  moreover have "tok_task (tokens s t) \<in> D \<union> fst ` set xs \<or>
      (\<exists>e. entry_of s' (tok_task (tokens s t)) = Some e \<and> p_token (e_parked e) = t \<and> e_committed e)"
    if "tok_state (tokens s t) = Parked" for t
    using that inv unfolding reg_inv_def entries by auto
  moreover have "k \<in> D \<union> fst ` set xs \<or> entry_of s' k \<noteq> None" if "k \<in># W" for k
    using that inv unfolding reg_inv_def entries by auto
  moreover have "\<not> is_waiting s t" if "next_token s \<le> t" for t
    using that inv unfolding reg_inv_def by simp
  moreover have "\<not> broken s" using inv by (simp add: reg_inv_def)
  ultimately show ?thesis
    by (intro reg_invI) (simp_all only: s'(1-4) simp_thms not_False_eq_True)
qed

text \<open>Dropping the place of a task that a shutdown has taken.\<close>

lemma reg_inv_drop_taken:
  assumes inv: "reg_inv D W s" and t: "tok_task (tokens s (p_token p)) \<in> D"
  shows "reg_inv D W (drop_parked p s)"
proof (cases "tok_state (tokens s (p_token p)) = Parked")
  case True
  let ?t = "p_token p"
  have "abandon ?t s = set_state ?t Cancelled s" using True by (simp add: abandon_def is_waiting_def)
  then have 1: "reg_inv D (W + debt s ?t) (abandon ?t s)"
    using reg_inv_cancel [OF inv] True by (simp add: is_waiting_def)
  have "debt s ?t = {#tok_task (tokens s ?t)#}" using True by (simp add: debt_def)
  moreover have "entry_of (abandon ?t s) (tok_task (tokens s ?t)) = None"
    using inv t reg_eqD(7) [OF reg_abandon, of ?t s] by (metis not_None_eq reg_inv_def)
  moreover have "reg_inv D W s'" if "reg_inv D (add_mset k W) s'" "entry_of s' k = None" for k s'
    using reg_inv_wake [OF that(1)] that(2) by (simp add: parking_wake_def)
  ultimately have "reg_inv D W (abandon ?t s)" using 1 by simp
  then show ?thesis by (rule reg_inv_frame) (simp_all add: toks_drop_parked)
qed (rule reg_inv_drop [OF inv])

section \<open>Runs of the runtime\<close>

text \<open>
  The operations of the runtime, one after the other, each with all the wakes it sends. A task
  is parked by the worker that runs it, so it is not in the registry then. A stored closure that
  \<^verbatim>\<open>abandon\<close> or \<^verbatim>\<open>drain\<close> calls is a step of its own.
\<close>

inductive rt_step :: "('v, 'e, 't) parking \<Rightarrow> ('v, 'e, 't) parking \<Rightarrow> bool" where
  rt_send: "rt_step s (snd (try_send_at parking_wake a v s))"
| rt_receive: "rt_step s (snd (try_receive_at parking_wake a s))"
| rt_close: "rt_step s (snd (close_at parking_wake a c s))"
| rt_drain: "rt_step s (drain_at parking_wake (\<lambda>_ s. s) a s)"
| rt_complete: "rt_step s (snd (complete_at parking_wake a v s))"
| rt_fire_due: "rt_step s (snd (fire_due parking_wake s))"
| rt_close_at: "rt_step s (snd (timer_close_at d a s))"
| rt_disarm: "rt_step s (snd (disarm i s))"
| rt_tick: "rt_step s (s\<lparr>clock := c\<rparr>)"
| rt_flag: "rt_step s (s\<lparr>flags := (flags s)(f := True)\<rparr>)"
| rt_park: "entry_of s k = None \<Longrightarrow> rt_step s (snd (parking_park k task w refused s))"
| rt_cancel: "rt_step s (snd (parking_cancel k s))"
| rt_shutdown: "rt_step s (snd (shutdown s))"

definition rt_inv :: "('v, 'e, 't) parking \<Rightarrow> bool" where
  "rt_inv s \<longleftrightarrow> registry_owes {} {} {#} s"

lemma aside_mono: "aside K T s \<Longrightarrow> K' \<subseteq> K \<Longrightarrow> T' \<subseteq> T \<Longrightarrow> aside K' T' s"
  by (auto simp: aside_def)

lemma aside_empty [simp]: "aside {} {} s"
  by (simp add: aside_def)

lemma park_steps_inv:
  assumes owes: "registry_owes {k} {(p_token p, k, c)} {#} s"
    and ins: "park_insert k task p s = (None, s2)"
  shows "registry_owes {} {} {#} (snd (park_commit k (p_token p)
    (park_check parking_wake refused (p_token p) s2)))"
proof -
  let ?t = "p_token p"
  let ?e = "\<lparr>e_task = task, e_parked = p, e_committed = False\<rparr>"
  have inv: "reg_inv {} {#} s" and none: "entry_of s k = None" and com: "all_committed s"
    and tk: "?t < next_token s" "tok_task (tokens s ?t) = k"
      "tok_state (tokens s ?t) = Armed \<or> over (tok_state (tokens s ?t))"
    using owes by (auto simp: registry_owes_def aside_def loose_def)
  have s2: "s2 = put_entry k ?e s"
    using ins none by (auto simp: park_insert_def Let_def split: if_splits)
  have inv2: "reg_inv {} {#} s2" unfolding s2 by (rule reg_inv_insert) (use inv none tk in simp_all)
  have st2: "tok_state (tokens s2 ?t) \<noteq> Parked"
    using tk(3) by (auto simp: s2 put_entry_def)
  define s3 where "s3 = park_check parking_wake refused ?t s2"
  have s3: "s3 = s2 \<or> s3 = abandon ?t s2"
    by (auto simp: s3_def park_check_def token_cancel_armed [OF st2])
  have inv3: "reg_inv {} {#} s3" using s3 inv2 reg_inv_abandon [OF inv2 st2] by auto
  have "entry_of s3 = entry_of s2" using s3 reg_eqD(7) [OF reg_abandon, of ?t s2] by auto
  then have e3: "entry_of s3 j = (if j = k then Some ?e else entry_of s j)" for j by (simp add: s2)
  obtain r s4 where c: "park_commit k ?t s3 = (r, s4)" by fastforce
  have "reg_inv {} {#} s4"
    by (rule reg_inv_park_commit [where e = ?e, OF inv3 _ _ _ c]) (simp_all add: e3)
  moreover have "all_committed s4"
  proof -
    have "tok_state (tokens s3 ?t) = Armed \<or> over (tok_state (tokens s3 ?t))"
      using reg_inv_entry [OF inv3, of k ?e] e3 by (simp add: entry_ok_def Let_def)
    then show ?thesis
    proof
      assume "tok_state (tokens s3 ?t) = Armed"
      from park_commit_armed [OF this, of k ?e] c e3 reg_eqD(7) [OF reg_set_state, of ?t Parked s3]
      show ?thesis using com by (auto simp: all_committed_def split: if_splits)
    next
      assume "over (tok_state (tokens s3 ?t))"
      from park_commit_over(2) [OF this _ _ c, of ?e] e3
      have "reg s4 = reg (remove_entry k s3)" by simp
      then have "entry_of s4 = entry_of (remove_entry k s3)" by (rule reg_eqD)
      then show ?thesis using com e3 by (auto simp: all_committed_def split: if_splits)
    qed
  qed
  ultimately show ?thesis by (simp add: registry_owes_def s3_def [symmetric] c)
qed
lemma parking_park_inv:
  assumes "rt_inv s" and "entry_of s k = None"
  shows "rt_inv (snd (parking_park k task w refused s))"
proof (cases "refused s")
  case False
  have owes: "registry_owes {k} {} {#} s"
    using assms by (simp add: rt_inv_def registry_owes_def aside_def)
  obtain r s1 where p: "park parking_wake k w s = (r, s1)" by fastforce
  have o1: "registry_owes {} {} {#} s1"
    using registry.park_owes [OF _ p] assms(1) by (simp add: rt_inv_def)
  show ?thesis
  proof (cases r)
    case (Park_Parked q)
    have o2: "registry_owes {k} {(p_token q, k, wait_cancel w)} {#} s1"
      using registry.park_parked_owes(1) [OF owes] p Park_Parked by auto
    obtain x s2 where i: "park_insert k task q s1 = (x, s2)" by fastforce
    show ?thesis
    proof (cases x)
      case None
      with park_steps_inv [OF o2] i False p Park_Parked show ?thesis
        by (simp add: parking_park_def rt_inv_def)
    next
      case (Some y)
      then have s2: "s2 = drop_parked q s1"
        using i by (auto simp: park_insert_def Let_def split: if_splits)
      have "tok_state (tokens s1 (p_token q)) \<noteq> Parked"
        using o2 by (auto simp: registry_owes_def aside_def loose_def)
      with reg_inv_drop o1 have "registry_owes {} {} {#} s2"
        unfolding s2 registry_owes_def by (auto elim: all_committed_frame)
      with Some i False p Park_Parked show ?thesis
        by (simp add: parking_park_def rt_inv_def)
    qed
  qed (use False p o1 in \<open>simp_all add: parking_park_def rt_inv_def\<close>)
qed (use assms in \<open>simp add: parking_park_def\<close>)

lemma parking_cancel_inv: "rt_inv s \<Longrightarrow> rt_inv (snd (parking_cancel k s))"
  unfolding rt_inv_def parking_cancel_def
  by (auto split: option.splits intro: registry.token_cancel_owes)
lemma drain_shards_inv:
  assumes "reg_inv D W s" and "set is \<subseteq> {..<SHARDS}" and "distinct is" and "drain_shards is s = (xs, s')"
  shows "reg_inv (D \<union> fst ` set xs) W s'" and "xs = concat (map (shards s) is)" and "toks s' = toks s"
    and "shards s' = (\<lambda>i. if i \<in> set is then [] else shards s i)"
proof -
  have "reg_inv (D \<union> fst ` set xs) W s' \<and> xs = concat (map (shards s) is) \<and> toks s' = toks s \<and>
     shards s' = (\<lambda>i. if i \<in> set is then [] else shards s i)"
    using assms
  proof (induction "is" arbitrary: D s xs s')
    case (Cons i "is")
    obtain ys s1 where d: "drain_shard i s = (ys, s1)" by fastforce
    obtain zs s2 where r: "drain_shards is s1 = (zs, s2)" by fastforce
    have s1: "toks s1 = toks s" "shards s1 = (shards s)(i := [])" "ys = shards s i"
      using d by (auto simp: drain_shard_def)
    have m: "map (shards s1) is = map (shards s) is" using Cons.prems(3) by (auto simp: s1)
    have 1: "reg_inv (D \<union> fst ` set ys) W s1"
      using reg_inv_drain [OF Cons.prems(1) _ d] Cons.prems(2) by simp
    have p: "set is \<subseteq> {..<SHARDS}" "distinct is" using Cons.prems(2,3) by auto
    have "reg_inv (D \<union> fst ` set ys \<union> fst ` set zs) W s2 \<and>
        zs = concat (map (shards s) is) \<and> toks s2 = toks s \<and>
        shards s2 = (\<lambda>j. if j \<in> set is then [] else shards s1 j)"
      using Cons.IH [OF 1 p r] unfolding m s1(1) .
    moreover have "xs = ys @ zs" "s' = s2" using Cons.prems(4) d r by auto
    ultimately show ?case by (auto simp: s1 Un_assoc image_Un fun_eq_iff)
  qed (auto simp: fun_eq_iff)
  then show "reg_inv (D \<union> fst ` set xs) W s'" and "xs = concat (map (shards s) is)"
    and "toks s' = toks s" and "shards s' = (\<lambda>i. if i \<in> set is then [] else shards s i)"
    by blast+
qed

lemma drop_all_inv:
  assumes "reg_inv D W s" and "\<forall>(k, e) \<in> set xs. tok_task (tokens s (p_token (e_parked e))) \<in> D"
    and "s' = fold (\<lambda>(k, e). drop_parked (e_parked e)) xs s"
  shows "reg_inv D W s' \<and> reg s' = reg s \<and> next_token s' = next_token s \<and>
    (\<forall>t. tok_task (tokens s' t) = tok_task (tokens s t)) \<and>
    (\<forall>t. tok_state (tokens s' t) = (if t \<in> p_token ` e_parked ` snd ` set xs \<and> is_waiting s t
        then Cancelled else tok_state (tokens s t)))"
  using assms
proof (induction xs arbitrary: s)
  case (Cons x xs)
  obtain k e where x: "x = (k, e)" by (cases x)
  let ?s = "drop_parked (e_parked e) s" and ?t = "p_token (e_parked e)"
  have inv: "reg_inv D W ?s" using Cons.prems(1,2) x by (intro reg_inv_drop_taken) auto
  have toks: "toks ?s = toks (abandon ?t s)" by (rule toks_drop_parked)
  have state: "tok_state (tokens ?s u) = (if u = ?t \<and> is_waiting s u then Cancelled else tok_state (tokens s u))"
    and task: "tok_task (tokens ?s u) = tok_task (tokens s u)" and nxt: "next_token ?s = next_token s" for u
    unfolding toks_eqD [OF toks] by (auto simp: abandon_def sync_simps)
  have "is_waiting ?s u \<longleftrightarrow> u \<noteq> ?t \<and> is_waiting s u" for u
    unfolding is_waiting_def state by auto
  with Cons.IH [OF inv] Cons.prems x show ?case
    by (auto simp: state task nxt)
qed (simp add: is_waiting_def)
lemma shutdown_inv:
  assumes "rt_inv s" and "shutdown s = (xs, s')"
  shows "rt_inv s'" and "\<forall>k. entry_of s' k = None"
    and "xs = sort_key fst (map (\<lambda>(k, e). (k, e_task e)) (all_entries s))" and "shut_down s'"
proof -
  have inv: "reg_inv {} {#} s" using assms(1) by (simp add: rt_inv_def registry_owes_def)
  let ?s0 = "s\<lparr>shut_down := True\<rparr>"
  have inv0: "reg_inv {} {#} ?s0"
    using inv unfolding reg_inv_def
    by (simp add: entry_ok_def is_waiting_def shards_ok_def committed_count_def all_entries_def)
  obtain ys s1 where d: "drain_shards [0..<SHARDS] ?s0 = (ys, s1)" by fastforce
  note ds = drain_shards_inv [OF inv0 _ _ d]
  have ys: "ys = all_entries s" using ds(2) by (simp add: all_entries_def atLeast_upt)
  have toks: "toks s1 = toks s" using ds(3) by (simp add: atLeast_upt)
  have entry: "entry_of s k = Some e" if "(k, e) \<in> set ys" for k e
    using that shards_in_entry [of s k e] inv by (auto simp: ys all_entries_def reg_inv_def)
  have none: "entry_of s1 k = None" for k
    using ds(4) shard_less [of k] by (simp add: entry_of_def atLeast_upt)
  define s2 where "s2 = fold (\<lambda>(k, e). drop_parked (e_parked e)) ys s1"
  have "tok_task (tokens s1 (p_token (e_parked e))) = k" if "(k, e) \<in> set ys" for k e
    using reg_inv_entry [OF inv entry [OF that]] toks_eqD(1) [OF toks]
    by (simp add: entry_ok_def Let_def)
  then have "\<forall>(k, e) \<in> set ys. tok_task (tokens s1 (p_token (e_parked e))) \<in> fst ` set ys"
    by force
  with drop_all_inv [OF _ _ s2_def, of "{} \<union> fst ` set ys" "{#}"] ds(1)
  have inv2: "reg_inv (fst ` set ys) {#} s2" and reg2: "reg s2 = reg s1"
    and state: "tok_state (tokens s2 t) = (if t \<in> p_token ` e_parked ` snd ` set ys \<and> is_waiting s1 t
        then Cancelled else tok_state (tokens s1 t))" for t
    by (simp_all add: atLeast_upt)
  have "tok_state (tokens s2 t) \<noteq> Parked" for t
  proof
    assume p: "tok_state (tokens s2 t) = Parked"
    then have "tok_state (tokens s t) = Parked" and nd: "t \<notin> p_token ` e_parked ` snd ` set ys"
      using state [of t] toks_eqD(1) [OF toks] by (auto simp: is_waiting_def split: if_splits)
    then obtain e where "entry_of s (tok_task (tokens s t)) = Some e" "p_token (e_parked e) = t"
      using inv by (auto simp: reg_inv_def)
    then have "(tok_task (tokens s t), e) \<in> set ys" "p_token (e_parked e) = t"
      using entry_of_Some_in [of s] inv shard_less unfolding ys all_entries_def reg_inv_def by auto
    with nd show False by force
  qed
  moreover have none2: "entry_of s2 k = None" for k using none reg_eqD(7) [OF reg2] by simp
  ultimately have "reg_inv {} {#} s2" using inv2 unfolding reg_inv_def by auto
  moreover have s': "s' = s2" "xs = sort_key fst (map (\<lambda>(k, e). (k, e_task e)) ys)"
    using assms(2) d by (simp_all add: shutdown_def s2_def)
  ultimately show "rt_inv s'" using none2 by (simp add: rt_inv_def registry_owes_def all_committed_def)
  show "\<forall>k. entry_of s' k = None" using none2 s' by simp
  show "xs = sort_key fst (map (\<lambda>(k, e). (k, e_task e)) (all_entries s))" using s' ys by simp
  have "shut_down s1" using d
  proof -
    have "shut_down (snd (drain_shards is s)) = shut_down s" for "is" and s :: "('a, 'b, 'c) parking"
    proof (induction "is" arbitrary: s)
      case (Cons i "is")
      obtain ys s1 where d: "drain_shard i s = (ys, s1)" by fastforce
      then have "shut_down s1 = shut_down s" by (auto simp: drain_shard_def)
      with Cons [of s1] d show ?case by (auto split: prod.splits)
    qed simp
    from this [of "[0..<SHARDS]" ?s0] d show ?thesis by simp
  qed
  then show "shut_down s'" using reg_eqD(3) [OF reg2] s' by simp
qed
lemma rt_step_inv: "rt_step s s' \<Longrightarrow> rt_inv s \<Longrightarrow> rt_inv s'"
proof (induction rule: rt_step.induct)
  case (rt_close_at s d a)
  then show ?case
    unfolding rt_inv_def timer_close_at_def set_closes_by_timer_def
    by (intro registry.timer_arm_owes registry.channels_owes)
next
  case (rt_shutdown s)
  obtain xs s' where "shutdown s = (xs, s')" by fastforce
  with rt_shutdown shutdown_inv(1) show ?case by auto
next
  case (rt_tick s c)
  then show ?case
    by (auto simp: rt_inv_def registry_owes_def elim!: reg_inv_frame all_committed_frame)
next
  case (rt_flag s f)
  have "reg_inv {} {#} (s\<lparr>flags := (flags s)(f := True)\<rparr>)" if "reg_inv {} {#} s"
    using that by (subst reg_inv_cong [of _ s]) simp_all
  with rt_flag show ?case
    by (auto simp: rt_inv_def registry_owes_def elim!: all_committed_frame)
qed (auto simp: rt_inv_def intro: registry.try_send_owes registry.try_receive_owes registry.close_owes
    registry.drain_at_owes registry.complete_owes registry.fire_due_owes registry.disarm_owes
    parking_park_inv [unfolded rt_inv_def] parking_cancel_inv [unfolded rt_inv_def])

lemma rt_inv_new:
  assumes "\<forall>t. \<not> is_waiting s t"
  shows "rt_inv (parking_new s :: ('v, 'e, 't) parking)"
proof -
  define n where "n = (parking_new s :: ('v, 'e, 't) parking)"
  have toks: "tokens n = tokens s" "shards n = (\<lambda>_. [])"
    "waiting_count n = 0" "\<not> broken n"
    by (simp_all add: n_def parking_new_def sync.extend_def parking.fields_def parking.defs)
  have "\<not> is_waiting n t" for t using assms by (simp add: is_waiting_def toks)
  moreover from this have "tok_state (tokens n t) \<noteq> Parked" for t
    by (metis is_waiting_def open_state.simps(2))
  moreover have "entry_of n k = None" for k by (simp add: entry_of_def toks)
  moreover have "committed_count n = 0" by (simp add: committed_count_sum toks)
  ultimately show ?thesis unfolding n_def [symmetric]
    by (auto simp: rt_inv_def registry_owes_def all_committed_def shards_ok_def toks intro!: reg_invI)
qed

lemma rt_run_inv: "rt_step\<^sup>*\<^sup>* s s' \<Longrightarrow> rt_inv s \<Longrightarrow> rt_inv s'"
  by (induction rule: rtranclp_induct) (auto intro: rt_step_inv)

lemma length_inspect: "length (inspect s) = committed_count s"
  by (simp add: inspect_def committed_count_def)

section \<open>Properties\<close>

text \<open>C2: After any sequence of sends, receives, closes, drains, completions, timer runs, parks,
  cancels and shutdowns, the registry holds exactly the tasks whose wait is open: every entry is
  the wait of its task and that wait has not ended, every task that was given up to wait has its
  entry, the counter counts the tasks that \<^verbatim>\<open>inspect\<close> shows, and no assertion of the registry
  has failed. So no task waits for a wake that was already due, and no task is forgotten.\<close>

theorem registry_matches_waits:
  assumes "\<forall>t. \<not> is_waiting s0 t" and "rt_step\<^sup>*\<^sup>* (parking_new s0) s"
  shows "(\<forall>k e. entry_of s k = Some e \<longrightarrow> e_committed e \<and>
      tok_task (tokens s (p_token (e_parked e))) = k \<and>
      tok_state (tokens s (p_token (e_parked e))) = Parked) \<and>
    (\<forall>t. tok_state (tokens s t) = Parked \<longrightarrow>
      (\<exists>e. entry_of s (tok_task (tokens s t)) = Some e \<and> p_token (e_parked e) = t)) \<and>
    waiting_count s = length (inspect s) mod 2 ^ 64 \<and> \<not> broken s"
proof -
  have inv: "reg_inv {} {#} s" and com: "all_committed s"
    using rt_run_inv [OF assms(2) rt_inv_new [OF assms(1)]] by (auto simp: rt_inv_def registry_owes_def)
  have "e_committed e \<and> tok_task (tokens s (p_token (e_parked e))) = k \<and>
      tok_state (tokens s (p_token (e_parked e))) = Parked" if "entry_of s k = Some e" for k e
    using reg_inv_entry [OF inv that] com that by (auto simp: entry_ok_def Let_def all_committed_def)
  moreover have "\<exists>e. entry_of s (tok_task (tokens s t)) = Some e \<and> p_token (e_parked e) = t"
    if "tok_state (tokens s t) = Parked" for t
    using inv that by (auto simp: reg_inv_def)
  ultimately show ?thesis
    using inv by (simp add: reg_inv_def length_inspect)
qed
lemma sync_empty_closed: "\<forall>t. \<not> is_waiting (sync_empty cap) t"
  by (simp add: is_waiting_def sync_empty_def)

lemma parking_new_sync_empty: "(parking_new (sync_empty cap) :: ('v, 'e, 't) parking) =
   \<lparr>flags = (\<lambda>_. False),
     tokens = (\<lambda>_. \<lparr>tok_task = 0, tok_cancel = None, tok_ended_by = 0, tok_state = Taken\<rparr>),
     next_token = 0, panicked = False, channels = (\<lambda>a. channel_new a (cap a)),
     unjoined_failure = (\<lambda>_. False), cells = (\<lambda>_. cell_default), timer_next = 0, by_deadline = [],
     pending = 0, clock = 0, system_clock = True, clock_failure = False, fires_every_deadline = False,
     shards = (\<lambda>_. []), waiting_count = 0, shut_down = False, ready_log = [], broken = False\<rparr>"
  by (simp add: parking_new_def sync_empty_def sync.extend_def parking.fields_def parking.defs)

text \<open>The definitions a run of \<open>park\<close> on a channel is evaluated with.\<close>

lemmas park_eval = parking_park_def park_def park_one_def park_one_end_def park_times_def wait_new_def
  takes_nothing_new_def is_set_def recv_arm_def receive_def take_from_sender_def wake_feeders_def
  channel_new_def channel_fed_def set_chan_def token_new_def update_chan_def push_recv_def wakes_send_def
  times_arm_def park_insert_def park_check_def park_commit_def entry_of_def put_entry_def shard_def
  SHARDS_def is_cancelled_def token_commit_def set_state_def u64_add_def

theorem registry_matches_waits_witness:
  "let s = snd (parking_park 3 ''task'' (wait_new [Arm_Recv 0]) (\<lambda>_. False)
     (parking_new (sync_empty (\<lambda>_. 1)) :: (int, string, string) parking))
   in entry_of s 3 \<noteq> None \<and> tok_state (tokens s (p_token (e_parked (the (entry_of s 3))))) = Parked \<and>
      waiting_count s = length (inspect s) mod 2 ^ 64"
proof -
  let ?start = "parking_new (sync_empty (\<lambda>_. 1)) :: (int, string, string) parking"
  let ?s = "snd (parking_park 3 ''task'' (wait_new [Arm_Recv 0]) (\<lambda>_. False) ?start)"
  have "entry_of ?start 3 = None" by (simp add: parking_new_sync_empty entry_of_def)
  then have "rt_step ?start ?s" by (rule rt_park)
  then have run: "rt_step\<^sup>*\<^sup>* ?start ?s" by (rule r_into_rtranclp)
  have "entry_of ?s 3 \<noteq> None"
    by (simp add: parking_new_sync_empty park_eval)
  with registry_matches_waits [OF sync_empty_closed run] show ?thesis by (auto simp: Let_def)
qed

section \<open>Shutdown\<close>

lemma shut_down_parking_wake: "shut_down (parking_wake k s) = shut_down s"
proof -
  have "shut_down (snd (finish p s)) = shut_down s" for p and s :: "('a, 'b, 'c, 'd) parking_scheme"
  proof -
    obtain r s1 where t: "token_take (p_token p) s = (r, s1)" by fastforce
    have "reg s1 = reg s" using reg_token_take [of "p_token p" s] t by simp
    then have "shut_down s1 = shut_down s" by (rule reg_eqD)
    moreover have "shut_down (drop_parked p s1) = shut_down s1" by (rule reg_eqD(3)) simp
    ultimately show ?thesis using t by (auto simp: finish_def parked_finish_def split: option.splits)
  qed
  then have fin: "shut_down s2 = shut_down s1" if "finish p s1 = (r, s2)"
    for p r and s1 s2 :: "('a, 'b, 'c, 'd) parking_scheme"
    using that by (metis snd_conv)
  show ?thesis
  proof (cases "entry_of s k")
    case (Some e)
    obtain r s3 where f: "finish (e_parked e)
        ((remove_entry k s)\<lparr>waiting_count := u64_sub (waiting_count s) 1\<rparr>) = (r, s3)" by fastforce
    from fin [OF f] f Some show ?thesis
      by (cases r) (simp_all add: parking_wake_def Let_def)
  qed (simp add: parking_wake_def)
qed
lemma shut_down_contract: "wake_contract parking_wake (\<lambda>W s. shut_down s)"
proof unfold_locales
  fix s :: "('a, 'b, 'c, 'd) parking_scheme" and t c f assume "shut_down s"
  then show "shut_down (fst (fire c f s wakes_default))" using reg_eqD(3) [OF reg_fire] by metis
next
  fix s :: "('a, 'b, 'c, 'd) parking_scheme" and t assume "shut_down s"
  then show "shut_down (set_state t Expired s)" "shut_down (set_state t Cancelled s)"
    using reg_eqD(3) [OF reg_set_state] by metis+
next
  fix s :: "('a, 'b, 'c, 'd) parking_scheme" and k flag assume "shut_down s"
  then show "shut_down (snd (token_new k flag s))" using reg_eqD(3) [OF reg_token_new] by metis
qed (simp_all add: shut_down_parking_wake)

lemma park_after_shutdown:
  assumes "shut_down s"
  shows "fst (parking_park k task w refused s) \<noteq> None"
proof -
  obtain r s1 where p: "park parking_wake k w s = (r, s1)" by fastforce
  then have "shut_down s1"
    using wake_contract.park_many_owes [OF shut_down_contract assms] unfolding park_is_park_many by blast
  with p show ?thesis
    by (cases r) (simp_all add: parking_park_def park_insert_def)
qed

lemma distinct_all_entries:
  assumes "shards_ok s"
  shows "distinct (map fst (all_entries s))"
proof -
  have "distinct (concat (map (\<lambda>i. map fst (shards s i)) [0..<n]))" for n
  proof (induction n)
    case (Suc n)
    have "set (concat (map (\<lambda>i. map fst (shards s i)) [0..<n])) \<inter> set (map fst (shards s n)) = {}"
    proof -
      have shard: "k \<in> fst ` set (shards s n) \<Longrightarrow> shard k = n" for k n
        using assms by (auto simp: shards_ok_def)
      have "k \<notin> set (concat (map (\<lambda>i. map fst (shards s i)) [0..<n]))"
        if k: "k \<in> set (map fst (shards s n))" for k
      proof
        assume "k \<in> set (concat (map (\<lambda>i. map fst (shards s i)) [0..<n]))"
        then obtain i where "i < n" "k \<in> fst ` set (shards s i)" by fastforce
        moreover have "shard k = n" using k by (intro shard) simp
        ultimately show False using shard by blast
      qed
      then show ?thesis by blast
    qed
    moreover have "distinct (map fst (shards s n))" using assms by (simp add: shards_ok_def)
    moreover have "concat (map (\<lambda>i. map fst (shards s i)) [0..<Suc n]) =
        concat (map (\<lambda>i. map fst (shards s i)) [0..<n]) @ map fst (shards s n)" by simp
    ultimately show ?case using Suc by (simp only: distinct_append simp_thms)
  qed simp
  then show ?thesis by (simp add: all_entries_def map_concat comp_def)
qed

lemma set_all_entries:
  assumes "shards_ok s"
  shows "(k, e) \<in> set (all_entries s) \<longleftrightarrow> entry_of s k = Some e"
  using shards_in_entry [OF assms] entry_of_Some_in [OF assms, of k] shard_less [of k]
  by (fastforce simp: all_entries_def)

lemma sorted_distinct_strict: "sorted xs \<Longrightarrow> distinct xs \<Longrightarrow> sorted_wrt (<) xs" for xs :: "nat list"
  by (simp add: strict_sorted_iff)

text \<open>C16: A shutdown gives back every task that waits, each once and by id, and leaves nothing
  behind: the registry is empty, its counter is zero, no wait is left for a wake to come to, and
  every task that tries to park afterwards is handed back at once.\<close>

theorem shutdown_hands_back_all:
  assumes "\<forall>t. \<not> is_waiting s0 t" and "rt_step\<^sup>*\<^sup>* (parking_new s0) s" and "shutdown s = (xs, s')"
  shows "sorted_wrt (<) (map fst xs) \<and> set xs = {(k, e_task e) |k e. entry_of s k = Some e} \<and>
    (\<forall>k. entry_of s' k = None) \<and> waiting_count s' = 0 \<and>
    (\<forall>t. tok_state (tokens s' t) \<noteq> Parked) \<and>
    (\<forall>k task w refused. fst (parking_park k task w refused s') \<noteq> None)"
proof -
  have inv: "rt_inv s" by (rule rt_run_inv [OF assms(2) rt_inv_new [OF assms(1)]])
  note sd = shutdown_inv [OF inv assms(3)]
  have ok: "shards_ok s" using inv by (simp add: rt_inv_def registry_owes_def reg_inv_def)
  have inv': "reg_inv {} {#} s'" using sd(1) by (simp add: rt_inv_def registry_owes_def)
  have "map fst (map (\<lambda>(k, e). (k, e_task e)) (all_entries s)) = map fst (all_entries s)" by auto
  then have "mset (map fst xs) = mset (map fst (all_entries s))"
    unfolding sd(3) by (metis mset_map mset_sort)
  then have "distinct (map fst xs)"
    using distinct_all_entries [OF ok] mset_eq_imp_distinct_iff by blast
  then have "sorted_wrt (<) (map fst xs)"
    by (rule sorted_distinct_strict [rotated]) (simp add: sd(3))
  moreover have "set xs = {(k, e_task e) |k e. entry_of s k = Some e}"
    using set_all_entries [OF ok] unfolding sd(3) by force
  moreover have "\<forall>t. tok_state (tokens s' t) \<noteq> Parked" "waiting_count s' = committed_count s' mod 2 ^ 64"
    using inv' sd(2) by (auto simp: reg_inv_def)
  moreover have "committed_count s' = 0"
    using inv' sd(2) set_all_entries [of s']
    by (force simp: committed_count_def filter_empty_conv reg_inv_def)
  ultimately show ?thesis using sd(2) park_after_shutdown [OF sd(4)] by simp
qed

theorem shutdown_hands_back_all_witness:
  "let s = snd (parking_park 3 ''task'' (wait_new [Arm_Recv 0]) (\<lambda>_. False)
     (parking_new (sync_empty (\<lambda>_. 1)) :: (int, string, string) parking))
   in (3, ''task'') \<in> set (fst (shutdown s)) \<and> waiting_count (snd (shutdown s)) = 0"
proof -
  let ?start = "parking_new (sync_empty (\<lambda>_. 1)) :: (int, string, string) parking"
  let ?s = "snd (parking_park 3 ''task'' (wait_new [Arm_Recv 0]) (\<lambda>_. False) ?start)"
  have "entry_of ?start 3 = None" by (simp add: parking_new_sync_empty entry_of_def)
  then have run: "rt_step\<^sup>*\<^sup>* ?start ?s" by (intro r_into_rtranclp rt_park)
  have "\<exists>e. entry_of ?s 3 = Some e \<and> e_task e = ''task''"
    by (simp add: parking_new_sync_empty park_eval)
  with shutdown_hands_back_all [OF sync_empty_closed run surjective_pairing] show ?thesis
    by (force simp: Let_def)
qed
end
