(* ===== verification/Park_Protocol.thy ===== *)
theory Park_Protocol
  imports Parking
begin

text \<open>
  The interleavings of the registry with the rest of the runtime. Parking a task, waking it,
  cancelling it and shutting the runtime down each take several lock sections
  (\<^verbatim>\<open>Parking::park\<close>, \<^verbatim>\<open>Parking::cancel\<close>, \<^verbatim>\<open>Parking::shutdown\<close> of \<^verbatim>\<open>runtime/sync/parking.rs\<close>), and
  an operation that ends a wait calls \<^verbatim>\<open>wake\<close> only after it has released its lock. Here the
  sections of the registry's locks are steps of their own and the steps of all threads interleave: a
  wake that is owed is delivered at any later moment. Coarser than the code are four steps: the part
  of a park in which the task joins the queues of its channels and cells and the timer (\<^verbatim>\<open>wait.rs\<close>),
  a wake, a cell completed and drained, and a run of the timer over what is due are one step each.
\<close>

section \<open>The state\<close>

text \<open>Where the worker of a task is in \<open>park\<close>. A task that is \<open>Away\<close> is not with a worker.\<close>

datatype pc = Running | At_Insert parked | At_Check addr | At_Commit addr | Away

text \<open>
  The wakes that are owed, the place of every task, the cancellers under way (with the token
  they found, once they have looked), the tasks a shutdown has taken, and the entries of those
  that it has yet to drop. A task is its id, and its cancel flag is at the address of its id.
\<close>

record ('v, 'e) world = "('v, 'e, task_id) parking" +
  owed :: "task_id list"
  pcs :: "task_id \<Rightarrow> pc"
  cancelling :: "(task_id \<times> addr option) set"
  dropped :: "task_id set"
  taken :: "(task_id \<times> task_id entry) list"

definition owe :: "task_id \<Rightarrow> ('v, 'e) world \<Rightarrow> ('v, 'e) world" where
  "owe k s = s\<lparr>owed := owed s @ [k]\<rparr>"

definition move :: "task_id \<Rightarrow> pc \<Rightarrow> ('v, 'e) world \<Rightarrow> ('v, 'e) world" where
  "move k pc s = s\<lparr>pcs := (pcs s)(k := pc)\<rparr>"

section \<open>The steps\<close>

inductive pk_step :: "('v, 'e) world \<Rightarrow> ('v, 'e) world \<Rightarrow> bool" where
  pk_send: "pk_step s (snd (try_send_at owe a v s))"
| pk_receive: "pk_step s (snd (try_receive_at owe a s))"
| pk_close: "pk_step s (snd (close_at owe a c s))"
| pk_drain: "pk_step s (drain_at owe (\<lambda>_ s. s) a s)"
| pk_complete: "pk_step s (snd (complete_at owe a v s))"
| pk_fire_due: "pk_step s (snd (fire_due owe s))"
| pk_close_at: "pk_step s (snd (timer_close_at d a s))"
| pk_disarm: "pk_step s (snd (disarm i s))"
| pk_tick: "pk_step s (s\<lparr>clock := c\<rparr>)"
| pk_park: "pcs s k = Running \<Longrightarrow> wait_cancel w = Some k \<Longrightarrow> park owe k w s = (r, s1) \<Longrightarrow>
    pk_step s (move k (case r of Park_Parked p \<Rightarrow> At_Insert p | _ \<Rightarrow> Running) s1)"
| pk_insert: "pcs s k = At_Insert p \<Longrightarrow> park_insert k k p s = (r, s1) \<Longrightarrow>
    pk_step s (move k (if r = None then At_Check (p_token p) else Running) s1)"
| pk_check: "pcs s k = At_Check t \<Longrightarrow> pk_step s (move k (At_Commit t) (park_check owe refused t s))"
| pk_commit: "pcs s k = At_Commit t \<Longrightarrow> park_commit k t s = (r, s1) \<Longrightarrow>
    pk_step s (move k (if r = None then Away else Running) s1)"
| pk_wake: "owed s = ks @ k # ks' \<Longrightarrow> pk_step s (parking_wake k (s\<lparr>owed := ks @ ks'\<rparr>))"
| pk_resume: "ready_log s = rs @ (k, r) # rs' \<Longrightarrow>
    pk_step s (move k Running (s\<lparr>ready_log := rs @ rs'\<rparr>))"
| pk_flag: "pk_step s (s\<lparr>flags := (flags s)(k := True), cancelling := insert (k, None) (cancelling s)\<rparr>)"
| pk_cancel_look: "(k, None) \<in> cancelling s \<Longrightarrow>
    pk_step s (s\<lparr>cancelling := (case entry_of s k of
        None \<Rightarrow> cancelling s - {(k, None)}
      | Some e \<Rightarrow> insert (k, Some (p_token (e_parked e))) (cancelling s - {(k, None)}))\<rparr>)"
| pk_cancel_token: "(k, Some t) \<in> cancelling s \<Longrightarrow>
    pk_step s ((snd (token_cancel owe t s))\<lparr>cancelling := cancelling s - {(k, Some t)}\<rparr>)"
| pk_shut_down: "pk_step s (s\<lparr>shut_down := True\<rparr>)"
| pk_shut_shard: "shut_down s \<Longrightarrow> i < SHARDS \<Longrightarrow> drain_shard i s = (xs, s1) \<Longrightarrow>
    pk_step s (s1\<lparr>dropped := dropped s1 \<union> fst ` set xs, taken := taken s1 @ xs\<rparr>)"
| pk_shut_drop: "taken s = xs @ (k, e) # ys \<Longrightarrow>
    pk_step s ((drop_parked (e_parked e) s)\<lparr>taken := xs @ ys\<rparr>)"

section \<open>The invariant\<close>

abbreviation ready_ids :: "('v, 'e) world \<Rightarrow> task_id list" where
  "ready_ids s \<equiv> map fst (ready_log s)"

text \<open>A task that is being parked has its uncommitted entry, unless a shutdown took it.\<close>

definition held :: "('v, 'e) world \<Rightarrow> task_id \<Rightarrow> addr \<Rightarrow> bool" where
  "held s k t \<longleftrightarrow>
     t < next_token s \<and> tok_task (tokens s t) = k \<and>
     (entry_of s k = None \<and> k \<in> dropped s \<or>
      (\<exists>e. entry_of s k = Some e \<and> \<not> e_committed e \<and> p_token (e_parked e) = t))"

fun pc_ok :: "('v, 'e) world \<Rightarrow> task_id \<Rightarrow> pc \<Rightarrow> bool" where
  "pc_ok s k Running \<longleftrightarrow> entry_of s k = None \<and> k \<notin> dropped s \<and> count_list (ready_ids s) k = 0"
| "pc_ok s k (At_Insert p) \<longleftrightarrow> entry_of s k = None \<and> k \<notin> dropped s \<and> count_list (ready_ids s) k = 0 \<and>
     loose s (p_token p) k (Some k)"
| "pc_ok s k (At_Check t) \<longleftrightarrow> count_list (ready_ids s) k = 0 \<and> held s k t \<and> tok_cancel (tokens s t) = Some k"
| "pc_ok s k (At_Commit t) \<longleftrightarrow> count_list (ready_ids s) k = 0 \<and> held s k t"
| "pc_ok s k Away \<longleftrightarrow>
     (\<exists>e. entry_of s k = Some e \<and> e_committed e) \<and> count_list (ready_ids s) k = 0 \<or>
     entry_of s k = None \<and> k \<in> dropped s \<and> count_list (ready_ids s) k = 0 \<or>
     entry_of s k = None \<and> k \<notin> dropped s \<and> count_list (ready_ids s) k = 1"

text \<open>A wait whose task is cancelled stays open only while a canceller is on its way to it.\<close>

definition pend :: "('v, 'e) world \<Rightarrow> task_id \<Rightarrow> addr \<Rightarrow> bool" where
  "pend s k t \<longleftrightarrow> (k, None) \<in> cancelling s \<or> (k, Some t) \<in> cancelling s"

definition cancel_ok :: "('v, 'e) world \<Rightarrow> bool" where
  "cancel_ok s \<longleftrightarrow> (\<forall>k e. flags s k \<longrightarrow> entry_of s k = Some e \<longrightarrow>
     (let t = p_token (e_parked e)
      in (pcs s k = At_Commit t \<and> tok_state (tokens s t) = Armed \<longrightarrow> pend s k t) \<and>
         (e_committed e \<and> tok_state (tokens s t) = Parked \<longrightarrow> pend s k t)))"

definition side_ok :: "('v, 'e) world \<Rightarrow> bool" where
  "side_ok s \<longleftrightarrow>
     (\<forall>k. pc_ok s k (pcs s k)) \<and> cancel_ok s \<and>
     (\<forall>k e. entry_of s k = Some e \<longrightarrow> e_task e = k) \<and>
     (\<forall>k e. (k, e) \<in> set (taken s) \<longrightarrow> k \<in> dropped s \<and> p_token (e_parked e) < next_token s \<and>
        tok_task (tokens s (p_token (e_parked e))) = k)"

definition world_owes ::
  "task_id set \<Rightarrow> (addr \<times> task_id \<times> addr option) set \<Rightarrow> task_id multiset \<Rightarrow> ('v, 'e) world \<Rightarrow> bool"
where
  "world_owes K T W s \<longleftrightarrow> reg_inv (dropped s) (W + mset (owed s)) s \<and> side_ok s \<and> aside K T s"

definition world_inv :: "('v, 'e) world \<Rightarrow> bool" where
  "world_inv s \<longleftrightarrow> world_owes {} {} {#} s"

section \<open>Ending waits\<close>

text \<open>What the operations that end waits do to the tokens: they leave them alone, add new ones,
  or end open ones.\<close>

definition ends :: "('v, 'e) world \<Rightarrow> ('v, 'e) world \<Rightarrow> bool" where
  "ends s s' \<longleftrightarrow>
     reg s' = reg s \<and> flags s' = flags s \<and> next_token s \<le> next_token s' \<and>
     (\<forall>t < next_token s. tok_task (tokens s' t) = tok_task (tokens s t) \<and>
        tok_cancel (tokens s' t) = tok_cancel (tokens s t) \<and>
        (tok_state (tokens s' t) = tok_state (tokens s t) \<or>
         open_state (tok_state (tokens s t)) \<and> over (tok_state (tokens s' t))))"

lemma reg_worldD:
  fixes s s' :: "('v, 'e) world"
  assumes "reg s' = reg s"
  shows "owed s' = owed s" "pcs s' = pcs s" "cancelling s' = cancelling s" "dropped s' = dropped s"
    "taken s' = taken s" "pend s' k t = pend s k t"
  using reg_eqD(6) [OF assms] by (cases s; cases s'; simp add: pend_def)+

lemma ends_frame:
  assumes "reg s' = reg s" and "toks s' = toks s"
  shows "ends s s'"
  unfolding ends_def toks_eqD [OF assms(2)] using assms(1) by simp

lemma ends_end:
  assumes "reg s' = reg s" and "flags s' = flags s" and "next_token s' = next_token s"
    and "is_waiting s t" and "over st"
    and "\<And>u. tok_state (tokens s' u) = (if u = t then st else tok_state (tokens s u))"
    and "\<And>u. tok_task (tokens s' u) = tok_task (tokens s u)"
    and "\<And>u. tok_cancel (tokens s' u) = tok_cancel (tokens s u)"
  shows "ends s s'"
  using assms by (auto simp: ends_def is_waiting_def)

lemma ends_token_new: "ends s (snd (token_new k c s))"
  unfolding ends_def by (auto simp: token_new_def)

lemma ends_state:
  assumes "ends s s'" and "t < next_token s"
  shows "tok_state (tokens s' t) = Armed \<Longrightarrow> tok_state (tokens s t) = Armed"
    and "tok_state (tokens s' t) = Parked \<Longrightarrow> tok_state (tokens s t) = Parked"
    and "tok_state (tokens s t) = Armed \<or> over (tok_state (tokens s t)) \<Longrightarrow>
      tok_state (tokens s' t) = Armed \<or> over (tok_state (tokens s' t))"
  using assms by (auto simp: ends_def over_def)

lemma endsD:
  assumes "ends s s'"
  shows "reg s' = reg s" "flags s' = flags s" "t < next_token s \<Longrightarrow> t < next_token s'"
    "t < next_token s \<Longrightarrow> tok_task (tokens s' t) = tok_task (tokens s t)"
    "t < next_token s \<Longrightarrow> tok_cancel (tokens s' t) = tok_cancel (tokens s t)"
  using assms by (auto simp: ends_def)

lemma ends_loose:
  assumes e: "ends s s'" and l: "loose s t k c"
  shows "loose s' t k c"
proof -
  have t: "t < next_token s" using l by (simp add: loose_def)
  show ?thesis
    using l endsD(3-5) [OF e t] ends_state(3) [OF e t]
    unfolding loose_def reg_eqD [OF endsD(1) [OF e]] by simp
qed

lemma ends_aside: "ends s s' \<Longrightarrow> aside K T s \<Longrightarrow> aside K T s'"
  unfolding aside_def using ends_loose reg_eqD(7) [OF endsD(1)] by metis

lemma ends_held:
  assumes "ends s s'" and "held s k t"
  shows "held s' k t"
  using assms(2) endsD(3,4) [OF assms(1), of t] reg_eqD(7) [OF endsD(1) [OF assms(1)]]
    reg_worldD(4) [OF endsD(1) [OF assms(1)]]
  by (simp add: held_def)

lemma ends_pc_ok:
  assumes "ends s s'" and "pc_ok s k pc"
  shows "pc_ok s' k pc"
proof -
  note reg = endsD(1) [OF assms(1)]
  have same: "entry_of s' = entry_of s" "dropped s' = dropped s" "ready_log s' = ready_log s"
    using reg_eqD [OF reg] reg_worldD [OF reg] by simp_all
  show ?thesis
  proof (cases pc)
    case (At_Check t)
    then have "t < next_token s" using assms(2) by (simp add: held_def)
    with At_Check assms show ?thesis by (simp add: same ends_held endsD)
  qed (use assms same in \<open>auto simp: ends_loose ends_held\<close>)
qed

lemma ends_cancel_ok:
  assumes "ends s s'" and "cancel_ok s" and "reg_inv D W s"
  shows "cancel_ok s'"
proof -
  note reg = endsD(1) [OF assms(1)]
  have same: "entry_of s' = entry_of s" "pcs s' = pcs s" "flags s' = flags s" "pend s' = pend s"
    using reg_eqD [OF reg] reg_worldD [OF reg] endsD(2) [OF assms(1)] by (simp_all add: fun_eq_iff)
  have "p_token (e_parked e) < next_token s" if "entry_of s k = Some e" for k e
    using reg_inv_entry [OF assms(3) that] by (simp add: entry_ok_def Let_def)
  with assms(2) ends_state [OF assms(1)] show ?thesis
    unfolding cancel_ok_def Let_def same by metis
qed

lemma ends_side_ok:
  assumes "ends s s'" and "side_ok s" and "reg_inv D W s"
  shows "side_ok s'"
proof -
  note reg = endsD(1) [OF assms(1)]
  have same: "entry_of s' = entry_of s" "pcs s' = pcs s" "taken s' = taken s" "dropped s' = dropped s"
    using reg_eqD [OF reg] reg_worldD [OF reg] by simp_all
  have "k \<in> dropped s \<and> p_token (e_parked e) < next_token s' \<and>
      tok_task (tokens s' (p_token (e_parked e))) = k" if "(k, e) \<in> set (taken s)" for k e
    using that assms(2) endsD(3,4) [OF assms(1), of "p_token (e_parked e)"] by (simp add: side_ok_def)
  moreover have "pc_ok s' k (pcs s k)" for k
    using assms(2) ends_pc_ok [OF assms(1)] by (simp add: side_ok_def)
  moreover have "cancel_ok s'"
    using assms(2) ends_cancel_ok [OF assms(1) _ assms(3)] by (simp add: side_ok_def)
  ultimately show ?thesis
    using assms(2) unfolding side_ok_def same by blast
qed

lemma world_owes_end:
  assumes "world_owes K T W s" and "ends s s'" and "reg_inv (dropped s) (W + mset (owed s) + X) s'"
  shows "world_owes K T (W + X) s'"
proof -
  note reg = reg_worldD [OF endsD(1) [OF assms(2)]]
  have "reg_inv (dropped s') (W + X + mset (owed s')) s'"
    using assms(3) by (simp add: reg add.assoc add.commute [of X])
  then show ?thesis
    using assms(1,2) ends_side_ok ends_aside unfolding world_owes_def by blast
qed

lemma world_owes_frame:
  assumes "world_owes K T W s" and "reg s' = reg s" and "toks s' = toks s"
  shows "world_owes K T W s'"
proof -
  have "reg_inv (dropped s) (W + mset (owed s) + {#}) s'"
    using assms by (auto simp: world_owes_def elim: reg_inv_frame)
  from world_owes_end [OF assms(1) ends_frame [OF assms(2,3)] this] show ?thesis by simp
qed

lemma owe_sel:
  "shards (owe k s) = shards s" "entry_of (owe k s) = entry_of s" "tokens (owe k s) = tokens s"
  "next_token (owe k s) = next_token s" "flags (owe k s) = flags s" "pcs (owe k s) = pcs s"
  "dropped (owe k s) = dropped s" "cancelling (owe k s) = cancelling s" "taken (owe k s) = taken s"
  "ready_log (owe k s) = ready_log s" "owed (owe k s) = owed s @ [k]" "pend (owe k s) = pend s"
  "waiting_count (owe k s) = waiting_count s" "broken (owe k s) = broken s"
  "committed_count (owe k s) = committed_count s" "is_waiting (owe k s) = is_waiting s"
  by (simp_all add: owe_def entry_of_def pend_def fun_eq_iff committed_count_def all_entries_def
      is_waiting_def)

lemma owe_ok:
  "pc_ok (owe k s) j pc = pc_ok s j pc" "aside K T (owe k s) = aside K T s"
  "side_ok (owe k s) = side_ok s" "reg_inv D W (owe k s) = reg_inv D W s"
proof -
  show pc: "pc_ok (owe k s) j pc = pc_ok s j pc" for j pc
    by (cases pc) (simp_all add: owe_sel held_def loose_def)
  show "aside K T (owe k s) = aside K T s" by (simp add: aside_def loose_def owe_sel)
  show "side_ok (owe k s) = side_ok s" by (simp add: side_ok_def cancel_ok_def pc owe_sel)
  show "reg_inv D W (owe k s) = reg_inv D W s"
    by (simp add: reg_inv_def shards_ok_def entry_ok_def owe_sel)
qed

lemma world_owes_owe: "world_owes K T (add_mset k W) s \<Longrightarrow> world_owes K T W (owe k s)"
  by (simp add: world_owes_def owe_ok owe_sel)

lemma world_contract: "wake_contract owe (world_owes K T)"
proof unfold_locales
  fix W and s :: "('a, 'b) world" and t c f
  assume o: "world_owes K T W s" and c: "claim s t = Some c"
  then have ct: "c = t" "is_waiting s t" by auto
  have "ends s (fst (fire t f s wakes_default))"
    by (rule ends_end [of _ s t "Fired f"]) (simp_all add: sync_simps ct)
  moreover have "reg_inv (dropped s) (W + mset (owed s) + debt s t) (fst (fire c f s wakes_default))"
    using o c by (intro reg_inv_fire) (simp_all add: world_owes_def)
  ultimately show "world_owes K T (W + debt s t) (fst (fire c f s wakes_default))"
    using o ct by (simp add: world_owes_end)
next
  fix W and s :: "('a, 'b) world" and t c
  assume o: "world_owes K T W s" and c: "claim s t = Some c"
  then have "ends s (set_state t Expired s)"
    by (intro ends_end [of _ s t Expired]) (auto simp: sync_simps)
  moreover have "reg_inv (dropped s) (W + mset (owed s) + debt s t) (set_state t Expired s)"
    using o c by (intro reg_inv_expire) (simp_all add: world_owes_def)
  ultimately show "world_owes K T (W + debt s t) (set_state t Expired s)"
    using o by (simp add: world_owes_end)
next
  fix W and s :: "('a, 'b) world" and t
  assume o: "world_owes K T W s" and c: "is_waiting s t"
  then have "ends s (set_state t Cancelled s)"
    by (intro ends_end [of _ s t Cancelled]) (auto simp: sync_simps)
  moreover have "reg_inv (dropped s) (W + mset (owed s) + debt s t) (set_state t Cancelled s)"
    using o c by (intro reg_inv_cancel) (simp_all add: world_owes_def)
  ultimately show "world_owes K T (W + debt s t) (set_state t Cancelled s)"
    using o by (simp add: world_owes_end)
next
  fix W and s :: "('a, 'b) world" and k flag
  assume o: "world_owes K T W s"
  then have "reg_inv (dropped s) (W + mset (owed s) + {#}) (snd (token_new k flag s))"
    by (simp add: world_owes_def reg_inv_token_new)
  from world_owes_end [OF o ends_token_new this] show "world_owes K T W (snd (token_new k flag s))"
    by simp
next
  fix W and s :: "('a, 'b) world" and k assume "world_owes K T (add_mset k W) s"
  then show "world_owes K T W (owe k s)" by (rule world_owes_owe)
qed (auto intro: world_owes_frame)

interpretation threads: park_contract owe world_owes
proof (rule park_contract.intro)
  fix K T W and s s' :: "('a, 'b) world" and k c t
  assume o: "world_owes K T W s" and n: "token_new k c s = (t, s')"
  have "world_owes K T W s'"
    using wake_contract.token_new_owes [OF world_contract o, of k c] n by simp
  moreover have "aside K (insert (t, k, c) T) s'"
    using aside_new_wait [OF _ _ n] o unfolding world_owes_def by blast
  ultimately show "world_owes K (insert (t, k, c) T) W s'" by (simp add: world_owes_def)
qed (rule world_contract)

section \<open>Moving a task\<close>

lemma pcs_contract: "wake_contract owe (\<lambda>W s. pcs s k = pc)"
proof unfold_locales
  fix s :: "('a, 'b) world" and c f assume "pcs s k = pc"
  then show "pcs (fst (fire c f s wakes_default)) k = pc" using reg_worldD(2) [OF reg_fire] by metis
next
  fix s :: "('a, 'b) world" and t assume "pcs s k = pc"
  then show "pcs (set_state t Expired s) k = pc" "pcs (set_state t Cancelled s) k = pc"
    using reg_worldD(2) [OF reg_set_state] by metis+
next
  fix s :: "('a, 'b) world" and j flag assume "pcs s k = pc"
  then show "pcs (snd (token_new j flag s)) k = pc" using reg_worldD(2) [OF reg_token_new] by metis
qed (simp_all add: owe_sel)

lemma move_sel:
  "shards (move k pc s) = shards s" "entry_of (move k pc s) = entry_of s" "tokens (move k pc s) = tokens s"
  "next_token (move k pc s) = next_token s" "flags (move k pc s) = flags s"
  "pcs (move k pc s) = (pcs s)(k := pc)" "dropped (move k pc s) = dropped s"
  "cancelling (move k pc s) = cancelling s" "taken (move k pc s) = taken s"
  "ready_log (move k pc s) = ready_log s" "owed (move k pc s) = owed s" "pend (move k pc s) = pend s"
  "waiting_count (move k pc s) = waiting_count s" "broken (move k pc s) = broken s"
  "committed_count (move k pc s) = committed_count s" "is_waiting (move k pc s) = is_waiting s"
  by (simp_all add: move_def entry_of_def pend_def fun_eq_iff committed_count_def all_entries_def
      is_waiting_def)

lemma reg_inv_move: "reg_inv D W (move k pc s) = reg_inv D W s"
  by (simp add: reg_inv_def shards_ok_def entry_ok_def move_sel)

lemma pc_ok_move: "pc_ok (move k pc s) j pc' = pc_ok s j pc'"
  by (cases pc') (simp_all add: move_sel held_def loose_def)

text \<open>The state is as it should be except for where the worker of \<open>k\<close> is.\<close>

definition side_but :: "task_id \<Rightarrow> ('v, 'e) world \<Rightarrow> bool" where
  "side_but k s \<longleftrightarrow>
     (\<forall>j. j \<noteq> k \<longrightarrow> pc_ok s j (pcs s j)) \<and> cancel_ok s \<and>
     (\<forall>k e. entry_of s k = Some e \<longrightarrow> e_task e = k) \<and>
     (\<forall>k e. (k, e) \<in> set (taken s) \<longrightarrow> k \<in> dropped s \<and> p_token (e_parked e) < next_token s \<and>
        tok_task (tokens s (p_token (e_parked e))) = k)"

lemma side_ok_but: "side_ok s \<Longrightarrow> side_but k s"
  by (simp add: side_ok_def side_but_def)

lemma world_inv_move:
  assumes "reg_inv (dropped s) (mset (owed s)) s" and "side_but k s" and "pc_ok s k pc"
    and "\<And>e. pc = At_Commit (p_token (e_parked e)) \<Longrightarrow> flags s k \<Longrightarrow> entry_of s k = Some e \<Longrightarrow>
      tok_state (tokens s (p_token (e_parked e))) = Armed \<Longrightarrow> pend s k (p_token (e_parked e))"
  shows "world_inv (move k pc s)"
proof -
  have "cancel_ok (move k pc s)"
    using assms(2,4) unfolding side_but_def cancel_ok_def Let_def move_sel by auto
  then have "side_ok (move k pc s)"
    using assms(2,3) unfolding side_but_def side_ok_def by (simp add: pc_ok_move move_sel)
  then show ?thesis
    using assms(1) by (simp add: world_inv_def world_owes_def reg_inv_move move_sel)
qed

lemma world_invD:
  assumes "world_inv s"
  shows "reg_inv (dropped s) (mset (owed s)) s" and "side_ok s" and "pc_ok s k (pcs s k)"
    and "side_but k s" and "cancel_ok s"
  using assms by (auto simp: world_inv_def world_owes_def side_ok_def side_ok_but)

lemma world_inv_moveI:
  assumes "world_inv s" and "pc_ok s k pc" and "\<And>t. pc \<noteq> At_Commit t"
  shows "world_inv (move k pc s)"
  using world_invD [OF assms(1)] assms(2,3) by (intro world_inv_move) auto

lemma not_owed:
  "reg_inv D W s \<Longrightarrow> entry_of s k = None \<Longrightarrow> k \<notin> D \<Longrightarrow> k \<notin># W"
  by (auto simp: reg_inv_def)

section \<open>Each step keeps the invariant\<close>

lemma pk_park_inv:
  assumes inv: "world_inv s" and pc: "pcs s k = Running" and w: "wait_cancel w = Some k"
    and p: "park owe k w s = (r, s1)"
  shows "world_inv (move k (case r of Park_Parked p \<Rightarrow> At_Insert p | _ \<Rightarrow> Running) s1)"
proof -
  have inv1: "world_inv s1"
    using threads.park_owes [OF _ p] inv by (simp add: world_inv_def)
  have "pcs s1 k = Running"
    using wake_contract.park_many_owes [OF pcs_contract pc] p unfolding park_is_park_many by blast
  then have run: "pc_ok s1 k Running" using world_invD(3) [OF inv1, of k] by simp
  show ?thesis
  proof (cases r)
    case (Park_Parked q)
    then have "world_owes {} {(p_token q, k, Some k)} {#} s1"
      using threads.park_parked_owes(1) [of "{}" "{}" "{#}" s k w q s1] inv p w
      by (simp add: world_inv_def)
    then have "loose s1 (p_token q) k (Some k)" by (simp add: world_owes_def aside_def)
    with run Park_Parked show ?thesis by (intro world_inv_moveI [OF inv1]) auto
  qed (use run in \<open>auto intro: world_inv_moveI [OF inv1]\<close>)
qed

lemma ends_abandon: "ends s (abandon t s)"
proof (cases "is_waiting s t")
  case True
  then have "ends s (set_state t Cancelled s)"
    by (intro ends_end [of _ s t Cancelled]) (auto simp: sync_simps)
  with True show ?thesis by (simp add: abandon_def)
qed (simp add: abandon_def ends_frame)

lemma ends_drop: "ends s (drop_parked p s)"
proof -
  have "reg (drop_parked p s) = reg (abandon (p_token p) s)" by simp
  with ends_abandon [of s "p_token p"] show ?thesis
    unfolding ends_def toks_eqD [OF toks_drop_parked] by simp
qed

lemma world_inv_end:
  assumes "world_inv s" and "ends s s'" and "reg_inv (dropped s) (mset (owed s)) s'"
  shows "world_inv s'"
  using world_owes_end [of "{}" "{}" "{#}" s s' "{#}"] assms by (simp add: world_inv_def)
lemma pk_insert_inv:
  assumes inv: "world_inv s" and pc: "pcs s k = At_Insert p" and i: "park_insert k k p s = (r, s1)"
  shows "world_inv (move k (if r = None then At_Check (p_token p) else Running) s1)"
proof -
  have ok: "entry_of s k = None" "k \<notin> dropped s" "count_list (ready_ids s) k = 0"
    and loose: "loose s (p_token p) k (Some k)"
    using world_invD(3) [OF inv, of k] pc by auto
  have reg: "reg_inv (dropped s) (mset (owed s)) s" by (rule world_invD [OF inv])
  show ?thesis
  proof (cases "shut_down s")
    case True
    then have s1: "s1 = drop_parked p s" "r \<noteq> None" using i by (auto simp: park_insert_def)
    have "reg_inv (dropped s) (mset (owed s)) s1"
      unfolding s1 using loose by (intro reg_inv_drop [OF reg]) (auto simp: loose_def)
    then have inv1: "world_inv s1" using world_inv_end [OF inv ends_drop] s1 by simp
    have "pcs s1 k = At_Insert p" using reg_worldD(2) [OF reg_drop_parked] pc s1 by metis
    then have "pc_ok s1 k Running" using world_invD(3) [OF inv1, of k] by simp
    then have "world_inv (move k Running s1)" by (intro world_inv_moveI [OF inv1]) simp_all
    with s1(2) show ?thesis by auto
  next
    case False
    let ?e = "\<lparr>e_task = k, e_parked = p, e_committed = False\<rparr>"
    have s1: "s1 = put_entry k ?e s" "r = None"
      using i False ok(1) by (auto simp: park_insert_def Let_def)
    have sel: "entry_of s1 j = (if j = k then Some ?e else entry_of s j)" "tokens s1 = tokens s"
      "next_token s1 = next_token s" "pcs s1 = pcs s" "dropped s1 = dropped s" "flags s1 = flags s"
      "ready_log s1 = ready_log s" "taken s1 = taken s" "pend s1 = pend s" "owed s1 = owed s" for j
      unfolding s1 by (simp_all add: put_entry_def pend_def fun_eq_iff) (simp flip: put_entry_def)
    have reg1: "reg_inv (dropped s) (mset (owed s)) s1"
      unfolding s1 using not_owed [OF reg ok(1,2)] ok loose
      by (intro reg_inv_insert [OF reg]) (auto simp: loose_def)
    have "pc_ok s1 j (pcs s j)" if "j \<noteq> k" for j
    proof -
      have "pc_ok s j (pcs s j)" by (rule world_invD [OF inv])
      moreover have "loose s1 t j c" if "loose s t j c" for t c
        using that loose \<open>j \<noteq> k\<close> unfolding loose_def sel by auto
      ultimately show ?thesis
        using that by (cases "pcs s j") (simp_all add: sel held_def)
    qed
    moreover have "cancel_ok s1"
      using world_invD(5) [OF inv] pc unfolding cancel_ok_def Let_def sel by simp
    ultimately have "side_but k s1"
      using world_invD(2) [OF inv] unfolding side_but_def side_ok_def by (simp add: sel)
    moreover have "pc_ok s1 k (At_Check (p_token p))"
      using ok loose by (simp add: sel held_def loose_def)
    ultimately show ?thesis
      using reg1 s1(2) by (auto intro!: world_inv_move simp: sel)
  qed
qed

lemma token_cancel_frame:
  "pcs (snd (token_cancel owe t s)) = pcs s" "flags (snd (token_cancel owe t s)) = flags s"
  "cancelling (snd (token_cancel owe t s)) = cancelling s"
  "entry_of (snd (token_cancel owe t s)) = entry_of s"
  "tok_cancel (tokens (snd (token_cancel owe t s)) u) = tok_cancel (tokens s u)"
  "\<not> open_state (tok_state (tokens (snd (token_cancel owe t s)) t))"
  using reg_worldD(2,3) [OF reg_set_state, of t Cancelled s] reg_eqD(7) [OF reg_set_state, of t Cancelled s]
  by (auto simp: token_cancel_def owe_sel sync_simps split: token_state.splits)

lemma token_cancel_inv: "world_inv s \<Longrightarrow> world_inv (snd (token_cancel owe t s))"
  unfolding world_inv_def by (rule threads.token_cancel_owes)

lemma pk_check_inv:
  assumes inv: "world_inv s" and pc: "pcs s k = At_Check t"
  shows "world_inv (move k (At_Commit t) (park_check owe refused t s))"
proof -
  define s1 where "s1 = park_check owe refused t s"
  have inv1: "world_inv s1"
    using inv token_cancel_inv [OF inv] by (simp add: s1_def park_check_def)
  have pc1: "pcs s1 k = At_Check t" "flags s1 = flags s"
    using pc by (simp_all add: s1_def park_check_def token_cancel_frame)
  have ok: "tok_cancel (tokens s t) = Some k" using world_invD(3) [OF inv, of k] pc by simp
  have "pc_ok s1 k (At_Commit t)" using world_invD(3) [OF inv1, of k] pc1 by simp
  moreover have "pend s1 k t" if "flags s1 k" "tok_state (tokens s1 t) = Armed"
  proof -
    have "is_cancelled s t" using that(1) ok pc1 by (simp add: is_cancelled_def is_set_def)
    then have "\<not> open_state (tok_state (tokens s1 t))"
      using token_cancel_frame(6) by (simp add: s1_def park_check_def)
    with that(2) show ?thesis by simp
  qed
  ultimately show ?thesis
    unfolding s1_def [symmetric] using world_invD [OF inv1] by (intro world_inv_move) auto
qed
text \<open>A step that touches one task: its entry, its place in the run queue and its tokens.\<close>

lemma side_but_local:
  assumes inv: "world_inv s"
    and entries: "\<And>j. j \<noteq> k \<Longrightarrow> entry_of s1 j = entry_of s j"
    and same: "pcs s1 = pcs s" "dropped s1 = dropped s" "flags s1 = flags s" "taken s1 = taken s"
      "cancelling s1 = cancelling s" "next_token s1 = next_token s"
    and rdy: "\<And>j. j \<noteq> k \<Longrightarrow> count_list (ready_ids s1) j = count_list (ready_ids s) j"
    and task: "\<And>t. tok_task (tokens s1 t) = tok_task (tokens s t)"
    and flag: "\<And>t. tok_cancel (tokens s1 t) = tok_cancel (tokens s t)"
    and state: "\<And>t. tok_task (tokens s t) \<noteq> k \<Longrightarrow> tok_state (tokens s1 t) = tok_state (tokens s t)"
    and entry: "\<And>e. entry_of s1 k = Some e \<Longrightarrow> e_task e = k \<and>
      tok_task (tokens s (p_token (e_parked e))) = k \<and>
      (flags s k \<longrightarrow> pcs s k = At_Commit (p_token (e_parked e)) \<longrightarrow>
        tok_state (tokens s1 (p_token (e_parked e))) = Armed \<longrightarrow> pend s k (p_token (e_parked e))) \<and>
      (flags s k \<longrightarrow> e_committed e \<longrightarrow> tok_state (tokens s1 (p_token (e_parked e))) = Parked \<longrightarrow>
        pend s k (p_token (e_parked e)))"
  shows "side_but k s1"
proof -
  have reg: "reg_inv (dropped s) (mset (owed s)) s" by (rule world_invD [OF inv])
  have pend: "pend s1 = pend s" by (simp add: fun_eq_iff pend_def same)
  have et: "tok_task (tokens s (p_token (e_parked e))) = j" if "entry_of s1 j = Some e" for j e
  proof (cases "j = k")
    case False
    with that entries have "entry_of s j = Some e" by simp
    from reg_inv_entry [OF reg this] show ?thesis by (simp add: entry_ok_def Let_def)
  qed (use entry that in blast)
  have loose: "loose s1 u j c" if "loose s u j c" "j \<noteq> k" for u j c
  proof -
    have "p_token (e_parked e) \<noteq> u" if "entry_of s1 i = Some e" for i e
    proof (cases "i = k")
      case True
      with et [OF that] \<open>loose s u j c\<close> \<open>j \<noteq> k\<close> show ?thesis by (auto simp: loose_def)
    next
      case False
      with that entries have "entry_of s i = Some e" by simp
      with \<open>loose s u j c\<close> show ?thesis unfolding loose_def by blast
    qed
    with that show ?thesis by (simp add: loose_def same task flag state)
  qed
  have "pc_ok s1 j (pcs s1 j)" if "j \<noteq> k" for j
    using world_invD(3) [OF inv, of j] that loose
    by (cases "pcs s j") (simp_all add: same entries rdy task flag held_def)
  moreover have "cancel_ok s1"
    unfolding cancel_ok_def Let_def
  proof (intro allI impI)
    fix j e assume f: "flags s1 j" and e: "entry_of s1 j = Some e"
    show "(pcs s1 j = At_Commit (p_token (e_parked e)) \<and> tok_state (tokens s1 (p_token (e_parked e))) = Armed
        \<longrightarrow> pend s1 j (p_token (e_parked e))) \<and>
      (e_committed e \<and> tok_state (tokens s1 (p_token (e_parked e))) = Parked
        \<longrightarrow> pend s1 j (p_token (e_parked e)))"
    proof (cases "j = k")
      case True
      with entry e f show ?thesis by (simp add: same pend)
    next
      case False
      with e entries et [OF e] state
      have "entry_of s j = Some e"
        "tok_state (tokens s1 (p_token (e_parked e))) = tok_state (tokens s (p_token (e_parked e)))" by auto
      with world_invD(5) [OF inv] f show ?thesis
        unfolding cancel_ok_def Let_def by (simp add: same pend)
    qed
  qed
  moreover have "e_task e = j" if "entry_of s1 j = Some e" for j e
    using that entries [of j] entry world_invD(2) [OF inv] by (cases "j = k") (auto simp: side_ok_def)
  ultimately show ?thesis
    using world_invD(2) [OF inv] unfolding side_but_def side_ok_def same task by blast
qed

lemma reg_inv_commit_dropped:
  assumes reg: "reg_inv D W s" and k: "entry_of s k = None" "k \<in> D"
    and t: "t < next_token s" "tok_task (tokens s t) = k"
  shows "reg_inv D W (set_state t Parked s)" (is "reg_inv D W ?s")
proof -
  note same = reg_eqD [OF reg_set_state, of t Parked s]
  have apart: "p_token (e_parked e) \<noteq> t" if "entry_of s j = Some e" for j e
    using reg_inv_entry [OF reg that] that t k(1) by (auto simp: entry_ok_def Let_def)
  show ?thesis
  proof (rule reg_invI, unfold same sync_simps committed_count_cong [OF reg_set_state])
    show "shards_ok ?s" using reg shards_ok_cong [OF same(1)] by (simp add: reg_inv_def)
    show "entry_ok W ?s j e" if "entry_of s j = Some e" for j e
      using reg_inv_entry [OF reg that] apart [OF that] by (simp add: entry_ok_def sync_simps)
    show "tok_task (tokens s u) \<in> D \<or> (\<exists>e. entry_of s (tok_task (tokens s u)) = Some e \<and>
        p_token (e_parked e) = u \<and> e_committed e)"
      if "(if u = t then Parked else tok_state (tokens s u)) = Parked" for u
      using reg that k(2) t(2) by (auto simp: reg_inv_def split: if_splits)
    show "\<not> is_waiting ?s u" if "next_token s \<le> u" for u
      using reg that t(1) by (auto simp: reg_inv_def is_waiting_def sync_simps)
  qed (use reg in \<open>auto simp: reg_inv_def\<close>)
qed

lemma pk_commit_gone:
  assumes inv: "world_inv s" and pc: "pcs s k = At_Commit t" and c: "park_commit k t s = (r, s1)"
    and gone: "entry_of s k = None"
  shows "world_inv (move k (if r = None then Away else Running) s1)"
proof -
  have reg: "reg_inv (dropped s) (mset (owed s)) s" by (rule world_invD [OF inv])
  have ok: "count_list (ready_ids s) k = 0" "k \<in> dropped s" "t < next_token s" "tok_task (tokens s t) = k"
    using world_invD(3) [OF inv, of k] pc gone by (auto simp: held_def)
  have s1: "s1 = snd (token_commit t s)" "r = None"
    using c gone reg_eqD(7) [OF reg_token_commit, of t s]
    by (auto simp: park_commit_def split_beta split: if_splits option.splits)
  have "reg s1 = reg s" using s1 by simp
  note same = reg_eqD [OF this] reg_worldD [OF this]
  have st: "s1 = s \<or> s1 = set_state t Parked s"
    using s1 by (auto simp: token_commit_def split: token_state.splits)
  then have sel: "flags s1 = flags s" "next_token s1 = next_token s"
    "tok_task (tokens s1 u) = tok_task (tokens s u)" "tok_cancel (tokens s1 u) = tok_cancel (tokens s u)"
    "u \<noteq> t \<Longrightarrow> tok_state (tokens s1 u) = tok_state (tokens s u)" for u
    by (auto simp: sync_simps)
  have "reg_inv (dropped s) (mset (owed s)) s1"
    using st reg reg_inv_commit_dropped [OF reg gone ok(2-4)] by auto
  moreover have "side_but k s1"
  proof (rule side_but_local [OF inv])
    fix u assume "tok_task (tokens s u) \<noteq> k"
    with ok(4) have "u \<noteq> t" by auto
    then show "tok_state (tokens s1 u) = tok_state (tokens s u)" by (rule sel)
  qed (use gone in \<open>simp_all add: same sel\<close>)
  ultimately show ?thesis
    using s1(2) ok gone by (intro world_inv_move) (auto simp: same)
qed

lemma pk_commit_inv:
  assumes inv: "world_inv s" and pc: "pcs s k = At_Commit t" and c: "park_commit k t s = (r, s1)"
  shows "world_inv (move k (if r = None then Away else Running) s1)"
proof (cases "entry_of s k")
  case None
  then show ?thesis by (rule pk_commit_gone [OF inv pc c])
next
  case (Some e)
  have reg: "reg_inv (dropped s) (mset (owed s)) s" by (rule world_invD [OF inv])
  have ok: "count_list (ready_ids s) k = 0" "\<not> e_committed e" "p_token (e_parked e) = t"
    "tok_task (tokens s t) = k" "k \<notin> dropped s" "e_task e = k"
    using world_invD(3) [OF inv, of k] pc Some reg world_invD(2) [OF inv]
    by (auto simp: held_def reg_inv_def side_ok_def)
  have reg1: "reg_inv (dropped s) (mset (owed s)) s1"
    by (rule reg_inv_park_commit [OF reg Some ok(2,3) c])
  have "tok_state (tokens s t) = Armed \<or> over (tok_state (tokens s t))"
    using reg_inv_entry [OF reg Some] ok by (simp add: entry_ok_def Let_def)
  then show ?thesis
  proof
    assume a: "tok_state (tokens s t) = Armed"
    note same = reg_eqD [OF reg_set_state, of t Parked s] reg_worldD [OF reg_set_state, of t Parked s]
    let ?e = "e\<lparr>e_committed := True\<rparr>"
    have s1: "s1 = (put_entry k ?e (set_state t Parked s))\<lparr>waiting_count := u64_add (waiting_count s) 1\<rparr>"
      "r = None"
      using park_commit_armed [OF a Some] c by auto
    have entries: "entry_of s1 j = (if j = k then Some ?e else entry_of s j)" for j
      using same(7) by (simp add: s1)
    have sel: "flags s1 = flags s"
      "tok_task (tokens s1 u) = tok_task (tokens s u)" "tok_cancel (tokens s1 u) = tok_cancel (tokens s u)"
      "tok_state (tokens s1 u) = (if u = t then Parked else tok_state (tokens s u))"
      "next_token s1 = next_token s" "pcs s1 = pcs s" "dropped s1 = dropped s" "taken s1 = taken s"
      "ready_log s1 = ready_log s" "owed s1 = owed s" "cancelling s1 = cancelling s" for u
      using same by (simp_all add: s1 put_entry_def sync_simps)
    have "side_but k s1"
    proof (rule side_but_local [OF inv])
      fix d assume "entry_of s1 k = Some d"
      then have d: "d = ?e" by (simp add: entries)
      have "flags s k \<longrightarrow> pend s k t"
        using world_invD(5) [OF inv] Some pc a ok(3) unfolding cancel_ok_def Let_def by auto
      then show "e_task d = k \<and> tok_task (tokens s (p_token (e_parked d))) = k \<and>
        (flags s k \<longrightarrow> pcs s k = At_Commit (p_token (e_parked d)) \<longrightarrow>
          tok_state (tokens s1 (p_token (e_parked d))) = Armed \<longrightarrow> pend s k (p_token (e_parked d))) \<and>
        (flags s k \<longrightarrow> e_committed d \<longrightarrow> tok_state (tokens s1 (p_token (e_parked d))) = Parked \<longrightarrow>
          pend s k (p_token (e_parked d)))"
        using ok d by simp
    qed (use ok in \<open>auto simp: sel entries\<close>)
    then show ?thesis using reg1 ok s1(2) by (intro world_inv_move) (auto simp: sel entries)
  next
    assume o: "over (tok_state (tokens s t))"
    note pc' = park_commit_over [OF o Some ok(3) c]
    have "reg (remove_entry k s) = (shards (remove_entry k s), waiting_count s, shut_down s, ready_log s,
        broken s, parking.more s)" by (simp add: reg_def)
    with pc'(2) have same: "ready_log s1 = ready_log s" "parking.more s1 = parking.more s"
      by (auto simp: reg_def)
    then have w: "pcs s1 = pcs s" "dropped s1 = dropped s" "taken s1 = taken s" "owed s1 = owed s"
      "cancelling s1 = cancelling s"
      by (cases s; cases s1; simp)+
    have entries: "entry_of s1 j = (if j = k then None else entry_of s j)" for j
      using reg_eqD(7) [OF pc'(2)] by simp
    have "side_but k s1"
    proof (rule side_but_local [OF inv])
      fix u assume "tok_task (tokens s u) \<noteq> k"
      with ok(4) token_take_over(1) [OF o, of u] pc'(5)
      show "tok_state (tokens s1 u) = tok_state (tokens s u)" by auto
    qed (use pc' token_take_over [OF o] in \<open>simp_all add: entries w same\<close>)
    then show ?thesis
      using reg1 ok pc'(1) by (intro world_inv_move) (auto simp: w same entries)
  qed
qed

lemma reg_inv_same:
  assumes "shards s' = shards s" "waiting_count s' = waiting_count s" "broken s' = broken s"
    "tokens s' = tokens s" "next_token s' = next_token s"
  shows "reg_inv D W s' = reg_inv D W s"
proof -
  have "entry_of s' = entry_of s" by (simp add: fun_eq_iff entry_of_def assms(1))
  then show ?thesis
    using assms committed_count_shards [OF assms(1)]
    by (simp add: reg_inv_def shards_ok_def entry_ok_def is_waiting_def)
qed

lemma pk_wake_inv:
  assumes inv: "world_inv s" and o: "owed s = ks @ k # ks'"
  shows "world_inv (parking_wake k (s\<lparr>owed := ks @ ks'\<rparr>))" (is "world_inv (parking_wake k ?s)")
proof -
  have reg: "reg_inv (dropped s) (add_mset k (mset (ks @ ks'))) ?s"
    using world_invD(1) [OF inv] o by (subst reg_inv_same [of _ s]) simp_all
  have entries: "entry_of ?s = entry_of s" by (simp add: fun_eq_iff entry_of_def)
  have reg1: "reg_inv (dropped s) (mset (ks @ ks')) (parking_wake k ?s)" by (rule reg_inv_wake [OF reg])
  have pc: "pc_ok s k (pcs s k)" by (rule world_invD [OF inv])
  from reg show ?thesis
  proof (cases rule: parking_wake_cases)
    case gone
    have "pc_ok ?s j pc = pc_ok s j pc" for j pc
      by (cases pc) (simp_all add: entries held_def loose_def)
    moreover have "cancel_ok ?s = cancel_ok s" by (simp add: cancel_ok_def entries pend_def)
    ultimately show ?thesis
      using world_invD(2) [OF inv] reg1 gone
      by (simp add: world_inv_def world_owes_def side_ok_def entries)
  next
    case (handed e r s')
    have e: "entry_of s k = Some e" "e_committed e" using handed entries by simp_all
    then have "pcs s k = Away" "count_list (ready_ids s) k = 0" and ek: "e_task e = k"
      using pc world_invD(2) [OF inv] by (cases "pcs s k"; force simp: held_def side_ok_def)+
    have "k \<notin> dropped s" using world_invD(1) [OF inv] e by (auto simp: reg_inv_def)
    have sel: "pcs s' = pcs s" "dropped s' = dropped s" "taken s' = taken s" "owed s' = ks @ ks'"
      "cancelling s' = cancelling s"
      using handed(13) by (cases s; cases s'; simp)+
    have over: "over (tok_state (tokens s (p_token (e_parked e))))" using handed by simp
    have take: "tokens s' = tokens (snd (token_take (p_token (e_parked e)) s))"
      using handed(9) by (simp add: token_take_def set_state_def split: token_state.splits)
    have ent: "entry_of s' j = (if j = k then None else entry_of s j)" for j
      using handed(6) entry_of_remove [of k s j] by (simp add: entry_of_def remove_entry_def)
    have tk: "tok_task (tokens s (p_token (e_parked e))) = k"
      using reg_inv_entry [OF world_invD(1) [OF inv] e(1)] by (simp add: entry_ok_def Let_def)
    have "side_but k s'"
    proof (rule side_but_local [OF inv])
      fix u assume "tok_task (tokens s u) \<noteq> k"
      with tk token_take_over(1) [OF over, of u] take
      show "tok_state (tokens s' u) = tok_state (tokens s u)" by auto
    qed (use handed ek token_take_over(2,3) [OF over] in \<open>simp_all add: sel ent take\<close>)
    moreover have "pc_ok s' k Away"
      using \<open>count_list (ready_ids s) k = 0\<close> \<open>k \<notin> dropped s\<close> handed(10) ek by (simp add: ent sel)
    ultimately have "world_inv (move k Away s')"
      using reg1 handed(2) by (intro world_inv_move) (auto simp: sel)
    moreover have "move k Away s' = s'" using \<open>pcs s k = Away\<close> sel by (simp add: move_def fun_upd_idem)
    ultimately show ?thesis using handed(2) by simp
  qed
qed

lemma pk_resume_inv:
  assumes inv: "world_inv s" and r: "ready_log s = rs @ (k, r) # rs'"
  shows "world_inv (move k Running (s\<lparr>ready_log := rs @ rs'\<rparr>))"
proof -
  let ?s = "s\<lparr>ready_log := rs @ rs'\<rparr>"
  have entries: "entry_of ?s = entry_of s" by (simp add: fun_eq_iff entry_of_def)
  have "pc_ok s k (pcs s k)" by (rule world_invD [OF inv])
  then have ok: "entry_of s k = None" "k \<notin> dropped s" "count_list (ready_ids s) k = 1"
    using r by (cases "pcs s k"; auto)+
  have "side_but k ?s"
    by (rule side_but_local [OF inv]) (use ok r in \<open>simp_all add: entries\<close>)
  moreover have "reg_inv (dropped s) (mset (owed s)) ?s"
    using world_invD(1) [OF inv] by (subst reg_inv_same [of _ s]) simp_all
  ultimately show ?thesis using ok r by (intro world_inv_move) (auto simp: entries)
qed
text \<open>Steps that change only who is cancelling.\<close>

lemma world_inv_cancelling:
  assumes inv: "world_inv s"
    and s': "s' = s\<lparr>flags := fl, cancelling := C\<rparr>"
    and "\<And>k e. fl k \<Longrightarrow> entry_of s k = Some e \<Longrightarrow> open_state (tok_state (tokens s (p_token (e_parked e)))) \<Longrightarrow>
      flags s k \<and> (pend s k (p_token (e_parked e)) \<longrightarrow> pend s' k (p_token (e_parked e))) \<or>
      pend s' k (p_token (e_parked e))"
  shows "world_inv s'"
proof -
  have sel: "entry_of s' = entry_of s" "pcs s' = pcs s" "dropped s' = dropped s" "taken s' = taken s"
    "owed s' = owed s" "tokens s' = tokens s" "next_token s' = next_token s" "ready_log s' = ready_log s"
    "flags s' = fl"
    by (simp_all add: s' fun_eq_iff entry_of_def)
  have "pc_ok s' j pc = pc_ok s j pc" for j pc by (cases pc) (simp_all add: sel held_def loose_def)
  moreover have "cancel_ok s'"
    unfolding cancel_ok_def Let_def sel
  proof (intro allI impI)
    fix k e assume f: "fl k" and e: "entry_of s k = Some e"
    show "(pcs s k = At_Commit (p_token (e_parked e)) \<and> tok_state (tokens s (p_token (e_parked e))) = Armed
        \<longrightarrow> pend s' k (p_token (e_parked e))) \<and>
      (e_committed e \<and> tok_state (tokens s (p_token (e_parked e))) = Parked
        \<longrightarrow> pend s' k (p_token (e_parked e)))"
      using assms(3) [OF f e] world_invD(5) [OF inv] e unfolding cancel_ok_def Let_def
      by (cases "tok_state (tokens s (p_token (e_parked e)))") auto
  qed
  moreover have "reg_inv (dropped s) (mset (owed s)) s'"
    using world_invD(1) [OF inv] by (subst reg_inv_same [of _ s]) (simp_all add: s')
  ultimately show ?thesis
    using world_invD(2) [OF inv] by (simp add: world_inv_def world_owes_def side_ok_def sel)
qed

lemma pk_flag_inv:
  "world_inv s \<Longrightarrow>
    world_inv (s\<lparr>flags := (flags s)(k := True), cancelling := insert (k, None) (cancelling s)\<rparr>)"
  by (rule world_inv_cancelling [OF _ refl]) (auto simp: pend_def split: if_splits)

lemma pk_cancel_look_inv:
  assumes inv: "world_inv s"
  shows "world_inv (s\<lparr>cancelling := (case entry_of s k of
        None \<Rightarrow> cancelling s - {(k, None)}
      | Some e \<Rightarrow> insert (k, Some (p_token (e_parked e))) (cancelling s - {(k, None)}))\<rparr>)"
    (is "world_inv (s\<lparr>cancelling := ?C\<rparr>)")
proof (rule world_inv_cancelling [OF inv])
  show "s\<lparr>cancelling := ?C\<rparr> = s\<lparr>flags := flags s, cancelling := ?C\<rparr>" by simp
qed (auto simp: pend_def split: option.splits)

lemma pk_cancel_token_inv:
  assumes inv: "world_inv s"
  shows "world_inv ((snd (token_cancel owe t s))\<lparr>cancelling := cancelling s - {(k, Some t)}\<rparr>)"
    (is "world_inv (?s\<lparr>cancelling := ?C\<rparr>)")
proof (rule world_inv_cancelling [OF token_cancel_inv [OF inv, of t]])
  show "?s\<lparr>cancelling := ?C\<rparr> = ?s\<lparr>flags := flags ?s, cancelling := ?C\<rparr>" by simp
  fix j e assume "flags ?s j" and o: "open_state (tok_state (tokens ?s (p_token (e_parked e))))"
  then have "p_token (e_parked e) \<noteq> t" using token_cancel_frame(6) by metis
  with \<open>flags ?s j\<close> show "flags ?s j \<and> (pend ?s j (p_token (e_parked e)) \<longrightarrow>
      pend (?s\<lparr>cancelling := ?C\<rparr>) j (p_token (e_parked e))) \<or>
      pend (?s\<lparr>cancelling := ?C\<rparr>) j (p_token (e_parked e))"
    by (auto simp: pend_def token_cancel_frame)
qed

lemma pk_shut_down_inv:
  assumes inv: "world_inv s"
  shows "world_inv (s\<lparr>shut_down := True\<rparr>)" (is "world_inv ?s")
proof -
  have entries: "entry_of ?s = entry_of s" by (simp add: fun_eq_iff entry_of_def)
  have "pc_ok ?s j pc = pc_ok s j pc" for j pc
    by (cases pc) (simp_all add: entries held_def loose_def)
  moreover have "cancel_ok ?s = cancel_ok s" by (simp add: cancel_ok_def entries pend_def)
  moreover have "reg_inv (dropped s) (mset (owed s)) ?s"
    using world_invD(1) [OF inv] by (subst reg_inv_same [of _ s]) simp_all
  ultimately show ?thesis
    using world_invD(2) [OF inv] by (simp add: world_inv_def world_owes_def side_ok_def entries)
qed

lemma pk_shut_shard_inv:
  assumes inv: "world_inv s" and i: "i < SHARDS" and d: "drain_shard i s = (xs, s1)"
    and s': "s' = s1\<lparr>dropped := dropped s1 \<union> fst ` set xs, taken := taken s1 @ xs\<rparr>"
  shows "world_inv s'"
proof -
  have reg: "reg_inv (dropped s) (mset (owed s)) s" by (rule world_invD [OF inv])
  then have ok: "shards_ok s" by (simp add: reg_inv_def)
  have xs: "xs = shards s i" using d by (simp add: drain_shard_def)
  have sel: "tokens s' = tokens s" "next_token s' = next_token s" "flags s' = flags s" "pcs s' = pcs s"
    "dropped s' = dropped s \<union> fst ` set xs" "taken s' = taken s @ xs" "owed s' = owed s"
    "ready_log s' = ready_log s" "cancelling s' = cancelling s" "pend s' = pend s"
    using d by (auto simp: drain_shard_def s' pend_def fun_eq_iff)
  have "entry_of s' = entry_of s1" by (simp add: s' fun_eq_iff entry_of_def)
  then have ent: "entry_of s' j = (if j \<in> fst ` set xs then None else entry_of s j)" for j
    using entry_of_drain [OF ok d] by simp
  have entry: "entry_of s j = Some e" if "(j, e) \<in> set xs" for j e
    using shards_in_entry [OF ok] that xs by blast
  then have some: "j \<notin> fst ` set xs" if "entry_of s j = None" for j using that by force
  have "reg_inv (dropped s \<union> fst ` set xs) (mset (owed s)) s'"
    using reg_inv_drain [OF reg i d] by (subst reg_inv_same [of _ s1]) (simp_all add: s')
  moreover have "pc_ok s' j (pcs s j)" for j
  proof -
    have "loose s' u j c" if "loose s u j c" for u c
      using that unfolding loose_def ent sel by simp
    moreover have "held s' j t" if "held s j t" for t
      using that some [of j] unfolding held_def ent sel by auto
    ultimately show ?thesis
      using world_invD(3) [OF inv, of j] some [of j] by (cases "pcs s j") (auto simp: ent sel)
  qed
  moreover have "cancel_ok s'"
    using world_invD(5) [OF inv] unfolding cancel_ok_def Let_def ent sel by simp
  moreover have "j \<in> dropped s \<union> fst ` set xs \<and> p_token (e_parked e) < next_token s \<and>
      tok_task (tokens s (p_token (e_parked e))) = j" if "(j, e) \<in> set (taken s @ xs)" for j e
  proof (cases "(j, e) \<in> set xs")
    case True
    with reg_inv_entry [OF reg entry [OF True]] show ?thesis by (force simp: entry_ok_def Let_def)
  next
    case False
    with that world_invD(2) [OF inv] show ?thesis by (simp add: side_ok_def)
  qed
  moreover have "e_task e = j" if "entry_of s' j = Some e" for j e
    using that world_invD(2) [OF inv] by (simp add: ent side_ok_def split: if_splits)
  ultimately show ?thesis
    unfolding world_inv_def world_owes_def side_ok_def sel by simp
qed

lemma pk_shut_drop_inv:
  assumes inv: "world_inv s" and t: "taken s = xs @ (k, e) # ys"
  shows "world_inv ((drop_parked (e_parked e) s)\<lparr>taken := xs @ ys\<rparr>)" (is "world_inv (?s\<lparr>taken := _\<rparr>)")
proof -
  have "tok_task (tokens s (p_token (e_parked e))) \<in> dropped s"
    using world_invD(2) [OF inv] t by (auto simp: side_ok_def)
  then have inv1: "world_inv ?s"
    using world_inv_end [OF inv ends_drop] reg_inv_drop_taken [OF world_invD(1) [OF inv]] by blast
  let ?s' = "?s\<lparr>taken := xs @ ys\<rparr>"
  have entries: "entry_of ?s' = entry_of ?s" by (simp add: fun_eq_iff entry_of_def)
  have "pc_ok ?s' j pc = pc_ok ?s j pc" for j pc
    by (cases pc) (simp_all add: entries held_def loose_def)
  moreover have "cancel_ok ?s' = cancel_ok ?s" by (simp add: cancel_ok_def entries pend_def)
  moreover have "reg_inv (dropped ?s) (mset (owed ?s)) ?s'"
    using world_invD(1) [OF inv1] by (subst reg_inv_same [of _ ?s]) simp_all
  moreover have "taken ?s = taken s" using reg_worldD(5) [OF reg_drop_parked] by blast
  ultimately show ?thesis
    using world_invD(2) [OF inv1] t by (auto simp: world_inv_def world_owes_def side_ok_def entries)
qed
lemmas pk_env_inv = threads.try_send_owes threads.try_receive_owes threads.close_owes
  threads.drain_at_owes threads.complete_owes threads.fire_due_owes threads.disarm_owes

lemma pk_step_inv: "pk_step s s' \<Longrightarrow> world_inv s \<Longrightarrow> world_inv s'"
proof (induction rule: pk_step.induct)
  case (pk_close_at s d a)
  then show ?case
    unfolding world_inv_def timer_close_at_def set_closes_by_timer_def
    by (intro threads.timer_arm_owes threads.channels_owes)
next
  case (pk_tick s c)
  then show ?case unfolding world_inv_def by (rule world_owes_frame) simp_all
next
  case (pk_insert s k p r s1)
  then show ?case by (intro pk_insert_inv)
next
  case (pk_commit s k t r s1)
  then show ?case by (intro pk_commit_inv)
qed (auto simp: world_inv_def [symmetric] intro: pk_env_inv [of "{}" "{}" "{#}", folded world_inv_def]
  pk_park_inv pk_insert_inv pk_check_inv pk_commit_inv pk_wake_inv pk_resume_inv pk_flag_inv
  pk_cancel_look_inv pk_cancel_token_inv pk_shut_down_inv pk_shut_shard_inv [OF _ _ _ refl]
  pk_shut_drop_inv)

lemma pk_run_inv: "pk_step\<^sup>*\<^sup>* s s' \<Longrightarrow> world_inv s \<Longrightarrow> world_inv s'"
  by (induction rule: rtranclp_induct) (auto intro: pk_step_inv)

definition world_start :: "('v, 'e) sync \<Rightarrow> ('v, 'e) world" where
  "world_start s = parking.extend (parking_new s) (world.fields [] (\<lambda>_. Running) {} {} [])"

lemma world_inv_start:
  assumes "\<forall>t. \<not> is_waiting s t"
  shows "world_inv (world_start s)"
proof -
  have sel: "tokens (world_start s) = tokens s" "shards (world_start s) = (\<lambda>_. [])"
    "waiting_count (world_start s) = 0" "\<not> broken (world_start s)" "owed (world_start s) = []"
    "pcs (world_start s) = (\<lambda>_. Running)" "dropped (world_start s) = {}" "taken (world_start s) = []"
    "ready_log (world_start s) = []"
    by (simp_all add: world_start_def parking_new_def sync.extend_def parking.fields_def parking.defs
        world.fields_def world.defs)
  have "\<not> is_waiting (world_start s) t" for t using assms by (simp add: is_waiting_def sel)
  moreover from this have "tok_state (tokens (world_start s) t) \<noteq> Parked" for t
    by (metis is_waiting_def open_state.simps(2))
  moreover have entry: "entry_of (world_start s) k = None" for k by (simp add: entry_of_def sel)
  moreover have "committed_count (world_start s) = 0" by (simp add: committed_count_sum sel)
  ultimately have "reg_inv {} {#} (world_start s)"
    by (intro reg_invI) (simp_all add: shards_ok_def sel)
  then show ?thesis
    by (simp add: world_inv_def world_owes_def side_ok_def cancel_ok_def sel entry)
qed

section \<open>Properties\<close>

text \<open>C1: However the steps of parks (joining the queues, inserting, checking, committing), cancels and
  a shutdown interleave with each other and with wakes, timer runs and channel operations, which are
  one step each, and however late an owed wake is delivered: a task that is with a worker
  is not in the run queue, and a task that is not is in exactly one place. It is registered
  with its wait open and no wake under way; or it is registered with its wait ended and exactly
  one wake under way; or it was handed to the scheduler, once; or a shutdown took it. So no wake
  is lost, no task is resumed twice, and no assertion of the registry fails.\<close>

theorem task_in_one_place:
  assumes "\<forall>t. \<not> is_waiting s0 t" and "pk_step\<^sup>*\<^sup>* (world_start s0) s"
  shows "\<not> broken s \<and>
    (\<forall>k. pcs s k \<noteq> Away \<longrightarrow> count_list (ready_ids s) k = 0 \<and> \<not> is_parked s k) \<and>
    (\<forall>k. pcs s k = Away \<longrightarrow>
       (case entry_of s k of
          Some e \<Rightarrow> e_committed e \<and> k \<notin> dropped s \<and> count_list (ready_ids s) k = 0 \<and>
            (let st = tok_state (tokens s (p_token (e_parked e)))
             in st = Parked \<and> count_list (owed s) k = 0 \<or> over st \<and> count_list (owed s) k = 1)
        | None \<Rightarrow> (if k \<in> dropped s then count_list (ready_ids s) k = 0
                   else count_list (ready_ids s) k = 1 \<and> count_list (owed s) k = 0)))"
proof -
  have inv: "world_inv s" by (rule pk_run_inv [OF assms(2) world_inv_start [OF assms(1)]])
  have reg: "reg_inv (dropped s) (mset (owed s)) s" by (rule world_invD [OF inv])
  have count: "count (mset xs) k = count_list xs k" for xs and k :: task_id by (induction xs) auto
  have "count_list (ready_ids s) k = 0 \<and> \<not> is_parked s k" if "pcs s k \<noteq> Away" for k
    using world_invD(3) [OF inv, of k] that
    by (cases "pcs s k") (auto simp: is_parked_def held_def split: option.splits)
  moreover have "case entry_of s k of
      Some e \<Rightarrow> e_committed e \<and> k \<notin> dropped s \<and> count_list (ready_ids s) k = 0 \<and>
        (let st = tok_state (tokens s (p_token (e_parked e)))
         in st = Parked \<and> count_list (owed s) k = 0 \<or> over st \<and> count_list (owed s) k = 1)
    | None \<Rightarrow> (if k \<in> dropped s then count_list (ready_ids s) k = 0
               else count_list (ready_ids s) k = 1 \<and> count_list (owed s) k = 0)"
    if away: "pcs s k = Away" for k
  proof (cases "entry_of s k")
    case None
    have "count_list (owed s) k = 0" if "k \<notin> dropped s"
      using not_owed [OF reg None that] by (simp add: count_list_0_iff)
    with world_invD(3) [OF inv, of k] away None show ?thesis by auto
  next
    case (Some e)
    then have "k \<notin> dropped s" using reg by (auto simp: reg_inv_def)
    with world_invD(3) [OF inv, of k] away Some reg_inv_entry [OF reg Some] show ?thesis
      by (auto simp: entry_ok_def Let_def count split: if_splits)
  qed
  ultimately show ?thesis using reg by (auto simp: reg_inv_def)
qed

text \<open>C3: A cancel is never lost. Whoever cancels a task sets its flag and then looks for it in
  the registry; whatever the interleaving with the park of that task, a registered task whose
  flag is set has an open wait only while a canceller is still on its way to it: one that has
  yet to look, or one that has found this very wait and has yet to end it.\<close>

theorem cancel_never_lost:
  assumes "\<forall>t. \<not> is_waiting s0 t" and "pk_step\<^sup>*\<^sup>* (world_start s0) s" and "flags s k"
    and "entry_of s k = Some e" and "e_committed e" and "is_waiting s (p_token (e_parked e))"
  shows "(k, None) \<in> cancelling s \<or> (k, Some (p_token (e_parked e))) \<in> cancelling s"
proof -
  have inv: "world_inv s" by (rule pk_run_inv [OF assms(2) world_inv_start [OF assms(1)]])
  have "entry_ok (mset (owed s)) s k e" by (rule reg_inv_entry [OF world_invD(1) [OF inv] assms(4)])
  with assms(5,6) have "tok_state (tokens s (p_token (e_parked e))) = Parked"
    by (auto simp: entry_ok_def Let_def is_waiting_def over_def)
  with world_invD(5) [OF inv] assms(3-5) show ?thesis
    unfolding cancel_ok_def Let_def pend_def by blast
qed
text \<open>A run for the witnesses: task 3 parks on the empty channel 0 and is given up, then its flag
  is set.\<close>

definition parked0 :: parked where
  "parked0 = \<lparr>p_token = 0, p_sources = [Source_Recv 0], p_timer = None\<rparr>"

definition run1 :: "(int, string) world" where
  "run1 = snd (park owe 3 (with_cancel (Some 3) (wait_new [Arm_Recv 0])) (world_start (sync_empty (\<lambda>_. 1))))"

definition run2 :: "(int, string) world" where
  "run2 = snd (park_insert 3 3 parked0 (move 3 (At_Insert parked0) run1))"

definition run3 :: "(int, string) world" where
  "run3 = snd (park_commit 3 0 (move 3 (At_Commit 0) (park_check owe False 0 (move 3 (At_Check 0) run2))))"

definition run4 :: "(int, string) world" where
  "run4 = (move 3 Away run3)\<lparr>flags := (flags (move 3 Away run3))(3 := True),
     cancelling := insert (3, None) (cancelling (move 3 Away run3))\<rparr>"

lemmas run_eval = park_eval with_cancel_def parked0_def world_start_def parking_new_def sync_empty_def
  sync.extend_def parking.fields_def parking.defs world.fields_def world.defs move_def

lemma run1_eval: "park owe 3 (with_cancel (Some 3) (wait_new [Arm_Recv 0]))
    (world_start (sync_empty (\<lambda>_. 1))) = (Park_Parked parked0, run1)" "pcs run1 3 = Running"
  by (simp_all add: run1_def run_eval)

lemma run2_eval: "park_insert 3 3 parked0 (move 3 (At_Insert parked0) run1) = (None, run2)"
  by (simp add: run2_def run1_def run_eval)

lemma run3_eval: "park_commit 3 0 (move 3 (At_Commit 0) (park_check owe False 0 (move 3 (At_Check 0) run2)))
    = (None, run3)"
  "entry_of run3 3 = Some \<lparr>e_task = 3, e_parked = parked0, e_committed = True\<rparr>" "is_waiting run3 0"
  by (simp_all add: run3_def run2_def run1_def run_eval is_waiting_def)

lemma run4_reached: "pk_step\<^sup>*\<^sup>* (world_start (sync_empty (\<lambda>_. 1))) run4"
proof -
  let ?w = "with_cancel (Some 3) (wait_new [Arm_Recv 0]) :: int wait"
  have 1: "pk_step (world_start (sync_empty (\<lambda>_. 1))) (move 3 (At_Insert parked0) run1)"
    using pk_park [of "world_start (sync_empty (\<lambda>_. 1))" 3 ?w, OF _ _ run1_eval(1)]
    by (simp add: run_eval)
  have 2: "pk_step (move 3 (At_Insert parked0) run1)
      (move 3 (At_Check 0) run2)"
    using pk_insert [OF _ run2_eval] by (simp add: move_sel parked0_def)
  have 3: "pk_step (move 3 (At_Check 0) run2)
      (move 3 (At_Commit 0) (park_check owe False 0 (move 3 (At_Check 0) run2)))"
    by (rule pk_check) (simp add: move_sel)
  have 4: "pk_step (move 3 (At_Commit 0) (park_check owe False 0 (move 3 (At_Check 0) run2)))
      (move 3 Away run3)"
    using pk_commit [OF _ run3_eval(1)] by (simp add: move_sel)
  have 5: "pk_step (move 3 Away run3)
      run4" unfolding run4_def by (rule pk_flag)
  show ?thesis
    by (intro converse_rtranclp_into_rtranclp [of pk_step, OF 1] converse_rtranclp_into_rtranclp [of pk_step, OF 2]
      converse_rtranclp_into_rtranclp [of pk_step, OF 3] converse_rtranclp_into_rtranclp [of pk_step, OF 4]
      r_into_rtranclp 5)
qed

theorem task_in_one_place_witness: "\<not> broken run4 \<and> count_list (ready_ids run4) 3 = 0"
proof -
  have "entry_of run4 3 = Some \<lparr>e_task = 3, e_parked = parked0, e_committed = True\<rparr>" "pcs run4 3 = Away"
    using run3_eval(2) by (simp_all add: run4_def move_def entry_of_def)
  with task_in_one_place [OF sync_empty_closed run4_reached] show ?thesis by fastforce
qed

theorem cancel_never_lost_witness:
  "(3, None) \<in> cancelling run4 \<or> (3, Some 0) \<in> cancelling run4"
proof -
  let ?e = "\<lparr>e_task = 3, e_parked = parked0, e_committed = True\<rparr>"
  have "flags run4 3" "entry_of run4 3 = Some ?e" "is_waiting run4 (p_token (e_parked ?e))"
    using run3_eval(2,3) by (simp_all add: run4_def move_def entry_of_def is_waiting_def parked0_def)
  from cancel_never_lost [OF sync_empty_closed run4_reached this(1,2) _ this(3)] show ?thesis
    by (simp add: parked0_def)
qed
end
