(* ===== verification/Exhaustiveness.thy ===== *)
theory Exhaustiveness
  imports Prelude
begin

text \<open>
  Which values a set of patterns matches (\<^verbatim>\<open>typechecker/exhaustiveness.rs\<close>): the matrix search
  that decides whether a \<^verbatim>\<open>match\<close> is exhaustive.

  The code compares rows by the addresses of their patterns, so a pattern of the matrix is a
  reference: the path of the node from the row it was written in, and the pattern there. The
  static \<^verbatim>\<open>WILD\<close> has the empty path. The search counts the patterns it looks at and gives up
  at a bound; the counter is threaded through, and giving up is the error \<open>Unverified\<close>. The
  depth of the recursion is bounded too, and \<open>uncovered\<close> recurses on what is left of it.
\<close>

section \<open>Data\<close>

type_synonym symbol = string
type_synonym type_ref = nat

datatype ctor_id =
    Tuple
  | Record "symbol list"
  | Variant type_ref nat
  | Bool_Ctor bool
  | Nil_Ctor
  | Cons_Ctor

datatype pat =
    Wild
  | Ctor ctor_id "pat list"
  | Or "pat list"
  | Lit
  | IntRange int int

datatype witness =
    Any
  | W_Ctor ctor_id "witness list"
  | W_Int int

datatype unverified = Unverified

text \<open>An enum is its variants in the order of the declaration, each with its number of fields.\<close>

type_synonym enum_info = "(symbol \<times> nat) list"
type_synonym enums = "type_ref \<rightharpoonup> enum_info"

type_synonym pref = "nat list \<times> pat"
type_synonym row = "pref list"

definition WILD :: pref where
  "WILD = ([], Wild)"

definition MAX_CELLS :: nat where
  "MAX_CELLS = 32000000"

definition MAX_DEPTH :: nat where
  "MAX_DEPTH = 1000"

definition I64_MIN :: int where
  "I64_MIN = - (2 ^ 63)"

definition I64_MAX :: int where
  "I64_MAX = 2 ^ 63 - 1"

section \<open>Patterns and witnesses\<close>

definition pat_list :: "pat list \<Rightarrow> pat \<Rightarrow> pat" where
  "pat_list elems tail =
     (if MAX_DEPTH < length elems then Lit
      else fold (\<lambda>elem tail. Ctor Cons_Ctor [elem, tail]) (rev elems) tail)"

definition pat_nil :: pat where
  "pat_nil = Ctor Nil_Ctor []"

fun says_something :: "witness \<Rightarrow> bool" where
  "says_something Any = False"
| "says_something (W_Int n) = True"
| "says_something (W_Ctor Tuple fields) = (\<exists>w \<in> set fields. says_something w)"
| "says_something (W_Ctor (Record names) fields) = (\<exists>w \<in> set fields. says_something w)"
| "says_something (W_Ctor c fields) = True"

text \<open>The variants the search counts: the first of each name, with its position.\<close>

fun distinct_from :: "nat \<Rightarrow> symbol list \<Rightarrow> enum_info \<Rightarrow> (nat \<times> symbol \<times> nat) list" where
  "distinct_from i seen [] = []"
| "distinct_from i seen ((name, arity) # vs) =
     (if name \<in> set seen then distinct_from (Suc i) seen vs
      else (i, name, arity) # distinct_from (Suc i) (name # seen) vs)"

definition distinct_variants :: "enum_info \<Rightarrow> (nat \<times> symbol \<times> nat) list" where
  "distinct_variants info = distinct_from 0 [] info"

fun covers_nothing :: "pat \<Rightarrow> bool" where
  "covers_nothing Lit = True"
| "covers_nothing (IntRange lo hi) = (hi < lo)"
| "covers_nothing (Or alts) = (alts = [])"
| "covers_nothing Wild = False"
| "covers_nothing (Ctor c args) = False"

definition same_rows :: "row list \<Rightarrow> row list \<Rightarrow> bool" where
  "same_rows a b \<longleftrightarrow> map (map fst) a = map (map fst) b"

section \<open>Matrices\<close>

text \<open>The alternatives of an or-pattern, nested ones too, with their paths.\<close>

function expand_alts :: "nat list \<Rightarrow> pat \<Rightarrow> pref list" where
  "expand_alts p (Or alts) = concat (map (\<lambda>i. expand_alts (p @ [i]) (alts ! i)) [0..<length alts])"
| "expand_alts p Wild = [(p, Wild)]"
| "expand_alts p (Ctor c args) = [(p, Ctor c args)]"
| "expand_alts p Lit = [(p, Lit)]"
| "expand_alts p (IntRange lo hi) = [(p, IntRange lo hi)]"
  by pat_completeness auto
termination
  by (relation "measure (size \<circ> snd)") (auto simp: less_Suc_eq_le intro!: size_list_estimation' nth_mem)

definition expand_or :: "row \<Rightarrow> row list" where
  "expand_or row = map (\<lambda>p. p # tl row) (expand_alts (fst (hd row)) (snd (hd row)))"

definition default_rows :: "row list \<Rightarrow> row list" where
  "default_rows rows = map tl (filter (\<lambda>row. snd (hd row) = Wild) rows)"

fun find_index :: "'a \<Rightarrow> 'a list \<Rightarrow> nat option" where
  "find_index x [] = None"
| "find_index x (y # ys) = (if x = y then Some 0 else map_option Suc (find_index x ys))"

text \<open>The \<open>i\<close>-th field of a constructor pattern; one that is not written takes any value.\<close>

definition arg_ref :: "nat list \<Rightarrow> pat list \<Rightarrow> nat \<Rightarrow> pref" where
  "arg_ref p args i = (if i < length args then (p @ [i], args ! i) else WILD)"

definition specialize_row :: "ctor_id \<Rightarrow> nat \<Rightarrow> row \<Rightarrow> row option" where
  "specialize_row c arity row =
     (case hd row of
        (p, Wild) \<Rightarrow> Some (replicate arity WILD @ tl row)
      | (p, Ctor (Record names) args) \<Rightarrow>
          (case c of
             Record all \<Rightarrow>
               Some (map (\<lambda>name. case find_index name names of
                       Some i \<Rightarrow> arg_ref p args i | None \<Rightarrow> WILD) all @ tl row)
           | _ \<Rightarrow> None)
      | (p, Ctor c' args) \<Rightarrow>
          (if c' = c then Some (map (arg_ref p args) [0..<arity] @ tl row) else None)
      | _ \<Rightarrow> None)"

definition specialize :: "row list \<Rightarrow> ctor_id \<Rightarrow> nat \<Rightarrow> row list" where
  "specialize rows c arity = List.map_filter (specialize_row c arity) rows"

definition record_names :: "row list \<Rightarrow> symbol list" where
  "record_names rows =
     fold (\<lambda>row names. case snd (hd row) of
         Ctor (Record row_names) _ \<Rightarrow>
           fold (\<lambda>name names. if name \<in> set names then names else names @ [name]) row_names names
       | _ \<Rightarrow> names) rows []"

definition tuple_arity :: "row list \<Rightarrow> nat" where
  "tuple_arity rows =
     fold (\<lambda>row n. case snd (hd row) of Ctor Tuple args \<Rightarrow> max n (length args) | _ \<Rightarrow> n) rows 0"

fun signature :: "enums \<Rightarrow> ctor_id \<Rightarrow> row list \<Rightarrow> (ctor_id \<times> nat) list option" where
  "signature enums Tuple rows = Some [(Tuple, tuple_arity rows)]"
| "signature enums (Record _) rows =
     (let names = record_names rows in Some [(Record names, length names)])"
| "signature enums (Variant ty _) rows =
     map_option (\<lambda>info. map (\<lambda>(i, name, arity). (Variant ty i, arity)) (distinct_variants info))
       (enums ty)"
| "signature enums (Bool_Ctor _) rows = Some [(Bool_Ctor True, 0), (Bool_Ctor False, 0)]"
| "signature enums Nil_Ctor rows = Some [(Nil_Ctor, 0), (Cons_Ctor, 2)]"
| "signature enums Cons_Ctor rows = Some [(Nil_Ctor, 0), (Cons_Ctor, 2)]"

section \<open>Integers\<close>

definition int_ranges :: "row list \<Rightarrow> (int \<times> int) list" where
  "int_ranges rows =
     List.map_filter (\<lambda>row. case snd (hd row) of
         IntRange lo hi \<Rightarrow> if lo \<le> hi then Some (lo, hi) else None
       | _ \<Rightarrow> None) rows"

text \<open>\<^verbatim>\<open>sort_unstable\<close> on pairs of integers: equal pairs are the same.\<close>

fun insert_range :: "int \<times> int \<Rightarrow> (int \<times> int) list \<Rightarrow> (int \<times> int) list" where
  "insert_range r [] = [r]"
| "insert_range r (x # xs) =
     (if fst r < fst x \<or> fst r = fst x \<and> snd r \<le> snd x then r # x # xs else x # insert_range r xs)"

definition sort_ranges :: "(int \<times> int) list \<Rightarrow> (int \<times> int) list" where
  "sort_ranges rs = foldr insert_range rs []"

text \<open>The first integer not known to be in a range.\<close>

fun first_gap :: "(int \<times> int) list \<Rightarrow> int \<Rightarrow> int" where
  "first_gap [] next = next"
| "first_gap ((lo, hi) # rs) next = (if next < lo then next else first_gap rs (max next (hi + 1)))"

definition outside :: "(int \<times> int) list \<Rightarrow> int" where
  "outside ranges =
     (let up = fold (\<lambda>(lo, hi) up. if lo \<le> up \<and> up \<le> hi then hi + 1 else up) ranges 0
      in if up \<le> I64_MAX then up
         else fold (\<lambda>(lo, hi) down. if lo \<le> down \<and> down \<le> hi then lo - 1 else down) (rev ranges) (-1))"

definition cuts :: "(int \<times> int) list \<Rightarrow> int list" where
  "cuts ranges = remdups_adj (sort (concat (map (\<lambda>(lo, hi). [lo, hi + 1]) ranges)))"

definition intervals :: "int list \<Rightarrow> (int \<times> int) list" where
  "intervals cs = map (\<lambda>(a, b). (a, b - 1)) (zip cs (tl cs))"

definition holds_interval :: "pat \<Rightarrow> int \<Rightarrow> int \<Rightarrow> bool" where
  "holds_interval pat a b = (case pat of IntRange lo hi \<Rightarrow> lo \<le> a \<and> b \<le> hi | _ \<Rightarrow> False)"

definition interval_rows :: "row list \<Rightarrow> int \<Rightarrow> int \<Rightarrow> row list" where
  "interval_rows rows a b =
     map tl (filter (\<lambda>row. snd (hd row) = Wild \<or> holds_interval (snd (hd row)) a b) rows)"

definition clamp0 :: "int \<Rightarrow> int \<Rightarrow> int" where
  "clamp0 a b = (if 0 < a then a else if b < 0 then b else 0)"

section \<open>The search\<close>

type_synonym search = "row list \<Rightarrow> nat \<Rightarrow> nat \<Rightarrow> (unverified + witness list option) \<times> nat"

definition with_first :: "witness \<Rightarrow> witness list \<Rightarrow> witness list" where
  "with_first w rest = w # rest"

fun map_found ::
  "(witness list \<Rightarrow> witness list) \<Rightarrow> (unverified + witness list option) \<times> nat
    \<Rightarrow> (unverified + witness list option) \<times> nat"
where
  "map_found f (Inr found, cells) = (Inr (map_option f found), cells)"
| "map_found f (Inl u, cells) = (Inl u, cells)"

definition swap_first :: "nat \<Rightarrow> 'a list \<Rightarrow> 'a list" where
  "swap_first j xs = (if j < length xs then xs[0 := xs ! j, j := xs ! 0] else xs)"

text \<open>The loop over the constructors of the column's type; \<open>covered\<close> are the matrices shown to
  be covered.\<close>

fun search_ctors ::
  "search \<Rightarrow> row list \<Rightarrow> nat \<Rightarrow> (ctor_id \<times> nat) list \<Rightarrow> row list list \<Rightarrow> nat
    \<Rightarrow> (unverified + witness list option) \<times> nat"
where
  "search_ctors rec expanded width [] covered cells = (Inr None, cells)"
| "search_ctors rec expanded width ((c, arity) # sig) covered cells =
     (let rows = specialize expanded c arity
      in if \<exists>done \<in> set covered. same_rows done rows
         then search_ctors rec expanded width sig covered cells
         else (case rec rows (arity + width - 1) cells of
                 (Inl u, cells1) \<Rightarrow> (Inl u, cells1)
               | (Inr (Some fields), cells1) \<Rightarrow>
                   (Inr (Some (with_first (W_Ctor c (take arity fields)) (drop arity fields))), cells1)
               | (Inr None, cells1) \<Rightarrow> search_ctors rec expanded width sig (covered @ [rows]) cells1))"

text \<open>The loop over the intervals of an integer column.\<close>

fun search_intervals ::
  "search \<Rightarrow> row list \<Rightarrow> nat \<Rightarrow> (int \<times> int) list \<Rightarrow> nat
    \<Rightarrow> (unverified + witness list option) \<times> nat"
where
  "search_intervals rec rows width [] cells = (Inr None, cells)"
| "search_intervals rec rows width ((a, b) # is) cells =
     (case rec (interval_rows rows a b) (width - 1) cells of
        (Inl u, cells1) \<Rightarrow> (Inl u, cells1)
      | (Inr (Some rest), cells1) \<Rightarrow> (Inr (Some (with_first (W_Int (clamp0 a b)) rest)), cells1)
      | (Inr None, cells1) \<Rightarrow> search_intervals rec rows width is cells1)"

definition uncovered_int_column ::
  "search \<Rightarrow> row list \<Rightarrow> nat \<Rightarrow> nat \<Rightarrow> (unverified + witness list option) \<times> nat"
where
  "uncovered_int_column rec rows width cells =
     (let ranges = sort_ranges (int_ranges rows)
      in if first_gap ranges I64_MIN < I64_MAX + 1
         then map_found (with_first (W_Int (outside ranges))) (rec (default_rows rows) (width - 1) cells)
         else search_intervals rec rows width (intervals (cuts ranges)) cells)"

definition untested :: "search \<Rightarrow> row list \<Rightarrow> nat \<Rightarrow> nat \<Rightarrow> (unverified + witness list option) \<times> nat" where
  "untested rec expanded width cells =
     map_found (with_first Any) (rec (default_rows expanded) (width - 1) cells)"

text \<open>What the column tests: a constructor, or else integers.\<close>

definition head_test :: "row list \<Rightarrow> pat option" where
  "head_test expanded =
     (case find (\<lambda>p. case p of Ctor _ _ \<Rightarrow> True | _ \<Rightarrow> False) (map (snd \<circ> hd) expanded) of
        Some p \<Rightarrow> Some p
      | None \<Rightarrow> find (\<lambda>p. case p of IntRange _ _ \<Rightarrow> True | _ \<Rightarrow> False) (map (snd \<circ> hd) expanded))"

definition search_column ::
  "enums \<Rightarrow> search \<Rightarrow> row list \<Rightarrow> nat \<Rightarrow> nat \<Rightarrow> (unverified + witness list option) \<times> nat"
where
  "search_column enums rec expanded width cells =
     (case head_test expanded of
        Some (Ctor c _) \<Rightarrow>
          (case signature enums c expanded of
             None \<Rightarrow> untested rec expanded width cells
           | Some sig \<Rightarrow> search_ctors rec expanded width sig [] cells)
      | Some (IntRange _ _) \<Rightarrow> uncovered_int_column rec expanded width cells
      | _ \<Rightarrow> untested rec expanded width cells)"

definition first_tested :: "row \<Rightarrow> nat" where
  "first_tested row =
     (let wilds = takeWhile (\<lambda>p. snd p = Wild) row
      in if length wilds < length row then length wilds else 0)"

definition step ::
  "enums \<Rightarrow> search option \<Rightarrow> row list \<Rightarrow> nat \<Rightarrow> nat \<Rightarrow> (unverified + witness list option) \<times> nat"
where
  "step enums rec rows0 width cells0 =
     (let rows = filter (\<lambda>row. \<not> (\<exists>p \<in> set row. covers_nothing (snd p))) rows0
      in if rows = [] then (Inr (Some (replicate width Any)), cells0)
         else if width = 0 then (Inr None, cells0)
         else (let cells = cells0 + length rows * width
               in case rec of
                    None \<Rightarrow> (Inl Unverified, cells)
                  | Some rec \<Rightarrow>
                     (if MAX_CELLS < cells then (Inl Unverified, cells)
                      else if \<exists>row \<in> set rows. \<forall>p \<in> set row. snd p = Wild then (Inr None, cells)
                      else (let column = first_tested (hd rows);
                                swapped = map (swap_first column) rows;
                                expanded = filter (\<lambda>row. \<not> covers_nothing (snd (hd row)))
                                  (concat (map expand_or swapped))
                            in map_found (swap_first column)
                                 (search_column enums rec expanded width cells)))))"

text \<open>\<open>left\<close> is how many levels the search may still go down: \<open>MAX_DEPTH + 1 - depth\<close>.\<close>

primrec uncovered :: "enums \<Rightarrow> nat \<Rightarrow> search" where
  "uncovered enums 0 = step enums None"
| "uncovered enums (Suc left) = step enums (Some (uncovered enums left))"

definition covers :: "enums \<Rightarrow> row list \<Rightarrow> nat \<Rightarrow> nat \<Rightarrow> nat \<Rightarrow> (unverified + bool) \<times> nat" where
  "covers enums rows width depth cells =
     (case uncovered enums (MAX_DEPTH + 1 - depth) rows width cells of
        (Inl u, cells1) \<Rightarrow> (Inl u, cells1)
      | (Inr found, cells1) \<Rightarrow> (Inr (found = None), cells1))"

section \<open>The questions the type checker asks\<close>

definition pat_rows :: "pat list \<Rightarrow> row list" where
  "pat_rows pats = map (\<lambda>i. [([i], pats ! i)]) [0..<length pats]"

definition cover_together :: "enums \<Rightarrow> pat list \<Rightarrow> nat \<Rightarrow> (unverified + bool) \<times> nat" where
  "cover_together enums pats cells = covers enums (pat_rows pats) 1 0 cells"

definition irrefutable :: "enums \<Rightarrow> pat \<Rightarrow> unverified + bool" where
  "irrefutable enums pat = fst (cover_together enums [pat] 0)"

definition uncovered_by :: "enums \<Rightarrow> pat list \<Rightarrow> witness option" where
  "uncovered_by enums pats =
     (case fst (uncovered enums (MAX_DEPTH + 1) (pat_rows pats) 1 0) of
        Inr (Some ws) \<Rightarrow> (if ws = [] then None else Some (last ws))
      | _ \<Rightarrow> None)"

fun stands_alone :: "enums \<Rightarrow> ctor_id \<Rightarrow> bool" where
  "stands_alone enums Tuple = True"
| "stands_alone enums (Record _) = True"
| "stands_alone enums (Variant ty _) =
     (case enums ty of None \<Rightarrow> False | Some info \<Rightarrow> length (distinct_variants info) = 1)"
| "stands_alone enums c = False"

definition uncovered_of_ctor ::
  "enums \<Rightarrow> pat list \<Rightarrow> ctor_id \<Rightarrow> nat \<Rightarrow> (witness list \<times> bool) option"
where
  "uncovered_of_ctor enums pats c arity =
     (let rows = specialize (concat (map expand_or (pat_rows pats))) c arity
      in case fst (uncovered enums (MAX_DEPTH + 1) rows arity 0) of
           Inr (Some fields) \<Rightarrow> Some (fields, rows \<noteq> [])
         | _ \<Rightarrow> None)"

text \<open>The verdict on a \<^verbatim>\<open>match\<close>: each arm is whether it has a guard, and its pattern; \<open>never\<close> is
  whether the scrutinee's type is \<^verbatim>\<open>Never\<close>. An error tells whether every arm has a guard.\<close>

datatype verdict = Accepted | Non_Exhaustive bool | Not_Verified

definition check_exhaustiveness :: "enums \<Rightarrow> (bool \<times> pat) list \<Rightarrow> bool \<Rightarrow> verdict" where
  "check_exhaustiveness enums arms never =
     (let pats = map snd (filter (\<lambda>(guard, pat). \<not> guard) arms)
      in if arms = [] \<and> never then Accepted
         else (case fst (cover_together enums pats 0) of
                 Inr True \<Rightarrow> Accepted
               | Inr False \<Rightarrow> Non_Exhaustive (arms \<noteq> [] \<and> pats = [])
               | Inl _ \<Rightarrow> Not_Verified))"

end
