(* ===== verification/Exhaustiveness_Proofs.thy ===== *)
theory Exhaustiveness_Proofs
  imports Exhaustiveness
begin

text \<open>
  What the search of \<open>Exhaustiveness\<close> shows. Values, types and matching are the specification:
  a pattern of type \<open>\<tau>\<close> matches some of the values of \<open>\<tau>\<close>, and a test whose values are not
  recorded (\<^verbatim>\<open>Pat::Lit\<close>) matches none that could be counted on. The search is correct when it
  answers "covered" only for rows that match every row of values of the columns' types, and
  shows a witness only of values that no row matches.
\<close>

section \<open>Values, types and matching\<close>

datatype val =
    V_Tuple "val list"
  | V_Record "(symbol \<times> val) list"
  | V_Variant type_ref nat "val list"
  | V_Bool bool
  | V_Nil
  | V_Cons val val
  | V_Int int
  | V_Other nat

datatype ty =
    T_Tuple "ty list"
  | T_Record "(symbol \<times> ty) list"
  | T_Enum type_ref "ty list"
  | T_Bool
  | T_List ty
  | T_Int
  | T_Other

text \<open>The fields of a value that was built with a constructor; of a record, the named ones.\<close>

fun built :: "ctor_id \<Rightarrow> val \<Rightarrow> val list option" where
  "built Tuple (V_Tuple vs) = Some vs"
| "built (Record names) (V_Record fs) =
     (if \<forall>n \<in> set names. map_of fs n \<noteq> None then Some (map (\<lambda>n. the (map_of fs n)) names) else None)"
| "built (Variant t i) (V_Variant t' i' vs) = (if t = t' \<and> i = i' then Some vs else None)"
| "built (Bool_Ctor b) (V_Bool b') = (if b = b' then Some [] else None)"
| "built Nil_Ctor V_Nil = Some []"
| "built Cons_Ctor (V_Cons x xs) = Some [x, xs]"
| "built _ _ = None"

fun matches :: "pat \<Rightarrow> val \<Rightarrow> bool" where
  "matches Wild v = True"
| "matches (Ctor c args) v = (case built c v of None \<Rightarrow> False | Some fs \<Rightarrow> list_all2 matches args fs)"
| "matches (Or alts) v = (\<exists>a \<in> set alts. matches a v)"
| "matches Lit v = False"
| "matches (IntRange lo hi) v = (case v of V_Int n \<Rightarrow> lo \<le> n \<and> n \<le> hi | _ \<Rightarrow> False)"

fun conforms :: "witness \<Rightarrow> val \<Rightarrow> bool" where
  "conforms Any v = True"
| "conforms (W_Int n) v = (v = V_Int n)"
| "conforms (W_Ctor c ws) v = (case built c v of None \<Rightarrow> False | Some fs \<Rightarrow> list_all2 conforms ws fs)"

text \<open>The types of the fields of a constructor of a type. \<open>fields\<close> gives the types of the fields
  of a variant, at the arguments of the enum.\<close>

type_synonym fields = "type_ref \<Rightarrow> ty list \<Rightarrow> nat \<Rightarrow> ty list"

text \<open>The variants of an enum are those of its declaration; a name that is declared again is the first of
  that name.\<close>

definition is_variant :: "enums \<Rightarrow> type_ref \<Rightarrow> nat \<Rightarrow> bool" where
  "is_variant enums t i =
     (case enums t of
        None \<Rightarrow> False
      | Some info \<Rightarrow> i < length info \<and> fst (info ! i) \<notin> fst ` set (take i info))"

fun ctor_tys :: "enums \<Rightarrow> fields \<Rightarrow> ctor_id \<Rightarrow> ty \<Rightarrow> ty list option" where
  "ctor_tys enums fields Tuple (T_Tuple tys) = Some tys"
| "ctor_tys enums fields (Record names) (T_Record fts) =
     (if \<forall>n \<in> set names. map_of fts n \<noteq> None then Some (map (\<lambda>n. the (map_of fts n)) names) else None)"
| "ctor_tys enums fields (Variant t i) (T_Enum t' tas) =
     (if t = t' \<and> is_variant enums t i then Some (fields t tas i) else None)"
| "ctor_tys enums fields (Bool_Ctor b) T_Bool = Some []"
| "ctor_tys enums fields Nil_Ctor (T_List \<tau>) = Some []"
| "ctor_tys enums fields Cons_Ctor (T_List \<tau>) = Some [\<tau>, T_List \<tau>]"
| "ctor_tys enums fields _ _ = None"

fun has_ty :: "enums \<Rightarrow> fields \<Rightarrow> val \<Rightarrow> ty \<Rightarrow> bool" where
  "has_ty enums fields (V_Tuple vs) \<tau> =
     (case \<tau> of T_Tuple tys \<Rightarrow> list_all2 (has_ty enums fields) vs tys | _ \<Rightarrow> False)"
| "has_ty enums fields (V_Record fs) \<tau> =
     (case \<tau> of
        T_Record fts \<Rightarrow> list_all2 (\<lambda>f ft. fst f = fst ft \<and> has_ty enums fields (snd f) (snd ft)) fs fts
      | _ \<Rightarrow> False)"
| "has_ty enums fields (V_Variant t i vs) \<tau> =
     (case \<tau> of
        T_Enum t' tas \<Rightarrow> t = t' \<and> is_variant enums t i \<and> list_all2 (has_ty enums fields) vs (fields t tas i)
      | _ \<Rightarrow> False)"
| "has_ty enums fields (V_Bool b) \<tau> = (\<tau> = T_Bool)"
| "has_ty enums fields V_Nil \<tau> = (case \<tau> of T_List _ \<Rightarrow> True | _ \<Rightarrow> False)"
| "has_ty enums fields (V_Cons x xs) \<tau> =
     (case \<tau> of T_List \<tau>' \<Rightarrow> has_ty enums fields x \<tau>' \<and> has_ty enums fields xs \<tau> | _ \<Rightarrow> False)"
| "has_ty enums fields (V_Int n) \<tau> = (\<tau> = T_Int \<and> I64_MIN \<le> n \<and> n \<le> I64_MAX)"
| "has_ty enums fields (V_Other n) \<tau> = (\<tau> = T_Other)"

fun names_ok :: "ctor_id \<Rightarrow> bool" where
  "names_ok (Record names) = distinct names"
| "names_ok _ = True"

fun pat_ty :: "enums \<Rightarrow> fields \<Rightarrow> pat \<Rightarrow> ty \<Rightarrow> bool" where
  "pat_ty enums fields Wild \<tau> = True"
| "pat_ty enums fields Lit \<tau> = True"
| "pat_ty enums fields (Or alts) \<tau> = (\<forall>a \<in> set alts. pat_ty enums fields a \<tau>)"
| "pat_ty enums fields (IntRange lo hi) \<tau> =
     (\<tau> = T_Int \<and> I64_MIN \<le> lo \<and> lo \<le> I64_MAX \<and> I64_MIN \<le> hi \<and> hi \<le> I64_MAX)"
| "pat_ty enums fields (Ctor c args) \<tau> =
     (names_ok c \<and> (case ctor_tys enums fields c \<tau> of
        None \<Rightarrow> False | Some tys \<Rightarrow> list_all2 (pat_ty enums fields) args tys))"

text \<open>The declarations agree: a variant has as many field types as the enum counts for it.\<close>

definition fields_ok :: "enums \<Rightarrow> fields \<Rightarrow> bool" where
  "fields_ok enums fields \<longleftrightarrow>
     (\<forall>t info i tas. enums t = Some info \<longrightarrow> is_variant enums t i \<longrightarrow> length (fields t tas i) = snd (info ! i))"

text \<open>A witness of a type: its constructors are the type's, with all their fields, and its integers fit 64
  bits.\<close>

fun wit_ty :: "enums \<Rightarrow> fields \<Rightarrow> witness \<Rightarrow> ty \<Rightarrow> bool" where
  "wit_ty enums fields Any \<tau> = True"
| "wit_ty enums fields (W_Int n) \<tau> = (\<tau> = T_Int \<and> I64_MIN \<le> n \<and> n \<le> I64_MAX)"
| "wit_ty enums fields (W_Ctor c ws) \<tau> =
     (names_ok c \<and> (case ctor_tys enums fields c \<tau> of
        None \<Rightarrow> False | Some tys \<Rightarrow> list_all2 (wit_ty enums fields) ws tys))"

lemma in_distinct_from:
  "(j, name, arity) \<in> set (distinct_from i seen vs) \<longleftrightarrow>
    (\<exists>k < length vs. j = i + k \<and> vs ! k = (name, arity) \<and> name \<notin> set seen \<union> fst ` set (take k vs))"
proof (induction vs arbitrary: i seen)
  case (Cons v vs)
  obtain n a where v: "v = (n, a)" by (cases v)
  show ?case
    by (simp only: length_Cons Ex_less_Suc2) (auto simp: v Cons.IH)
qed simp

lemma in_distinct_variants:
  "(i, name, arity) \<in> set (distinct_variants info) \<longleftrightarrow>
    i < length info \<and> info ! i = (name, arity) \<and> name \<notin> fst ` set (take i info)"
  by (auto simp: distinct_variants_def in_distinct_from)

section \<open>References\<close>

text \<open>The pattern a path leads to, from the patterns the matrix was made of.\<close>

fun node :: "pat \<Rightarrow> nat list \<Rightarrow> pat option" where
  "node p [] = Some p"
| "node (Ctor c args) (i # is) = (if i < length args then node (args ! i) is else None)"
| "node (Or alts) (i # is) = (if i < length alts then node (alts ! i) is else None)"
| "node _ (i # is) = None"

definition valid :: "pat list \<Rightarrow> pref \<Rightarrow> bool" where
  "valid roots r \<longleftrightarrow> r = WILD \<or>
     (\<exists>i is. fst r = i # is \<and> i < length roots \<and> node (roots ! i) is = Some (snd r))"

lemma node_append:
  "node p (is @ js) = (case node p is of None \<Rightarrow> None | Some q \<Rightarrow> node q js)"
  by (induction p "is" rule: node.induct) auto

lemma valid_eq: "valid roots r \<Longrightarrow> valid roots r' \<Longrightarrow> fst r = fst r' \<Longrightarrow> r = r'"
  by (auto simp: valid_def WILD_def prod_eq_iff)

lemma valid_WILD [simp]: "valid roots WILD"
  by (simp add: valid_def)

lemma valid_child:
  assumes "valid roots (p, q)" and "node q [i] = Some q'"
  shows "valid roots (p @ [i], q')"
  using assms by (auto simp: valid_def WILD_def node_append)

lemma valid_arg_ref: "valid roots (p, Ctor c args) \<Longrightarrow> valid roots (arg_ref p args i)"
  by (auto simp: arg_ref_def intro: valid_child)

lemma valid_expand: "valid roots (p, q) \<Longrightarrow> r \<in> set (expand_alts p q) \<Longrightarrow> valid roots r"
proof (induction p q rule: expand_alts.induct)
  case (1 p alts)
  then obtain i where i: "i < length alts" "r \<in> set (expand_alts (p @ [i]) (alts ! i))" by auto
  have "valid roots (p @ [i], alts ! i)"
    using 1(2) by (rule valid_child) (simp add: i(1))
  with 1(1) [of i] i show ?case by simp
qed auto

lemma same_rows_eq:
  assumes "\<forall>row \<in> set a. \<forall>r \<in> set row. valid roots r" and "\<forall>row \<in> set b. \<forall>r \<in> set row. valid roots r"
    and "same_rows a b"
  shows "a = b"
proof -
  have rows: "x = y" if "map fst x = map fst y" "\<forall>r \<in> set x. valid roots r" "\<forall>r \<in> set y. valid roots r"
    for x y :: row
    using that
  proof (induction x arbitrary: y)
    case (Cons r x)
    then obtain r' y' where "y = r' # y'" by (cases y) auto
    with Cons show ?case using valid_eq [of roots r r'] by auto
  qed simp
  from assms show ?thesis unfolding same_rows_def
  proof (induction a arbitrary: b)
    case (Cons x a)
    then obtain y b' where b: "b = y # b'" "map fst x = map fst y" "map (map fst) a = map (map fst) b'"
      by (cases b) auto
    have "x = y" by (rule rows) (use Cons.prems b in auto)
    moreover have "a = b'" by (rule Cons.IH) (use Cons.prems b in auto)
    ultimately show ?case using b by simp
  qed simp
qed

section \<open>Rows\<close>

abbreviation row_matches :: "row \<Rightarrow> val list \<Rightarrow> bool" where
  "row_matches row vs \<equiv> list_all2 (\<lambda>r. matches (snd r)) row vs"

abbreviation row_ty :: "enums \<Rightarrow> fields \<Rightarrow> row \<Rightarrow> ty list \<Rightarrow> bool" where
  "row_ty enums fields row ts \<equiv> list_all2 (\<lambda>r. pat_ty enums fields (snd r)) row ts"

lemma covers_nothing_no_match: "covers_nothing p \<Longrightarrow> \<not> matches p v"
  by (cases p) (auto split: val.splits)

lemma expand_matches:
  "matches q v \<longleftrightarrow> (\<exists>r \<in> set (expand_alts p q). matches (snd r) v)"
proof (induction p q rule: expand_alts.induct)
  case (1 p alts)
  have "matches (Or alts) v \<longleftrightarrow> (\<exists>i < length alts. matches (alts ! i) v)"
    by (simp add: Bex_def in_set_conv_nth) blast
  also have "\<dots> \<longleftrightarrow> (\<exists>i < length alts. \<exists>r \<in> set (expand_alts (p @ [i]) (alts ! i)). matches (snd r) v)"
    using 1 by (metis (no_types, lifting) atLeastLessThan_iff set_upt zero_le)
  also have "\<dots> \<longleftrightarrow> (\<exists>r \<in> set (expand_alts p (Or alts)). matches (snd r) v)"
    by (simp add: Bex_def) blast
  finally show ?case .
qed auto

lemma expand_ty:
  "pat_ty enums fields q \<tau> \<Longrightarrow> r \<in> set (expand_alts p q) \<Longrightarrow>
    pat_ty enums fields (snd r) \<tau> \<and> (\<forall>alts. snd r \<noteq> Or alts)"
proof (induction p q rule: expand_alts.induct)
  case (1 p alts)
  then obtain i where "i < length alts" "r \<in> set (expand_alts (p @ [i]) (alts ! i))" by auto
  with 1 show ?case by auto
qed auto

lemma built_ty:
  assumes "has_ty enums fields v \<tau>" and "ctor_tys enums fields c \<tau> = Some tys" and "built c v = Some fs"
  shows "list_all2 (has_ty enums fields) fs tys"
proof (cases c)
  case (Record names)
  with assms(3) obtain m where v: "v = V_Record m" by (cases v) auto
  with assms(1) obtain fts where t: "\<tau> = T_Record fts" by (cases \<tau>) auto
  have "\<exists>v. map_of m n = Some v \<and> has_ty enums fields v \<tau>'" if "map_of fts n = Some \<tau>'" for n \<tau>'
  proof -
    have "list_all2 (\<lambda>f ft. fst f = fst ft \<and> has_ty enums fields (snd f) (snd ft)) m fts"
      using assms(1) v t by simp
    then show ?thesis using that by (induction rule: list_all2_induct) auto
  qed
  then have "has_ty enums fields (the (map_of m n)) (the (map_of fts n))" if "n \<in> set names" for n
    using that assms(2) Record t by (fastforce split: if_splits)
  with assms Record v t show ?thesis by (auto simp: list_all2_conv_all_nth split: if_splits)
qed (use assms in \<open>(cases v; cases \<tau>; auto split: if_splits)+\<close>)

section \<open>Specializing a matrix\<close>

lemma find_index_Some: "find_index x xs = Some i \<Longrightarrow> i < length xs \<and> xs ! i = x"
  by (induction xs arbitrary: i) (auto split: if_splits)

lemma find_index_None: "find_index x xs = None \<longleftrightarrow> x \<notin> set xs"
  by (induction xs) auto

lemma find_index_nth: "distinct xs \<Longrightarrow> i < length xs \<Longrightarrow> find_index (xs ! i) xs = Some i"
  by (induction xs arbitrary: i) (auto simp: nth_Cons' less_Suc_eq_0_disj split: if_splits)

lemma built_other:
  assumes "built c v = Some fs" and "built c' v = Some fs'" and "\<forall>names. c \<noteq> Record names"
  shows "c' = c"
  using assms by (cases c; cases v; cases c') (auto split: if_splits)

text \<open>The fields a record pattern gives, among all the fields the column names.\<close>

lemma record_fields:
  assumes names: "distinct names" "length args = length names" "set names \<subseteq> set all"
    and b: "built (Record all) v = Some fs"
  shows "matches (Ctor (Record names) args) v \<longleftrightarrow>
    row_matches (map (\<lambda>name. case find_index name names of
        Some i \<Rightarrow> arg_ref p args i | None \<Rightarrow> WILD) all) fs"
proof -
  from b obtain m where v: "v = V_Record m" and all: "\<forall>n \<in> set all. map_of m n \<noteq> None"
    and fs: "fs = map (\<lambda>n. the (map_of m n)) all"
    by (cases v) (auto split: if_splits)
  have "built (Record names) v = Some (map (\<lambda>n. the (map_of m n)) names)" using names all v by auto
  then have "matches (Ctor (Record names) args) v \<longleftrightarrow>
      (\<forall>i < length names. matches (args ! i) (the (map_of m (names ! i))))"
    using names(2) by (auto simp: list_all2_conv_all_nth)
  also have "\<dots> \<longleftrightarrow> (\<forall>n \<in> set all. matches (snd (case find_index n names of
        Some i \<Rightarrow> arg_ref p args i | None \<Rightarrow> WILD)) (the (map_of m n)))"
  proof
    assume *: "\<forall>i < length names. matches (args ! i) (the (map_of m (names ! i)))"
    show "\<forall>n \<in> set all. matches (snd (case find_index n names of
        Some i \<Rightarrow> arg_ref p args i | None \<Rightarrow> WILD)) (the (map_of m n))"
    proof
      fix n
      show "matches (snd (case find_index n names of
        Some i \<Rightarrow> arg_ref p args i | None \<Rightarrow> WILD)) (the (map_of m n))"
        using * find_index_Some [of n names] names(2)
        by (cases "find_index n names") (auto simp: WILD_def arg_ref_def)
    qed
  next
    assume *: "\<forall>n \<in> set all. matches (snd (case find_index n names of
        Some i \<Rightarrow> arg_ref p args i | None \<Rightarrow> WILD)) (the (map_of m n))"
    show "\<forall>i < length names. matches (args ! i) (the (map_of m (names ! i)))"
    proof (intro allI impI)
      fix i assume i: "i < length names"
      then have "names ! i \<in> set all" using names(3) by (meson nth_mem subsetD)
      with * have "matches (snd (case find_index (names ! i) names of
          Some i \<Rightarrow> arg_ref p args i | None \<Rightarrow> WILD)) (the (map_of m (names ! i)))" ..
      then show "matches (args ! i) (the (map_of m (names ! i)))"
        using i names(2) by (simp add: find_index_nth [OF names(1)] arg_ref_def)
    qed
  qed
  also have "\<dots> \<longleftrightarrow> row_matches (map (\<lambda>name. case find_index name names of
        Some i \<Rightarrow> arg_ref p args i | None \<Rightarrow> WILD) all) fs"
    by (simp add: fs list_all2_map1 list_all2_map2 list_all2_same)
  finally show ?thesis .
qed

text \<open>A constructor of the column's type, as the signature gives it.\<close>

definition ctor_of :: "enums \<Rightarrow> fields \<Rightarrow> row list \<Rightarrow> ty \<Rightarrow> ctor_id \<Rightarrow> nat \<Rightarrow> ty list \<Rightarrow> bool" where
  "ctor_of enums fields rows \<tau> c arity tys \<longleftrightarrow>
     ctor_tys enums fields c \<tau> = Some tys \<and> length tys = arity \<and> names_ok c \<and>
     (\<forall>all. c = Record all \<longrightarrow> (\<forall>row \<in> set rows. \<forall>names args. snd (hd row) = Ctor (Record names) args
        \<longrightarrow> set names \<subseteq> set all))"

lemma specialize_row_matches:
  assumes row: "row = (p, q) # rest" and ty: "pat_ty enums fields q \<tau>" and or: "\<forall>alts. q \<noteq> Or alts"
    and c: "ctor_of enums fields rows \<tau> c arity tys" and in_rows: "row \<in> set rows"
    and b: "built c v = Some fs" and len: "length fs = arity"
  shows "row_matches row (v # vs) \<longleftrightarrow>
    (\<exists>r. specialize_row c arity row = Some r \<and> row_matches r (fs @ vs))"
proof (cases q)
  case Wild
  then show ?thesis
    using len by (simp add: row specialize_row_def list_all2_append list_all2_conv_all_nth [of _ "replicate _ _"] WILD_def)
next
  case (Ctor c' args)
  then obtain tys' where tys': "ctor_tys enums fields c' \<tau> = Some tys'" "list_all2 (pat_ty enums fields) args tys'"
    and nok: "names_ok c'"
    using ty by (auto split: option.splits)
  show ?thesis
  proof (cases "\<exists>names. c' = Record names")
    case True
    then obtain names where names: "c' = Record names" by auto
    then obtain all where all: "c = Record all"
      using tys'(1) c by (cases \<tau>; cases c) (auto simp: ctor_of_def)
    have "set names \<subseteq> set all" using c in_rows Ctor names all row by (force simp: ctor_of_def)
    moreover have "length args = length names"
      using tys' names by (cases \<tau>) (auto dest: list_all2_lengthD split: if_splits)
    ultimately have "matches q v \<longleftrightarrow> row_matches (map (\<lambda>name. case find_index name names of
        Some i \<Rightarrow> arg_ref p args i | None \<Rightarrow> WILD) all) fs"
      using record_fields [of names args all v fs p] nok b names all Ctor by simp
    moreover have "length all = length fs" using b all by (cases v) (auto split: if_splits)
    ultimately show ?thesis
      using Ctor names all by (simp add: row specialize_row_def list_all2_append)
  next
    case False
    then have spec: "specialize_row c arity row =
        (if c' = c then Some (map (arg_ref p args) [0..<arity] @ rest) else None)"
      using Ctor by (cases c') (auto simp: row specialize_row_def)
    show ?thesis
    proof (cases "c' = c")
      case True
      then have "length args = arity"
        using tys' c by (auto simp: ctor_of_def dest: list_all2_lengthD)
      then have "map snd (map (arg_ref p args) [0..<arity]) = args"
        by (auto simp: arg_ref_def list_eq_iff_nth_eq)
      then have "row_matches (map (arg_ref p args) [0..<arity]) fs \<longleftrightarrow> list_all2 matches args fs"
        by (metis list_all2_map1)
      then show ?thesis
        using True Ctor b len spec by (simp add: row list_all2_append)
    next
      case other: False
      have "built c' v = None" using built_other [of c' v _ c] b other False by (cases "built c' v") auto
      then show ?thesis using Ctor spec other by (simp add: row)
    qed
  qed
next
  case (IntRange lo hi)
  have "\<not> matches q v" using IntRange b by (cases v; cases c) auto
  then show ?thesis using IntRange by (simp add: row specialize_row_def)
qed (use or in \<open>simp_all add: row specialize_row_def\<close>)

lemma specialize_row_ty:
  assumes row: "row = (p, q) # rest" and ty: "row_ty enums fields row (\<tau> # ts)"
    and c: "ctor_of enums fields rows \<tau> c arity tys" and in_rows: "row \<in> set rows"
    and s: "specialize_row c arity row = Some r"
  shows "row_ty enums fields r (tys @ ts)"
proof -
  have rest: "row_ty enums fields rest ts" and q: "pat_ty enums fields q \<tau>" using ty row by auto
  have len: "length tys = arity" and ct: "ctor_tys enums fields c \<tau> = Some tys"
    using c by (auto simp: ctor_of_def)
  show ?thesis
  proof (cases q)
    case Wild
    then show ?thesis
      using s rest len by (auto simp: row specialize_row_def WILD_def list_all2_conv_all_nth nth_append)
  next
    case (Ctor c' args)
    then obtain tys' where tys': "ctor_tys enums fields c' \<tau> = Some tys'" "list_all2 (pat_ty enums fields) args tys'"
      and nok: "names_ok c'"
      using q by (auto split: option.splits)
    show ?thesis
    proof (cases "\<exists>names. c' = Record names")
      case True
      then obtain names where names: "c' = Record names" by auto
      with s Ctor obtain all where all: "c = Record all"
        by (cases c) (auto simp: row specialize_row_def)
      from ct all obtain fts where t: "\<tau> = T_Record fts" "tys = map (\<lambda>n. the (map_of fts n)) all"
        by (cases \<tau>) (auto split: if_splits)
      have tys'_eq: "tys' = map (\<lambda>n. the (map_of fts n)) names"
        using tys'(1) names t by (auto split: if_splits)
      have "pat_ty enums fields (snd (case find_index n names of
          Some i \<Rightarrow> arg_ref p args i | None \<Rightarrow> WILD)) (the (map_of fts n))" for n
        using find_index_Some [of n names] tys'(2)
        by (cases "find_index n names") (auto simp: WILD_def arg_ref_def tys'_eq list_all2_conv_all_nth)
      then show ?thesis
        using s rest Ctor names all t
        by (auto simp: row specialize_row_def list_all2_append list_all2_map1 list_all2_map2 list_all2_same)
    next
      case False
      then have "c' = c" "r = map (arg_ref p args) [0..<arity] @ rest"
        using s Ctor by (cases c'; auto simp: row specialize_row_def split: if_splits)+
      moreover from this have "tys' = tys" using tys' ct by simp
      then have "row_ty enums fields (map (arg_ref p args) [0..<arity]) tys"
        using tys'(2) len by (auto simp: list_all2_conv_all_nth arg_ref_def)
      ultimately show ?thesis
        using rest by (auto intro: list_all2_appendI)
    qed
  qed (use s in \<open>auto simp: row specialize_row_def\<close>)
qed

lemma specialize_row_valid:
  assumes "\<forall>r \<in> set row. valid roots r" and "row = (p, q) # rest" and "specialize_row c arity row = Some r"
  shows "\<forall>x \<in> set r. valid roots x"
  using assms by (auto simp: specialize_row_def valid_arg_ref split: pat.splits ctor_id.splits if_splits
      option.splits)

section \<open>What an answer of the search means\<close>

definition matched :: "row list \<Rightarrow> val list \<Rightarrow> bool" where
  "matched rows vs \<longleftrightarrow> (\<exists>row \<in> set rows. row_matches row vs)"

definition covered_all :: "enums \<Rightarrow> fields \<Rightarrow> row list \<Rightarrow> ty list \<Rightarrow> bool" where
  "covered_all enums fields rows ts \<longleftrightarrow> (\<forall>vs. list_all2 (has_ty enums fields) vs ts \<longrightarrow> matched rows vs)"

definition missed :: "enums \<Rightarrow> fields \<Rightarrow> row list \<Rightarrow> ty list \<Rightarrow> witness list \<Rightarrow> bool" where
  "missed enums fields rows ts ws \<longleftrightarrow> list_all2 (wit_ty enums fields) ws ts \<and>
     (\<forall>vs. list_all2 (has_ty enums fields) vs ts \<longrightarrow> list_all2 conforms ws vs \<longrightarrow> \<not> matched rows vs)"

definition answer_ok :: "enums \<Rightarrow> fields \<Rightarrow> row list \<Rightarrow> ty list \<Rightarrow> unverified + witness list option \<Rightarrow> bool" where
  "answer_ok enums fields rows ts ans \<longleftrightarrow>
     (ans = Inr None \<longrightarrow> covered_all enums fields rows ts) \<and>
     (\<forall>ws. ans = Inr (Some ws) \<longrightarrow> missed enums fields rows ts ws)"

definition matrix_ok :: "enums \<Rightarrow> fields \<Rightarrow> pat list \<Rightarrow> row list \<Rightarrow> ty list \<Rightarrow> bool" where
  "matrix_ok enums fields roots rows ts \<longleftrightarrow>
     (\<forall>row \<in> set rows. row_ty enums fields row ts \<and> (\<forall>r \<in> set row. valid roots r))"

definition no_or :: "row list \<Rightarrow> bool" where
  "no_or rows \<longleftrightarrow> (\<forall>row \<in> set rows. \<forall>alts. snd (hd row) \<noteq> Or alts)"

definition good :: "enums \<Rightarrow> fields \<Rightarrow> pat list \<Rightarrow> search \<Rightarrow> bool" where
  "good enums fields roots rec \<longleftrightarrow>
     (\<forall>width cells. fst (rec [] width cells) \<noteq> Inr None) \<and>
     (\<forall>rows ts cells. matrix_ok enums fields roots rows ts \<longrightarrow>
        answer_ok enums fields rows ts (fst (rec rows (length ts) cells)))"

lemma answer_ok_Inl [simp]: "answer_ok enums fields rows ts (Inl u)"
  by (simp add: answer_ok_def)

lemma goodD:
  "good enums fields roots rec \<Longrightarrow> matrix_ok enums fields roots rows ts \<Longrightarrow> width = length ts \<Longrightarrow>
    answer_ok enums fields rows ts (fst (rec rows width cells))"
  by (simp add: good_def)

lemma set_map_filter: "y \<in> set (List.map_filter f xs) \<longleftrightarrow> (\<exists>x \<in> set xs. f x = Some y)"
  by (induction xs) (auto simp: List.map_filter_def)

lemma matrix_row:
  assumes "matrix_ok enums fields roots rows (\<tau> # ts)" and "row \<in> set rows"
  obtains p q rest where "row = (p, q) # rest" "pat_ty enums fields q \<tau>" "row_ty enums fields rest ts"
    "\<forall>r \<in> set rest. valid roots r" "valid roots (p, q)"
  using assms by (cases row) (auto simp: matrix_ok_def split_paired_all)

section \<open>The rows of one constructor\<close>

lemma specialize_matrix:
  assumes m: "matrix_ok enums fields roots rows (\<tau> # ts)"
    and c: "ctor_of enums fields rows \<tau> c arity tys"
  shows "matrix_ok enums fields roots (specialize rows c arity) (tys @ ts)"
  unfolding matrix_ok_def
proof
  fix r assume "r \<in> set (specialize rows c arity)"
  then obtain row where row: "row \<in> set rows" "specialize_row c arity row = Some r"
    by (auto simp: specialize_def set_map_filter)
  then obtain p q rest where eq: "row = (p, q) # rest"
    using matrix_row [OF m row(1)] by metis
  have ok: "row_ty enums fields row (\<tau> # ts)" "\<forall>r \<in> set row. valid roots r"
    using m row(1) by (auto simp: matrix_ok_def)
  show "row_ty enums fields r (tys @ ts) \<and> (\<forall>x \<in> set r. valid roots x)"
    using specialize_row_ty [OF eq ok(1) c row] specialize_row_valid [OF ok(2) eq row(2)] by blast
qed

lemma specialize_matched:
  assumes m: "matrix_ok enums fields roots rows (\<tau> # ts)" and or: "no_or rows"
    and c: "ctor_of enums fields rows \<tau> c arity tys"
    and v: "has_ty enums fields v \<tau>" and b: "built c v = Some fs"
  shows "matched rows (v # vs) \<longleftrightarrow> matched (specialize rows c arity) (fs @ vs)"
proof -
  have "list_all2 (has_ty enums fields) fs tys"
    using built_ty [OF v _ b] c by (simp add: ctor_of_def)
  then have len: "length fs = arity" using c by (auto simp: ctor_of_def dest: list_all2_lengthD)
  have "row_matches row (v # vs) \<longleftrightarrow> (\<exists>r. specialize_row c arity row = Some r \<and> row_matches r (fs @ vs))"
    if row: "row \<in> set rows" for row
  proof -
    obtain p q rest where eq: "row = (p, q) # rest" "pat_ty enums fields q \<tau>"
      using matrix_row [OF m row] by metis
    moreover have "\<forall>alts. q \<noteq> Or alts" using or row eq by (auto simp: no_or_def)
    ultimately show ?thesis using specialize_row_matches [OF _ _ _ c row b len] by blast
  qed
  then show ?thesis unfolding matched_def specialize_def Bex_def set_map_filter by blast
qed

text \<open>A matrix the search has shown to be covered, of rows of the width it was asked for.\<close>

definition shown :: "search \<Rightarrow> row list \<Rightarrow> bool" where
  "shown rec rows \<longleftrightarrow> rows \<noteq> [] \<and>
     (\<exists>width cells. (\<forall>row \<in> set rows. length row = width) \<and> fst (rec rows width cells) = Inr None)"

lemma shown_covered:
  assumes "good enums fields roots rec" and "shown rec rows" and "matrix_ok enums fields roots rows ts"
  shows "covered_all enums fields rows ts"
proof -
  obtain width cells where w: "\<forall>row \<in> set rows. length row = width" "fst (rec rows width cells) = Inr None"
    and "rows \<noteq> []" using assms(2) by (auto simp: shown_def)
  then obtain row where "row \<in> set rows" by (cases rows) auto
  then have "width = length ts" using w(1) assms(3) unfolding matrix_ok_def by (metis list_all2_lengthD)
  then show ?thesis using goodD [OF assms(1,3), of width cells] w(2) by (simp add: answer_ok_def)
qed

lemma ctor_covered:
  assumes m: "matrix_ok enums fields roots rows (\<tau> # ts)" and or: "no_or rows"
    and c: "ctor_of enums fields rows \<tau> c arity tys"
    and cov: "covered_all enums fields (specialize rows c arity) (tys @ ts)"
    and vs: "list_all2 (has_ty enums fields) (v # vs) (\<tau> # ts)" and b: "built c v = Some fs"
  shows "matched rows (v # vs)"
proof -
  have "list_all2 (has_ty enums fields) (fs @ vs) (tys @ ts)"
    using built_ty [OF _ _ b] c vs by (auto simp: ctor_of_def intro!: list_all2_appendI)
  then show ?thesis
    using specialize_matched [OF m or c _ b] cov vs by (simp add: covered_all_def)
qed

lemma missed_ctor:
  assumes m: "matrix_ok enums fields roots rows (\<tau> # ts)" and or: "no_or rows"
    and c: "ctor_of enums fields rows \<tau> c arity tys"
    and miss: "missed enums fields (specialize rows c arity) (tys @ ts) ws"
  shows "missed enums fields rows (\<tau> # ts) (W_Ctor c (take arity ws) # drop arity ws)"
  unfolding missed_def
proof (intro conjI allI impI)
  have len: "length tys = arity" using c by (simp add: ctor_of_def)
  have ws: "list_all2 (wit_ty enums fields) ws (tys @ ts)" using miss by (simp add: missed_def)
  then have "list_all2 (wit_ty enums fields) (take arity ws) tys" "list_all2 (wit_ty enums fields) (drop arity ws) ts"
    using list_all2_takeI [OF ws, of arity] list_all2_dropI [OF ws, of arity] len by simp_all
  then show "list_all2 (wit_ty enums fields) (W_Ctor c (take arity ws) # drop arity ws) (\<tau> # ts)"
    using c by (simp add: ctor_of_def)
  fix vs assume "list_all2 (has_ty enums fields) vs (\<tau> # ts)"
    and conf: "list_all2 conforms (W_Ctor c (take arity ws) # drop arity ws) vs"
  then obtain v vs' where vs: "vs = v # vs'" "has_ty enums fields v \<tau>" "list_all2 (has_ty enums fields) vs' ts"
    by (cases vs) auto
  then obtain fs where b: "built c v = Some fs" "list_all2 conforms (take arity ws) fs"
    and rest: "list_all2 conforms (drop arity ws) vs'" using conf by (auto split: option.splits)
  have "list_all2 (has_ty enums fields) (fs @ vs') (tys @ ts)"
    using built_ty [OF vs(2) _ b(1)] c vs(3) by (auto simp: ctor_of_def intro: list_all2_appendI)
  moreover have "list_all2 conforms (take arity ws @ drop arity ws) (fs @ vs')"
    using b(2) rest by (rule list_all2_appendI)
  ultimately have "\<not> matched (specialize rows c arity) (fs @ vs')"
    using miss by (simp add: missed_def)
  then show "\<not> matched rows vs"
    using specialize_matched [OF m or c vs(2) b(1)] vs(1) by simp
qed

text \<open>An answer of the loop over the constructors.\<close>

definition ctors_ok ::
  "enums \<Rightarrow> fields \<Rightarrow> row list \<Rightarrow> ty \<Rightarrow> ty list \<Rightarrow> (ctor_id \<times> nat) list \<Rightarrow> unverified + witness list option \<Rightarrow> bool"
where
  "ctors_ok enums fields rows \<tau> ts sig ans \<longleftrightarrow>
     (ans = Inr None \<longrightarrow> (\<forall>c arity v vs. (c, arity) \<in> set sig \<longrightarrow>
        list_all2 (has_ty enums fields) (v # vs) (\<tau> # ts) \<longrightarrow> built c v \<noteq> None \<longrightarrow> matched rows (v # vs))) \<and>
     (\<forall>ws. ans = Inr (Some ws) \<longrightarrow> missed enums fields rows (\<tau> # ts) ws)"

lemma ctors_ok_Cons:
  assumes "ctors_ok enums fields rows \<tau> ts sig ans"
    and "\<And>v vs fs. list_all2 (has_ty enums fields) (v # vs) (\<tau> # ts) \<Longrightarrow> built c v = Some fs \<Longrightarrow> matched rows (v # vs)"
  shows "ctors_ok enums fields rows \<tau> ts ((c, arity) # sig) ans"
  using assms unfolding ctors_ok_def by (metis (no_types, lifting) not_None_eq prod.inject set_ConsD)

lemma search_ctors_ok:
  assumes g: "good enums fields roots rec" and m: "matrix_ok enums fields roots rows (\<tau> # ts)"
    and or: "no_or rows"
  shows "(\<And>c arity. (c, arity) \<in> set sig \<Longrightarrow> \<exists>tys. ctor_of enums fields rows \<tau> c arity tys) \<Longrightarrow>
    (\<And>M. M \<in> set covered \<Longrightarrow> shown rec M \<and> (\<forall>row \<in> set M. \<forall>r \<in> set row. valid roots r)) \<Longrightarrow>
    ctors_ok enums fields rows \<tau> ts sig (fst (search_ctors rec rows (Suc (length ts)) sig covered cells))"
proof (induction sig arbitrary: covered cells)
  case (Cons s sig)
  obtain c arity where s: "s = (c, arity)" by (cases s)
  with Cons.prems(1) obtain tys where c: "ctor_of enums fields rows \<tau> c arity tys" by auto
  let ?rows = "specialize rows c arity"
  have len: "length tys = arity" using c by (simp add: ctor_of_def)
  have spec: "matrix_ok enums fields roots ?rows (tys @ ts)" by (rule specialize_matrix [OF m c])
  note here = ctor_covered [OF m or c]
  have IH: "ctors_ok enums fields rows \<tau> ts sig (fst (search_ctors rec rows (Suc (length ts)) sig cov cs))"
    if "\<And>M. M \<in> set cov \<Longrightarrow> shown rec M \<and> (\<forall>row \<in> set M. \<forall>r \<in> set row. valid roots r)" for cov cs
    using Cons.IH Cons.prems(1) that by simp
  show ?case
  proof (cases "\<exists>done \<in> set covered. same_rows done ?rows")
    case True
    then obtain M where M: "M \<in> set covered" "same_rows M ?rows" by blast
    then have "M = ?rows"
      using same_rows_eq [of M roots ?rows] Cons.prems(2) spec by (auto simp: matrix_ok_def)
    with M Cons.prems(2) have "covered_all enums fields ?rows (tys @ ts)"
      using shown_covered [OF g _ spec] by blast
    then show ?thesis
      using ctors_ok_Cons [OF IH [OF Cons.prems(2)] here] True s by simp
  next
    case False
    obtain ans cells1 where r: "rec ?rows (arity + length ts) cells = (ans, cells1)" by fastforce
    have ok: "answer_ok enums fields ?rows (tys @ ts) ans"
      using goodD [OF g spec, of "arity + length ts" cells] len r by simp
    consider u where "ans = Inl u" | "ans = Inr None" | ws where "ans = Inr (Some ws)"
      by (metis not_None_eq sum.exhaust)
    then show ?thesis
    proof cases
      case 1
      then show ?thesis using s False r by (simp add: Let_def ctors_ok_def)
    next
      case 2
      then have cov: "covered_all enums fields ?rows (tys @ ts)" using ok by (simp add: answer_ok_def)
      have "?rows \<noteq> []" using g r 2 unfolding good_def by (metis fst_conv)
      moreover have "\<forall>row \<in> set ?rows. length row = arity + length ts"
        using spec len by (auto simp: matrix_ok_def dest!: list_all2_lengthD bspec)
      ultimately have "shown rec ?rows" using r 2 unfolding shown_def by (metis fst_conv)
      then have "M \<in> set (covered @ [?rows]) \<Longrightarrow> shown rec M \<and> (\<forall>row \<in> set M. \<forall>r \<in> set row. valid roots r)" for M
        using Cons.prems(2) spec by (auto simp: matrix_ok_def)
      then have "ctors_ok enums fields rows \<tau> ts sig
          (fst (search_ctors rec rows (Suc (length ts)) sig (covered @ [?rows]) cells1))"
        by (rule IH)
      then show ?thesis
        using ctors_ok_Cons [OF _ here [OF cov]] s False r 2
        by (simp add: Let_def)
    next
      case (3 ws)
      then have "missed enums fields rows (\<tau> # ts) (W_Ctor c (take arity ws) # drop arity ws)"
        using missed_ctor [OF m or c] ok by (simp add: answer_ok_def)
      then show ?thesis using s False r 3 by (simp add: Let_def with_first_def ctors_ok_def)
    qed
  qed
qed (simp add: ctors_ok_def)

section \<open>The constructors of a type\<close>

lemma tuple_arity_fold:
  assumes "\<forall>row \<in> set rows. \<forall>args. snd (hd row) = Ctor Tuple args \<longrightarrow> length args = k"
  shows "fold (\<lambda>row n. case snd (hd row) of Ctor Tuple args \<Rightarrow> max n (length args) | _ \<Rightarrow> n) rows n =
    (if \<exists>row \<in> set rows. \<exists>args. snd (hd row) = Ctor Tuple args then max n k else n)"
  using assms by (induction rows arbitrary: n) (auto split: pat.splits ctor_id.splits)

lemma add_names_set:
  "set (fold (\<lambda>name names. if name \<in> set names then names else names @ [name]) xs names) =
    set names \<union> set xs"
  by (induction xs arbitrary: names) auto

lemma record_names_set:
  "set (record_names rows) =
    \<Union> {set names |names. \<exists>row \<in> set rows. \<exists>args. snd (hd row) = Ctor (Record names) args}"
proof -
  have "set (fold (\<lambda>row names. case snd (hd row) of
         Ctor (Record row_names) _ \<Rightarrow>
           fold (\<lambda>name names. if name \<in> set names then names else names @ [name]) row_names names
       | _ \<Rightarrow> names) rows acc) =
    set acc \<union> \<Union> {set names |names. \<exists>row \<in> set rows. \<exists>args. snd (hd row) = Ctor (Record names) args}" for acc
  proof (induction rows arbitrary: acc)
    case (Cons row rows)
    show ?case by (auto simp: Cons.IH add_names_set split: pat.splits ctor_id.splits)
  qed simp
  then show ?thesis by (simp add: record_names_def)
qed

lemma head_ty:
  assumes "matrix_ok enums fields roots rows (\<tau> # ts)" and "row \<in> set rows" and "snd (hd row) = Ctor c args"
  shows "\<exists>tys. ctor_tys enums fields c \<tau> = Some tys \<and> length args = length tys \<and> names_ok c"
proof -
  obtain p q rest where "row = (p, q) # rest" "pat_ty enums fields q \<tau>"
    using matrix_row [OF assms(1,2)] by metis
  with assms(3) show ?thesis by (auto split: option.splits dest: list_all2_lengthD)
qed

lemma distinct_record_names: "distinct (record_names rows)"
proof -
  have names: "distinct (fold (\<lambda>name names. if name \<in> set names then names else names @ [name]) ns acc)"
    if "distinct acc" for ns acc :: "symbol list"
    using that by (induction ns arbitrary: acc) auto
  have "distinct (fold (\<lambda>row names. case snd (hd row) of
         Ctor (Record row_names) _ \<Rightarrow>
           fold (\<lambda>name names. if name \<in> set names then names else names @ [name]) row_names names
       | _ \<Rightarrow> names) rows acc)" if "distinct acc" for rows :: "row list" and acc
    using that by (induction rows arbitrary: acc) (auto simp: names split: pat.splits ctor_id.splits)
  then show ?thesis by (simp add: record_names_def)
qed

lemma signature_known:
  assumes "matrix_ok enums fields roots rows (\<tau> # ts)" and "row \<in> set rows" and "snd (hd row) = Ctor c args"
  shows "\<exists>sig. signature enums c rows = Some sig"
proof (cases c)
  case (Variant t i)
  then have "enums t \<noteq> None"
    using head_ty [OF assms] by (cases \<tau>) (auto simp: is_variant_def split: if_splits option.splits)
  with Variant show ?thesis by auto
qed (auto simp: Let_def)

lemma signature_ctors:
  assumes m: "matrix_ok enums fields roots rows (\<tau> # ts)" and row: "row \<in> set rows" "snd (hd row) = Ctor c args"
    and f: "fields_ok enums fields" and sig: "signature enums c rows = Some sig" and c': "(c', arity) \<in> set sig"
  shows "\<exists>tys. ctor_of enums fields rows \<tau> c' arity tys"
proof -
  obtain tys where tys: "ctor_tys enums fields c \<tau> = Some tys" "length args = length tys"
    using head_ty [OF m row] by auto
  show ?thesis
  proof (cases c)
    case Tuple
    then have t: "\<tau> = T_Tuple tys" using tys by (cases \<tau>) auto
    then have "length as = length tys" if "r \<in> set rows" "snd (hd r) = Ctor Tuple as" for r as
      using head_ty [OF m that] by auto
    then have "tuple_arity rows = length tys"
      using tuple_arity_fold [of rows "length tys" 0] row Tuple by (auto simp: tuple_arity_def)
    then show ?thesis using Tuple sig c' t by (auto simp: ctor_of_def)
  next
    case (Record names)
    then obtain fts where t: "\<tau> = T_Record fts" using tys by (cases \<tau>) auto
    have "map_of fts n \<noteq> None" if n: "n \<in> set (record_names rows)" for n
    proof -
      from n obtain ns r as where "n \<in> set ns" "r \<in> set rows" "snd (hd r) = Ctor (Record ns) as"
        by (auto simp: record_names_set)
      then show ?thesis using head_ty [OF m, of r "Record ns" as] t by (auto split: if_splits)
    qed
    then have "ctor_of enums fields rows \<tau> (Record (record_names rows)) (length (record_names rows))
        (map (\<lambda>n. the (map_of fts n)) (record_names rows))"
      using t distinct_record_names [of rows] by (auto simp: ctor_of_def record_names_set)
    then show ?thesis using Record sig c' by (auto simp: Let_def)
  next
    case (Variant t i)
    then obtain tas where \<tau>: "\<tau> = T_Enum t tas" using tys by (cases \<tau>) (auto split: if_splits)
    obtain info where info: "enums t = Some info" using sig Variant by auto
    then obtain j name where j: "c' = Variant t j" "(j, name, arity) \<in> set (distinct_variants info)"
      using sig c' Variant by auto
    have "is_variant enums t j" using info j(2) by (simp add: is_variant_def in_distinct_variants)
    moreover from this have "length (fields t tas j) = arity"
      using f info j(2) by (simp add: fields_ok_def in_distinct_variants)
    ultimately show ?thesis using \<tau> j(1) by (auto simp: ctor_of_def)
  qed (use tys sig c' in \<open>(cases \<tau>; auto simp: ctor_of_def)+\<close>)
qed

lemma record_dom:
  assumes "has_ty enums fields (V_Record m) (T_Record fts)" and "map_of fts n \<noteq> None"
  shows "map_of m n \<noteq> None"
proof -
  have "list_all2 (\<lambda>f ft. fst f = fst ft \<and> has_ty enums fields (snd f) (snd ft)) m fts"
    using assms(1) by simp
  then show ?thesis using assms(2) by (induction rule: list_all2_induct) (auto split: if_splits)
qed

text \<open>Every value of the type was built with one of the constructors.\<close>

lemma signature_complete:
  assumes m: "matrix_ok enums fields roots rows (\<tau> # ts)" and row: "row \<in> set rows" "snd (hd row) = Ctor c args"
    and sig: "signature enums c rows = Some sig" and v: "has_ty enums fields v \<tau>"
  shows "\<exists>c' arity. (c', arity) \<in> set sig \<and> built c' v \<noteq> None"
proof -
  obtain tys where tys: "ctor_tys enums fields c \<tau> = Some tys"
    using head_ty [OF m row] by auto
  show ?thesis
  proof (cases c)
    case (Record names)
    then obtain fts where t: "\<tau> = T_Record fts" using tys by (cases \<tau>) auto
    then obtain fs where fs: "v = V_Record fs" using v by (cases v) auto
    have "map_of fs n \<noteq> None" if n: "n \<in> set (record_names rows)" for n
    proof -
      from n obtain ns r as where "n \<in> set ns" "r \<in> set rows" "snd (hd r) = Ctor (Record ns) as"
        by (auto simp: record_names_set)
      then have "map_of fts n \<noteq> None"
        using head_ty [OF m, of r "Record ns" as] t by (auto split: if_splits)
      then show ?thesis using record_dom v t fs by blast
    qed
    then show ?thesis using Record sig fs by (auto simp: Let_def)
  next
    case (Variant t i)
    then obtain tas where \<tau>: "\<tau> = T_Enum t tas" using tys by (cases \<tau>) (auto split: if_splits)
    then obtain j fs where vj: "v = V_Variant t j fs" "is_variant enums t j" using v by (cases v) auto
    then obtain info where info: "enums t = Some info" "j < length info" "fst (info ! j) \<notin> fst ` set (take j info)"
      by (auto simp: is_variant_def split: option.splits)
    then obtain x where "enums t = Some info" "(j, x) \<in> set (distinct_variants info)"
      using in_distinct_variants [of j "fst (info ! j)" "snd (info ! j)" info] by auto
    then show ?thesis using sig Variant vj by (cases x) force
  next
    case Tuple
    then have "\<exists>vs. v = V_Tuple vs" using tys v by (cases \<tau>; cases v) simp_all
    then show ?thesis using sig Tuple by auto
  next
    case (Bool_Ctor b)
    then have "\<exists>b'. v = V_Bool b'" using tys v by (cases \<tau>; cases v) simp_all
    then obtain b' where "v = V_Bool b'" by blast
    then have "(Bool_Ctor b', 0) \<in> set sig \<and> built (Bool_Ctor b') v \<noteq> None"
      using sig Bool_Ctor by (cases b') auto
    then show ?thesis by blast
  next
    case Nil_Ctor
    then have "v = V_Nil \<or> (\<exists>x xs. v = V_Cons x xs)" using tys v by (cases \<tau>; cases v) simp_all
    then have "(Nil_Ctor, 0) \<in> set sig \<and> built Nil_Ctor v \<noteq> None \<or>
        (Cons_Ctor, 2) \<in> set sig \<and> built Cons_Ctor v \<noteq> None" using sig Nil_Ctor by auto
    then show ?thesis by blast
  next
    case Cons_Ctor
    then have "v = V_Nil \<or> (\<exists>x xs. v = V_Cons x xs)" using tys v by (cases \<tau>; cases v) simp_all
    then have "(Nil_Ctor, 0) \<in> set sig \<and> built Nil_Ctor v \<noteq> None \<or>
        (Cons_Ctor, 2) \<in> set sig \<and> built Cons_Ctor v \<noteq> None" using sig Cons_Ctor by auto
    then show ?thesis by blast
  qed
qed

end
