(* ===== verification/Exhaustiveness_Sound.thy ===== *)
theory Exhaustiveness_Sound
  imports Exhaustiveness_Proofs
begin

text \<open>
  The search of \<open>Exhaustiveness\<close> is sound: the integer column, the column that is looked at
  first, one level of the search, and the questions of the type checker. A level relies on the
  next one only through \<open>good\<close>, so that the result is an induction over the levels left.
\<close>

section \<open>Ranges\<close>

abbreviation in_range :: "int \<Rightarrow> int \<times> int \<Rightarrow> bool" where
  "in_range n r \<equiv> fst r \<le> n \<and> n \<le> snd r"

lemma set_insert_range [simp]: "set (insert_range r rs) = insert r (set rs)"
  by (induction rs) auto

lemma set_sort_ranges [simp]: "set (sort_ranges rs) = set rs"
  by (induction rs) (auto simp: sort_ranges_def)

lemma sorted_insert_range: "sorted (map fst rs) \<Longrightarrow> sorted (map fst (insert_range r rs))"
  by (induction rs) auto

lemma sorted_sort_ranges: "sorted (map fst (sort_ranges rs))"
  by (induction rs) (auto simp: sort_ranges_def sorted_insert_range)

lemma first_gap_ge: "n \<le> first_gap rs n"
  by (induction rs n rule: first_gap.induct) (auto intro: order_trans [OF max.cobounded1])

lemma first_gap_outside:
  assumes "sorted (map fst rs)" and "r \<in> set rs"
  shows "\<not> in_range (first_gap rs n) r"
  using assms
proof (induction rs n rule: first_gap.induct)
  case (2 lo hi rs n)
  show ?case
  proof (cases "n < lo")
    case True
    then show ?thesis using 2 by force
  next
    case False
    then have "\<not> in_range (first_gap rs (max n (hi + 1))) (lo, hi)" using first_gap_ge [of "max n (hi + 1)" rs] by auto
    moreover have "\<not> in_range (first_gap rs (max n (hi + 1))) r" if "r \<in> set rs"
      using 2 False that by auto
    ultimately show ?thesis using 2 False by auto
  qed
qed simp

lemma first_gap_below:
  assumes "n \<le> x" and "x < first_gap rs n"
  shows "\<exists>r \<in> set rs. in_range x r"
  using assms
proof (induction rs n rule: first_gap.induct)
  case (2 lo hi rs n)
  then have "\<not> n < lo" by auto
  with 2 show ?case by (cases "x \<le> hi") (auto simp: max_def split: if_splits)
qed simp

text \<open>The nearest integer above, and the nearest below.\<close>

lemma outside_up:
  assumes "sorted (map fst rs)"
  defines "up \<equiv> \<lambda>n. fold (\<lambda>(lo, hi) up. if lo \<le> up \<and> up \<le> hi then hi + 1 else up) rs n"
  shows "\<forall>r \<in> set rs. \<not> in_range (up n) r" and "n \<le> up n"
    and "\<forall>x. n \<le> x \<and> x < up n \<longrightarrow> (\<exists>r \<in> set rs. in_range x r)"
proof -
  have "(\<forall>r \<in> set rs. \<not> in_range (up n) r) \<and> n \<le> up n \<and>
      (\<forall>x. n \<le> x \<and> x < up n \<longrightarrow> (\<exists>r \<in> set rs. in_range x r))"
    using assms(1) unfolding up_def
  proof (induction rs arbitrary: n)
    case (Cons r rs)
    obtain lo hi where r: "r = (lo, hi)" by (cases r)
    let ?n = "if lo \<le> n \<and> n \<le> hi then hi + 1 else n"
    let ?up = "fold (\<lambda>(lo, hi) up. if lo \<le> up \<and> up \<le> hi then hi + 1 else up) rs"
    have IH: "\<forall>r \<in> set rs. \<not> in_range (?up ?n) r" "?n \<le> ?up ?n"
      "\<forall>x. ?n \<le> x \<and> x < ?up ?n \<longrightarrow> (\<exists>r \<in> set rs. in_range x r)"
      using Cons.IH [of ?n] Cons.prems by simp_all
    have stay: "fold (\<lambda>(lo, hi) up. if lo \<le> up \<and> up \<le> hi then hi + 1 else up) xs m = m"
      if "\<forall>r \<in> set xs. m < fst r" for m and xs :: "(int \<times> int) list"
      using that by (induction xs) auto
    have "\<not> in_range (?up ?n) r"
    proof (cases "n < lo")
      case True
      then have "\<forall>r \<in> set rs. n < fst r" using Cons.prems r by (fastforce)
      then show ?thesis using stay [of rs n] True r by simp
    next
      case False
      then show ?thesis using IH(2) r by (auto split: if_splits)
    qed
    moreover have "\<exists>r' \<in> set (r # rs). in_range x r'" if "n \<le> x" "x < ?up ?n" for x
      using that IH(3) r by (cases "?n \<le> x") (auto split: if_splits)
    ultimately show ?case using IH(1,2) r by (auto split: if_splits)
  qed simp
  then show "\<forall>r \<in> set rs. \<not> in_range (up n) r" and "n \<le> up n"
    and "\<forall>x. n \<le> x \<and> x < up n \<longrightarrow> (\<exists>r \<in> set rs. in_range x r)" by simp_all
qed

lemma outside_down:
  assumes "sorted_wrt (\<ge>) (map fst rs)"
  defines "down \<equiv> \<lambda>n. fold (\<lambda>(lo, hi) down. if lo \<le> down \<and> down \<le> hi then lo - 1 else down) rs n"
  shows "\<forall>r \<in> set rs. \<not> in_range (down n) r" and "down n \<le> n"
    and "\<forall>x. down n < x \<and> x \<le> n \<longrightarrow> (\<exists>r \<in> set rs. in_range x r)"
proof -
  have "(\<forall>r \<in> set rs. \<not> in_range (down n) r) \<and> down n \<le> n \<and> (down n = n \<or> (\<exists>r \<in> set rs. down n < fst r)) \<and>
      (\<forall>x. down n < x \<and> x \<le> n \<longrightarrow> (\<exists>r \<in> set rs. in_range x r))"
    using assms(1) unfolding down_def
  proof (induction rs arbitrary: n)
    case (Cons r rs)
    obtain lo hi where r: "r = (lo, hi)" by (cases r)
    let ?n = "if lo \<le> n \<and> n \<le> hi then lo - 1 else n"
    let ?d = "fold (\<lambda>(lo, hi) down. if lo \<le> down \<and> down \<le> hi then lo - 1 else down) rs ?n"
    have IH: "\<forall>r \<in> set rs. \<not> in_range ?d r" "?d \<le> ?n" "?d = ?n \<or> (\<exists>r \<in> set rs. ?d < fst r)"
      "\<forall>x. ?d < x \<and> x \<le> ?n \<longrightarrow> (\<exists>r \<in> set rs. in_range x r)"
      using Cons.IH [of ?n] Cons.prems by simp_all
    have below: "\<exists>r \<in> set rs. ?d < fst r \<Longrightarrow> ?d < lo" using Cons.prems r by fastforce
    have "?d = ?n \<or> ?d < lo" using IH(3) below by blast
    then have "\<not> in_range ?d r" using IH(2) r by (auto split: if_splits)
    moreover have "?d = n \<or> (\<exists>r \<in> set (r # rs). ?d < fst r)" using IH(2,3) r by (auto split: if_splits)
    moreover have "\<exists>r' \<in> set (r # rs). in_range x r'" if "?d < x" "x \<le> n" for x
      using that IH(4) r by (cases "x \<le> ?n") (auto split: if_splits)
    ultimately show ?case using IH(1,2) r by (auto split: if_splits)
  qed simp
  then show "\<forall>r \<in> set rs. \<not> in_range (down n) r" and "down n \<le> n"
    and "\<forall>x. down n < x \<and> x \<le> n \<longrightarrow> (\<exists>r \<in> set rs. in_range x r)" by simp_all
qed

text \<open>When some integer is left out, \<open>outside\<close> is one that is, so the code's cast to
  \<^verbatim>\<open>i64\<close> does not change it.\<close>

lemma outside_left_out:
  assumes s: "sorted (map fst rs)"
  shows "\<forall>r \<in> set rs. \<not> in_range (outside rs) r"
    and "I64_MIN \<le> g \<Longrightarrow> g \<le> I64_MAX \<Longrightarrow> \<forall>r \<in> set rs. \<not> in_range g r \<Longrightarrow>
      I64_MIN \<le> outside rs \<and> outside rs \<le> I64_MAX"
proof -
  note up = outside_up [OF s, of 0]
  have "sorted_wrt (\<ge>) (map fst (rev rs))" using s by (simp add: rev_map [symmetric] sorted_wrt_rev)
  note down = outside_down [OF this, of "-1"]
  show "\<forall>r \<in> set rs. \<not> in_range (outside rs) r"
    using up(1) down(1) by (simp add: outside_def Let_def)
  assume g: "I64_MIN \<le> g" "g \<le> I64_MAX" "\<forall>r \<in> set rs. \<not> in_range g r"
  show "I64_MIN \<le> outside rs \<and> outside rs \<le> I64_MAX"
  proof (cases "fold (\<lambda>(lo, hi) up. if lo \<le> up \<and> up \<le> hi then hi + 1 else up) rs 0 \<le> I64_MAX")
    case True
    then show ?thesis using up(2) by (simp add: outside_def Let_def I64_MIN_def)
  next
    case False
    then have "g < 0" using up(3) g by (meson le_less_trans linorder_not_less)
    moreover have "\<not> outside rs < g"
      using down(3) g False \<open>g < 0\<close> by (auto simp: outside_def Let_def)
    ultimately show ?thesis
      using down(2) g False by (auto simp: outside_def Let_def I64_MAX_def)
  qed
qed

text \<open>Two cuts next to each other: no range begins or ends between them.\<close>

lemma zip_tl_nth:
  "(x, y) \<in> set (zip cs (tl cs)) \<longleftrightarrow> (\<exists>i. Suc i < length cs \<and> x = cs ! i \<and> y = cs ! Suc i)"
proof
  assume "(x, y) \<in> set (zip cs (tl cs))"
  then obtain i where "i < length cs - 1" "x = cs ! i" "y = tl cs ! i" by (auto simp: set_zip)
  then show "\<exists>i. Suc i < length cs \<and> x = cs ! i \<and> y = cs ! Suc i"
    by (intro exI [of _ i]) (simp add: nth_tl)
next
  assume "\<exists>i. Suc i < length cs \<and> x = cs ! i \<and> y = cs ! Suc i"
  then obtain i where i: "Suc i < length cs" "x = cs ! i" "y = cs ! Suc i" by blast
  then have "zip cs (tl cs) ! i = (x, y)" "i < length (zip cs (tl cs))" by (simp_all add: nth_tl)
  then show "(x, y) \<in> set (zip cs (tl cs))" by (metis nth_mem)
qed

lemma cut_between:
  assumes "sorted cs" and "a \<in> set cs" and "b \<in> set cs" and "a \<le> v" and "v < (b::int)"
  shows "\<exists>x y. (x, y) \<in> set (zip cs (tl cs)) \<and> x \<le> v \<and> v < y"
  using assms
proof (induction cs arbitrary: a)
  case (Cons c cs)
  show ?case
  proof (cases "\<exists>a' \<in> set cs. a' \<le> v")
    case True
    then obtain a' where a': "a' \<in> set cs" "a' \<le> v" by blast
    moreover have "b \<in> set cs" using Cons.prems a' by (auto simp: not_le)
    ultimately have "\<exists>x y. (x, y) \<in> set (zip cs (tl cs)) \<and> x \<le> v \<and> v < y"
      using Cons.IH [of a'] Cons.prems by simp
    then show ?thesis by (cases cs) auto
  next
    case False
    then have "a = c" "b \<in> set cs" using Cons.prems by auto
    then obtain d ds where cs: "cs = d # ds" by (cases cs) auto
    then have "(c, d) \<in> set (zip (c # cs) (tl (c # cs))) \<and> c \<le> v \<and> v < d"
      using False Cons.prems(4) \<open>a = c\<close> by auto
    then show ?thesis by blast
  qed
qed simp

lemma cut_consecutive:
  assumes "sorted (cs :: int list)" and "(x, y) \<in> set (zip cs (tl cs))" and "z \<in> set cs"
  shows "z \<le> x \<or> y \<le> z"
proof -
  obtain i where i: "Suc i < length cs" "x = cs ! i" "y = cs ! Suc i"
    using assms(2) by (auto simp: zip_tl_nth)
  obtain j where j: "j < length cs" "z = cs ! j" using assms(3) by (auto simp: in_set_conv_nth)
  show ?thesis
  proof (cases "j \<le> i")
    case True
    then show ?thesis using i j sorted_nth_mono [OF assms(1), of j i] by auto
  next
    case False
    then show ?thesis using i j sorted_nth_mono [OF assms(1), of "Suc i" j] by auto
  qed
qed

lemma set_cuts: "set (cuts rs) = (\<Union>(lo, hi) \<in> set rs. {lo, hi + 1})"
  by (auto simp: cuts_def)

lemma sorted_cuts: "sorted (cuts rs)"
  by (simp add: cuts_def sorted_remdups_adj)

lemma interval_in_range:
  assumes i: "(a, b) \<in> set (intervals (cuts rs))" and v: "a \<le> v" "v \<le> b" and r: "(lo, hi) \<in> set rs"
  shows "lo \<le> v \<and> v \<le> hi \<longleftrightarrow> lo \<le> a \<and> b \<le> hi"
proof
  obtain y where z: "(a, y) \<in> set (zip (cuts rs) (tl (cuts rs)))" "b = y - 1"
    using i by (auto simp: intervals_def)
  have "lo \<in> set (cuts rs)" "hi + 1 \<in> set (cuts rs)" using r by (auto simp: set_cuts)
  then have "lo \<le> a \<or> y \<le> lo" "hi + 1 \<le> a \<or> y \<le> hi + 1"
    using cut_consecutive [OF sorted_cuts z(1)] by auto
  then show "lo \<le> v \<and> v \<le> hi \<Longrightarrow> lo \<le> a \<and> b \<le> hi" using v z(2) by auto
qed (use v in auto)

lemma interval_of:
  assumes "(lo, hi) \<in> set rs" and "lo \<le> v" and "v \<le> hi"
  shows "\<exists>a b. (a, b) \<in> set (intervals (cuts rs)) \<and> a \<le> v \<and> v \<le> b"
proof -
  have "lo \<in> set (cuts rs)" "hi + 1 \<in> set (cuts rs)" using assms(1) by (auto simp: set_cuts)
  then obtain x y where "(x, y) \<in> set (zip (cuts rs) (tl (cuts rs)))" "x \<le> v" "v < y"
    using cut_between [OF sorted_cuts, of lo rs "hi + 1" v] assms by auto
  then have "(x, y - 1) \<in> set (intervals (cuts rs)) \<and> x \<le> v \<and> v \<le> y - 1"
    by (force simp: intervals_def)
  then show ?thesis by blast
qed

lemma clamp0_in_interval:
  assumes "(a, b) \<in> set (intervals (cuts rs))"
  shows "a \<le> clamp0 a b \<and> clamp0 a b \<le> b"
proof -
  let ?cs = "cuts rs"
  obtain y where z: "(a, y) \<in> set (zip ?cs (tl ?cs))" "b = y - 1"
    using assms by (auto simp: intervals_def)
  then obtain i where i: "Suc i < length ?cs" "?cs ! i = a" "?cs ! Suc i = y"
    by (auto simp: zip_tl_nth)
  then have "a \<noteq> y" using remdups_adj_adjacent [of i] by (auto simp: cuts_def)
  moreover have "a \<le> y" using i sorted_nth_mono [OF sorted_cuts, of i "Suc i"] by auto
  ultimately show ?thesis using z(2) by (auto simp: clamp0_def)
qed
lemma interval_bounds:
  assumes "(a, b) \<in> set (intervals (cuts rs))" and "\<And>lo hi. (lo, hi) \<in> set rs \<Longrightarrow> lo \<le> hi \<and> I64_MIN \<le> lo \<and> hi \<le> I64_MAX"
  shows "I64_MIN \<le> a \<and> b \<le> I64_MAX"
proof -
  obtain y where z: "(a, y) \<in> set (zip (cuts rs) (tl (cuts rs)))" "b = y - 1"
    using assms(1) by (auto simp: intervals_def)
  then have "a \<in> set (cuts rs)" "y \<in> set (cuts rs)"
    using set_zip_leftD [OF z(1)] list.set_sel(2) set_zip_rightD [OF z(1)] by (metis list.sel(2))+
  moreover have "I64_MIN \<le> x \<and> x \<le> I64_MAX + 1" if "x \<in> set (cuts rs)" for x
    using that assms(2) by (fastforce simp: set_cuts)
  ultimately show ?thesis using z(2) by fastforce
qed

section \<open>Rows that do not test the column\<close>

lemma default_matrix:
  "matrix_ok enums fields roots rows (\<tau> # ts) \<Longrightarrow> matrix_ok enums fields roots (default_rows rows) ts"
  by (auto simp: matrix_ok_def default_rows_def list_all2_Cons2)

lemma default_matched_if:
  assumes "matrix_ok enums fields roots rows (\<tau> # ts)" and "matched (default_rows rows) vs"
  shows "matched rows (v # vs)"
proof -
  obtain row where row: "row \<in> set rows" "snd (hd row) = Wild" "row_matches (tl row) vs"
    using assms(2) by (auto simp: matched_def default_rows_def)
  obtain p q rest where "row = (p, q) # rest" using matrix_row [OF assms(1) row(1)] by metis
  then have "row_matches row (v # vs)" using row(2,3) by simp
  then show ?thesis using row(1) by (auto simp: matched_def)
qed

lemma default_matched_only:
  assumes "matched rows (v # vs)" and "\<forall>row \<in> set rows. snd (hd row) \<noteq> Wild \<longrightarrow> \<not> matches (snd (hd row)) v"
  shows "matched (default_rows rows) vs"
proof -
  obtain row where row: "row \<in> set rows" "row_matches row (v # vs)" using assms(1) by (auto simp: matched_def)
  then obtain p rest where r: "row = p # rest" "matches (snd p) v" "row_matches rest vs"
    by (auto simp: list_all2_Cons2)
  then have "snd p = Wild" using assms(2) row(1) by force
  then show ?thesis using r row(1) by (force simp: matched_def default_rows_def)
qed

text \<open>The answer for the rows that do not test the column, with \<open>w\<close> in front: it is the answer
  when no other row matches a value that conforms to \<open>w\<close>.\<close>

lemma default_answer:
  assumes g: "good enums fields roots rec" and m: "matrix_ok enums fields roots rows (\<tau> # ts)"
    and w: "\<And>v row. has_ty enums fields v \<tau> \<Longrightarrow> conforms w v \<Longrightarrow> row \<in> set rows \<Longrightarrow> snd (hd row) \<noteq> Wild \<Longrightarrow>
      \<not> matches (snd (hd row)) v"
    and wt: "wit_ty enums fields w \<tau>"
  shows "answer_ok enums fields rows (\<tau> # ts)
    (fst (map_found (with_first w) (rec (default_rows rows) (length ts) cells)))"
proof -
  obtain ans cells1 where r: "rec (default_rows rows) (length ts) cells = (ans, cells1)" by fastforce
  have ok: "answer_ok enums fields (default_rows rows) ts ans"
    using goodD [OF g default_matrix [OF m], of "length ts" cells] r by simp
  show ?thesis
  proof (cases ans)
    case (Inr found)
    show ?thesis
    proof (cases found)
      case None
      then have "covered_all enums fields (default_rows rows) ts" using ok Inr by (simp add: answer_ok_def)
      then have "covered_all enums fields rows (\<tau> # ts)"
        using default_matched_if [OF m] by (auto simp: covered_all_def list_all2_Cons2)
      then show ?thesis using r Inr None by (simp add: answer_ok_def)
    next
      case (Some ws)
      then have miss: "missed enums fields (default_rows rows) ts ws" using ok Inr by (simp add: answer_ok_def)
      have "\<not> matched rows (v # vs)" if "has_ty enums fields v \<tau>" "list_all2 (has_ty enums fields) vs ts"
        "conforms w v" "list_all2 conforms ws vs" for v vs
        using default_matched_only [of rows v vs] w [OF that(1,3)] miss that(2,4) by (auto simp: missed_def)
      then have "missed enums fields rows (\<tau> # ts) (w # ws)"
        using miss wt by (auto simp: missed_def list_all2_Cons1 list_all2_Cons2)
      then show ?thesis using r Inr Some by (simp add: answer_ok_def with_first_def)
    qed
  qed (simp add: r)
qed

section \<open>An integer column\<close>

lemma int_ranges_set:
  "(lo, hi) \<in> set (int_ranges rows) \<longleftrightarrow> lo \<le> hi \<and> (\<exists>row \<in> set rows. snd (hd row) = IntRange lo hi)"
proof -
  have "(case p of IntRange lo' hi' \<Rightarrow> if lo' \<le> hi' then Some (lo', hi') else None | _ \<Rightarrow> None) =
      Some (lo, hi) \<longleftrightarrow> lo \<le> hi \<and> p = IntRange lo hi" for p
    by (cases p) auto
  then show ?thesis by (auto simp: int_ranges_def set_map_filter)
qed

text \<open>The first patterns of an integer column.\<close>

lemma int_heads:
  assumes "matrix_ok enums fields roots rows (T_Int # ts)" and "no_or rows" and "row \<in> set rows"
  shows "snd (hd row) = Wild \<or> snd (hd row) = Lit \<or> (\<exists>lo hi. snd (hd row) = IntRange lo hi)"
proof -
  obtain p q rest where "row = (p, q) # rest" "pat_ty enums fields q T_Int"
    using matrix_row [OF assms(1,3)] by metis
  moreover have "ctor_tys enums fields c T_Int = None" for c by (cases c) simp_all
  ultimately show ?thesis using assms(2,3) by (cases q) (auto simp: no_or_def)
qed

lemma int_range_bounds:
  assumes "matrix_ok enums fields roots rows (T_Int # ts)" and "(lo, hi) \<in> set (int_ranges rows)"
  shows "lo \<le> hi \<and> I64_MIN \<le> lo \<and> hi \<le> I64_MAX"
proof -
  obtain row where row: "row \<in> set rows" "snd (hd row) = IntRange lo hi" "lo \<le> hi"
    using assms(2) by (auto simp: int_ranges_set)
  obtain p q rest where "row = (p, q) # rest" "pat_ty enums fields q T_Int" using matrix_row [OF assms(1) row(1)] by metis
  then show ?thesis using row by simp
qed

lemma interval_matrix:
  "matrix_ok enums fields roots rows (\<tau> # ts) \<Longrightarrow> matrix_ok enums fields roots (interval_rows rows a b) ts"
  by (auto simp: matrix_ok_def interval_rows_def list_all2_Cons2)

lemma interval_matched:
  assumes m: "matrix_ok enums fields roots rows (T_Int # ts)" and or: "no_or rows"
    and i: "(a, b) \<in> set (intervals (cuts (sort_ranges (int_ranges rows))))" and n: "a \<le> n" "n \<le> b"
  shows "matched rows (V_Int n # vs) \<longleftrightarrow> matched (interval_rows rows a b) vs"
proof -
  have "matches (snd (hd row)) (V_Int n) \<longleftrightarrow> snd (hd row) = Wild \<or> holds_interval (snd (hd row)) a b"
    if row: "row \<in> set rows" for row
  proof (cases "\<exists>lo hi. snd (hd row) = IntRange lo hi")
    case True
    then obtain lo hi where r: "snd (hd row) = IntRange lo hi" by blast
    show ?thesis
    proof (cases "lo \<le> hi")
      case True
      then have "(lo, hi) \<in> set (sort_ranges (int_ranges rows))" using r row by (auto simp: int_ranges_set)
      then show ?thesis using interval_in_range [OF i n] r by (simp add: holds_interval_def)
    next
      case False
      then show ?thesis using r n by (auto simp: holds_interval_def)
    qed
  next
    case False
    then show ?thesis using int_heads [OF m or row] by (auto simp: holds_interval_def)
  qed
  moreover have "row_matches row (V_Int n # vs) \<longleftrightarrow> matches (snd (hd row)) (V_Int n) \<and> row_matches (tl row) vs"
    if "row \<in> set rows" for row using matrix_row [OF m that] by (metis list.sel(1,3) list_all2_Cons)
  ultimately show ?thesis by (auto simp: matched_def interval_rows_def)
qed

definition intervals_ok ::
  "enums \<Rightarrow> fields \<Rightarrow> row list \<Rightarrow> ty list \<Rightarrow> (int \<times> int) list \<Rightarrow> unverified + witness list option \<Rightarrow> bool"
where
  "intervals_ok enums fields rows ts is ans \<longleftrightarrow>
     (ans = Inr None \<longrightarrow> (\<forall>a b n vs. (a, b) \<in> set is \<longrightarrow> a \<le> n \<longrightarrow> n \<le> b \<longrightarrow>
        list_all2 (has_ty enums fields) vs ts \<longrightarrow> matched rows (V_Int n # vs))) \<and>
     (\<forall>ws. ans = Inr (Some ws) \<longrightarrow> missed enums fields rows (T_Int # ts) ws)"

lemma search_intervals_ok:
  assumes g: "good enums fields roots rec" and m: "matrix_ok enums fields roots rows (T_Int # ts)"
    and or: "no_or rows"
  shows "set is \<subseteq> set (intervals (cuts (sort_ranges (int_ranges rows)))) \<Longrightarrow>
    intervals_ok enums fields rows ts is (fst (search_intervals rec rows (Suc (length ts)) is cells))"
proof (induction "is" arbitrary: cells)
  case (Cons i "is")
  obtain a b where i: "i = (a, b)" by (cases i)
  then have ab: "(a, b) \<in> set (intervals (cuts (sort_ranges (int_ranges rows))))" using Cons.prems by simp
  note here = interval_matched [OF m or ab]
  obtain ans cells1 where r: "rec (interval_rows rows a b) (length ts) cells = (ans, cells1)" by fastforce
  have ok: "answer_ok enums fields (interval_rows rows a b) ts ans"
    using goodD [OF g interval_matrix [OF m], of "length ts" a b cells] r by simp
  consider u where "ans = Inl u" | "ans = Inr None" | ws where "ans = Inr (Some ws)"
    by (metis not_None_eq sum.exhaust)
  then show ?case
  proof cases
    case 1
    then show ?thesis using i r by (simp add: intervals_ok_def)
  next
    case 2
    then have "matched rows (V_Int n # vs)" if "a \<le> n" "n \<le> b" "list_all2 (has_ty enums fields) vs ts" for n vs
      using ok here [OF that(1,2)] that(3) by (simp add: answer_ok_def covered_all_def)
    moreover have "intervals_ok enums fields rows ts is
        (fst (search_intervals rec rows (Suc (length ts)) is cells1))"
      using Cons by simp
    ultimately show ?thesis using i r 2 by (auto simp: intervals_ok_def)
  next
    case (3 ws)
    then have miss: "missed enums fields (interval_rows rows a b) ts ws" using ok by (simp add: answer_ok_def)
    then have "missed enums fields rows (T_Int # ts) (W_Int (clamp0 a b) # ws)"
      using here [of "clamp0 a b"] clamp0_in_interval [OF ab] interval_bounds [OF ab] int_range_bounds [OF m]
      by (fastforce simp: missed_def list_all2_Cons1 list_all2_Cons2)
    then show ?thesis using i r 3 by (simp add: intervals_ok_def with_first_def)
  qed
qed (simp add: intervals_ok_def)

lemma int_column_ok:
  assumes g: "good enums fields roots rec" and m: "matrix_ok enums fields roots rows (T_Int # ts)"
    and or: "no_or rows"
  shows "answer_ok enums fields rows (T_Int # ts) (fst (uncovered_int_column rec rows (Suc (length ts)) cells))"
proof (cases "first_gap (sort_ranges (int_ranges rows)) I64_MIN < I64_MAX + 1")
  case True
  let ?rs = "sort_ranges (int_ranges rows)"
  have "\<not> matches (snd (hd row)) (V_Int (outside ?rs))" if "row \<in> set rows" "snd (hd row) \<noteq> Wild" for row
  proof (cases "\<exists>lo hi. snd (hd row) = IntRange lo hi")
    case True
    then obtain lo hi where r: "snd (hd row) = IntRange lo hi" by blast
    then have "lo \<le> hi \<Longrightarrow> (lo, hi) \<in> set ?rs" using that(1) by (auto simp: int_ranges_set)
    then show ?thesis using outside_left_out(1) [OF sorted_sort_ranges, of "int_ranges rows"] r by fastforce
  next
    case False
    then show ?thesis using int_heads [OF m or that(1)] that(2) by auto
  qed
  moreover have "I64_MIN \<le> outside ?rs \<and> outside ?rs \<le> I64_MAX"
  proof (rule outside_left_out(2) [OF sorted_sort_ranges, of "first_gap ?rs I64_MIN"])
    show "\<forall>r \<in> set ?rs. \<not> in_range (first_gap ?rs I64_MIN) r"
      using first_gap_outside [OF sorted_sort_ranges] by blast
    show "I64_MIN \<le> first_gap ?rs I64_MIN" by (rule first_gap_ge)
  qed (use True in simp)
  ultimately show ?thesis
    using default_answer [OF g m, of "W_Int (outside ?rs)" cells] True
    by (auto simp: uncovered_int_column_def Let_def)
next
  case False
  let ?rs = "sort_ranges (int_ranges rows)"
  let ?ans = "search_intervals rec rows (Suc (length ts)) (intervals (cuts ?rs)) cells"
  have ok: "intervals_ok enums fields rows ts (intervals (cuts ?rs)) (fst ?ans)"
    by (rule search_intervals_ok [OF g m or subset_refl])
  have "covered_all enums fields rows (T_Int # ts)" if none: "fst ?ans = Inr None"
    unfolding covered_all_def
  proof (intro allI impI)
    fix vs assume "list_all2 (has_ty enums fields) vs (T_Int # ts)"
    then obtain v vs' where vs: "vs = v # vs'" "has_ty enums fields v T_Int" "list_all2 (has_ty enums fields) vs' ts"
      by (auto simp: list_all2_Cons2)
    then obtain n where n: "v = V_Int n" "I64_MIN \<le> n" "n \<le> I64_MAX" by (cases v) auto
    then obtain lo hi where "(lo, hi) \<in> set ?rs" "lo \<le> n" "n \<le> hi"
      using first_gap_below [of I64_MIN n ?rs] False by auto
    then obtain a b where "(a, b) \<in> set (intervals (cuts ?rs))" "a \<le> n" "n \<le> b"
      using interval_of by blast
    then show "matched rows vs" using ok none vs n(1) by (auto simp: intervals_ok_def)
  qed
  then show ?thesis
    using ok False by (simp add: uncovered_int_column_def Let_def answer_ok_def intervals_ok_def)
qed
section \<open>One level of the search\<close>

lemma find_Some_in: "find P xs = Some x \<Longrightarrow> x \<in> set xs \<and> P x"
  by (induction xs) (auto split: if_splits)

lemma untested_ok:
  assumes "good enums fields roots rec" and "matrix_ok enums fields roots rows (\<tau> # ts)"
    and "\<forall>row \<in> set rows. snd (hd row) = Wild \<or> snd (hd row) = Lit"
  shows "answer_ok enums fields rows (\<tau> # ts) (fst (untested rec rows (Suc (length ts)) cells))"
  unfolding untested_def using default_answer [OF assms(1,2), of Any cells] assms(3) by force

lemma head_test_None:
  assumes "head_test rows = None" and "no_or rows" and "row \<in> set rows"
  shows "snd (hd row) = Wild \<or> snd (hd row) = Lit"
proof -
  have "snd (hd row) \<in> set (map (snd \<circ> hd) rows)" using assms(3) by simp
  then have "\<not> (case snd (hd row) of Ctor _ _ \<Rightarrow> True | _ \<Rightarrow> False)"
    "\<not> (case snd (hd row) of IntRange _ _ \<Rightarrow> True | _ \<Rightarrow> False)"
    using assms(1) unfolding head_test_def by (auto simp: find_None_iff split: option.splits)
  then show ?thesis using assms(2,3) by (cases "snd (hd row)") (auto simp: no_or_def)
qed

lemma head_test_Some:
  assumes "head_test rows = Some p"
  shows "(\<exists>row \<in> set rows. snd (hd row) = p) \<and> ((\<exists>c args. p = Ctor c args) \<or> (\<exists>lo hi. p = IntRange lo hi))"
proof -
  have "p \<in> set (map (snd \<circ> hd) rows) \<and>
      ((case p of Ctor _ _ \<Rightarrow> True | _ \<Rightarrow> False) \<or> (case p of IntRange _ _ \<Rightarrow> True | _ \<Rightarrow> False))"
    using assms unfolding head_test_def by (auto split: option.splits dest: find_Some_in)
  then show ?thesis by (cases p) auto
qed

lemma search_column_ok:
  assumes g: "good enums fields roots rec" and f: "fields_ok enums fields"
    and m: "matrix_ok enums fields roots rows (\<tau> # ts)" and or: "no_or rows"
  shows "answer_ok enums fields rows (\<tau> # ts) (fst (search_column enums rec rows (Suc (length ts)) cells))"
proof (cases "head_test rows")
  case None
  then show ?thesis
    using untested_ok [OF g m] head_test_None [OF None or] by (simp add: search_column_def)
next
  case (Some p)
  then obtain row where row: "row \<in> set rows" "snd (hd row) = p" using head_test_Some by blast
  consider c args where "p = Ctor c args" | lo hi where "p = IntRange lo hi" using head_test_Some [OF Some] by blast
  then show ?thesis
  proof cases
    case (1 c args)
    with row have head: "snd (hd row) = Ctor c args" by simp
    obtain sig where sig: "signature enums c rows = Some sig" using signature_known [OF m row(1) head] by blast
    let ?ans = "search_ctors rec rows (Suc (length ts)) sig [] cells"
    have ok: "ctors_ok enums fields rows \<tau> ts sig (fst ?ans)"
      using search_ctors_ok [OF g m or, of sig "[]"] signature_ctors [OF m row(1) head f sig] by simp
    have "covered_all enums fields rows (\<tau> # ts)" if "fst ?ans = Inr None"
      unfolding covered_all_def
    proof (intro allI impI)
      fix vs assume vs: "list_all2 (has_ty enums fields) vs (\<tau> # ts)"
      then obtain v vs' where v: "vs = v # vs'" "has_ty enums fields v \<tau>" by (auto simp: list_all2_Cons2)
      obtain c' arity where "(c', arity) \<in> set sig" "built c' v \<noteq> None"
        using signature_complete [OF m row(1) head sig v(2)] by blast
      then show "matched rows vs" using ok that vs v(1) unfolding ctors_ok_def by blast
    qed
    then show ?thesis
      using ok Some 1 sig by (simp add: search_column_def answer_ok_def ctors_ok_def)
  next
    case (2 lo hi)
    obtain a q rest where "row = (a, q) # rest" "pat_ty enums fields q \<tau>"
      using matrix_row [OF m row(1)] by metis
    then have "\<tau> = T_Int" using row 2 by simp
    then show ?thesis using int_column_ok [OF g _ or] m Some 2 by (simp add: search_column_def)
  qed
qed

text \<open>The column looked at is moved to the front of the rows, of the types and of the witness.\<close>

lemma length_swap_first [simp]: "length (swap_first j xs) = length xs"
  by (simp add: swap_first_def)

lemma nth_swap_first:
  "j < length xs \<Longrightarrow> i < length xs \<Longrightarrow>
    swap_first j xs ! i = (if i = j then xs ! 0 else if i = 0 then xs ! j else xs ! i)"
  using le_less_trans [of 0 j "length xs"] by (simp add: swap_first_def nth_list_update)

lemma swap_first_beyond: "\<not> j < length xs \<Longrightarrow> swap_first j xs = xs"
  by (simp add: swap_first_def)

lemma swap_first_twice [simp]: "swap_first j (swap_first j xs) = xs"
proof (cases "j < length xs")
  case True
  then have "0 < length xs" by linarith
  with True show ?thesis by (intro nth_equalityI) (auto simp: nth_swap_first)
qed (simp add: swap_first_beyond)

lemma set_swap_first [simp]: "set (swap_first j xs) = set xs"
proof (cases "j < length xs")
  case True
  then show ?thesis using set_swap [of 0 xs j] by (cases xs) (auto simp: swap_first_def)
qed (simp add: swap_first_def)

lemma list_all2_swap_first:
  "list_all2 P xs ys \<Longrightarrow> list_all2 P (swap_first j xs) (swap_first j ys)"
proof (cases "j < length ys")
  case True
  then have "0 < length ys" by linarith
  moreover assume "list_all2 P xs ys"
  ultimately show ?thesis using True by (auto simp: list_all2_conv_all_nth nth_swap_first)
qed (simp add: swap_first_beyond list_all2_lengthD)

lemma list_all2_swap_first_iff [simp]:
  "list_all2 P (swap_first j xs) (swap_first j ys) \<longleftrightarrow> list_all2 P xs ys"
  using list_all2_swap_first [of P xs ys j] list_all2_swap_first [of P "swap_first j xs" "swap_first j ys" j] by auto

lemma swap_matrix:
  "matrix_ok enums fields roots rows ts \<Longrightarrow>
    matrix_ok enums fields roots (map (swap_first j) rows) (swap_first j ts)"
  by (auto simp: matrix_ok_def)

lemma swap_matched: "matched (map (swap_first j) rows) (swap_first j vs) \<longleftrightarrow> matched rows vs"
  by (simp add: matched_def)

lemma swap_answer:
  assumes "answer_ok enums fields rows' (swap_first j ts) ans"
    and "\<And>vs. length vs = length ts \<Longrightarrow> matched rows' (swap_first j vs) \<longleftrightarrow> matched rows vs"
  shows "answer_ok enums fields rows ts (fst (map_found (swap_first j) (ans, cells)))"
proof -
  have cov: "covered_all enums fields rows ts" if "covered_all enums fields rows' (swap_first j ts)"
    unfolding covered_all_def
  proof (intro allI impI)
    fix vs assume vs: "list_all2 (has_ty enums fields) vs ts"
    then have "matched rows' (swap_first j vs)" using that by (simp add: covered_all_def)
    then show "matched rows vs" using assms(2) vs by (simp add: list_all2_lengthD)
  qed
  have miss: "missed enums fields rows ts (swap_first j ws)" if "missed enums fields rows' (swap_first j ts) ws" for ws
    unfolding missed_def
  proof (intro conjI allI impI)
    show "list_all2 (wit_ty enums fields) (swap_first j ws) ts"
      using that list_all2_swap_first [of "wit_ty enums fields" ws "swap_first j ts" j] by (simp add: missed_def)
    fix vs assume vs: "list_all2 (has_ty enums fields) vs ts" "list_all2 conforms (swap_first j ws) vs"
    then have "list_all2 conforms ws (swap_first j vs)" using list_all2_swap_first [OF vs(2), of j] by simp
    then have "\<not> matched rows' (swap_first j vs)" using that vs(1) by (simp add: missed_def)
    then show "\<not> matched rows vs" using assms(2) vs(1) by (simp add: list_all2_lengthD)
  qed
  show ?thesis
    using assms(1) cov miss by (cases ans) (auto simp: answer_ok_def)
qed

lemma expand_or_matched:
  assumes "row = r # rest"
  shows "matched (expand_or row) (v # vs) \<longleftrightarrow> row_matches row (v # vs)"
  using expand_matches [of "snd r" v "fst r"] by (auto simp: matched_def expand_or_def assms)

lemma expand_matrix:
  assumes m: "matrix_ok enums fields roots rows (\<tau> # ts)"
  shows "matrix_ok enums fields roots (concat (map expand_or rows)) (\<tau> # ts)"
    and "no_or (concat (map expand_or rows))"
proof -
  have "row_ty enums fields r (\<tau> # ts) \<and> (\<forall>x \<in> set r. valid roots x) \<and> (\<forall>alts. snd (hd r) \<noteq> Or alts)"
    if row: "row \<in> set rows" and r: "r \<in> set (expand_or row)" for row r
  proof -
    obtain p q rest where eq: "row = (p, q) # rest" "pat_ty enums fields q \<tau>" "row_ty enums fields rest ts"
      "\<forall>r \<in> set rest. valid roots r" "valid roots (p, q)" using matrix_row [OF m row] by metis
    then obtain x where "r = x # rest" "x \<in> set (expand_alts p q)" using r by (auto simp: expand_or_def)
    then show ?thesis using expand_ty [OF eq(2)] valid_expand [OF eq(5)] eq(3,4) by auto
  qed
  then show "matrix_ok enums fields roots (concat (map expand_or rows)) (\<tau> # ts)"
    and "no_or (concat (map expand_or rows))"
    by (auto simp: matrix_ok_def no_or_def)
qed

lemma matched_filter:
  assumes "\<And>row. row \<in> set rows \<Longrightarrow> \<not> P row \<Longrightarrow> \<not> row_matches row vs"
  shows "matched (filter P rows) vs \<longleftrightarrow> matched rows vs"
  using assms by (auto simp: matched_def)

lemma row_covers_nothing:
  assumes "\<exists>p \<in> set row. covers_nothing (snd p)"
  shows "\<not> row_matches row vs"
  using assms covers_nothing_no_match by (fastforce simp: list_all2_conv_all_nth in_set_conv_nth)
lemma all_wild_matches:
  "\<forall>p \<in> set row. snd p = Wild \<Longrightarrow> row_ty enums fields row ts \<Longrightarrow>
    list_all2 (has_ty enums fields) vs ts \<Longrightarrow> row_matches row vs"
  by (auto simp: list_all2_conv_all_nth)

lemma split_column_ok:
  assumes g: "good enums fields roots rec" and f: "fields_ok enums fields"
    and m: "matrix_ok enums fields roots rows ts" and w: "ts \<noteq> []"
  shows "answer_ok enums fields rows ts
    (fst (map_found (swap_first j) (search_column enums rec
      (filter (\<lambda>row. \<not> covers_nothing (snd (hd row))) (concat (map expand_or (map (swap_first j) rows))))
      (length ts) cells)))"
proof -
  let ?swapped = "map (swap_first j) rows"
  let ?expanded = "filter (\<lambda>row. \<not> covers_nothing (snd (hd row))) (concat (map expand_or ?swapped))"
  obtain \<tau> ts' where ts: "swap_first j ts = \<tau> # ts'" using w by (metis length_swap_first list.exhaust length_0_conv)
  have sm: "matrix_ok enums fields roots ?swapped (\<tau> # ts')" using swap_matrix [OF m, of j] ts by simp
  have em: "matrix_ok enums fields roots ?expanded (\<tau> # ts')" "no_or ?expanded"
    using expand_matrix [OF sm] by (auto simp: matrix_ok_def no_or_def)
  have len: "length ts = Suc (length ts')" using ts by (metis length_Cons length_swap_first)
  have same: "matched ?expanded (swap_first j vs) \<longleftrightarrow> matched rows vs" if "length vs = length ts" for vs
  proof -
    have "length (swap_first j vs) \<noteq> 0" using that w by simp
    then obtain v vs' where vs: "swap_first j vs = v # vs'" by (cases "swap_first j vs") auto
    have "matched ?expanded (v # vs') \<longleftrightarrow> matched (concat (map expand_or ?swapped)) (v # vs')"
    proof (rule matched_filter)
      fix row :: row assume "\<not> \<not> covers_nothing (snd (hd row))"
      then show "\<not> row_matches row (v # vs')"
        using covers_nothing_no_match [of "snd (hd row)" v] by (cases row) auto
    qed
    also have "\<dots> \<longleftrightarrow> (\<exists>row \<in> set ?swapped. matched (expand_or row) (v # vs'))"
      by (auto simp: matched_def)
    also have "\<dots> \<longleftrightarrow> (\<exists>row \<in> set ?swapped. row_matches row (v # vs'))"
    proof (rule bex_cong [OF refl])
      fix row assume "row \<in> set ?swapped"
      then obtain r rest where "row = r # rest" using matrix_row [OF sm] by blast
      then show "matched (expand_or row) (v # vs') \<longleftrightarrow> row_matches row (v # vs')"
        by (rule expand_or_matched)
    qed
    also have "\<dots> \<longleftrightarrow> matched ?swapped (swap_first j vs)" by (simp add: matched_def vs)
    also have "\<dots> \<longleftrightarrow> matched rows vs" by (rule swap_matched)
    finally show ?thesis by (simp add: vs)
  qed
  obtain ans cells1 where r: "search_column enums rec ?expanded (length ts) cells = (ans, cells1)" by fastforce
  have "answer_ok enums fields ?expanded (swap_first j ts) ans"
    using search_column_ok [OF g f em, of cells] ts len r by simp
  from swap_answer [OF this same, of cells1] show ?thesis by (simp only: r)
qed

lemma step_good:
  assumes rec: "\<And>r. rec = Some r \<Longrightarrow> good enums fields roots r" and f: "fields_ok enums fields"
  shows "good enums fields roots (step enums rec)"
  unfolding good_def
proof (intro conjI allI impI)
  show "fst (step enums rec [] width cells) \<noteq> Inr None" for width cells by (simp add: step_def)
  fix rows0 ts cells assume m0: "matrix_ok enums fields roots rows0 ts"
  let ?rows = "filter (\<lambda>row. \<not> (\<exists>p \<in> set row. covers_nothing (snd p))) rows0"
  have m: "matrix_ok enums fields roots ?rows ts" using m0 unfolding matrix_ok_def by auto
  have same: "matched ?rows vs \<longleftrightarrow> matched rows0 vs" for vs
    by (rule matched_filter) (simp add: row_covers_nothing)
  have "answer_ok enums fields ?rows ts (fst (step enums rec rows0 (length ts) cells))"
  proof (cases "?rows = [] \<or> ts = [] \<or> rec = None \<or> MAX_CELLS < cells + length ?rows * length ts")
    case True
    then consider "?rows = []" | "?rows \<noteq> []" "ts = []"
      | "?rows \<noteq> []" "ts \<noteq> []" "rec = None \<or> MAX_CELLS < cells + length ?rows * length ts" by blast
    then show ?thesis
    proof cases
      case 1
      then have "\<not> matched ?rows vs" for vs by (simp add: matched_def)
      moreover have "list_all2 (wit_ty enums fields) (replicate (length ts) Any) ts"
        by (simp add: list_all2_conv_all_nth)
      ultimately show ?thesis using 1 by (simp add: step_def Let_def answer_ok_def missed_def)
    next
      case 2
      then obtain row where row: "row \<in> set ?rows" using hd_in_set by blast
      then have "row_ty enums fields row []" using m 2(2) unfolding matrix_ok_def by blast
      then have "row_matches row []" by simp
      then have "matched ?rows []" using row unfolding matched_def by blast
      then show ?thesis using 2 by (simp add: step_def Let_def answer_ok_def covered_all_def)
    next
      case 3
      then show ?thesis by (auto simp: step_def Let_def split: option.splits)
    qed
  next
    case False
    then obtain r where r: "rec = Some r" by auto
    show ?thesis
    proof (cases "\<exists>row \<in> set ?rows. \<forall>p \<in> set row. snd p = Wild")
      case True
      then obtain row where row: "row \<in> set ?rows" "\<forall>p \<in> set row. snd p = Wild" by blast
      then have "row_ty enums fields row ts" using m unfolding matrix_ok_def by blast
      then have "covered_all enums fields ?rows ts"
        using all_wild_matches [OF row(2)] row(1) unfolding covered_all_def matched_def by blast
      then show ?thesis using True False r by (simp add: step_def Let_def answer_ok_def)
    next
      case nowild: False
      have "ts \<noteq> []" using False by blast
      note split_column_ok [OF rec [OF r] f m this, of "first_tested (hd ?rows)" "cells + length ?rows * length ts"]
      moreover have "step enums rec rows0 (length ts) cells =
          map_found (swap_first (first_tested (hd ?rows))) (search_column enums r
            (filter (\<lambda>row. \<not> covers_nothing (snd (hd row)))
              (concat (map expand_or (map (swap_first (first_tested (hd ?rows))) ?rows))))
            (length ts) (cells + length ?rows * length ts))"
        using False nowild r unfolding step_def Let_def by (simp only: if_False length_0_conv option.case) simp
      ultimately show ?thesis by (simp only:)
    qed
  qed
  then show "answer_ok enums fields rows0 ts (fst (step enums rec rows0 (length ts) cells))"
    using same by (simp add: answer_ok_def covered_all_def missed_def)
qed

lemma uncovered_good: "fields_ok enums fields \<Longrightarrow> good enums fields roots (uncovered enums left)"
  by (induction left) (auto intro: step_good)
section \<open>The questions of the type checker\<close>

lemma pat_rows_matrix:
  assumes "\<forall>p \<in> set pats. pat_ty enums fields p \<tau>"
  shows "matrix_ok enums fields pats (pat_rows pats) [\<tau>]"
  using assms by (auto simp: matrix_ok_def pat_rows_def valid_def)

lemma pat_rows_matched: "matched (pat_rows pats) [v] \<longleftrightarrow> (\<exists>p \<in> set pats. matches p v)"
  by (auto simp: matched_def pat_rows_def in_set_conv_nth Bex_def)

lemma one_column:
  assumes "fields_ok enums fields" and "\<forall>p \<in> set pats. pat_ty enums fields p \<tau>"
  shows "answer_ok enums fields (pat_rows pats) [\<tau>] (fst (uncovered enums left (pat_rows pats) 1 cells))"
  using goodD [OF uncovered_good [OF assms(1)] pat_rows_matrix [OF assms(2)], of 1] by simp

lemma cover_together_True:
  assumes f: "fields_ok enums fields" and p: "\<forall>p \<in> set pats. pat_ty enums fields p \<tau>"
    and c: "fst (cover_together enums pats cells) = Inr True" and v: "has_ty enums fields v \<tau>"
  shows "\<exists>p \<in> set pats. matches p v"
proof -
  have "fst (uncovered enums (MAX_DEPTH + 1) (pat_rows pats) 1 cells) = Inr None"
    using c by (auto simp: cover_together_def covers_def split: prod.splits sum.splits)
  then have "covered_all enums fields (pat_rows pats) [\<tau>]"
    using one_column [OF f p, of "MAX_DEPTH + 1" cells] by (simp add: answer_ok_def)
  then show ?thesis using v by (auto simp: covered_all_def simp flip: pat_rows_matched)
qed

text \<open>C4: A match the checker accepts is exhaustive: every value of the scrutinee's type is
  matched by an arm without a guard, whatever the patterns are (nested constructors, records
  that name different fields, or-patterns, integer ranges up to the ends of the type) and
  wherever the search split its columns.\<close>

theorem accepted_match_is_exhaustive:
  assumes "fields_ok enums fields"
    and "\<And>guard p. (guard, p) \<in> set arms \<Longrightarrow> pat_ty enums fields p \<tau>"
    and "check_exhaustiveness enums arms never = Accepted"
    and "has_ty enums fields v \<tau>" and "\<not> (arms = [] \<and> never)"
  shows "\<exists>p. (False, p) \<in> set arms \<and> matches p v"
proof -
  let ?pats = "map snd (filter (\<lambda>(guard, pat). \<not> guard) arms)"
  have "fst (cover_together enums ?pats 0) = Inr True"
    using assms(3,5) by (auto simp: check_exhaustiveness_def Let_def split: sum.splits bool.splits)
  moreover have "\<forall>p \<in> set ?pats. pat_ty enums fields p \<tau>" using assms(2) by auto
  ultimately have "\<exists>p \<in> set ?pats. matches p v"
    using cover_together_True [OF assms(1) _ _ assms(4)] by blast
  then show ?thesis by auto
qed

subsection \<open>The shown value\<close>

text \<open>Types that have values, as have the types of the fields of their constructors; a record type names
  each of its fields once.\<close>

definition inhabited_types :: "enums \<Rightarrow> fields \<Rightarrow> ty set \<Rightarrow> bool" where
  "inhabited_types enums fields S \<longleftrightarrow> (\<forall>t \<in> S. (\<exists>v. has_ty enums fields v t) \<and>
     (\<forall>c tys. ctor_tys enums fields c t = Some tys \<longrightarrow> set tys \<subseteq> S) \<and>
     (\<forall>fts. t = T_Record fts \<longrightarrow> distinct (map fst fts)))"

lemma record_value:
  assumes "inhabited_types enums fields S" and "T_Record fts \<in> S" and "distinct names"
    and tys: "ctor_tys enums fields (Record names) (T_Record fts) = Some tys"
    and fs: "list_all2 (has_ty enums fields) fs tys"
  shows "\<exists>v. has_ty enums fields v (T_Record fts) \<and> built (Record names) v = Some fs"
proof -
  define some where "some t = (SOME v. has_ty enums fields v t)" for t
  define m where "m = map (\<lambda>(n, t). (n, case find_index n names of Some i \<Rightarrow> fs ! i | None \<Rightarrow> some t)) fts"
  have d: "distinct (map fst fts)" using assms(1,2) unfolding inhabited_types_def by blast
  have names: "\<And>n. n \<in> set names \<Longrightarrow> map_of fts n \<noteq> None" and eq: "tys = map (\<lambda>n. the (map_of fts n)) names"
    using tys by (auto split: if_splits)
  have some: "has_ty enums fields (some t) t" if "(n, t) \<in> set fts" for n t
  proof -
    have "ctor_tys enums fields (Record [n]) (T_Record fts) = Some [t]" using that d by simp
    then have "t \<in> S" using assms(1,2) unfolding inhabited_types_def by (metis list.set_intros(1) subsetD)
    then have "\<exists>v. has_ty enums fields v t" using assms(1) unfolding inhabited_types_def by blast
    then show ?thesis unfolding some_def by (rule someI_ex)
  qed
  have field: "has_ty enums fields (case find_index n names of Some i \<Rightarrow> fs ! i | None \<Rightarrow> some t) t"
    if "(n, t) \<in> set fts" for n t
  proof (cases "find_index n names")
    case (Some i)
    then have "i < length names" "names ! i = n" using find_index_Some by metis+
    moreover have "map_of fts n = Some t" using that d by simp
    ultimately show ?thesis using fs eq Some by (auto simp: list_all2_conv_all_nth)
  qed (use some [OF that] in simp)
  have "has_ty enums fields (V_Record m) (T_Record fts)"
    using field by (auto simp: m_def list_all2_conv_all_nth split_beta)
  moreover have "map_of m (names ! i) = Some (fs ! i)" if i: "i < length names" for i
  proof -
    have "map_of m n = map_option (\<lambda>t. case find_index n names of Some i \<Rightarrow> fs ! i | None \<Rightarrow> some t) (map_of fts n)" for n
      unfolding m_def by (induction fts) (auto split: option.splits)
    moreover have "map_of fts (names ! i) \<noteq> None" using i names by simp
    ultimately show ?thesis using find_index_nth [OF assms(3) i] by auto
  qed
  moreover have "length fs = length names" using fs eq by (auto dest: list_all2_lengthD)
  ultimately have "has_ty enums fields (V_Record m) (T_Record fts) \<and> built (Record names) (V_Record m) = Some fs"
    by (auto simp: in_set_conv_nth intro: nth_equalityI)
  then show ?thesis by blast
qed

lemma ctor_value:
  assumes "inhabited_types enums fields S" and "t \<in> S" and "names_ok c"
    and "ctor_tys enums fields c t = Some tys" and "list_all2 (has_ty enums fields) fs tys"
  shows "\<exists>v. has_ty enums fields v t \<and> built c v = Some fs"
proof (cases c)
  case Tuple
  then have "has_ty enums fields (V_Tuple fs) t" using assms(4,5) by (cases t) auto
  then show ?thesis using Tuple by (intro exI [of _ "V_Tuple fs"]) simp
next
  case (Record names)
  then obtain fts where "t = T_Record fts" using assms(4) by (cases t) auto
  then show ?thesis using record_value [OF assms(1) _ _ _ assms(5)] assms(2,3,4) Record by simp
next
  case (Variant e i)
  then have "has_ty enums fields (V_Variant e i fs) t" using assms(4,5) by (cases t) (auto split: if_splits)
  then show ?thesis using Variant by (intro exI [of _ "V_Variant e i fs"]) simp
next
  case (Bool_Ctor b)
  then have "has_ty enums fields (V_Bool b) t \<and> fs = []" using assms(4,5) by (cases t) auto
  then show ?thesis using Bool_Ctor by (intro exI [of _ "V_Bool b"]) simp
next
  case Nil_Ctor
  then have "has_ty enums fields V_Nil t \<and> fs = []" using assms(4,5) by (cases t) auto
  then show ?thesis using Nil_Ctor by (intro exI [of _ V_Nil]) simp
next
  case Cons_Ctor
  then obtain x xs where "fs = [x, xs]" "has_ty enums fields (V_Cons x xs) t"
    using assms(4,5) by (cases t) (auto simp: list_all2_Cons2)
  then show ?thesis using Cons_Ctor by (intro exI [of _ "V_Cons x xs"]) simp
qed

lemma wit_value:
  assumes inh: "inhabited_types enums fields S"
  shows "wit_ty enums fields w t \<Longrightarrow> t \<in> S \<Longrightarrow> \<exists>v. has_ty enums fields v t \<and> conforms w v"
proof (induction w arbitrary: t)
  case Any
  then show ?case using inh unfolding inhabited_types_def by auto
next
  case (W_Ctor c ws)
  then obtain tys where tys: "names_ok c" "ctor_tys enums fields c t = Some tys" "list_all2 (wit_ty enums fields) ws tys"
    by (auto split: option.splits)
  have "set tys \<subseteq> S" using inh W_Ctor.prems(2) tys(2) unfolding inhabited_types_def by blast
  then have "\<forall>i. \<exists>v. i < length ws \<longrightarrow> has_ty enums fields v (tys ! i) \<and> conforms (ws ! i) v"
    using tys(3) W_Ctor.IH [OF nth_mem] by (metis list_all2_conv_all_nth nth_mem subsetD)
  then obtain g where g: "\<And>i. i < length ws \<Longrightarrow> has_ty enums fields (g i) (tys ! i) \<and> conforms (ws ! i) (g i)" by metis
  let ?fs = "map g [0..<length ws]"
  have "length ws = length tys" using tys(3) by (rule list_all2_lengthD)
  then have fs: "list_all2 (has_ty enums fields) ?fs tys" "list_all2 conforms ws ?fs"
    using g by (auto simp: list_all2_conv_all_nth)
  obtain v where "has_ty enums fields v t" "built c v = Some ?fs"
    using ctor_value [OF inh W_Ctor.prems(2) tys(1,2) fs(1)] by blast
  then show ?case using fs(2) by auto
next
  case (W_Int n)
  then have "has_ty enums fields (V_Int n) t \<and> conforms (W_Int n) (V_Int n)" by simp
  then show ?case by blast
qed

text \<open>Patterns whose every test is recorded.\<close>

fun no_lit :: "pat \<Rightarrow> bool" where
  "no_lit Lit = False"
| "no_lit (Ctor c args) = (\<forall>a \<in> set args. no_lit a)"
| "no_lit (Or alts) = (\<forall>a \<in> set alts. no_lit a)"
| "no_lit _ = True"

text \<open>C5: A value shown as missing is missing. What \<open>uncovered_by\<close> shows is a value there is: one of the
  scrutinee's type, its integers within 64 bits, when the types it is made of have values. And no pattern
  matches any value of that shape, of the patterns whose tests are recorded: a pattern that tests a
  literal the search does not look into is not spoken of.\<close>

theorem shown_value_is_unmatched:
  assumes f: "fields_ok enums fields" and p: "\<forall>p \<in> set pats. pat_ty enums fields p \<tau>"
    and w: "uncovered_by enums pats = Some w"
    and s: "inhabited_types enums fields S" "\<tau> \<in> S"
  shows "(\<exists>v. has_ty enums fields v \<tau> \<and> conforms w v) \<and>
    (\<forall>v. has_ty enums fields v \<tau> \<and> conforms w v \<longrightarrow> (\<forall>p \<in> set pats. no_lit p \<longrightarrow> \<not> matches p v))"
proof -
  obtain ws where ws: "fst (uncovered enums (MAX_DEPTH + 1) (pat_rows pats) 1 0) = Inr (Some ws)"
    "ws \<noteq> []" "w = last ws"
    using w by (auto simp: uncovered_by_def split: sum.splits option.splits if_splits)
  then have miss: "missed enums fields (pat_rows pats) [\<tau>] ws"
    using one_column [OF f p, of "MAX_DEPTH + 1" 0] by (simp add: answer_ok_def)
  then have one: "ws = [w]" using ws by (auto simp: missed_def list_all2_Cons2)
  then have "wit_ty enums fields w \<tau>" using miss by (simp add: missed_def)
  from wit_value [OF s(1) this s(2)] show ?thesis
    using miss one by (auto simp: missed_def pat_rows_matched)
qed

text \<open>The search for the values of one constructor: what \<open>uncovered_of_ctor\<close> shows are fields of a
  value of the constructor that no pattern matches, as far as the tests are recorded.\<close>

lemma shown_fields_are_unmatched:
  assumes f: "fields_ok enums fields" and p: "\<forall>p \<in> set pats. pat_ty enums fields p \<tau>"
    and c: "ctor_tys enums fields c \<tau> = Some tys" "arity = length tys" "\<forall>names. c \<noteq> Record names"
    and w: "uncovered_of_ctor enums pats c arity = Some (ws, some)"
    and v: "has_ty enums fields v \<tau>" "built c v = Some fs" "list_all2 conforms ws fs"
  shows "\<forall>p \<in> set pats. \<not> matches p v"
proof -
  let ?rows = "concat (map expand_or (pat_rows pats))"
  have em: "matrix_ok enums fields pats ?rows [\<tau>]" "no_or ?rows"
    using expand_matrix [OF pat_rows_matrix [OF p]] by auto
  have ct: "ctor_of enums fields ?rows \<tau> c arity tys" using c by (cases c) (simp_all add: ctor_of_def)
  have "missed enums fields (specialize ?rows c arity) tys ws"
    using goodD [OF uncovered_good [OF f] specialize_matrix [OF em(1) ct], of arity "MAX_DEPTH + 1" 0] w c(2)
    by (auto simp: uncovered_of_ctor_def Let_def answer_ok_def split: sum.splits option.splits)
  then have "\<not> matched (specialize ?rows c arity) (fs @ [])"
    using v(3) built_ty [OF v(1) c(1) v(2)] by (simp add: missed_def)
  then have "\<not> matched ?rows [v]"
    using specialize_matched [OF em ct v(1,2), of "[]"] by simp
  moreover have "matched ?rows [v] \<longleftrightarrow> (\<exists>row \<in> set (pat_rows pats). matched (expand_or row) [v])"
    by (auto simp: matched_def)
  ultimately have "\<not> matched (pat_rows pats) [v]"
    using expand_or_matched [of _ _ "[]" v "[]"] by (fastforce simp: matched_def pat_rows_def)
  then show ?thesis by (simp add: pat_rows_matched)
qed

text \<open>A constructor that stands alone builds every value of its type.\<close>

lemma stands_alone_builds_all:
  assumes "stands_alone enums c" and "ctor_tys enums fields c \<tau> = Some tys" and "has_ty enums fields v \<tau>"
  shows "built c v \<noteq> None"
proof (cases c)
  case (Record names)
  then obtain fts where t: "\<tau> = T_Record fts" using assms(2) by (cases \<tau>) auto
  then obtain m where "v = V_Record m" using assms(3) by (cases v) auto
  then show ?thesis using Record assms t record_dom [of enums fields m fts] by (auto split: if_splits)
next
  case (Variant t i)
  then obtain tas where \<tau>: "\<tau> = T_Enum t tas" "is_variant enums t i"
    using assms(2) by (cases \<tau>) (auto split: if_splits)
  then obtain j vs where v: "v = V_Variant t j vs" "is_variant enums t j" using assms(3) by (cases v) auto
  obtain info where info: "enums t = Some info" "length (distinct_variants info) = 1"
    using assms(1) Variant by (auto split: option.splits)
  then obtain x where "distinct_variants info = [x]" by (auto simp: length_Suc_conv)
  then have "(k, fst (info ! k), snd (info ! k)) = x" if "is_variant enums t k" for k
    using that info(1) in_distinct_variants [of k "fst (info ! k)" "snd (info ! k)" info] by (simp add: is_variant_def)
  then have "i = j" using \<tau>(2) v(2) by blast
  then show ?thesis using Variant v(1) by simp
qed (use assms in \<open>(cases \<tau>; cases v; auto)+\<close>)

section \<open>List patterns\<close>

text \<open>C29: A list pattern matches a list whose first elements match and whose other elements are a list
  that the tail matches; one too long for the search is a test that is not counted on.\<close>

theorem list_pattern_matches:
  "matches (pat_list elems tail) v \<longleftrightarrow> length elems \<le> MAX_DEPTH \<and>
    (\<exists>vs rest. v = foldr V_Cons vs rest \<and> list_all2 matches elems vs \<and> matches tail rest)"
proof -
  have "matches (foldr (\<lambda>elem tail. Ctor Cons_Ctor [elem, tail]) elems tail) v \<longleftrightarrow>
      (\<exists>vs rest. v = foldr V_Cons vs rest \<and> list_all2 matches elems vs \<and> matches tail rest)"
  proof (induction elems arbitrary: v)
    case (Cons e elems)
    have cons: "built Cons_Ctor v = Some fs \<longleftrightarrow> (\<exists>x xs. v = V_Cons x xs \<and> fs = [x, xs])" for fs
      by (cases v) auto
    have "matches (Ctor Cons_Ctor [e, p]) v \<longleftrightarrow> (\<exists>x xs. v = V_Cons x xs \<and> matches e x \<and> matches p xs)" for p
      using cons by (auto split: option.splits)
    then have "matches (foldr (\<lambda>elem tail. Ctor Cons_Ctor [elem, tail]) (e # elems) tail) v \<longleftrightarrow>
        (\<exists>x xs. v = V_Cons x xs \<and> matches e x \<and>
          (\<exists>vs rest. xs = foldr V_Cons vs rest \<and> list_all2 matches elems vs \<and> matches tail rest))"
      by (simp only: foldr.simps comp_apply Cons.IH)
    also have "\<dots> \<longleftrightarrow> (\<exists>vs rest. v = foldr V_Cons vs rest \<and> list_all2 matches (e # elems) vs \<and> matches tail rest)"
      (is "?l \<longleftrightarrow> ?r")
    proof
      assume ?l
      then obtain x vs rest where "v = foldr V_Cons (x # vs) rest" "list_all2 matches (e # elems) (x # vs)"
        "matches tail rest" by auto
      then show ?r by blast
    next
      assume ?r
      then obtain x vs rest where "v = foldr V_Cons (x # vs) rest" "list_all2 matches (e # elems) (x # vs)"
        "matches tail rest" by (metis list_all2_Cons1)
      then show ?l by auto
    qed
    finally show ?case .
  qed simp
  then show ?thesis by (simp add: pat_list_def foldr_conv_fold)
qed

section \<open>The search at work\<close>

lemma uncovered_level:
  "uncovered enums (numeral k) rows width cells =
    step enums (Some (uncovered enums (pred_numeral k))) rows width cells"
  by (simp add: numeral_eq_Suc)

lemmas search_eval = uncovered_level step_def Let_def MAX_CELLS_def MAX_DEPTH_def I64_MIN_def I64_MAX_def
  first_tested_def swap_first_def expand_or_def search_column_def head_test_def untested_def
  uncovered_int_column_def default_rows_def specialize_def specialize_row_def List.map_filter_def
  distinct_variants_def arg_ref_def WILD_def with_first_def same_rows_def int_ranges_def sort_ranges_def
  cuts_def intervals_def interval_rows_def holds_interval_def clamp0_def outside_def pat_rows_def
  cover_together_def covers_def upt_rec

text \<open>An enum of a variant without fields and one with an integer.\<close>

definition option_enums :: enums where
  "option_enums = [0 \<mapsto> [(''None'', 0), (''Some'', 1)]]"

definition option_fields :: fields where
  "option_fields t tas i = (if i = 1 then [T_Int] else [])"

definition option_pats :: "pat list" where
  "option_pats = [Ctor (Variant 0 1) [IntRange I64_MIN 0], Ctor (Variant 0 0) []]"

definition full_pats :: "pat list" where
  "full_pats = option_pats @ [Ctor (Variant 0 1) [IntRange 1 I64_MAX]]"

lemma option_fields_ok: "fields_ok option_enums option_fields"
  by (auto simp: fields_ok_def option_enums_def option_fields_def is_variant_def nth_Cons' less_Suc_eq split: if_splits)

lemma full_pats_ty: "\<forall>p \<in> set full_pats. pat_ty option_enums option_fields p (T_Enum 0 [])"
  by (simp add: full_pats_def option_pats_def option_fields_def is_variant_def option_enums_def
      distinct_variants_def I64_MIN_def I64_MAX_def)

lemma option_ty: "I64_MIN \<le> n \<Longrightarrow> n \<le> I64_MAX \<Longrightarrow>
    has_ty option_enums option_fields (V_Variant 0 1 [V_Int n]) (T_Enum 0 [])"
  by (simp add: option_fields_def is_variant_def option_enums_def distinct_variants_def)

lemma full_pats_covered: "cover_together option_enums full_pats 0 = (Inr True, 5)"
  by (simp add: full_pats_def option_pats_def option_enums_def search_eval)

theorem accepted_match_is_exhaustive_witness:
  "\<exists>p. (False, p) \<in> set ((True, Wild) # map (Pair False) full_pats) \<and> matches p (V_Variant 0 1 [V_Int 7])"
proof (rule accepted_match_is_exhaustive [OF option_fields_ok])
  show "pat_ty option_enums option_fields p (T_Enum 0 [])"
    if "(guard, p) \<in> set ((True, Wild) # map (Pair False) full_pats)" for guard p
    using that full_pats_ty by auto
  have "map snd (filter (\<lambda>(guard, pat). \<not> guard) ((True, Wild) # map (Pair False) full_pats)) = full_pats"
    by (simp add: full_pats_def option_pats_def)
  then show "check_exhaustiveness option_enums ((True, Wild) # map (Pair False) full_pats) False = Accepted"
    unfolding check_exhaustiveness_def Let_def by (simp only: full_pats_covered) simp
  show "has_ty option_enums option_fields (V_Variant 0 1 [V_Int 7]) (T_Enum 0 [])"
    by (rule option_ty) (simp_all add: I64_MIN_def I64_MAX_def)
qed simp

lemma option_shown: "uncovered_by option_enums option_pats = Some (W_Ctor (Variant 0 1) [W_Int 1])"
  by (simp add: uncovered_by_def option_pats_def option_enums_def search_eval)

lemma option_pats_ty: "\<forall>p \<in> set option_pats. pat_ty option_enums option_fields p (T_Enum 0 [])"
  using full_pats_ty by (simp add: full_pats_def)

lemma option_types: "inhabited_types option_enums option_fields {T_Enum 0 [], T_Int}"
proof -
  have "has_ty option_enums option_fields (V_Variant 0 1 [V_Int 1]) (T_Enum 0 [])"
    by (rule option_ty) (simp_all add: I64_MIN_def I64_MAX_def)
  moreover have "has_ty option_enums option_fields (V_Int 1) T_Int" by (simp add: I64_MIN_def I64_MAX_def)
  moreover have "set tys \<subseteq> {T_Int}" if "ctor_tys option_enums option_fields c (T_Enum 0 []) = Some tys" for c tys
    using that by (cases c) (auto simp: option_fields_def split: if_splits)
  moreover have "ctor_tys option_enums option_fields c T_Int = None" for c by (cases c) simp_all
  ultimately show ?thesis unfolding inhabited_types_def by (simp del: has_ty.simps) blast
qed

theorem shown_value_is_unmatched_witness:
  "\<exists>v. has_ty option_enums option_fields v (T_Enum 0 []) \<and> conforms (W_Ctor (Variant 0 1) [W_Int 1]) v \<and>
    list_all (\<lambda>p. \<not> matches p v) option_pats"
proof -
  have "list_all no_lit option_pats" by (simp add: option_pats_def)
  then show ?thesis
    using shown_value_is_unmatched [OF option_fields_ok option_pats_ty option_shown option_types]
    by (auto simp: list_all_iff)
qed

end
