(* ===== verification/Doc.thy ===== *)
theory Doc
  imports Prelude
begin

text \<open>
  The layout document of the formatter and its renderer (\<^verbatim>\<open>format/doc.rs\<close>).

  The renderer keeps what is still to be written on an explicit stack; here a stack is a list
  with its top in front. Text is a list of characters, and a position in the output counts
  characters where the code counts bytes: every position the code keeps is one where its output
  ended, so both cut the same text.
\<close>

section \<open>Documents\<close>

definition INDENT :: nat where
  "INDENT = 2"

datatype doc =
    Doc_Nil
  | Text string
  | Comment string
  | Line
  | SoftLine
  | HardLine
  | BlankLine
  | Group doc bool
  | Nest doc
  | Concat "doc list"
  | IfBreak doc doc
  | LineSuffix string
  | OwnLine string
  | Settle

lemma size_docs: "(\<Sum>d\<leftarrow>ds. Suc (size d)) = size_list size ds"
  by (induction ds) auto

lemma size_list_rev: "size_list f (rev ds) = size_list f ds"
  by (simp add: size_list_conv_sum_list rev_map [symmetric])

text \<open>The loop of \<^verbatim>\<open>Doc::forces_break\<close>, over its stack.\<close>

function forces_break_loop :: "doc list \<Rightarrow> bool" where
  "forces_break_loop [] = False"
| "forces_break_loop (d # stack) =
     (case d of
        HardLine \<Rightarrow> True
      | BlankLine \<Rightarrow> True
      | OwnLine _ \<Rightarrow> True
      | Group _ forced \<Rightarrow> if forced then True else forces_break_loop stack
      | Nest inner \<Rightarrow> forces_break_loop (inner # stack)
      | Concat parts \<Rightarrow> forces_break_loop (rev parts @ stack)
      | _ \<Rightarrow> forces_break_loop stack)"
  by pat_completeness auto
termination
  by (relation "measure (\<lambda>stack. \<Sum>d\<leftarrow>stack. Suc (size d))")
    (auto simp: size_docs size_list_rev)

definition forces_break :: "doc \<Rightarrow> bool" where
  "forces_break d = forces_break_loop [d]"

definition group :: "doc \<Rightarrow> doc" where
  "group d = Group d (forces_break d)"

fun is_nil :: "doc \<Rightarrow> bool" where
  "is_nil Doc_Nil = True"
| "is_nil (Concat parts) = (\<forall>d \<in> set parts. is_nil d)"
| "is_nil _ = False"

section \<open>The renderer\<close>

datatype mode = Flat | Break

type_synonym cmd = "nat \<times> mode \<times> doc"

record suffix =
  s_text :: string
  s_at :: nat

record renderer =
  r_width :: nat
  r_out :: string
  r_col :: nat
  r_at_line_start :: bool
  r_indent :: nat
  r_suffixes :: "suffix list"
  r_closed :: bool
  r_after_comment :: bool

definition LF :: char where
  "LF = CHR 0x0A"

abbreviation SP :: char where
  "SP \<equiv> CHR '' ''"

abbreviation spaces :: "nat \<Rightarrow> string" where
  "spaces n \<equiv> replicate n SP"

definition trim_start :: "char \<Rightarrow> string \<Rightarrow> string" where
  "trim_start c s = dropWhile (\<lambda>x. x = c) s"

definition trim_end :: "char \<Rightarrow> string \<Rightarrow> string" where
  "trim_end c s = rev (dropWhile (\<lambda>x. x = c) (rev s))"

text \<open>What stands behind the last line break.\<close>

definition last_line :: "string \<Rightarrow> string" where
  "last_line s = rev (takeWhile (\<lambda>x. x \<noteq> LF) (rev s))"

definition ends_with :: "string \<Rightarrow> char set \<Rightarrow> bool" where
  "ends_with s cs \<longleftrightarrow> s \<noteq> [] \<and> last s \<in> cs"

definition starts_with :: "string \<Rightarrow> char set \<Rightarrow> bool" where
  "starts_with s cs \<longleftrightarrow> s \<noteq> [] \<and> hd s \<in> cs"

subsection \<open>Writing\<close>

definition write_suffix :: "suffix \<Rightarrow> renderer \<Rightarrow> renderer" where
  "write_suffix s r =
     (if r_at_line_start r
      then r\<lparr>r_out := r_out r @ spaces (r_indent r) @ s_text s, r_at_line_start := False\<rparr>
      else r\<lparr>r_out := trim_end SP (r_out r) @ [SP] @ s_text s\<rparr>)"

definition newline :: "nat \<Rightarrow> renderer \<Rightarrow> renderer" where
  "newline indent r =
     (let r1 = fold write_suffix (r_suffixes r) (r\<lparr>r_suffixes := []\<rparr>)
      in r1\<lparr>r_out := trim_end SP (r_out r1) @ [LF], r_at_line_start := True, r_indent := indent,
            r_col := 0, r_closed := False, r_after_comment := False\<rparr>)"

definition open_line :: "nat \<Rightarrow> renderer \<Rightarrow> renderer" where
  "open_line indent r =
     (let r1 = (if r_closed r then newline indent r else r)
      in if r_at_line_start r1
         then r1\<lparr>r_out := r_out r1 @ spaces (r_indent r1), r_col := r_indent r1, r_at_line_start := False\<rparr>
         else r1)"

definition push :: "string \<Rightarrow> renderer \<Rightarrow> renderer" where
  "push text r =
     r\<lparr>r_out := r_out r @ text,
       r_col := (if LF \<in> set text then length (last_line text) else r_col r + length text)\<rparr>"

text \<open>One waiting comment, written where it was met.\<close>

definition settle_suffix :: "nat \<Rightarrow> nat \<Rightarrow> suffix \<Rightarrow> string \<Rightarrow> string" where
  "settle_suffix line_start line_indent s out =
     (let at = max (s_at s) line_start;
          behind = trim_start SP (drop at out);
          out1 = trim_end SP (take at out);
          out2 = (if line_start < length out1 then out1 @ [SP] else out1 @ spaces line_indent);
          out3 = out2 @ s_text s @ [LF]
      in if behind = [] then out3 else out3 @ spaces (line_indent + INDENT) @ behind)"

definition settle_suffixes :: "renderer \<Rightarrow> renderer" where
  "settle_suffixes r =
     (let line_start = length (r_out r) - length (last_line (r_out r));
          line_indent = (if r_at_line_start r then r_indent r
                         else length (takeWhile (\<lambda>c. c = SP) (last_line (r_out r))));
          out = fold (settle_suffix line_start line_indent) (rev (r_suffixes r)) (r_out r);
          start = ends_with out {LF}
      in r\<lparr>r_out := out, r_suffixes := [], r_at_line_start := start,
           r_indent := (if start then line_indent + INDENT else r_indent r),
           r_col := length (last_line out), r_after_comment := False\<rparr>)"

definition write_text :: "string \<Rightarrow> nat \<Rightarrow> renderer \<Rightarrow> renderer" where
  "write_text text0 indent r =
     (let text = (if r_at_line_start r \<or> r_closed r then trim_start SP text0 else text0)
      in if text = [] then r
         else (let r1 = (if LF \<in> set text \<and> r_suffixes r \<noteq> [] then settle_suffixes r else r);
                   r2 = open_line indent r1;
                   r3 = (if r_after_comment r2 \<and> \<not> starts_with text {SP, CHR '')'', CHR '']'', CHR ''}'', CHR '',''}
                         then r2\<lparr>r_out := r_out r2 @ [SP]\<rparr> else r2)
               in push text (r3\<lparr>r_after_comment := False\<rparr>)))"

definition write_comment :: "string \<Rightarrow> nat \<Rightarrow> renderer \<Rightarrow> renderer" where
  "write_comment text indent r =
     (let r1 = (if r_suffixes r \<noteq> [] then settle_suffixes r else r);
          r2 = (if r_at_line_start r1 then r1\<lparr>r_indent := indent\<rparr> else r1);
          fresh = (r_at_line_start r2 \<or> r_closed r2);
          r3 = open_line indent r2;
          r4 = (if \<not> fresh \<and> \<not> ends_with (r_out r3) {SP, CHR ''('', CHR ''['', CHR ''{''}
                then r3\<lparr>r_out := r_out r3 @ [SP]\<rparr> else r3)
      in r4\<lparr>r_out := r_out r4 @ text,
            r_col := (if LF \<in> set text then length (last_line text) else r_col r4),
            r_after_comment := True\<rparr>)"

definition hold_suffix :: "string \<Rightarrow> nat \<Rightarrow> renderer \<Rightarrow> renderer" where
  "hold_suffix text indent r =
     (let r1 = (if r_closed r then newline indent r else r);
          r2 = (if r_suffixes r1 \<noteq> [] then settle_suffixes r1 else r1)
      in r2\<lparr>r_suffixes := r_suffixes r2 @ [\<lparr>s_text = text, s_at = length (r_out r2)\<rparr>]\<rparr>)"

definition blank_line :: "nat \<Rightarrow> renderer \<Rightarrow> renderer" where
  "blank_line indent r =
     (let r1 = (if \<not> r_at_line_start r \<or> r_closed r \<or> r_suffixes r \<noteq> [] then newline indent r else r);
          r2 = r1\<lparr>r_indent := indent\<rparr>
      in if r_out r2 \<noteq> [] \<and> take 2 (rev (r_out r2)) \<noteq> [LF, LF] then r2\<lparr>r_out := r_out r2 @ [LF]\<rparr> else r2)"

definition own_line :: "string \<Rightarrow> nat \<Rightarrow> renderer \<Rightarrow> renderer" where
  "own_line text indent r =
     (let r1 = (if \<not> r_at_line_start r \<or> r_closed r \<or> r_suffixes r \<noteq> [] then newline indent r else r);
          r2 = open_line indent (r1\<lparr>r_indent := indent\<rparr>)
      in (push text r2)\<lparr>r_closed := True\<rparr>)"

definition finish_out :: "renderer \<Rightarrow> string" where
  "finish_out r =
     (let r1 = (if \<not> r_at_line_start r \<or> r_suffixes r \<noteq> [] then newline 0 r else r);
          out = trim_end LF (r_out r1)
      in if out = [] then [] else out @ [LF])"

subsection \<open>Measuring\<close>

text \<open>\<open>Step_Doc\<close> is a document still to be measured, \<open>Group_End\<close> the end of a group inside the one
  that is measured. A step of the walk either answers, or leaves what is left of the line, the
  depth, the depth up to which a waiting comment breaks, and what to push.\<close>

datatype fit_step = Step_Doc cmd | Group_End

fun measure_doc ::
  "nat \<Rightarrow> int \<Rightarrow> int \<Rightarrow> int \<Rightarrow> cmd \<Rightarrow> bool + int \<times> int \<times> int \<times> fit_step list"
where
  "measure_doc width left depth suffix_depth (indent, mode, d) =
     (case d of
        Doc_Nil \<Rightarrow> Inr (left, depth, suffix_depth, [])
      | Settle \<Rightarrow> Inr (left, depth, suffix_depth, [])
      | Text text \<Rightarrow>
          (if LF \<in> set text
           then if left < int (length (takeWhile (\<lambda>c. c \<noteq> LF) text)) then Inl False
                else Inr (int width - int (length (last_line text)), depth, suffix_depth, [])
           else Inr (left - int (length text), depth, suffix_depth, []))
      | Comment _ \<Rightarrow> Inr (left, depth, suffix_depth, [])
      | Line \<Rightarrow>
          (if mode = Break then Inl True
           else if 0 \<le> depth \<and> depth \<le> suffix_depth then Inl False
           else Inr (left - 1, depth, suffix_depth, []))
      | SoftLine \<Rightarrow>
          (if mode = Break then Inl True
           else if 0 \<le> depth \<and> depth \<le> suffix_depth then Inl False
           else Inr (left, depth, suffix_depth, []))
      | HardLine \<Rightarrow> Inl True
      | BlankLine \<Rightarrow> Inl True
      | OwnLine _ \<Rightarrow> Inl True
      | Group inner forced \<Rightarrow>
          (let mode' = (if forced then Break else mode)
           in if 0 \<le> depth
              then Inr (left, depth + 1, suffix_depth, [Step_Doc (indent, mode', inner), Group_End])
              else Inr (left, depth, suffix_depth, [Step_Doc (indent, mode', inner)]))
      | Nest inner \<Rightarrow> Inr (left, depth, suffix_depth, [Step_Doc (indent, mode, inner)])
      | Concat parts \<Rightarrow>
          Inr (left, depth, suffix_depth, map (\<lambda>part. Step_Doc (indent, mode, part)) parts)
      | IfBreak broken flat \<Rightarrow>
          Inr (left, depth, suffix_depth, [Step_Doc (indent, mode, if mode = Break then broken else flat)])
      | LineSuffix _ \<Rightarrow> Inr (left, depth, if 0 \<le> depth then max suffix_depth depth else suffix_depth, []))"

fun step_size :: "fit_step \<Rightarrow> nat" where
  "step_size Group_End = 1"
| "step_size (Step_Doc (indent, mode, d)) = 2 * Suc (size d)"

abbreviation steps_size :: "fit_step list \<Rightarrow> nat" where
  "steps_size steps \<equiv> \<Sum>s\<leftarrow>steps. step_size s"

declare measure_doc.simps [simp del]

lemma steps_size_docs: "(\<Sum>d\<leftarrow>ds. Suc (Suc (2 * size d))) = 2 * size_list size ds"
  by (induction ds) auto

lemma measure_doc_pushes:
  "measure_doc width left depth suffix_depth (indent, mode, d) = Inr (left', depth', suffix_depth', pushed) \<Longrightarrow>
    steps_size pushed < 2 * Suc (size d)"
  by (cases d) (auto simp: measure_doc.simps Let_def steps_size_docs comp_def split: if_splits)

function fits_loop ::
  "nat \<Rightarrow> int \<Rightarrow> int \<Rightarrow> int \<Rightarrow> fit_step list \<Rightarrow> cmd list \<Rightarrow> bool"
where
  "fits_loop width left depth suffix_depth (Group_End # steps) rest =
     fits_loop width left (depth - 1) (min suffix_depth (depth - 1)) steps rest"
| "fits_loop width left depth suffix_depth (Step_Doc cmd # steps) rest =
     (case measure_doc width left depth suffix_depth cmd of
        Inl answer \<Rightarrow> answer
      | Inr (left', depth', suffix_depth', pushed) \<Rightarrow>
          left' \<ge> 0 \<and> fits_loop width left' depth' suffix_depth' (pushed @ steps) rest)"
| "fits_loop width left depth suffix_depth [] [] = True"
| "fits_loop width left depth suffix_depth [] (cmd # rest) =
     (case measure_doc width left (-1) (-1) cmd of
        Inl answer \<Rightarrow> answer
      | Inr (left', depth', suffix_depth', pushed) \<Rightarrow>
          left' \<ge> 0 \<and> fits_loop width left' depth' suffix_depth' pushed rest)"
  by pat_completeness auto
termination
  by (relation "measure (\<lambda>(width, left, depth, suffix_depth, steps, rest).
      steps_size steps + (\<Sum>(indent, mode, d)\<leftarrow>rest. 2 * Suc (size d)))")
    (auto dest!: measure_doc_pushes)

definition fits :: "renderer \<Rightarrow> cmd \<Rightarrow> cmd list \<Rightarrow> bool" where
  "fits r next rest =
     fits_loop (r_width r) (int (r_width r) - int (if r_at_line_start r then r_indent r else r_col r)) 0 (-1)
       [Step_Doc next] rest"

text \<open>Whether a comment, or text that spans lines, follows before a line break that is certain.
  The flag of a document says that it stands directly in a broken group.\<close>

fun look_doc :: "bool \<times> doc \<Rightarrow> bool + (bool \<times> doc) list" where
  "look_doc (broken, d) =
     (case d of
        Doc_Nil \<Rightarrow> Inr []
      | Text text \<Rightarrow> if LF \<in> set text then Inl True else Inr []
      | Comment _ \<Rightarrow> Inl True
      | LineSuffix _ \<Rightarrow> Inl True
      | Settle \<Rightarrow> Inl True
      | Line \<Rightarrow> if broken then Inl False else Inr []
      | SoftLine \<Rightarrow> if broken then Inl False else Inr []
      | HardLine \<Rightarrow> Inl False
      | BlankLine \<Rightarrow> Inl False
      | OwnLine _ \<Rightarrow> Inl False
      | Group inner forced \<Rightarrow> Inr [(forced, inner)]
      | Nest inner \<Rightarrow> Inr [(broken, inner)]
      | Concat parts \<Rightarrow> Inr (map (\<lambda>part. (broken, part)) parts)
      | IfBreak on_break flat \<Rightarrow> Inr [(broken, if broken then on_break else flat)])"

declare look_doc.simps [simp del]

lemma look_doc_pushes:
  "look_doc (broken, d) = Inr pushed \<Longrightarrow> (\<Sum>(b, x)\<leftarrow>pushed. Suc (size x)) < Suc (size d)"
  by (cases d) (auto simp: look_doc.simps comp_def size_docs split: if_splits)

function comment_loop :: "(bool \<times> doc) list \<Rightarrow> cmd list \<Rightarrow> bool" where
  "comment_loop (s # stack) rest =
     (case look_doc s of Inl answer \<Rightarrow> answer | Inr pushed \<Rightarrow> comment_loop (pushed @ stack) rest)"
| "comment_loop [] [] = False"
| "comment_loop [] ((indent, mode, d) # rest) =
     (case look_doc (mode = Break, d) of
        Inl answer \<Rightarrow> answer
      | Inr pushed \<Rightarrow> comment_loop pushed rest)"
  by pat_completeness auto
termination
  by (relation "measure (\<lambda>(stack, rest). (\<Sum>(b, x)\<leftarrow>stack. Suc (size x)) +
      (\<Sum>(indent, mode, d)\<leftarrow>rest. Suc (size d)))")
    (auto dest!: look_doc_pushes)

definition comment_before_line_break :: "cmd list \<Rightarrow> bool" where
  "comment_before_line_break rest = comment_loop [] rest"

subsection \<open>The loop\<close>

text \<open>One document from the stack: the renderer after it, and what to push.\<close>

fun render_cmd :: "cmd \<Rightarrow> cmd list \<Rightarrow> renderer \<Rightarrow> renderer \<times> cmd list" where
  "render_cmd (indent, mode, d) stack r =
     (case d of
        Doc_Nil \<Rightarrow> (r, [])
      | Text text \<Rightarrow> (write_text text indent r, [])
      | Comment text \<Rightarrow> (write_comment text indent r, [])
      | Line \<Rightarrow> (if mode = Break then newline indent r else write_text [SP] indent r, [])
      | SoftLine \<Rightarrow> (if mode = Break then newline indent r else r, [])
      | HardLine \<Rightarrow> (newline indent r, [])
      | BlankLine \<Rightarrow> (blank_line indent r, [])
      | Group inner forced \<Rightarrow>
          (r, [(indent, if forced \<or> \<not> fits r (indent, Flat, inner) stack then Break else Flat, inner)])
      | Nest inner \<Rightarrow> (r, [(indent + INDENT, mode, inner)])
      | Concat parts \<Rightarrow> (r, map (\<lambda>part. (indent, mode, part)) parts)
      | IfBreak broken flat \<Rightarrow> (r, [(indent, mode, if mode = Break then broken else flat)])
      | LineSuffix text \<Rightarrow>
          (let r1 = hold_suffix text indent r
           in (if comment_before_line_break stack then settle_suffixes r1 else r1, []))
      | OwnLine text \<Rightarrow> (own_line text indent r, [])
      | Settle \<Rightarrow> (if r_suffixes r \<noteq> [] then settle_suffixes r else r, []))"

declare render_cmd.simps [simp del]

lemma render_cmd_pushes:
  "render_cmd (indent, mode, d) stack r = (r', pushed) \<Longrightarrow> (\<Sum>(i, m, x)\<leftarrow>pushed. Suc (size x)) < Suc (size d)"
  by (cases d) (auto simp: render_cmd.simps comp_def size_docs Let_def)

function render_loop :: "cmd list \<Rightarrow> renderer \<Rightarrow> renderer" where
  "render_loop [] r = r"
| "render_loop (cmd # stack) r =
     (case render_cmd cmd stack r of (r', pushed) \<Rightarrow> render_loop (pushed @ stack) r')"
  by pat_completeness auto
termination
  by (relation "measure (\<lambda>(stack, r). \<Sum>(indent, mode, d)\<leftarrow>stack. Suc (size d))")
    (auto dest!: render_cmd_pushes [OF sym])

definition renderer_new :: "nat \<Rightarrow> renderer" where
  "renderer_new width =
     \<lparr>r_width = width, r_out = [], r_col = 0, r_at_line_start = True, r_indent = 0, r_suffixes = [],
       r_closed = False, r_after_comment = False\<rparr>"

definition render :: "doc \<Rightarrow> nat \<Rightarrow> string" where
  "render d width = finish_out (render_loop [(0, Break, d)] (renderer_new width))"
end
