(* ===== verification/Doc_Proofs.thy ===== *)
theory Doc_Proofs
  imports Doc "HOL-Library.Multiset"
begin

text \<open>
  What the renderer of \<open>Doc\<close> guarantees of its output. The laws an operation on lines has to keep
  are a locale, \<open>line_law\<close>: which texts may be written anywhere, which end their line, and what
  stays good when a line is ended or cut. It is interpreted twice: lines do not end in a space,
  and a line comment ends its line. What is written, and in which order, is shown on the whole
  loop; measuring a group is shown to be what a plain definition of its first line says.
\<close>

section \<open>Text\<close>

lemma trim_start_drop: "\<exists>n. trim_start c s = drop n s"
  unfolding trim_start_def by (metis dropWhile_eq_drop)

lemma trim_end_take: "\<exists>n. trim_end c s = take n s"
proof -
  obtain n where "dropWhile (\<lambda>x. x = c) (rev s) = drop n (rev s)" by (metis dropWhile_eq_drop)
  then show ?thesis by (auto simp: trim_end_def rev_drop)
qed

lemma trim_end_id [simp]: "s = [] \<or> last s \<noteq> c \<Longrightarrow> trim_end c s = s"
  by (cases s rule: rev_cases) (auto simp: trim_end_def)

lemma trim_end_last: "trim_end c s \<noteq> [] \<Longrightarrow> last (trim_end c s) \<noteq> c"
  using hd_dropWhile [of "\<lambda>x. x = c" "rev s"] by (auto simp: trim_end_def last_rev)

lemma trim_end_twice [simp]: "trim_end c (trim_end c s) = trim_end c s"
  using trim_end_last [of c s] by (cases "trim_end c s = []") auto

lemma trim_end_split: "\<exists>n. s = trim_end c s @ replicate n c"
proof -
  obtain n where "takeWhile (\<lambda>x. x = c) (rev s) = replicate n c"
    by (metis (mono_tags, lifting) replicate_eqI set_takeWhileD)
  then have "rev s = replicate n c @ dropWhile (\<lambda>x. x = c) (rev s)"
    by (metis takeWhile_dropWhile_id)
  then have "s = trim_end c s @ replicate n c"
    unfolding trim_end_def by (metis rev_append rev_replicate rev_rev_ident)
  then show ?thesis ..
qed

lemma LF_not_SP [simp]: "LF \<noteq> SP" "SP \<noteq> LF"
  by (simp_all add: LF_def)

lemma last_line_suffix: "s = take (length s - length (last_line s)) s @ last_line s"
proof -
  have "rev s = takeWhile (\<lambda>x. x \<noteq> LF) (rev s) @ dropWhile (\<lambda>x. x \<noteq> LF) (rev s)" by simp
  then have "s = rev (dropWhile (\<lambda>x. x \<noteq> LF) (rev s)) @ last_line s"
    unfolding last_line_def by (metis rev_append rev_rev_ident)
  then show ?thesis by (metis append_eq_conv_conj append_take_drop_id diff_diff_cancel length_append
        length_drop diff_le_self add_diff_cancel_right')
qed

lemma last_line_no_LF: "LF \<notin> set (last_line s)"
  using set_takeWhileD [of LF "\<lambda>x. x \<noteq> LF" "rev s"] by (auto simp: last_line_def)

lemma drop_in_last_line:
  assumes "length s - length (last_line s) \<le> n"
  shows "\<exists>k. drop n s = drop k (last_line s)"
proof -
  have "drop n s = drop n (take (length s - length (last_line s)) s @ last_line s)"
    using last_line_suffix [of s] by simp
  then show ?thesis using assms by auto
qed

section \<open>A law of lines\<close>

locale line_law =
  fixes good :: "string \<Rightarrow> bool"   \<comment> \<open>output that may be continued\<close>
    and plain :: "string \<Rightarrow> bool"  \<comment> \<open>text that may stand anywhere\<close>
    and final :: "string \<Rightarrow> bool"  \<comment> \<open>text that ends its line\<close>
  assumes good_Nil: "good []"
    and good_plain: "good out \<Longrightarrow> plain t \<Longrightarrow> good (out @ t)"
    and good_take: "good out \<Longrightarrow> length out - length (last_line out) \<le> n \<Longrightarrow> good (take n out)"
    and good_trim: "good out \<Longrightarrow> good (trim_end SP out)"
    and good_close: "good out \<Longrightarrow> trim_end SP out = out \<Longrightarrow> good (out @ [LF])"
    and good_final: "good out \<Longrightarrow> final t \<Longrightarrow> good (out @ t @ [LF])"
    and good_finish: "good out \<Longrightarrow> last out = LF \<Longrightarrow> out \<noteq> [] \<Longrightarrow> trim_end LF out \<noteq> [] \<Longrightarrow>
      good (trim_end LF out @ [LF])"
    and plain_spaces: "plain (spaces n)"
    and plain_drop: "plain t \<Longrightarrow> plain (drop n t)"
    and plain_last_line: "good out \<Longrightarrow> plain (last_line out)"
    and final_end: "final t \<Longrightarrow> t \<noteq> [] \<and> last t \<noteq> SP"

text \<open>The documents a law is about: the leaves of the document satisfy a predicate.\<close>

fun leaves_ok :: "(doc \<Rightarrow> bool) \<Rightarrow> doc \<Rightarrow> bool" where
  "leaves_ok P (Group d forced) = leaves_ok P d"
| "leaves_ok P (Nest d) = leaves_ok P d"
| "leaves_ok P (Concat ds) = (\<forall>d \<in> set ds. leaves_ok P d)"
| "leaves_ok P (IfBreak a b) = (leaves_ok P a \<and> leaves_ok P b)"
| "leaves_ok P d = P d"

fun leaf_ok :: "(string \<Rightarrow> bool) \<Rightarrow> (string \<Rightarrow> bool) \<Rightarrow> doc \<Rightarrow> bool" where
  "leaf_ok plain final (Text t) = plain t"
| "leaf_ok plain final (Comment t) = plain t"
| "leaf_ok plain final (LineSuffix t) = final t"
| "leaf_ok plain final (OwnLine t) = (plain t \<or> final t)"
| "leaf_ok plain final _ = True"

context line_law
begin

definition inv :: "renderer \<Rightarrow> bool" where
  "inv r \<longleftrightarrow> length (r_suffixes r) \<le> 1 \<and> (\<forall>s \<in> set (r_suffixes r). final (s_text s)) \<and>
     (r_at_line_start r \<longrightarrow> r_out r = [] \<or> last (r_out r) = LF) \<and>
     (if r_closed r
      then r_suffixes r = [] \<and> \<not> r_at_line_start r \<and> good (trim_end SP (r_out r) @ [LF])
      else good (r_out r))"

lemma plain_SP: "plain [SP]"
  using plain_spaces [of 1] by simp

lemma good_spaces_final: "good out \<Longrightarrow> final t \<Longrightarrow> good (out @ spaces n @ t @ [LF])"
  using good_final [OF good_plain [OF _ plain_spaces]] by simp

lemma trim_end_final: "final t \<Longrightarrow> trim_end SP (out @ t) = out @ t"
  using final_end [of t] by simp

lemma suffixes_cases:
  assumes "inv r"
  obtains "r_suffixes r = []" | s where "r_suffixes r = [s]" "final (s_text s)" "\<not> r_closed r"
proof (cases "r_suffixes r")
  case (Cons s ss)
  then have "r_suffixes r = [s]" using assms by (cases ss) (auto simp: inv_def)
  then show ?thesis using assms that(2) [of s] by (auto simp: inv_def split: if_splits)
qed (use that in blast)

lemma newline_inv:
  assumes "inv r"
  shows "inv (newline indent r)" and "\<not> r_closed (newline indent r)" and "r_suffixes (newline indent r) = []"
    and "r_at_line_start (newline indent r)"
proof -
  show "\<not> r_closed (newline indent r)" "r_at_line_start (newline indent r)"
    by (simp_all add: newline_def Let_def)
  from assms show "r_suffixes (newline indent r) = []"
    by (cases rule: suffixes_cases) (auto simp: newline_def Let_def write_suffix_def)
  from assms have "good (r_out (newline indent r))"
  proof (cases rule: suffixes_cases)
    case 1
    then show ?thesis
      using assms good_close [OF good_trim] by (auto simp: newline_def Let_def inv_def split: if_splits)
  next
    case (2 s)
    then have g: "good (r_out r)" using assms by (simp add: inv_def)
    have "good (trim_end SP (r_out r) @ [SP] @ s_text s @ [LF])"
      using good_spaces_final [OF good_trim [OF g] 2(2), of 1] by simp
    moreover have "good (r_out r @ spaces (r_indent r) @ s_text s @ [LF])"
      by (rule good_spaces_final [OF g 2(2)])
    ultimately show ?thesis
      using 2 trim_end_final [of "s_text s" "r_out r @ spaces (r_indent r)"]
        trim_end_final [of "s_text s" "trim_end SP (r_out r) @ [SP]"]
      by (simp add: newline_def Let_def write_suffix_def)
  qed
  then show "inv (newline indent r)"
    using \<open>r_suffixes (newline indent r) = []\<close> by (simp add: inv_def newline_def Let_def)
qed

lemma settle_inv:
  assumes "inv r" and "r_suffixes r \<noteq> []"
  shows "inv (settle_suffixes r)" and "\<not> r_closed (settle_suffixes r)" and "r_suffixes (settle_suffixes r) = []"
proof -
  obtain s where s: "r_suffixes r = [s]" "final (s_text s)" "\<not> r_closed r"
    using assms by (auto elim: suffixes_cases)
  then have g: "good (r_out r)" using assms(1) by (simp add: inv_def)
  have "good (settle_suffix (length (r_out r) - length (last_line (r_out r))) n s (r_out r))" for n
  proof -
    let ?start = "length (r_out r) - length (last_line (r_out r))"
    let ?at = "max (s_at s) ?start"
    let ?out = "trim_end SP (take ?at (r_out r))"
    have out: "good ?out" by (rule good_trim [OF good_take [OF g]]) simp
    define written where
      "written = (if ?start < length ?out then ?out @ [SP] else ?out @ spaces n) @ s_text s @ [LF]"
    have "good written"
      using good_spaces_final [OF out s(2), of 1] good_spaces_final [OF out s(2), of n]
      by (simp add: written_def)
    moreover have "plain (trim_start SP (drop ?at (r_out r)))"
      using drop_in_last_line [of "r_out r" ?at] trim_start_drop [of SP] plain_drop plain_last_line [OF g]
      by (metis max.cobounded2)
    ultimately have "good (written @ spaces (n + INDENT) @ trim_start SP (drop ?at (r_out r)))"
      using good_plain [OF good_plain [OF _ plain_spaces]] by (simp only: append_assoc [symmetric])
    with \<open>good written\<close> show ?thesis
      unfolding settle_suffix_def Let_def written_def by (simp only: append_assoc if_splits) simp
  qed
  then show "inv (settle_suffixes r)" "\<not> r_closed (settle_suffixes r)" "r_suffixes (settle_suffixes r) = []"
    using s by (simp_all add: settle_suffixes_def Let_def inv_def ends_with_def)
qed

lemma open_line_inv:
  assumes "inv r"
  shows "inv (open_line indent r)" and "\<not> r_closed (open_line indent r)"
    and "\<not> r_at_line_start (open_line indent r)"
proof -
  let ?r = "if r_closed r then newline indent r else r"
  have r: "inv ?r" "\<not> r_closed ?r" using assms newline_inv [OF assms, of indent] by auto
  then have g: "good (r_out ?r)" unfolding inv_def by metis
  then have "good (r_out ?r @ spaces (r_indent ?r))" using good_plain plain_spaces by blast
  then show "inv (open_line indent r)"
    using r g unfolding open_line_def Let_def inv_def by (auto split: if_splits)
  show "\<not> r_closed (open_line indent r)" "\<not> r_at_line_start (open_line indent r)"
    using r by (auto simp: open_line_def Let_def)
qed

lemma append_inv:
  assumes "inv r" and "\<not> r_closed r" and "\<not> r_at_line_start r" and "plain t"
  shows "inv (r\<lparr>r_out := r_out r @ t\<rparr>)"
  using assms good_plain by (auto simp: inv_def)

lemma inv_cong:
  "inv (r\<lparr>r_col := n\<rparr>) = inv r" "inv (r\<lparr>r_after_comment := b\<rparr>) = inv r" "inv (r\<lparr>r_indent := m\<rparr>) = inv r"
  by (simp_all add: inv_def)

lemma push_inv:
  assumes "inv r" and "\<not> r_closed r" and "\<not> r_at_line_start r" and "plain t"
  shows "inv (push t r)"
  using append_inv [OF assms] assms(2) by (simp add: push_def inv_def)

lemma write_text_inv:
  assumes i: "inv r" and p: "plain text"
  shows "inv (write_text text indent r)"
proof (cases "(if r_at_line_start r \<or> r_closed r then trim_start SP text else text) = []")
  case False
  define t where "t = (if r_at_line_start r \<or> r_closed r then trim_start SP text else text)"
  have t: "plain t" "t \<noteq> []" using p plain_drop trim_start_drop [of SP "text"] False by (auto simp: t_def)
  define r1 where "r1 = (if LF \<in> set t \<and> r_suffixes r \<noteq> [] then settle_suffixes r else r)"
  have "inv r1" using i settle_inv by (simp add: r1_def)
  note r2 = open_line_inv [OF this, of indent]
  define r3 where "r3 = (if r_after_comment (open_line indent r1) \<and>
      \<not> starts_with t {SP, CHR '')'', CHR '']'', CHR ''}'', CHR '',''}
    then (open_line indent r1)\<lparr>r_out := r_out (open_line indent r1) @ [SP]\<rparr> else open_line indent r1)"
  have "inv r3" "\<not> r_closed r3" "\<not> r_at_line_start r3"
    using append_inv [OF r2 plain_SP] r2 by (simp_all add: r3_def)
  then have "inv (push t (r3\<lparr>r_after_comment := False\<rparr>))" using push_inv t by (simp add: inv_cong)
  then show ?thesis using t(2) by (simp add: write_text_def Let_def t_def [symmetric] r1_def [symmetric] r3_def [symmetric])
qed (simp add: write_text_def i)

lemma write_comment_inv:
  assumes i: "inv r" and p: "plain text"
  shows "inv (write_comment text indent r)"
proof -
  define r1 where "r1 = (if r_suffixes r \<noteq> [] then settle_suffixes r else r)"
  have "inv r1" using i settle_inv by (simp add: r1_def)
  then have "inv (if r_at_line_start r1 then r1\<lparr>r_indent := indent\<rparr> else r1)" by (simp add: inv_cong)
  note r3 = open_line_inv [OF this, of indent]
  note r4 = append_inv [OF r3 plain_SP]
  show ?thesis
    using append_inv [OF r3 p] append_inv [OF r4 _ _ p] r3
    by (simp add: write_comment_def Let_def r1_def [symmetric] inv_def)
qed

lemma hold_suffix_inv:
  assumes i: "inv r" and p: "final text"
  shows "inv (hold_suffix text indent r)" and "r_suffixes (hold_suffix text indent r) \<noteq> []"
proof -
  define r1 where "r1 = (if r_closed r then newline indent r else r)"
  have r1: "inv r1" "\<not> r_closed r1" using i newline_inv [OF i] by (simp_all add: r1_def)
  define r2 where "r2 = (if r_suffixes r1 \<noteq> [] then settle_suffixes r1 else r1)"
  have "inv r2" "\<not> r_closed r2" "r_suffixes r2 = []" using r1 settle_inv [OF r1(1)] by (simp_all add: r2_def)
  then show "inv (hold_suffix text indent r)" "r_suffixes (hold_suffix text indent r) \<noteq> []"
    using p by (simp_all add: hold_suffix_def Let_def r1_def [symmetric] r2_def [symmetric] inv_def)
qed

lemma fresh_line_inv:
  fixes indent :: nat
  assumes "inv r"
  defines "r1 \<equiv> (if \<not> r_at_line_start r \<or> r_closed r \<or> r_suffixes r \<noteq> [] then newline indent r else r)"
  shows "inv r1" and "\<not> r_closed r1" and "r_at_line_start r1"
  using assms newline_inv [OF assms(1)] by (auto simp: r1_def)

lemma blank_line_inv:
  assumes "inv r"
  shows "inv (blank_line indent r)"
proof -
  define r1 where "r1 = (if \<not> r_at_line_start r \<or> r_closed r \<or> r_suffixes r \<noteq> [] then newline indent r else r)"
  note f = fresh_line_inv [OF assms, of indent, folded r1_def]
  have "r_out r1 \<noteq> [] \<Longrightarrow> good (r_out r1 @ [LF])" using f by (auto simp: inv_def intro!: good_close)
  moreover have "blank_line indent r = (let r2 = r1\<lparr>r_indent := indent\<rparr>
      in if r_out r2 \<noteq> [] \<and> take 2 (rev (r_out r2)) \<noteq> [LF, LF] then r2\<lparr>r_out := r_out r2 @ [LF]\<rparr> else r2)"
    by (simp only: blank_line_def r1_def Let_def)
  ultimately show ?thesis using f by (auto simp: inv_def Let_def)
qed

lemma own_line_inv:
  assumes "inv r" and p: "plain text \<or> final text"
  shows "inv (own_line text indent r)"
proof -
  define r1 where "r1 = (if \<not> r_at_line_start r \<or> r_closed r \<or> r_suffixes r \<noteq> [] then newline indent r else r)"
  have f: "inv (r1\<lparr>r_indent := indent\<rparr>)" "r_suffixes r1 = []"
    using fresh_line_inv [OF assms(1), of indent] newline_inv [OF assms(1), of indent]
    by (auto simp: r1_def inv_cong)
  define r2 where "r2 = open_line indent (r1\<lparr>r_indent := indent\<rparr>)"
  note r2 = open_line_inv [OF f(1), of indent, folded r2_def]
  have "r_suffixes r2 = []"
    using f newline_inv(3) [OF f(1), of indent] by (auto simp: r2_def open_line_def Let_def)
  moreover have g: "good (r_out r2)" using r2 by (auto simp: inv_def)
  have "good (trim_end SP (r_out r2 @ text) @ [LF])"
    using p good_close [OF good_trim [OF good_plain [OF g]]] good_final [OF g]
    by (auto simp: trim_end_final)
  moreover have "own_line text indent r = (push text r2)\<lparr>r_closed := True\<rparr>"
    by (simp only: own_line_def Let_def r1_def r2_def)
  ultimately show ?thesis
    using r2 by (simp add: inv_def push_def)
qed

lemma finish_good:
  assumes "inv r"
  shows "good (finish_out r)"
proof -
  define r1 where "r1 = (if \<not> r_at_line_start r \<or> r_suffixes r \<noteq> [] then newline 0 r else r)"
  have "inv r1" "r_at_line_start r1" "\<not> r_closed r1"
    using assms newline_inv [OF assms, of 0] by (auto simp: r1_def inv_def split: if_splits)
  moreover have "finish_out r = (if trim_end LF (r_out r1) = [] then [] else trim_end LF (r_out r1) @ [LF])"
    by (simp only: finish_out_def Let_def r1_def)
  ultimately show ?thesis
    using good_finish [of "r_out r1"] good_Nil by (cases "r_out r1 = []") (auto simp: inv_def)
qed

lemma render_cmd_inv:
  assumes i: "inv r" and p: "leaves_ok (leaf_ok plain final) d"
    and s: "render_cmd (indent, mode, d) stack r = (r', pushed)"
  shows "inv r' \<and> (\<forall>(i, m, x) \<in> set pushed. leaves_ok (leaf_ok plain final) x)"
  using s p i newline_inv(1) [OF i] settle_inv(1) [OF i]
    settle_inv(1) [OF hold_suffix_inv [OF i]] hold_suffix_inv [OF i]
  by (cases d)
    (auto simp: render_cmd.simps Let_def write_text_inv write_comment_inv blank_line_inv own_line_inv plain_SP)

lemma render_loop_inv:
  "inv r \<Longrightarrow> \<forall>(i, m, d) \<in> set stack. leaves_ok (leaf_ok plain final) d \<Longrightarrow> inv (render_loop stack r)"
proof (induction stack r rule: render_loop.induct)
  case (2 cmd stack r)
  obtain indent mode d where cmd: "cmd = (indent, mode, d)" by (cases cmd)
  obtain r' pushed where s: "render_cmd (indent, mode, d) stack r = (r', pushed)" by fastforce
  have "inv r' \<and> (\<forall>(i, m, x) \<in> set pushed. leaves_ok (leaf_ok plain final) x)"
    using render_cmd_inv [OF 2(2) _ s] 2(3) cmd by simp
  then show ?case using 2(1) [of r' pushed] 2(3) s cmd by (auto simp: ball_Un)
qed simp

lemma render_good:
  assumes "leaves_ok (leaf_ok plain final) d"
  shows "good (render d width)"
  unfolding render_def
proof (rule finish_good, rule render_loop_inv)
  show "inv (renderer_new width)" by (simp add: inv_def renderer_new_def good_Nil)
qed (use assms in simp)

end

section \<open>No line ends in a space\<close>

definition no_space_ends :: "string \<Rightarrow> bool" where
  "no_space_ends s \<longleftrightarrow> successively (\<lambda>a b. b = LF \<longrightarrow> a \<noteq> SP) s"

lemma successively_take: "successively P s \<Longrightarrow> successively P (take n s)"
  by (metis append_take_drop_id successively_append_iff)

lemma successively_nth: "successively P s \<Longrightarrow> Suc i < length s \<Longrightarrow> P (s ! i) (s ! Suc i)"
proof (induction s arbitrary: i rule: induct_list012)
  case (3 x y zs)
  then show ?case by (cases i) auto
qed auto

lemma successively_no_LF: "LF \<notin> set t \<Longrightarrow> successively (\<lambda>a b. b = LF \<longrightarrow> a \<noteq> SP) t"
  by (induction t rule: induct_list012) auto

lemma trim_end_followed:
  assumes "trim_end LF s \<noteq> []" and "s \<noteq> []" and "last s = LF" and "successively P s"
  shows "P (last (trim_end LF s)) LF"
proof -
  obtain n where n: "s = trim_end LF s @ replicate n LF" using trim_end_split by blast
  then have "n \<noteq> 0" using assms(1,3) trim_end_last [of LF s] by (metis append_Nil2 replicate_0)
  then obtain m where "s = trim_end LF s @ LF # replicate m LF" using n by (cases n) auto
  then show ?thesis
    using assms(1,4) successively_append_iff [of P "trim_end LF s" "LF # replicate m LF"] by auto
qed

interpretation no_space: line_law no_space_ends "\<lambda>t. LF \<notin> set t" "\<lambda>t. LF \<notin> set t \<and> t \<noteq> [] \<and> last t \<noteq> SP"
proof unfold_locales
  show "no_space_ends (out @ t)" if "no_space_ends out" "LF \<notin> set t" for out t
    using that successively_no_LF [of t] by (cases t) (auto simp: no_space_ends_def successively_append_iff)
  show "no_space_ends (take n out)" if "no_space_ends out" for out n
    using that by (auto simp: no_space_ends_def intro: successively_take)
  show "no_space_ends (trim_end SP out)" if "no_space_ends out" for out
    using that trim_end_take [of SP out] by (auto simp: no_space_ends_def intro: successively_take)
  show "no_space_ends (out @ [LF])" if "no_space_ends out" "trim_end SP out = out" for out
  proof -
    have "out \<noteq> [] \<Longrightarrow> last out \<noteq> SP" using trim_end_last [of SP out] that(2) by simp
    then show ?thesis using that(1) by (auto simp: no_space_ends_def successively_append_iff)
  qed
  show "no_space_ends (out @ t @ [LF])" if "no_space_ends out" "LF \<notin> set t \<and> t \<noteq> [] \<and> last t \<noteq> SP" for out t
  proof -
    have "hd t \<noteq> LF" using that(2) hd_in_set [of t] by metis
    then show ?thesis
      using that successively_no_LF [of t] by (auto simp: no_space_ends_def successively_append_iff)
  qed
  show "no_space_ends (trim_end LF out @ [LF])"
    if "no_space_ends out" "last out = LF" "out \<noteq> []" "trim_end LF out \<noteq> []" for out
    using that trim_end_followed [OF that(4,3,2)] trim_end_take [of LF out]
    by (auto simp: no_space_ends_def successively_append_iff intro: successively_take)
  show "LF \<notin> set (drop n t)" if "LF \<notin> set t" for t :: string and n using that in_set_dropD by fastforce
qed (auto simp: no_space_ends_def last_line_no_LF)

text \<open>C24: No line the formatter writes ends in a space, however the document breaks, when its texts
  have no line breaks of their own and its line comments do not end in a space.\<close>

theorem no_line_ends_in_space:
  assumes "leaves_ok (leaf_ok (\<lambda>t. LF \<notin> set t) (\<lambda>t. LF \<notin> set t \<and> t \<noteq> [] \<and> last t \<noteq> SP)) d"
    and "Suc i < length (render d width)" and "render d width ! Suc i = LF"
  shows "render d width ! i \<noteq> SP"
  using successively_nth [OF no_space.render_good [OF assms(1), of width, unfolded no_space_ends_def] assms(2)]
    assms(3) by simp

section \<open>A line comment ends its line\<close>

text \<open>To say where a comment ends, let the last character of every line comment be a character
  \<open>z\<close> that stands nowhere else in the document.\<close>

definition ends_lines :: "char \<Rightarrow> string \<Rightarrow> bool" where
  "ends_lines z s \<longleftrightarrow> successively (\<lambda>a b. a = z \<longrightarrow> b = LF) s \<and> (s \<noteq> [] \<longrightarrow> last s \<noteq> z)"

definition marked :: "char \<Rightarrow> string \<Rightarrow> bool" where
  "marked z t \<longleftrightarrow> z \<noteq> SP \<and> z \<noteq> LF \<and> t \<noteq> [] \<and> last t = z \<and> z \<notin> set (butlast t)"

definition unmarked :: "char \<Rightarrow> string \<Rightarrow> bool" where
  "unmarked z t \<longleftrightarrow> z \<notin> set t"

lemma successively_unmarked: "z \<notin> set t \<Longrightarrow> successively (\<lambda>a b. a = z \<longrightarrow> b = LF) t"
  by (induction t rule: induct_list012) auto

lemma ends_lines_take:
  assumes "ends_lines z s" and "\<And>m. n = Suc m \<Longrightarrow> n < length s \<Longrightarrow> s ! m = z \<Longrightarrow> s ! Suc m \<noteq> LF"
  shows "ends_lines z (take n s)"
proof -
  have "last (take n s) \<noteq> z" if ne: "take n s \<noteq> []"
  proof (cases "n < length s")
    case True
    then obtain m where m: "n = Suc m" using ne by (cases n) auto
    then have "last (take n s) = s ! m" using True by (simp add: take_Suc_conv_app_nth)
    then show ?thesis
      using assms m True successively_nth [of "\<lambda>a b. a = z \<longrightarrow> b = LF" s m] by (auto simp: ends_lines_def)
  next
    case False
    then show ?thesis using assms(1) ne by (auto simp: ends_lines_def)
  qed
  then show ?thesis using assms(1) by (auto simp: ends_lines_def intro: successively_take)
qed

lemma nth_last_line:
  assumes "length s - length (last_line s) \<le> n" and "n < length s"
  shows "s ! n \<noteq> LF"
proof -
  let ?k = "length s - length (last_line s)"
  have "s ! n = (take ?k s @ last_line s) ! n" using last_line_suffix [of s] by simp
  also have "\<dots> = last_line s ! (n - ?k)" using assms by (simp add: nth_append)
  finally have "s ! n = last_line s ! (n - ?k)" .
  moreover have "length (last_line s) \<le> length s"
    by (metis last_line_def length_rev length_takeWhile_le)
  then have "n - ?k < length (last_line s)" using assms by linarith
  ultimately show ?thesis using last_line_no_LF [of s] by (metis nth_mem)
qed

lemma last_line_unmarked:
  assumes "ends_lines z s"
  shows "z \<notin> set (last_line s)"
proof
  assume "z \<in> set (last_line s)"
  then obtain xs ys where split: "last_line s = xs @ z # ys" by (meson split_list)
  define out where "out = take (length s - length (last_line s)) s @ xs"
  have s: "s = out @ z # ys" using last_line_suffix [of s] split by (simp add: out_def)
  show False
  proof (cases ys)
    case Nil
    then show ?thesis using assms s by (simp add: ends_lines_def)
  next
    case (Cons y ys')
    then have "y = LF" using assms s by (simp add: ends_lines_def successively_append_iff)
    then show ?thesis using last_line_no_LF [of s] split Cons by simp
  qed
qed

interpretation comment_end: line_law "\<lambda>s. (z \<noteq> SP \<and> z \<noteq> LF) \<longrightarrow> ends_lines z s"
  "\<lambda>t. (z \<noteq> SP \<and> z \<noteq> LF) \<longrightarrow> unmarked z t" "marked z" for z
proof (unfold_locales; (intro impI)?)
  assume z: "z \<noteq> SP \<and> z \<noteq> LF"
  show "ends_lines z (out @ t)"
    if "z \<noteq> SP \<and> z \<noteq> LF \<longrightarrow> ends_lines z out" "z \<noteq> SP \<and> z \<noteq> LF \<longrightarrow> unmarked z t" for out t
    using that z successively_unmarked [of z t] last_in_set [of t]
    by (cases "t = []") (auto simp: ends_lines_def unmarked_def successively_append_iff)
  show "unmarked z (spaces n)" for n using z by (simp add: unmarked_def)
  show "unmarked z (drop n t)" if "z \<noteq> SP \<and> z \<noteq> LF \<longrightarrow> unmarked z t" for n t
    using that z in_set_dropD by (fastforce simp: unmarked_def)
  show "unmarked z (last_line out)" if "z \<noteq> SP \<and> z \<noteq> LF \<longrightarrow> ends_lines z out" for out
    using that z last_line_unmarked by (simp add: unmarked_def)
  show "ends_lines z []" by (simp add: ends_lines_def)
  show "ends_lines z (out @ t @ [LF])"
    if g: "z \<noteq> SP \<and> z \<noteq> LF \<longrightarrow> ends_lines z out" and m: "marked z t" for out t
  proof -
    obtain u where u: "t = u @ [z]" "z \<notin> set u"
      using m by (metis append_butlast_last_id marked_def)
    then have "u \<noteq> [] \<Longrightarrow> last u \<noteq> z" using last_in_set [of u] by auto
    then show ?thesis
      using g u z successively_unmarked [OF u(2)] by (auto simp: ends_lines_def successively_append_iff)
  qed
  show "ends_lines z (out @ [LF])" if "z \<noteq> SP \<and> z \<noteq> LF \<longrightarrow> ends_lines z out" for out
    using that z by (auto simp: ends_lines_def successively_append_iff)
  show "ends_lines z (take n out)"
    if "z \<noteq> SP \<and> z \<noteq> LF \<longrightarrow> ends_lines z out" "length out - length (last_line out) \<le> n" for n out
    using that z nth_last_line [of out n] by (intro ends_lines_take) auto
  show "ends_lines z (trim_end SP out)" if g: "z \<noteq> SP \<and> z \<noteq> LF \<longrightarrow> ends_lines z out" for out
  proof -
    obtain n where n: "out = trim_end SP out @ replicate n SP" using trim_end_split by blast
    show ?thesis
    proof (cases n)
      case (Suc m)
      then have "ends_lines z (trim_end SP out @ SP # replicate m SP)" using g n z by simp
      then show ?thesis by (auto simp: ends_lines_def successively_append_iff)
    qed (use g n z in simp)
  qed
  show "ends_lines z (trim_end LF out @ [LF])"
    if "z \<noteq> SP \<and> z \<noteq> LF \<longrightarrow> ends_lines z out" for out
    using that z trim_end_take [of LF out]
    by (auto simp: ends_lines_def successively_append_iff intro: successively_take)
qed (auto simp: marked_def)

text \<open>C7: A line comment never comments out what follows it: wherever the layout puts a comment that
  runs to the end of its line, whether it waits for the end of the line or has a line of its
  own, the next character of the output is a line break. The end of each such comment is marked
  by a character \<open>z\<close> that the document has nowhere else.\<close>

theorem line_comment_ends_its_line:
  assumes "leaves_ok (leaf_ok (unmarked z) (marked z)) d" and "z \<noteq> SP" and "z \<noteq> LF"
    and "i < length (render d width)" and "render d width ! i = z"
  shows "Suc i < length (render d width) \<and> render d width ! Suc i = LF"
proof -
  have "leaf_ok (unmarked z) (marked z) = leaf_ok (\<lambda>t. z \<noteq> SP \<and> z \<noteq> LF \<longrightarrow> unmarked z t) (marked z)"
    using assms(2,3) by simp
  then have "leaves_ok (leaf_ok (\<lambda>t. z \<noteq> SP \<and> z \<noteq> LF \<longrightarrow> unmarked z t) (marked z)) d" using assms(1) by simp
  then have "z \<noteq> SP \<and> z \<noteq> LF \<longrightarrow> ends_lines z (render d width)" by (rule comment_end.render_good)
  then have e: "ends_lines z (render d width)" using assms(2,3) by simp
  have "Suc i < length (render d width)"
  proof (rule ccontr)
    assume "\<not> Suc i < length (render d width)"
    then have "i = length (render d width) - 1" using assms(4) by linarith
    moreover have ne: "render d width \<noteq> []" using assms(4) by auto
    ultimately have "last (render d width) = z" using assms(5) by (simp add: last_conv_nth)
    then show False using e ne by (simp add: ends_lines_def)
  qed
  then show ?thesis
    using e assms(5) successively_nth [of "\<lambda>a b. a = z \<longrightarrow> b = LF" "render d width" i]
    by (simp add: ends_lines_def)
qed
section \<open>What is written\<close>

definition ink :: "string \<Rightarrow> string" where
  "ink s = filter (\<lambda>c. c \<noteq> SP \<and> c \<noteq> LF) s"

lemma ink_simps [simp]:
  "ink [] = []" "ink (s @ t) = ink s @ ink t" "ink (spaces n) = []" "ink [LF] = []" "ink [SP] = []"
  "ink (SP # s) = ink s" "ink (LF # s) = ink s"
  by (simp_all add: ink_def)

lemma ink_dropWhile: "P SP \<or> P LF \<Longrightarrow> \<forall>c. P c \<longrightarrow> c = SP \<or> c = LF \<Longrightarrow> ink (dropWhile P s) = ink s"
  by (induction s) (auto simp: ink_def)

lemma ink_trim [simp]: "ink (trim_start SP s) = ink s" "ink (trim_end SP s) = ink s" "ink (trim_end LF s) = ink s"
proof -
  have rev_ink: "ink (rev t) = rev (ink t)" for t by (simp add: ink_def rev_filter)
  show "ink (trim_start SP s) = ink s" by (simp add: trim_start_def ink_dropWhile)
  show "ink (trim_end SP s) = ink s" by (simp add: trim_end_def rev_ink ink_dropWhile)
  show "ink (trim_end LF s) = ink s" by (simp add: trim_end_def rev_ink ink_dropWhile)
qed

lemma ink_take_drop: "ink (take n s) @ ink (drop n s) = ink s"
  by (metis append_take_drop_id ink_simps(2))

text \<open>What is written or waits to be written.\<close>

definition kept :: "renderer \<Rightarrow> char multiset" where
  "kept r = mset (ink (r_out r)) + (\<Sum>s\<leftarrow>r_suffixes r. mset (ink (s_text s)))"

lemma kept_update [simp]:
  "kept (r\<lparr>r_col := n\<rparr>) = kept r" "kept (r\<lparr>r_indent := n\<rparr>) = kept r"
  "kept (r\<lparr>r_after_comment := b\<rparr>) = kept r" "kept (r\<lparr>r_closed := b\<rparr>) = kept r"
  "kept (r\<lparr>r_at_line_start := b\<rparr>) = kept r"
  by (simp_all add: kept_def)

lemma write_suffixes_out:
  "mset (ink (r_out (fold write_suffix ss r))) = mset (ink (r_out r)) + (\<Sum>s\<leftarrow>ss. mset (ink (s_text s)))"
  "r_suffixes (fold write_suffix ss r) = r_suffixes r"
  by (induction ss arbitrary: r) (auto simp: write_suffix_def)

lemma newline_kept [simp]:
  "kept (newline indent r) = kept r" "r_suffixes (newline indent r) = []"
  "r_suffixes r = [] \<Longrightarrow> ink (r_out (newline indent r)) = ink (r_out r)"
  by (simp_all add: newline_def Let_def kept_def write_suffixes_out)

lemma open_line_kept [simp]:
  "kept (open_line indent r) = kept r" "r_suffixes r = [] \<Longrightarrow> r_suffixes (open_line indent r) = []"
  "r_suffixes r = [] \<Longrightarrow> ink (r_out (open_line indent r)) = ink (r_out r)"
proof -
  have "kept (r'\<lparr>r_out := r_out r' @ spaces n, r_col := m, r_at_line_start := False\<rparr>) = kept r'" for r' n m
    by (simp add: kept_def)
  then show "kept (open_line indent r) = kept r" by (simp add: open_line_def Let_def)
qed (simp_all add: open_line_def Let_def)

lemma settle_suffix_ink: "mset (ink (settle_suffix start n s out)) = mset (ink out) + mset (ink (s_text s))"
proof -
  let ?at = "max (s_at s) start"
  have "mset (ink out) = mset (ink (take ?at out)) + mset (ink (drop ?at out))"
    by (metis ink_take_drop mset_append)
  moreover have "ink (drop ?at out) = []" if "trim_start SP (drop ?at out) = []"
    using ink_trim(1) [of "drop ?at out"] that by simp
  ultimately show ?thesis by (cases "trim_start SP (drop ?at out) = []") (simp_all add: settle_suffix_def Let_def)
qed

lemma settle_kept [simp]: "kept (settle_suffixes r) = kept r" "r_suffixes (settle_suffixes r) = []"
proof -
  have "mset (ink (fold (settle_suffix start n) ss out)) = mset (ink out) + (\<Sum>s\<leftarrow>ss. mset (ink (s_text s)))"
    for start n ss out
    by (induction ss arbitrary: out) (auto simp: settle_suffix_ink)
  then show "kept (settle_suffixes r) = kept r"
    by (simp add: settle_suffixes_def Let_def kept_def rev_map [symmetric])
qed (simp add: settle_suffixes_def Let_def)

lemma write_text_kept:
  "kept (write_text text indent r) = kept r + mset (ink text)"
  "r_suffixes r = [] \<Longrightarrow> r_suffixes (write_text text indent r) = [] \<and>
     ink (r_out (write_text text indent r)) = ink (r_out r) @ ink text"
proof -
  define t where "t = (if r_at_line_start r \<or> r_closed r then trim_start SP text else text)"
  define r1 where "r1 = (if LF \<in> set t \<and> r_suffixes r \<noteq> [] then settle_suffixes r else r)"
  have w: "write_text text indent r = (if t = [] then r else
      let r3 = (if r_after_comment (open_line indent r1) \<and>
          \<not> starts_with t {SP, CHR '')'', CHR '']'', CHR ''}'', CHR '',''}
        then (open_line indent r1)\<lparr>r_out := r_out (open_line indent r1) @ [SP]\<rparr> else open_line indent r1)
      in push t (r3\<lparr>r_after_comment := False\<rparr>))"
    unfolding write_text_def Let_def t_def r1_def by (simp only:)
  have t: "ink t = ink text" by (simp add: t_def)
  have push: "kept (push t r') = kept r' + mset (ink t)" for r' by (simp add: push_def kept_def)
  have space: "kept (r'\<lparr>r_out := r_out r' @ [SP]\<rparr>) = kept r'" for r' by (simp add: kept_def)
  have "kept r1 = kept r" by (simp add: r1_def)
  then show "kept (write_text text indent r) = kept r + mset (ink text)"
    using t by (auto simp: w Let_def push space)
  show "r_suffixes (write_text text indent r) = [] \<and>
      ink (r_out (write_text text indent r)) = ink (r_out r) @ ink text" if "r_suffixes r = []"
  proof -
    have "r1 = r" using that by (simp add: r1_def)
    then show ?thesis using t that by (auto simp: w Let_def push_def)
  qed
qed

lemma write_comment_kept:
  "kept (write_comment text indent r) = kept r + mset (ink text)"
  "r_suffixes r = [] \<Longrightarrow> r_suffixes (write_comment text indent r) = [] \<and>
     ink (r_out (write_comment text indent r)) = ink (r_out r) @ ink text"
proof -
  define r1 where "r1 = (if r_suffixes r \<noteq> [] then settle_suffixes r else r)"
  define r3 where "r3 = open_line indent (if r_at_line_start r1 then r1\<lparr>r_indent := indent\<rparr> else r1)"
  have w: "\<exists>n fresh. write_comment text indent r =
      (let r4 = (if \<not> fresh \<and> \<not> ends_with (r_out r3) {SP, CHR ''('', CHR ''['', CHR ''{''}
          then r3\<lparr>r_out := r_out r3 @ [SP]\<rparr> else r3)
       in r4\<lparr>r_out := r_out r4 @ text, r_col := n, r_after_comment := True\<rparr>)"
    unfolding write_comment_def Let_def r1_def r3_def by blast
  have "kept r3 = kept r" by (simp add: r3_def r1_def)
  then show "kept (write_comment text indent r) = kept r + mset (ink text)"
    using w by (auto simp: Let_def kept_def)
  show "r_suffixes (write_comment text indent r) = [] \<and>
      ink (r_out (write_comment text indent r)) = ink (r_out r) @ ink text" if "r_suffixes r = []"
  proof -
    have "r_suffixes r3 = []" "ink (r_out r3) = ink (r_out r)" using that by (simp_all add: r3_def r1_def)
    then show ?thesis using w by (auto simp: Let_def)
  qed
qed

lemma hold_suffix_kept: "kept (hold_suffix text indent r) = kept r + mset (ink text)"
proof -
  define r2 where "r2 = (let r1 = (if r_closed r then newline indent r else r)
      in if r_suffixes r1 \<noteq> [] then settle_suffixes r1 else r1)"
  have "kept r2 = kept r" by (simp add: r2_def Let_def)
  moreover have "hold_suffix text indent r =
      r2\<lparr>r_suffixes := r_suffixes r2 @ [\<lparr>s_text = text, s_at = length (r_out r2)\<rparr>]\<rparr>"
    by (simp only: hold_suffix_def Let_def r2_def)
  ultimately show ?thesis by (simp add: kept_def)
qed

lemma blank_line_kept:
  "kept (blank_line indent r) = kept r"
  "r_suffixes r = [] \<Longrightarrow> r_suffixes (blank_line indent r) = [] \<and> ink (r_out (blank_line indent r)) = ink (r_out r)"
proof -
  have "kept (r'\<lparr>r_indent := indent, r_out := r_out r' @ [LF]\<rparr>) = kept r'" for r' by (simp add: kept_def)
  then show "kept (blank_line indent r) = kept r" by (simp add: blank_line_def Let_def)
  have "r_out (newline indent r) \<noteq> []" by (simp add: newline_def Let_def)
  then show "r_suffixes r = [] \<Longrightarrow>
      r_suffixes (blank_line indent r) = [] \<and> ink (r_out (blank_line indent r)) = ink (r_out r)"
    by (simp add: blank_line_def Let_def)
qed

lemma own_line_kept:
  "kept (own_line text indent r) = kept r + mset (ink text)"
  "r_suffixes r = [] \<Longrightarrow> r_suffixes (own_line text indent r) = [] \<and>
     ink (r_out (own_line text indent r)) = ink (r_out r) @ ink text"
proof -
  have push: "kept (push text r') = kept r' + mset (ink text)" for r' by (simp add: push_def kept_def)
  then show "kept (own_line text indent r) = kept r + mset (ink text)"
    by (simp add: own_line_def Let_def)
qed (simp add: own_line_def Let_def push_def)
text \<open>The texts a document is about, in order: of the branches of an \<^verbatim>\<open>IfBreak\<close>, one.\<close>

fun readings :: "doc \<Rightarrow> string list set" where
  "readings (Text t) = {[t]}"
| "readings (Comment t) = {[t]}"
| "readings (LineSuffix t) = {[t]}"
| "readings (OwnLine t) = {[t]}"
| "readings (Group d forced) = readings d"
| "readings (Nest d) = readings d"
| "readings (Concat ds) = {concat tss |tss. list_all2 (\<lambda>d ts. ts \<in> readings d) ds tss}"
| "readings (IfBreak a b) = readings a \<union> readings b"
| "readings _ = {[]}"

abbreviation no_suffix :: "doc \<Rightarrow> bool" where
  "no_suffix \<equiv> leaves_ok (\<lambda>d. \<forall>t. d \<noteq> LineSuffix t)"

abbreviation stack_reads :: "cmd list \<Rightarrow> string list list \<Rightarrow> bool" where
  "stack_reads \<equiv> list_all2 (\<lambda>(i, m, d) ts. ts \<in> readings d)"

lemma render_cmd_keeps:
  assumes s: "render_cmd (indent, mode, d) stack r = (r', pushed)" and t: "stack_reads pushed tss"
  shows "\<exists>ts \<in> readings d. kept r' + mset (ink (concat (concat tss))) = kept r + mset (ink (concat ts)) \<and>
    (no_suffix d \<longrightarrow> r_suffixes r = [] \<longrightarrow> r_suffixes r' = [] \<and>
      ink (r_out r') @ ink (concat (concat tss)) = ink (r_out r) @ ink (concat ts) \<and>
      (\<forall>(i, m, x) \<in> set pushed. no_suffix x))"
proof (cases d)
  case (Concat ds)
  then have "r' = r" "pushed = map (\<lambda>d. (indent, mode, d)) ds" using s by (simp_all add: render_cmd.simps)
  then have "concat tss \<in> readings d" using t Concat by (auto simp: list_all2_map1)
  then show ?thesis using \<open>r' = r\<close> \<open>pushed = _\<close> Concat by fastforce
next
  case (IfBreak a b)
  then have "r' = r" "pushed = [(indent, mode, if mode = Break then a else b)]"
    using s by (simp_all add: render_cmd.simps)
  then show ?thesis using t IfBreak by (cases mode) (auto simp: list_all2_Cons1)
next
  case (LineSuffix u)
  then have "kept r' = kept r + mset (ink u)" "pushed = []"
    using s by (auto simp: render_cmd.simps Let_def hold_suffix_kept)
  then show ?thesis using t LineSuffix by simp
next
  case (Group inner forced)
  then have "r' = r" "\<exists>m. pushed = [(indent, m, inner)]" using s by (auto simp: render_cmd.simps)
  then show ?thesis using t Group by (fastforce simp: list_all2_Cons1)
next
  case (Nest inner)
  then have "r' = r" "pushed = [(indent + INDENT, mode, inner)]" using s by (auto simp: render_cmd.simps)
  then show ?thesis using t Nest by (fastforce simp: list_all2_Cons1)
next
  case Line
  then show ?thesis
    using s t by (auto simp: render_cmd.simps write_text_kept)
qed (use s t in \<open>auto simp: render_cmd.simps list_all2_Cons1 write_text_kept write_comment_kept
    blank_line_kept own_line_kept\<close>)

definition loop_keeps :: "cmd list \<Rightarrow> renderer \<Rightarrow> string list list \<Rightarrow> bool" where
  "loop_keeps stack r tss \<longleftrightarrow>
     stack_reads stack tss \<and> kept (render_loop stack r) = kept r + mset (ink (concat (concat tss))) \<and>
     ((\<forall>(i, m, d) \<in> set stack. no_suffix d) \<longrightarrow> r_suffixes r = [] \<longrightarrow>
       r_suffixes (render_loop stack r) = [] \<and>
       ink (r_out (render_loop stack r)) = ink (r_out r) @ ink (concat (concat tss)))"

lemma render_loop_keeps: "\<exists>tss. loop_keeps stack r tss"
proof (induction stack r rule: render_loop.induct)
  case (1 r)
  then show ?case by (simp add: loop_keeps_def)
next
  case (2 cmd stack r)
  obtain indent mode d where cmd: "cmd = (indent, mode, d)" by (cases cmd)
  obtain r' pushed where s: "render_cmd (indent, mode, d) stack r = (r', pushed)" by fastforce
  obtain tss where "loop_keeps (pushed @ stack) r' tss" using 2 [of r' pushed] s cmd by auto
  then have tss: "stack_reads (pushed @ stack) tss"
    "kept (render_loop (pushed @ stack) r') = kept r' + mset (ink (concat (concat tss)))"
    "(\<forall>(i, m, d) \<in> set (pushed @ stack). no_suffix d) \<Longrightarrow> r_suffixes r' = [] \<Longrightarrow>
      r_suffixes (render_loop (pushed @ stack) r') = [] \<and>
      ink (r_out (render_loop (pushed @ stack) r')) = ink (r_out r') @ ink (concat (concat tss))"
    by (simp_all only: loop_keeps_def)
  then obtain us vs where uv: "tss = us @ vs" "stack_reads pushed us" "stack_reads stack vs"
    by (auto simp: list_all2_append1)
  obtain ts where ts: "ts \<in> readings d"
    "kept r' + mset (ink (concat (concat us))) = kept r + mset (ink (concat ts))"
    "no_suffix d \<longrightarrow> r_suffixes r = [] \<longrightarrow> r_suffixes r' = [] \<and>
      ink (r_out r') @ ink (concat (concat us)) = ink (r_out r) @ ink (concat ts) \<and>
      (\<forall>(i, m, x) \<in> set pushed. no_suffix x)"
    using render_cmd_keeps [OF s uv(2)] by blast
  have "stack_reads (cmd # stack) (ts # vs)" using ts(1) uv(3) cmd by simp
  moreover have "kept (render_loop (cmd # stack) r) = kept r + mset (ink (concat (concat (ts # vs))))"
    using tss(2) ts(2) s cmd uv(1) by (simp add: add.assoc [symmetric])
  moreover have "r_suffixes (render_loop (cmd # stack) r) = [] \<and>
      ink (r_out (render_loop (cmd # stack) r)) = ink (r_out r) @ ink (concat (concat (ts # vs)))"
    if "\<forall>(i, m, d) \<in> set (cmd # stack). no_suffix d" "r_suffixes r = []"
    using tss(3) ts(3) that s cmd uv(1) by (fastforce simp: ball_Un)
  ultimately show ?case unfolding loop_keeps_def by blast
qed

lemma finish_ink:
  "mset (ink (finish_out r)) = kept r"
  "r_suffixes r = [] \<Longrightarrow> ink (finish_out r) = ink (r_out r)"
proof -
  have trim: "trim_end LF s = [] \<Longrightarrow> ink s = []" for s using ink_trim(3) [of s] by simp
  note here = trim [of "r_out (newline 0 r)"] trim [of "r_out r"]
  show "r_suffixes r = [] \<Longrightarrow> ink (finish_out r) = ink (r_out r)"
    using here by (auto simp: finish_out_def Let_def)
  then have "mset (ink (finish_out r)) = kept r" if "r_suffixes r = []"
    using that by (simp add: kept_def)
  moreover have "kept (newline 0 r) = mset (ink (r_out (newline 0 r)))" by (simp only: kept_def newline_kept) simp
  then have "mset (ink (finish_out r)) = kept r" if "r_suffixes r \<noteq> []"
    using that here(1) newline_kept(1) [of 0 r] by (auto simp: finish_out_def Let_def)
  ultimately show "mset (ink (finish_out r)) = kept r" by blast
qed

text \<open>C6: Formatting loses nothing and invents nothing: up to spaces and line breaks the output is made
  of the characters of the document's texts and comments, each as often as the document has it,
  for a choice of a branch of every \<^verbatim>\<open>IfBreak\<close>.\<close>

theorem render_keeps_all_text:
  "\<exists>ts \<in> readings d. mset (ink (render d width)) = mset (ink (concat ts))"
proof -
  obtain tss where "stack_reads [(0, Break, d)] tss"
    "kept (render_loop [(0, Break, d)] (renderer_new width)) =
      kept (renderer_new width) + mset (ink (concat (concat tss)))"
    using render_loop_keeps [of "[(0, Break, d)]" "renderer_new width"] unfolding loop_keeps_def by blast
  then show ?thesis
    by (auto simp: render_def finish_ink list_all2_Cons1 kept_def renderer_new_def)
qed

text \<open>C23: Without comments that wait for the end of their line the order is kept too: up to spaces and
  line breaks the output is the document's texts, one after the other.\<close>

theorem render_keeps_order:
  assumes "no_suffix d"
  shows "\<exists>ts \<in> readings d. ink (render d width) = ink (concat ts)"
proof -
  obtain tss where tss: "stack_reads [(0, Break, d)] tss"
    and "r_suffixes (render_loop [(0, Break, d)] (renderer_new width)) = [] \<and>
      ink (r_out (render_loop [(0, Break, d)] (renderer_new width))) =
      ink (r_out (renderer_new width)) @ ink (concat (concat tss))"
    using render_loop_keeps [of "[(0, Break, d)]" "renderer_new width"] assms
    by (auto simp: renderer_new_def loop_keeps_def)
  then show ?thesis by (auto simp: render_def finish_ink list_all2_Cons1 renderer_new_def)
qed
end
