(* ===== verification/Doc_Layout.thy ===== *)
theory Doc_Layout
  imports Doc_Proofs
begin

text \<open>
  Which groups of a document break. The walk of \<open>fits\<close> over its two stacks is shown to measure the
  first line of a plain recursive layout, and the flag of a group to say that its content holds
  a forced break; so a group is on one line exactly if it fits.
\<close>

section \<open>Forced breaks\<close>

fun holds_break :: "doc \<Rightarrow> bool" where
  "holds_break HardLine = True"
| "holds_break BlankLine = True"
| "holds_break (OwnLine _) = True"
| "holds_break (Group d _) = holds_break d"
| "holds_break (Nest d) = holds_break d"
| "holds_break (Concat ds) = (\<exists>d \<in> set ds. holds_break d)"
| "holds_break _ = False"

text \<open>Every group was made by \<open>group\<close>.\<close>

fun flags_ok :: "doc \<Rightarrow> bool" where
  "flags_ok (Group d forced) = (forced = forces_break d \<and> flags_ok d)"
| "flags_ok (Nest d) = flags_ok d"
| "flags_ok (Concat ds) = (\<forall>d \<in> set ds. flags_ok d)"
| "flags_ok (IfBreak a b) = (flags_ok a \<and> flags_ok b)"
| "flags_ok _ = True"

lemma forces_break_loop_append: "forces_break_loop (xs @ ys) = (forces_break_loop xs \<or> forces_break_loop ys)"
  by (induction xs rule: forces_break_loop.induct) (auto split: doc.splits)

lemma forces_break_loop_any: "forces_break_loop ds = (\<exists>d \<in> set ds. forces_break d)"
proof (induction ds)
  case (Cons d ds)
  have "forces_break_loop (d # ds) = (forces_break d \<or> forces_break_loop ds)"
    unfolding forces_break_def using forces_break_loop_append [of "[d]" ds] by (simp only: append_Cons append_Nil)
  then show ?case using Cons.IH by (simp del: forces_break_loop.simps(2))
qed simp

lemma forces_break_simps [simp]:
  "forces_break (Nest d) = forces_break d" "forces_break (Concat ds) = (\<exists>d \<in> set ds. forces_break d)"
  "forces_break (Group d forced) = forced"
proof -
  show "forces_break (Nest d) = forces_break d" by (simp add: forces_break_def)
  show "forces_break (Group d forced) = forced" by (simp add: forces_break_def)
  have "forces_break (Concat ds) = forces_break_loop (rev ds)" by (simp add: forces_break_def)
  then show "forces_break (Concat ds) = (\<exists>d \<in> set ds. forces_break d)"
    by (simp add: forces_break_loop_any)
qed

text \<open>C25: The flag of a group says that its content holds a forced break: what the loop over a stack
  finds, with the flags of the groups inside, is what a search of the whole content finds.\<close>

theorem forces_break_spec:
  assumes "flags_ok d"
  shows "forces_break d = holds_break d"
  using assms by (induction d) (auto simp: forces_break_def [of Line] forces_break_def [of SoftLine]
      forces_break_def [of HardLine] forces_break_def [of BlankLine] forces_break_def [of Doc_Nil]
      forces_break_def [of Settle] forces_break_def [of "Text _"] forces_break_def [of "Comment _"]
      forces_break_def [of "IfBreak _ _"] forces_break_def [of "LineSuffix _"] forces_break_def [of "OwnLine _"])

section \<open>The first line of a layout\<close>

text \<open>The text up to the first line break, and whether there is one. Comments do not count.\<close>

definition join :: "string \<times> bool \<Rightarrow> string \<times> bool \<Rightarrow> string \<times> bool" where
  "join a b = (if snd a then a else (fst a @ fst b, snd b))"

fun first_line :: "mode \<Rightarrow> doc \<Rightarrow> string \<times> bool" where
  "first_line m (Text t) = (t, False)"
| "first_line m Line = (if m = Break then ([], True) else ([SP], False))"
| "first_line m SoftLine = (if m = Break then ([], True) else ([], False))"
| "first_line m HardLine = ([], True)"
| "first_line m BlankLine = ([], True)"
| "first_line m (OwnLine t) = ([], True)"
| "first_line m (Group d forced) = first_line (if forced then Break else m) d"
| "first_line m (Nest d) = first_line m d"
| "first_line m (Concat ds) = foldr join (map (first_line m) ds) ([], False)"
| "first_line m (IfBreak a b) = (if m = Break then first_line m a else first_line m b)"
| "first_line m d = ([], False)"

definition line_of :: "(mode \<times> doc) list \<Rightarrow> string \<times> bool" where
  "line_of cs = foldr join (map (\<lambda>(m, d). first_line m d) cs) ([], False)"

lemma join_simps [simp]: "join ([], False) b = b" "join (s, True) b = (s, True)"
  "join (s, False) b = (s @ fst b, snd b)" "join a ([], False) = a"
  by (auto simp: join_def prod_eq_iff)

lemma join_assoc: "join (join a b) c = join a (join b c)"
  by (auto simp: join_def)

lemma line_of_simps [simp]: "line_of [] = ([], False)" "line_of ((m, d) # cs) = join (first_line m d) (line_of cs)"
  by (simp_all add: line_of_def)

lemma line_of_append: "line_of (xs @ ys) = join (line_of xs) (line_of ys)"
  by (induction xs) (auto simp: join_assoc)

lemma line_of_parts: "line_of (map (Pair m) ds) = first_line m (Concat ds)"
  by (simp add: line_of_def comp_def)

abbreviation no_breaks_in_text :: "doc \<Rightarrow> bool" where
  "no_breaks_in_text \<equiv> leaves_ok (\<lambda>d. \<forall>t. d = Text t \<longrightarrow> LF \<notin> set t)"

fun step_docs :: "fit_step list \<Rightarrow> (mode \<times> doc) list" where
  "step_docs [] = []"
| "step_docs (Group_End # ss) = step_docs ss"
| "step_docs (Step_Doc (i, m, d) # ss) = (m, d) # step_docs ss"

lemma step_docs_append [simp]: "step_docs (xs @ ys) = step_docs xs @ step_docs ys"
  by (induction xs rule: step_docs.induct) auto

lemma step_docs_map [simp]: "step_docs (map (\<lambda>part. Step_Doc (i, m, part)) ds) = map (Pair m) ds"
  by (induction ds) auto

text \<open>One step of the walk: it answers where the first line ends, or takes off what it measured.\<close>

lemma measure_doc_spec:
  assumes "suffix_depth \<le> -1" and "0 \<le> depth \<longrightarrow> no_suffix d" and "no_breaks_in_text d"
  shows "case measure_doc width left depth suffix_depth (i, m, d) of
      Inl answer \<Rightarrow> answer \<and> first_line m d = ([], True)
    | Inr (left', depth', suffix_depth', pushed) \<Rightarrow> suffix_depth' \<le> -1 \<and>
        (\<exists>s. join (s, False) (line_of (step_docs pushed)) = first_line m d \<and> left' = left - int (length s)) \<and>
        (\<forall>(m, x) \<in> set (step_docs pushed). no_breaks_in_text x \<and> (0 \<le> depth' \<longrightarrow> no_suffix x)) \<and>
        (0 \<le> depth' \<longrightarrow> 0 \<le> depth)"
  using assms
  by (cases d) (auto simp: measure_doc.simps Let_def line_of_parts simp del: first_line.simps(9))

definition rest_docs :: "cmd list \<Rightarrow> (mode \<times> doc) list" where
  "rest_docs rest = map (\<lambda>(i, m, d). (m, d)) rest"

definition walk_ok :: "int \<Rightarrow> fit_step list \<Rightarrow> cmd list \<Rightarrow> bool" where
  "walk_ok depth steps rest \<longleftrightarrow>
     (\<forall>(m, d) \<in> set (step_docs steps). no_breaks_in_text d \<and> (0 \<le> depth \<longrightarrow> no_suffix d)) \<and>
     (\<forall>(m, d) \<in> set (rest_docs rest). no_breaks_in_text d)"

text \<open>A step that does not answer leaves the rest of the line to be measured.\<close>

lemma measured:
  assumes "join (s, False) b = a" and "left' = left - int (length s)" and "0 \<le> left"
  shows "(0 \<le> left' \<and> (int (length (fst (join b c))) \<le> left')) \<longleftrightarrow> int (length (fst (join a c))) \<le> left"
  using assms by (auto simp: join_def split: if_splits)

lemma fits_loop_spec:
  "suffix_depth \<le> -1 \<Longrightarrow> walk_ok depth steps rest \<Longrightarrow> 0 \<le> left \<Longrightarrow>
    fits_loop width left depth suffix_depth steps rest \<longleftrightarrow>
    int (length (fst (line_of (step_docs steps @ rest_docs rest)))) \<le> left"
proof (induction width left depth suffix_depth steps rest rule: fits_loop.induct)
  case (1 width left depth suffix_depth steps rest)
  have "walk_ok (depth - 1) steps rest" using 1(3) by (fastforce simp: walk_ok_def)
  moreover have "min suffix_depth (depth - 1) \<le> -1" using 1(2) by linarith
  ultimately show ?case using 1(1,4) by simp
next
  case (2 width left depth suffix_depth cmd steps rest)
  obtain i m d where cmd: "cmd = (i, m, d)" by (cases cmd)
  have pre: "0 \<le> depth \<longrightarrow> no_suffix d" "no_breaks_in_text d" using 2(3) cmd by (auto simp: walk_ok_def)
  note spec = measure_doc_spec [OF 2(2) pre, where width = width and left = left and i = i and m = m]
  show ?case
  proof (cases "measure_doc width left depth suffix_depth (i, m, d)")
    case (Inl answer)
    then show ?thesis using spec 2(4) cmd by simp
  next
    case (Inr x)
    obtain left' depth' sd' pushed where x: "x = (left', depth', sd', pushed)" by (cases x)
    obtain s where s: "join (s, False) (line_of (step_docs pushed)) = first_line m d" "left' = left - int (length s)"
      and ok: "sd' \<le> -1" "\<forall>(m, x) \<in> set (step_docs pushed). no_breaks_in_text x \<and> (0 \<le> depth' \<longrightarrow> no_suffix x)"
        "0 \<le> depth' \<longrightarrow> 0 \<le> depth"
      using spec Inr x by auto
    have w: "walk_ok depth' (pushed @ steps) rest" using 2(3) ok by (auto simp: walk_ok_def cmd)
    have IH: "fits_loop width left' depth' sd' (pushed @ steps) rest \<longleftrightarrow>
        int (length (fst (line_of (step_docs (pushed @ steps) @ rest_docs rest)))) \<le> left'" if "0 \<le> left'"
      using 2(1) [OF _ refl refl refl] Inr x cmd ok(1) w that by simp
    then show ?thesis
      using measured [OF s 2(4), of "line_of (step_docs steps @ rest_docs rest)"] cmd Inr x
      by (auto simp: line_of_append)
  qed
next
  case (3 width left depth suffix_depth)
  then show ?case by (simp add: rest_docs_def)
next
  case (4 width left depth suffix_depth cmd rest)
  obtain i m d where cmd: "cmd = (i, m, d)" by (cases cmd)
  have pre: "no_breaks_in_text d" using 4(3) cmd by (auto simp: walk_ok_def rest_docs_def)
  note spec = measure_doc_spec [of "-1" "-1" d, OF _ _ pre, where width = width and left = left and i = i and m = m,
      simplified]
  show ?case
  proof (cases "measure_doc width left (-1) (-1) (i, m, d)")
    case (Inl answer)
    then show ?thesis using spec 4(4) cmd by (simp add: rest_docs_def)
  next
    case (Inr x)
    obtain left' depth' sd' pushed where x: "x = (left', depth', sd', pushed)" by (cases x)
    obtain s where s: "join (s, False) (line_of (step_docs pushed)) = first_line m d" "left' = left - int (length s)"
      and ok: "sd' \<le> -1" "\<forall>(m, x) \<in> set (step_docs pushed). no_breaks_in_text x \<and> (0 \<le> depth' \<longrightarrow> no_suffix x)"
      using spec Inr x by auto
    have w: "walk_ok depth' pushed rest" using 4(3) ok by (auto simp: walk_ok_def rest_docs_def)
    have IH: "fits_loop width left' depth' sd' pushed rest \<longleftrightarrow>
        int (length (fst (line_of (step_docs pushed @ rest_docs rest)))) \<le> left'" if "0 \<le> left'"
      using 4(1) [OF _ refl refl refl] Inr x cmd ok(1) w that by simp
    have "rest_docs (cmd # rest) = (m, d) # rest_docs rest" using cmd by (simp add: rest_docs_def)
    then show ?thesis
      using measured [OF s 4(4), of "line_of (rest_docs rest)"] cmd Inr x IH
      by (auto simp: line_of_append)
  qed
qed

text \<open>Measuring a group is measuring its first line, where no comment waits for the end of the line, no
  text has a line feed in it and the line is not too long yet: the walk over the document and over the
  rest of the stack then answers yes exactly if the text up to the first line break of the layout, with
  the group on one line, is no longer than what is left of the current line.\<close>

lemma fits_measures_first_line:
  assumes "no_suffix d" and "no_breaks_in_text d" and "\<forall>(i, m, x) \<in> set rest. no_breaks_in_text x"
    and "(if r_at_line_start r then r_indent r else r_col r) \<le> r_width r"
  shows "fits r (indent, Flat, d) rest \<longleftrightarrow>
    (if r_at_line_start r then r_indent r else r_col r) +
      length (fst (line_of ((Flat, d) # rest_docs rest))) \<le> r_width r"
proof -
  have "walk_ok 0 [Step_Doc (indent, Flat, d)] rest"
    using assms(1-3) by (auto simp: walk_ok_def rest_docs_def)
  from fits_loop_spec [OF _ this, of "-1"] assms(4) show ?thesis by (auto simp: fits_def)
qed

section \<open>A group that fits is one line\<close>

text \<open>A document that can be on one line.\<close>

fun one_line :: "doc \<Rightarrow> bool" where
  "one_line Doc_Nil = True"
| "one_line (Text t) = (LF \<notin> set t)"
| "one_line Line = True"
| "one_line SoftLine = True"
| "one_line (Group d forced) = (\<not> forced \<and> one_line d)"
| "one_line (Nest d) = one_line d"
| "one_line (Concat ds) = (\<forall>d \<in> set ds. one_line d)"
| "one_line (IfBreak a b) = (one_line a \<and> one_line b)"
| "one_line _ = False"

definition flat :: "doc \<Rightarrow> string" where
  "flat d = fst (first_line Flat d)"

lemma one_line_leaves:
  assumes "one_line d"
  shows "no_suffix d" and "no_breaks_in_text d"
  using assms by (induction d) auto

lemma join_flat:
  assumes "\<forall>d \<in> set ds. first_line Flat d = (flat d, False)"
  shows "foldr join (map (first_line Flat) ds) ([], False) = (concat (map flat ds), False)"
  using assms by (induction ds) auto

lemma one_line_first: "one_line d \<Longrightarrow> first_line Flat d = (flat d, False)"
proof (induction d)
  case (Concat ds)
  then show ?case using join_flat [of ds] by (simp add: flat_def)
qed (auto simp: flat_def)

lemma flat_Concat:
  assumes "one_line (Concat ds)"
  shows "flat (Concat ds) = concat (map flat ds)"
proof -
  have "first_line Flat (Concat ds) = (concat (map flat ds), False)"
    using join_flat [of ds] assms one_line_first by simp
  then show ?thesis unfolding flat_def [of "Concat ds"] by (simp only: fst_conv)
qed

lemma one_line_no_LF: "one_line d \<Longrightarrow> LF \<notin> set (flat d)"
proof (induction d)
  case (Concat ds)
  then show ?case by (auto simp: flat_Concat)
qed (auto simp: flat_def)

definition stack_text :: "cmd list \<Rightarrow> string" where
  "stack_text stack = concat (map (\<lambda>(i, m, d). flat d) stack)"

abbreviation all_flat :: "cmd list \<Rightarrow> bool" where
  "all_flat stack \<equiv> \<forall>(i, m, d) \<in> set stack. m = Flat \<and> one_line d"

lemma all_flat_line:
  assumes "all_flat stack"
  shows "line_of (rest_docs stack) = (stack_text stack, False)"
  using assms by (induction stack) (auto simp: rest_docs_def stack_text_def one_line_first)

text \<open>The renderer in the middle of a line without breaks: \<open>s\<close> was written on it.\<close>

definition writing :: "renderer \<Rightarrow> nat \<Rightarrow> string \<Rightarrow> bool" where
  "writing r width s \<longleftrightarrow> r_width r = width \<and> r_suffixes r = [] \<and> \<not> r_closed r \<and> \<not> r_after_comment r \<and>
     r_indent r = 0 \<and> r_out r = trim_start SP s \<and> r_at_line_start r = (trim_start SP s = []) \<and>
     (trim_start SP s \<noteq> [] \<longrightarrow> r_col r = length (trim_start SP s))"

lemma trim_start_append:
  "trim_start SP (s @ t) = (if trim_start SP s = [] then trim_start SP t else trim_start SP s @ t)"
  by (auto simp: trim_start_def dropWhile_append)

lemma write_text_writing:
  assumes "writing r width s" and "LF \<notin> set t"
  shows "writing (write_text t indent r) width (s @ t)"
proof -
  have "LF \<notin> set (trim_start SP t)" using assms(2) trim_start_drop [of SP t] in_set_dropD by fastforce
  then show ?thesis
    using assms
    by (auto simp: writing_def write_text_def Let_def trim_start_append open_line_def push_def split: if_splits)
qed
lemma trim_end_LF_line: "LF \<notin> set s \<Longrightarrow> trim_end LF (s @ [LF]) = s"
  by (cases s rule: rev_cases) (auto simp: trim_end_def)

lemma trim_both_Nil: "trim_end SP (trim_start SP s) = [] \<longleftrightarrow> trim_start SP s = []"
proof (cases "trim_start SP s")
  case (Cons x xs)
  then have "x \<noteq> SP" using hd_dropWhile_not [of "\<lambda>x. x = SP" s x xs] by (simp add: trim_start_def)
  then have "dropWhile (\<lambda>x. x = SP) (rev xs @ [x]) \<noteq> []" by (simp add: dropWhile_eq_Nil_iff)
  then show ?thesis using Cons by (simp add: trim_end_def)
qed simp

lemma render_loop_writing:
  "writing r width s \<Longrightarrow> all_flat stack \<Longrightarrow> length (trim_start SP s) + length (stack_text stack) \<le> width \<Longrightarrow>
    writing (render_loop stack r) width (s @ stack_text stack)"
proof (induction stack r arbitrary: s rule: render_loop.induct)
  case (1 r)
  then show ?case by (simp add: stack_text_def)
next
  case (2 cmd stack r)
  obtain indent d where cmd: "cmd = (indent, Flat, d)" "one_line d" using 2(3) by (cases cmd) auto
  have rest: "all_flat stack" using 2(3) by simp
  obtain r' pushed where s: "render_cmd cmd stack r = (r', pushed)" by fastforce
  have "\<exists>t. writing r' width (s @ t) \<and> flat d = t @ stack_text pushed \<and> all_flat pushed"
  proof (cases d)
    case (Text t)
    then show ?thesis using cmd s write_text_writing [OF 2(2), of t indent]
      by (intro exI [of _ t]) (auto simp: render_cmd.simps flat_def stack_text_def)
  next
    case Line
    then show ?thesis using cmd s write_text_writing [OF 2(2), of "[SP]" indent]
      by (intro exI [of _ "[SP]"]) (auto simp: render_cmd.simps flat_def stack_text_def)
  next
    case (Group inner forced)
    have start: "(if r_at_line_start r then r_indent r else r_col r) = length (trim_start SP s)"
      "r_width r = width"
      using 2(2) by (auto simp: writing_def)
    have one: "one_line inner" using cmd(2) Group by simp
    have "fits r (indent, Flat, inner) stack"
    proof (subst fits_measures_first_line)
      show "no_suffix inner" "no_breaks_in_text inner" using one_line_leaves [OF one] by auto
      show "\<forall>(i, m, x) \<in> set stack. no_breaks_in_text x" using rest one_line_leaves(2) by auto
      show "(if r_at_line_start r then r_indent r else r_col r) \<le> r_width r" using start 2(4) by simp
      show "(if r_at_line_start r then r_indent r else r_col r) +
          length (fst (line_of ((Flat, inner) # rest_docs stack))) \<le> r_width r"
        using start 2(4) cmd Group
        by (simp add: one_line_first [OF one] all_flat_line [OF rest] stack_text_def flat_def [of "Group _ _"])
    qed
    then show ?thesis
      using s cmd Group one 2(2)
      by (intro exI [of _ "[]"]) (auto simp: render_cmd.simps stack_text_def flat_def)
  next
    case (Concat parts)
    then have "flat d = stack_text (map (\<lambda>part. (indent, Flat, part)) parts)"
      using flat_Concat cmd(2) by (simp add: stack_text_def comp_def)
    then show ?thesis
      using s cmd Concat 2(2) by (intro exI [of _ "[]"]) (auto simp: render_cmd.simps)
  qed (use s cmd 2(2) in \<open>auto simp: render_cmd.simps stack_text_def flat_def intro!: exI [of _ "[]"]\<close>)
  then obtain t where t: "writing r' width (s @ t)" "flat d = t @ stack_text pushed" "all_flat pushed" by blast
  have whole: "stack_text (cmd # stack) = t @ stack_text (pushed @ stack)"
    using t(2) cmd by (simp add: stack_text_def)
  have "length (trim_start SP (s @ t)) \<le> length (trim_start SP s) + length t"
    by (simp add: trim_start_append) (simp add: trim_start_def length_dropWhile_le)
  then have "length (trim_start SP (s @ t)) + length (stack_text (pushed @ stack)) \<le> width"
    using 2(4) whole by simp
  then have "writing (render_loop (pushed @ stack) r') width ((s @ t) @ stack_text (pushed @ stack))"
    using 2(1) [of r' pushed "s @ t"] s t(1,3) rest by (auto simp: ball_Un)
  then show ?case using s whole by simp
qed

text \<open>A document that is one group, of content that can be on one line, is on one line exactly if it
  fits: it is laid out as its flat text without the spaces at its ends when that text is
  no longer than the width, and otherwise as its content with all its own breaks taken.\<close>

lemma group_on_one_line_iff_fits:
  assumes "one_line d"
  shows "render (Group d False) width =
    (if length (flat d) \<le> width
     then (let line = trim_end SP (trim_start SP (flat d)) in if line = [] then [] else line @ [LF])
     else render d width)"
proof -
  let ?r = "renderer_new width"
  have fit: "fits ?r (0, Flat, d) [] \<longleftrightarrow> length (flat d) \<le> width"
    using fits_measures_first_line [of d "[]" ?r 0] one_line_leaves [OF assms]
    by (simp add: renderer_new_def rest_docs_def one_line_first [OF assms])
  show ?thesis
  proof (cases "length (flat d) \<le> width")
    case True
    have "writing ?r width []" by (simp add: writing_def renderer_new_def trim_start_def)
    from render_loop_writing [OF this, of "[(0, Flat, d)]"]
    have w: "writing (render_loop [(0, Flat, d)] ?r) width (flat d)"
      using assms True by (simp add: stack_text_def trim_start_def)
    have "LF \<notin> set (trim_end SP (trim_start SP (flat d)))"
      using one_line_no_LF [OF assms] trim_start_drop [of SP "flat d"] trim_end_take [of SP "trim_start SP (flat d)"]
      by (metis in_set_dropD in_set_takeD)
    then have "trim_end LF (trim_end SP (trim_start SP (flat d)) @ [LF]) = trim_end SP (trim_start SP (flat d))"
      by (rule trim_end_LF_line)
    moreover have "trim_end SP (trim_start SP (flat d)) = [] \<longleftrightarrow> trim_start SP (flat d) = []"
      by (rule trim_both_Nil)
    ultimately have "finish_out (render_loop [(0, Flat, d)] ?r) =
        (let line = trim_end SP (trim_start SP (flat d)) in if line = [] then [] else line @ [LF])"
      using w by (auto simp: finish_out_def writing_def newline_def Let_def)
    then show ?thesis using True fit by (simp add: render_def render_cmd.simps)
  next
    case False
    then show ?thesis using fit by (simp add: render_def render_cmd.simps)
  qed
qed

section \<open>The renderer at work\<close>

text \<open>A call with a comment behind its name and one before the next expression.\<close>

definition noted :: doc where
  "noted = Concat [Text ''f('', LineSuffix ''-- #'', group (Concat [SoftLine, Text ''a,'', Line, Text ''b)'']),
     OwnLine ''--#'', Text ''c'']"

definition pair_doc :: doc where
  "pair_doc = Concat [Text ''('', Nest (Concat [SoftLine, Text ''a,'', Line, Text ''b'',
     IfBreak (Text '','') Doc_Nil]), SoftLine, Text '')'']"

lemma render_noted: "render noted 20 = ''f(a, b) -- #'' @ [LF] @ ''--#'' @ [LF] @ ''c'' @ [LF]"
  by code_simp

lemma render_pair: "render (Group pair_doc False) 5 = ''('' @ [LF] @ ''  a,'' @ [LF] @ ''  b,'' @ [LF] @ '')'' @ [LF]"
  by code_simp

theorem line_comment_ends_its_line_witness:
  "Suc 11 < length (render noted 20) \<and> render noted 20 ! Suc 11 = LF"
proof (rule line_comment_ends_its_line [where z = "CHR ''#''"])
  show "leaves_ok (leaf_ok (unmarked CHR ''#'') (marked CHR ''#'')) noted"
    by (simp add: noted_def group_def unmarked_def marked_def LF_def)
qed (simp_all add: render_noted LF_def)

theorem no_line_ends_in_space_witness: "render noted 20 ! 11 \<noteq> SP"
proof (rule no_line_ends_in_space)
  show "leaves_ok (leaf_ok (\<lambda>t. LF \<notin> set t) (\<lambda>t. LF \<notin> set t \<and> t \<noteq> [] \<and> last t \<noteq> SP)) noted"
    by (simp add: noted_def group_def LF_def)
qed (simp_all add: render_noted)

theorem render_keeps_order_witness:
  "\<exists>ts \<in> readings pair_doc. ink (render pair_doc 5) = ink (concat ts)"
  by (rule render_keeps_order) (simp add: pair_doc_def)

theorem forces_break_spec_witness: "forces_break noted = holds_break noted"
  by (rule forces_break_spec) (simp add: noted_def group_def)

end
