(* ===== verification/Bytecode.thy ===== *)
theory Bytecode
  imports Prelude "HOL-Library.Word"
begin

text \<open>
  The instruction table of the bytecode and what is generated from it (\<^verbatim>\<open>bytecode/ops.rs\<close>): the
  opcodes, the kinds of their operands, their effect on the height of the frame, the encoder and
  the decoder.

  The macro \<^verbatim>\<open>ops!\<close> makes one enum constructor with named fields for each row. Here an
  instruction is its opcode with the list of its operands, in the order of the row; the row of
  an opcode is \<open>op_kinds\<close> and \<open>op_effect\<close>. A list operand stays where it is in the code, as in the
  source: the offset of its first item and the number of items.
\<close>

section \<open>What a row is made of\<close>

type_synonym byte = "8 word"

datatype flow = F_Next | F_Branch | F_Jump | F_End

record effect =
  e_pops :: nat
  e_cut :: "nat option"
  e_pushes :: nat
  e_flow :: flow

datatype const_kind = CK_Any | CK_Str | CK_Tag | CK_Type | CK_Func | CK_Int | CK_Float

datatype kind =
    K_U8 | K_Byte | K_U16 | K_Slot | K_Cut | K_Upvalue | K_Global | K_Trait | K_Method | K_Builtin
  | K_Const | K_Str | K_Tag | K_Type | K_Func | K_Int | K_Float | K_Fwd | K_Rel | K_Strs | K_Captures
  | K_Segments

text \<open>A decoded operand: a number (a count, an index, an offset), a list, or the segments of a
  string, with the number of values among them as the code says it.\<close>

datatype arg = Num nat | Items nat nat | Segs nat nat nat

fun num :: "arg \<Rightarrow> nat" where
  "num (Num n) = n"
| "num _ = 0"

fun count :: "arg \<Rightarrow> nat" where
  "count (Items at n) = n"
| "count (Segs at n vs) = n"
| "count (Num n) = 0"

fun value_count :: "arg \<Rightarrow> nat" where
  "value_count (Segs at n vs) = vs"
| "value_count _ = 0"

text \<open>An operand as the verifier checks it.\<close>

datatype operand =
    Plain
  | Slot nat
  | Upvalue nat
  | Const_Operand nat const_kind
  | Builtin nat
  | Target nat
  | Strs nat nat
  | Captures nat nat
  | Segments nat nat nat

record upvalue_desc =
  is_local :: bool
  uv_index :: nat

datatype segment = Seg_Value | Literal nat

section \<open>The table\<close>

datatype basic_op =
    Op_Constant | Op_Unit | Op_True | Op_False | Op_Add | Op_Sub | Op_Mul | Op_Div | Op_Mod |
    Op_AddConst | Op_SubConst | Op_Eq | Op_Neq | Op_Lt | Op_Gt | Op_Leq | Op_Geq | Op_Negate |
    Op_Not | Op_Interpolate | Op_DisplayValue | Op_GetLocal | Op_SetLocal | Op_GetGlobal |
    Op_SetGlobal | Op_GetUpvalue | Op_GetClosure

datatype data_op =
    Op_Call | Op_TailCall | Op_TailCallKeep | Op_Return | Op_CallBuiltin | Op_MakeClosure |
    Op_MakeTuple | Op_MakeList | Op_MakeMap | Op_MakeSet | Op_MakeRecord | Op_MakeType |
    Op_RecordUpdate | Op_MakeRange | Op_ListConcat | Op_GetField | Op_GetFieldNamed

datatype control_op =
    Op_Jump | Op_JumpIfFalse | Op_JumpIfTrue | Op_JumpIfNotLt | Op_JumpIfNotGt |
    Op_JumpIfNotLeq | Op_JumpIfNotGeq | Op_JumpIfNotEq | Op_JumpIfNotNeq | Op_Pop | Op_Dup

datatype match_op =
    Op_TestTag | Op_TestEqual | Op_TestTupleLen | Op_TestListMin | Op_TestListExact |
    Op_TestIntRange | Op_TestFloatRange | Op_DestructTuple | Op_DestructVariant |
    Op_DestructList | Op_DestructListRest | Op_DestructRecordField |
    Op_DestructRecordFieldNamed | Op_DestructRecordRest | Op_TestRecordTag | Op_TestMapHasKey |
    Op_DestructMapValue

datatype dict_op =
    Op_Recur | Op_QuestionMark | Op_Panic | Op_CallMethod | Op_TailCallMethod | Op_MakeDict |
    Op_CallDict | Op_TailCallDict | Op_CallChecked | Op_TailCallChecked | Op_FrameDict |
    Op_DictMethod | Op_DictSub | Op_SuperDict | Op_WhereDict | Op_DictType | Op_TypeArg |
    Op_Bind | Op_Slide

text \<open>An opcode, by the part of the table it is in.\<close>

datatype op = Basic basic_op | Data data_op | Control control_op | Match match_op | Dict dict_op

definition all_basic :: "basic_op list" where
  "all_basic =
     [Op_Constant, Op_Unit, Op_True, Op_False, Op_Add, Op_Sub, Op_Mul, Op_Div, Op_Mod, Op_AddConst,
      Op_SubConst, Op_Eq, Op_Neq, Op_Lt, Op_Gt, Op_Leq, Op_Geq, Op_Negate, Op_Not, Op_Interpolate,
      Op_DisplayValue, Op_GetLocal, Op_SetLocal, Op_GetGlobal, Op_SetGlobal, Op_GetUpvalue,
      Op_GetClosure]"

definition all_data :: "data_op list" where
  "all_data =
     [Op_Call, Op_TailCall, Op_TailCallKeep, Op_Return, Op_CallBuiltin, Op_MakeClosure,
      Op_MakeTuple, Op_MakeList, Op_MakeMap, Op_MakeSet, Op_MakeRecord, Op_MakeType,
      Op_RecordUpdate, Op_MakeRange, Op_ListConcat, Op_GetField, Op_GetFieldNamed]"

definition all_control :: "control_op list" where
  "all_control =
     [Op_Jump, Op_JumpIfFalse, Op_JumpIfTrue, Op_JumpIfNotLt, Op_JumpIfNotGt, Op_JumpIfNotLeq,
      Op_JumpIfNotGeq, Op_JumpIfNotEq, Op_JumpIfNotNeq, Op_Pop, Op_Dup]"

definition all_match :: "match_op list" where
  "all_match =
     [Op_TestTag, Op_TestEqual, Op_TestTupleLen, Op_TestListMin, Op_TestListExact, Op_TestIntRange,
      Op_TestFloatRange, Op_DestructTuple, Op_DestructVariant, Op_DestructList,
      Op_DestructListRest, Op_DestructRecordField, Op_DestructRecordFieldNamed,
      Op_DestructRecordRest, Op_TestRecordTag, Op_TestMapHasKey, Op_DestructMapValue]"

definition all_dict :: "dict_op list" where
  "all_dict =
     [Op_Recur, Op_QuestionMark, Op_Panic, Op_CallMethod, Op_TailCallMethod, Op_MakeDict,
      Op_CallDict, Op_TailCallDict, Op_CallChecked, Op_TailCallChecked, Op_FrameDict,
      Op_DictMethod, Op_DictSub, Op_SuperDict, Op_WhereDict, Op_DictType, Op_TypeArg, Op_Bind,
      Op_Slide]"

text \<open>Every opcode, in the order of their bytes.\<close>

definition all_ops :: "op list" where
  "all_ops = map Basic all_basic @ map Data all_data @ map Control all_control @ map Match all_match @ map Dict all_dict"

definition from_byte :: "byte \<Rightarrow> op option" where
  "from_byte b = (if unat b < length all_ops then Some (all_ops ! unat b) else None)"

definition op_byte :: "op \<Rightarrow> byte" where
  "op_byte op = of_nat (length (takeWhile (\<lambda>x. x \<noteq> op) all_ops))"

text \<open>The operands of an opcode: each a kind, and what a program has too many of when one does not
  fit.\<close>

primrec basic_kinds :: "basic_op \<Rightarrow> (kind \<times> string) list" where
  "basic_kinds Op_Constant = [(K_Const, [])]"
| "basic_kinds Op_Unit = []"
| "basic_kinds Op_True = []"
| "basic_kinds Op_False = []"
| "basic_kinds Op_Add = []"
| "basic_kinds Op_Sub = []"
| "basic_kinds Op_Mul = []"
| "basic_kinds Op_Div = []"
| "basic_kinds Op_Mod = []"
| "basic_kinds Op_AddConst = [(K_Int, [])]"
| "basic_kinds Op_SubConst = [(K_Int, [])]"
| "basic_kinds Op_Eq = []"
| "basic_kinds Op_Neq = []"
| "basic_kinds Op_Lt = []"
| "basic_kinds Op_Gt = []"
| "basic_kinds Op_Leq = []"
| "basic_kinds Op_Geq = []"
| "basic_kinds Op_Negate = []"
| "basic_kinds Op_Not = []"
| "basic_kinds Op_Interpolate = [(K_Segments, ''segments of a string interpolation'')]"
| "basic_kinds Op_DisplayValue = []"
| "basic_kinds Op_GetLocal = [(K_Slot, [])]"
| "basic_kinds Op_SetLocal = [(K_Slot, [])]"
| "basic_kinds Op_GetGlobal = [(K_Global, [])]"
| "basic_kinds Op_SetGlobal = [(K_Global, [])]"
| "basic_kinds Op_GetUpvalue = [(K_Upvalue, ''values a closure captures'')]"
| "basic_kinds Op_GetClosure = []"

primrec data_kinds :: "data_op \<Rightarrow> (kind \<times> string) list" where
  "data_kinds Op_Call = [(K_U8, ''arguments of a call'')]"
| "data_kinds Op_TailCall = [(K_U8, ''arguments of a call'')]"
| "data_kinds Op_TailCallKeep = [(K_U8, ''arguments of a call''), (K_U8, ''arguments of a call'')]"
| "data_kinds Op_Return = []"
| "data_kinds Op_CallBuiltin = [(K_Builtin, []), (K_U8, ''arguments of a call'')]"
| "data_kinds Op_MakeClosure = [(K_Func, []), (K_Captures, ''values a closure captures'')]"
| "data_kinds Op_MakeTuple = [(K_U8, ''elements of a tuple'')]"
| "data_kinds Op_MakeList = [(K_U16, ''elements of a list literal'')]"
| "data_kinds Op_MakeMap = [(K_U16, ''entries of a map literal'')]"
| "data_kinds Op_MakeSet = [(K_U16, ''elements of a set literal'')]"
| "data_kinds Op_MakeRecord = [(K_Type, []), (K_Strs, ''fields of a record'')]"
| "data_kinds Op_MakeType = [(K_Type, []), (K_U8, ''arguments of a type'')]"
| "data_kinds Op_RecordUpdate = [(K_Strs, ''fields of a record update'')]"
| "data_kinds Op_MakeRange = []"
| "data_kinds Op_ListConcat = []"
| "data_kinds Op_GetField = [(K_U16, ''fields of a record'')]"
| "data_kinds Op_GetFieldNamed = [(K_Str, [])]"

primrec control_kinds :: "control_op \<Rightarrow> (kind \<times> string) list" where
  "control_kinds Op_Jump = [(K_Rel, [])]"
| "control_kinds Op_JumpIfFalse = [(K_Fwd, [])]"
| "control_kinds Op_JumpIfTrue = [(K_Fwd, [])]"
| "control_kinds Op_JumpIfNotLt = [(K_Fwd, [])]"
| "control_kinds Op_JumpIfNotGt = [(K_Fwd, [])]"
| "control_kinds Op_JumpIfNotLeq = [(K_Fwd, [])]"
| "control_kinds Op_JumpIfNotGeq = [(K_Fwd, [])]"
| "control_kinds Op_JumpIfNotEq = [(K_Fwd, [])]"
| "control_kinds Op_JumpIfNotNeq = [(K_Fwd, [])]"
| "control_kinds Op_Pop = []"
| "control_kinds Op_Dup = []"

primrec match_kinds :: "match_op \<Rightarrow> (kind \<times> string) list" where
  "match_kinds Op_TestTag = [(K_Tag, [])]"
| "match_kinds Op_TestEqual = [(K_Const, [])]"
| "match_kinds Op_TestTupleLen = [(K_U8, ''elements of a tuple pattern'')]"
| "match_kinds Op_TestListMin = [(K_U8, ''elements of a list pattern'')]"
| "match_kinds Op_TestListExact = [(K_U8, ''elements of a list pattern'')]"
| "match_kinds Op_TestIntRange = [(K_Int, []), (K_Int, [])]"
| "match_kinds Op_TestFloatRange = [(K_Float, []), (K_Float, [])]"
| "match_kinds Op_DestructTuple = [(K_U8, ''elements of a tuple pattern'')]"
| "match_kinds Op_DestructVariant = [(K_U8, ''fields of a variant pattern'')]"
| "match_kinds Op_DestructList = [(K_U8, ''elements of a list pattern'')]"
| "match_kinds Op_DestructListRest = [(K_U8, ''elements of a list pattern'')]"
| "match_kinds Op_DestructRecordField = [(K_U16, ''fields of a record'')]"
| "match_kinds Op_DestructRecordFieldNamed = [(K_Str, [])]"
| "match_kinds Op_DestructRecordRest = [(K_Strs, ''fields of an anonymous record pattern'')]"
| "match_kinds Op_TestRecordTag = [(K_Type, [])]"
| "match_kinds Op_TestMapHasKey = [(K_Str, [])]"
| "match_kinds Op_DestructMapValue = [(K_Str, [])]"

primrec dict_kinds :: "dict_op \<Rightarrow> (kind \<times> string) list" where
  "dict_kinds Op_Recur = [(K_Byte, ''bindings of a loop''), (K_Cut, []), (K_Rel, [])]"
| "dict_kinds Op_QuestionMark = []"
| "dict_kinds Op_Panic = []"
| "dict_kinds Op_CallMethod =
     [(K_Method, []),
      (K_U8, ''arguments of a method call, the receiver included''),
      (K_Trait, []),
      (K_U8, ''the argument a method call finds its method by'')]"
| "dict_kinds Op_TailCallMethod =
     [(K_Method, []),
      (K_U8, ''arguments of a method call, the receiver included''),
      (K_Trait, []),
      (K_U8, ''the argument a method call finds its method by'')]"
| "dict_kinds Op_MakeDict = [(K_Const, []), (K_U8, ''predicates of an impl's header'')]"
| "dict_kinds Op_CallDict =
     [(K_U16, ''methods of a trait''),
      (K_U8, ''arguments of a method call, its dictionaries included''),
      (K_Byte, ''the argument a method call finds its method by'')]"
| "dict_kinds Op_TailCallDict =
     [(K_U16, ''methods of a trait''),
      (K_U8, ''arguments of a method call, its dictionaries included''),
      (K_Byte, ''the argument a method call finds its method by'')]"
| "dict_kinds Op_CallChecked =
     [(K_U8, ''arguments of a method call, its dictionaries included''),
      (K_Byte, ''the argument a method call finds its method by''),
      (K_U16, ''impls of a program's traits'')]"
| "dict_kinds Op_TailCallChecked =
     [(K_U8, ''arguments of a method call, its dictionaries included''),
      (K_Byte, ''the argument a method call finds its method by''),
      (K_U16, ''impls of a program's traits'')]"
| "dict_kinds Op_FrameDict = []"
| "dict_kinds Op_DictMethod = [(K_U16, ''methods of a trait''), (K_Trait, [])]"
| "dict_kinds Op_DictSub = [(K_U8, ''predicates of an impl's header'')]"
| "dict_kinds Op_SuperDict = [(K_U8, ''supertraits of a trait'')]"
| "dict_kinds Op_WhereDict = [(K_U8, ''where clauses of a trait's parameters'')]"
| "dict_kinds Op_DictType = []"
| "dict_kinds Op_TypeArg = [(K_U8, ''type parameters of a type'')]"
| "dict_kinds Op_Bind = [(K_U8, ''dictionaries of a definition'')]"
| "dict_kinds Op_Slide = [(K_Cut, [])]"

primrec op_kinds :: "op \<Rightarrow> (kind \<times> string) list" where
  "op_kinds (Basic x) = basic_kinds x"
| "op_kinds (Data x) = data_kinds x"
| "op_kinds (Control x) = control_kinds x"
| "op_kinds (Match x) = match_kinds x"
| "op_kinds (Dict x) = dict_kinds x"

definition moves :: "nat \<Rightarrow> nat \<Rightarrow> effect" where
  "moves pops pushes = \<lparr>e_pops = pops, e_cut = None, e_pushes = pushes, e_flow = F_Next\<rparr>"

definition flows :: "nat \<Rightarrow> nat \<Rightarrow> flow \<Rightarrow> effect" where
  "flows pops pushes flow = \<lparr>e_pops = pops, e_cut = None, e_pushes = pushes, e_flow = flow\<rparr>"

primrec basic_effect :: "basic_op \<Rightarrow> arg list \<Rightarrow> effect" where
  "basic_effect Op_Constant args = moves 0 1"
| "basic_effect Op_Unit args = moves 0 1"
| "basic_effect Op_True args = moves 0 1"
| "basic_effect Op_False args = moves 0 1"
| "basic_effect Op_Add args = moves 2 1"
| "basic_effect Op_Sub args = moves 2 1"
| "basic_effect Op_Mul args = moves 2 1"
| "basic_effect Op_Div args = moves 2 1"
| "basic_effect Op_Mod args = moves 2 1"
| "basic_effect Op_AddConst args = moves 1 1"
| "basic_effect Op_SubConst args = moves 1 1"
| "basic_effect Op_Eq args = moves 2 1"
| "basic_effect Op_Neq args = moves 2 1"
| "basic_effect Op_Lt args = moves 2 1"
| "basic_effect Op_Gt args = moves 2 1"
| "basic_effect Op_Leq args = moves 2 1"
| "basic_effect Op_Geq args = moves 2 1"
| "basic_effect Op_Negate args = moves 1 1"
| "basic_effect Op_Not args = moves 1 1"
| "basic_effect Op_Interpolate args = moves (value_count (args ! 0)) 1"
| "basic_effect Op_DisplayValue args = moves 1 1"
| "basic_effect Op_GetLocal args = moves 0 1"
| "basic_effect Op_SetLocal args = moves 1 1"
| "basic_effect Op_GetGlobal args = moves 0 1"
| "basic_effect Op_SetGlobal args = moves 1 1"
| "basic_effect Op_GetUpvalue args = moves 0 1"
| "basic_effect Op_GetClosure args = moves 0 1"

primrec data_effect :: "data_op \<Rightarrow> arg list \<Rightarrow> effect" where
  "data_effect Op_Call args = moves (num (args ! 0) + 1) 1"
| "data_effect Op_TailCall args = moves (num (args ! 0) + 1) 1"
| "data_effect Op_TailCallKeep args = moves (num (args ! 0) + 1) 1"
| "data_effect Op_Return args = flows 1 0 F_End"
| "data_effect Op_CallBuiltin args = moves (num (args ! 1)) 1"
| "data_effect Op_MakeClosure args = moves 0 1"
| "data_effect Op_MakeTuple args = moves (num (args ! 0)) 1"
| "data_effect Op_MakeList args = moves (num (args ! 0)) 1"
| "data_effect Op_MakeMap args = moves (num (args ! 0) * 2) 1"
| "data_effect Op_MakeSet args = moves (num (args ! 0)) 1"
| "data_effect Op_MakeRecord args = moves (count (args ! 1)) 1"
| "data_effect Op_MakeType args = moves (num (args ! 1)) 1"
| "data_effect Op_RecordUpdate args = moves (count (args ! 0) + 1) 1"
| "data_effect Op_MakeRange args = moves 2 1"
| "data_effect Op_ListConcat args = moves 2 1"
| "data_effect Op_GetField args = moves 1 1"
| "data_effect Op_GetFieldNamed args = moves 1 1"

primrec control_effect :: "control_op \<Rightarrow> arg list \<Rightarrow> effect" where
  "control_effect Op_Jump args = flows 0 0 F_Jump"
| "control_effect Op_JumpIfFalse args = flows 1 0 F_Branch"
| "control_effect Op_JumpIfTrue args = flows 1 0 F_Branch"
| "control_effect Op_JumpIfNotLt args = flows 2 0 F_Branch"
| "control_effect Op_JumpIfNotGt args = flows 2 0 F_Branch"
| "control_effect Op_JumpIfNotLeq args = flows 2 0 F_Branch"
| "control_effect Op_JumpIfNotGeq args = flows 2 0 F_Branch"
| "control_effect Op_JumpIfNotEq args = flows 2 0 F_Branch"
| "control_effect Op_JumpIfNotNeq args = flows 2 0 F_Branch"
| "control_effect Op_Pop args = moves 1 0"
| "control_effect Op_Dup args = moves 1 2"

primrec match_effect :: "match_op \<Rightarrow> arg list \<Rightarrow> effect" where
  "match_effect Op_TestTag args = moves 1 2"
| "match_effect Op_TestEqual args = moves 1 2"
| "match_effect Op_TestTupleLen args = moves 1 2"
| "match_effect Op_TestListMin args = moves 1 2"
| "match_effect Op_TestListExact args = moves 1 2"
| "match_effect Op_TestIntRange args = moves 1 2"
| "match_effect Op_TestFloatRange args = moves 1 2"
| "match_effect Op_DestructTuple args = moves 1 2"
| "match_effect Op_DestructVariant args = moves 1 2"
| "match_effect Op_DestructList args = moves 1 2"
| "match_effect Op_DestructListRest args = moves 1 2"
| "match_effect Op_DestructRecordField args = moves 1 2"
| "match_effect Op_DestructRecordFieldNamed args = moves 1 2"
| "match_effect Op_DestructRecordRest args = moves 1 1"
| "match_effect Op_TestRecordTag args = moves 1 2"
| "match_effect Op_TestMapHasKey args = moves 1 2"
| "match_effect Op_DestructMapValue args = moves 1 2"

primrec dict_effect :: "dict_op \<Rightarrow> arg list \<Rightarrow> effect" where
  "dict_effect Op_Recur args =
     \<lparr>e_pops = (num (args ! 0)), e_cut = Some (num (args ! 1)), e_pushes = (num (args ! 0)), e_flow = F_Jump\<rparr>"
| "dict_effect Op_QuestionMark args = moves 1 1"
| "dict_effect Op_Panic args = flows 1 0 F_End"
| "dict_effect Op_CallMethod args = moves (num (args ! 1)) 1"
| "dict_effect Op_TailCallMethod args = moves (num (args ! 1)) 1"
| "dict_effect Op_MakeDict args = moves (num (args ! 1)) 1"
| "dict_effect Op_CallDict args = moves (num (args ! 1) + 1) 1"
| "dict_effect Op_TailCallDict args = moves (num (args ! 1) + 1) 1"
| "dict_effect Op_CallChecked args = moves (num (args ! 0) + 1) 1"
| "dict_effect Op_TailCallChecked args = moves (num (args ! 0) + 1) 1"
| "dict_effect Op_FrameDict args = moves 0 1"
| "dict_effect Op_DictMethod args = moves 1 2"
| "dict_effect Op_DictSub args = moves 1 1"
| "dict_effect Op_SuperDict args = moves 1 1"
| "dict_effect Op_WhereDict args = moves 1 1"
| "dict_effect Op_DictType args = moves 1 1"
| "dict_effect Op_TypeArg args = moves 1 1"
| "dict_effect Op_Bind args = moves (num (args ! 0) + 1) 1"
| "dict_effect Op_Slide args =
     \<lparr>e_pops = 1, e_cut = Some (num (args ! 0)), e_pushes = 1, e_flow = F_Next\<rparr>"

primrec op_effect :: "op \<Rightarrow> arg list \<Rightarrow> effect" where
  "op_effect (Basic x) args = basic_effect x args"
| "op_effect (Data x) args = data_effect x args"
| "op_effect (Control x) args = control_effect x args"
| "op_effect (Match x) args = match_effect x args"
| "op_effect (Dict x) args = dict_effect x args"

type_synonym instr = "op \<times> arg list"

definition instr_effect :: "instr \<Rightarrow> effect" where
  "instr_effect i = op_effect (fst i) (snd i)"

section \<open>Reading\<close>

text \<open>The reader is the code and an offset; a read gives the value and the offset behind it.\<close>

definition read_u8 :: "byte list \<Rightarrow> nat \<Rightarrow> (byte \<times> nat) option" where
  "read_u8 code at = (if at < length code then Some (code ! at, at + 1) else None)"

definition u16_of :: "byte \<Rightarrow> byte \<Rightarrow> nat" where
  "u16_of lo hi = unat lo + 256 * unat hi"

definition read_u16 :: "byte list \<Rightarrow> nat \<Rightarrow> (nat \<times> nat) option" where
  "read_u16 code at =
     (if at + 2 \<le> length code then Some (u16_of (code ! at) (code ! (at + 1)), at + 2) else None)"

definition i32_of :: "byte \<Rightarrow> byte \<Rightarrow> byte \<Rightarrow> byte \<Rightarrow> int" where
  "i32_of b0 b1 b2 b3 =
     (let n = uint b0 + 256 * uint b1 + 65536 * uint b2 + 16777216 * uint b3
      in if n < 2 ^ 31 then n else n - 2 ^ 32)"

definition read_fwd :: "byte list \<Rightarrow> nat \<Rightarrow> (nat \<times> nat) option" where
  "read_fwd code at = map_option (\<lambda>(distance, next). (next + distance, next)) (read_u16 code at)"

definition read_rel :: "byte list \<Rightarrow> nat \<Rightarrow> (nat \<times> nat) option" where
  "read_rel code at =
     (if at + 4 \<le> length code
      then (let to = int (at + 4) + i32_of (code ! at) (code ! (at + 1)) (code ! (at + 2)) (code ! (at + 3))
            in if 0 \<le> to then Some (nat to, at + 4) else None)
      else None)"

text \<open>The size of an item of a list operand in bytes.\<close>

definition read_items :: "byte list \<Rightarrow> nat \<Rightarrow> nat \<Rightarrow> nat \<Rightarrow> (arg \<times> nat) option" where
  "read_items code at n sz = (if at + n * sz \<le> length code then Some (Items at n, at + n * sz) else None)"

definition read_list :: "byte list \<Rightarrow> nat \<Rightarrow> nat \<Rightarrow> (arg \<times> nat) option" where
  "read_list code at sz =
     (case read_u8 code at of None \<Rightarrow> None | Some (n, next) \<Rightarrow> read_items code next (unat n) sz)"

definition read_segments :: "byte list \<Rightarrow> nat \<Rightarrow> (arg \<times> nat) option" where
  "read_segments code at =
     (case read_u8 code at of
        None \<Rightarrow> None
      | Some (n, at1) \<Rightarrow>
          (case read_u8 code at1 of
             None \<Rightarrow> None
           | Some (vs, at2) \<Rightarrow>
               (if at2 + unat n * 3 \<le> length code then Some (Segs at2 (unat n) (unat vs), at2 + unat n * 3)
                else None)))"

definition plain_u8 :: "byte list \<Rightarrow> nat \<Rightarrow> (arg \<times> nat) option" where
  "plain_u8 code at = map_option (\<lambda>(b, next). (Num (unat b), next)) (read_u8 code at)"

definition plain_u16 :: "byte list \<Rightarrow> nat \<Rightarrow> (arg \<times> nat) option" where
  "plain_u16 code at = map_option (\<lambda>(n, next). (Num n, next)) (read_u16 code at)"

fun decode_operand :: "kind \<Rightarrow> byte list \<Rightarrow> nat \<Rightarrow> (arg \<times> nat) option" where
  "decode_operand K_U8 code at = plain_u8 code at"
| "decode_operand K_Byte code at = plain_u8 code at"
| "decode_operand K_Upvalue code at = plain_u8 code at"
| "decode_operand K_Fwd code at = map_option (\<lambda>(n, next). (Num n, next)) (read_fwd code at)"
| "decode_operand K_Rel code at = map_option (\<lambda>(n, next). (Num n, next)) (read_rel code at)"
| "decode_operand K_Strs code at = read_list code at 2"
| "decode_operand K_Captures code at = read_list code at 2"
| "decode_operand K_Segments code at = read_segments code at"
| "decode_operand _ code at = plain_u16 code at"

fun decode_operands :: "kind list \<Rightarrow> byte list \<Rightarrow> nat \<Rightarrow> (arg list \<times> nat) option" where
  "decode_operands [] code at = Some ([], at)"
| "decode_operands (k # ks) code at =
     (case decode_operand k code at of
        None \<Rightarrow> None
      | Some (a, next) \<Rightarrow> map_option (\<lambda>(as, end). (a # as, end)) (decode_operands ks code next))"

definition decode :: "byte list \<Rightarrow> nat \<Rightarrow> (instr \<times> nat) option" where
  "decode code at =
     (if at < length code
      then (case from_byte (code ! at) of
              None \<Rightarrow> None
            | Some op \<Rightarrow>
                map_option (\<lambda>(as, next). ((op, as), next)) (decode_operands (map fst (op_kinds op)) code (at + 1)))
      else None)"

text \<open>The items of a list operand, from the code the instruction was decoded from.\<close>

definition str_items :: "byte list \<Rightarrow> nat \<Rightarrow> nat \<Rightarrow> nat list" where
  "str_items code at n = map (\<lambda>i. u16_of (code ! (at + 2 * i)) (code ! (at + 2 * i + 1))) [0..<n]"

definition capture_items :: "byte list \<Rightarrow> nat \<Rightarrow> nat \<Rightarrow> upvalue_desc list" where
  "capture_items code at n =
     map (\<lambda>i. \<lparr>is_local = code ! (at + 2 * i) \<noteq> 0, uv_index = unat (code ! (at + 2 * i + 1))\<rparr>) [0..<n]"

definition segment_items :: "byte list \<Rightarrow> nat \<Rightarrow> nat \<Rightarrow> segment list" where
  "segment_items code at n =
     map (\<lambda>i. if code ! (at + 3 * i) \<noteq> 0
              then Literal (u16_of (code ! (at + 3 * i + 1)) (code ! (at + 3 * i + 2))) else Seg_Value) [0..<n]"

fun checked_operand :: "kind \<Rightarrow> arg \<Rightarrow> operand" where
  "checked_operand K_Slot a = Slot (num a)"
| "checked_operand K_Upvalue a = Upvalue (num a)"
| "checked_operand K_Builtin a = Builtin (num a)"
| "checked_operand K_Const a = Const_Operand (num a) CK_Any"
| "checked_operand K_Str a = Const_Operand (num a) CK_Str"
| "checked_operand K_Tag a = Const_Operand (num a) CK_Tag"
| "checked_operand K_Type a = Const_Operand (num a) CK_Type"
| "checked_operand K_Func a = Const_Operand (num a) CK_Func"
| "checked_operand K_Int a = Const_Operand (num a) CK_Int"
| "checked_operand K_Float a = Const_Operand (num a) CK_Float"
| "checked_operand K_Fwd a = Target (num a)"
| "checked_operand K_Rel a = Target (num a)"
| "checked_operand K_Strs (Items at n) = Strs at n"
| "checked_operand K_Captures (Items at n) = Captures at n"
| "checked_operand K_Segments (Segs at n vs) = Segments at n vs"
| "checked_operand _ a = Plain"

definition operands :: "instr \<Rightarrow> operand list" where
  "operands i = map2 checked_operand (map fst (op_kinds (fst i))) (snd i)"

section \<open>Bytes of opcodes\<close>

lemma all_ops_all: "op \<in> set all_ops"
proof -
  have "x \<in> set all_basic" for x by (cases x) (simp_all add: all_basic_def)
  moreover have "x \<in> set all_data" for x by (cases x) (simp_all add: all_data_def)
  moreover have "x \<in> set all_control" for x by (cases x) (simp_all add: all_control_def)
  moreover have "x \<in> set all_match" for x by (cases x) (simp_all add: all_match_def)
  moreover have "x \<in> set all_dict" for x by (cases x) (simp_all add: all_dict_def)
  ultimately show ?thesis by (cases op) (auto simp: all_ops_def)
qed

lemma length_all_ops: "length all_ops = 91"
  by (simp add: all_ops_def all_basic_def all_data_def all_control_def all_match_def all_dict_def)

lemma from_byte_op_byte: "from_byte (op_byte op) = Some op"
proof -
  let ?n = "length (takeWhile (\<lambda>x. x \<noteq> op) all_ops)"
  have n: "?n < length all_ops"
    using all_ops_all [of op] takeWhile_eq_all_conv [of "\<lambda>x. x \<noteq> op" all_ops] length_takeWhile_le [of "\<lambda>x. x \<noteq> op" all_ops]
    by (metis le_neq_implies_less takeWhile_eq_take take_all_iff order_refl)
  then have "all_ops ! ?n = op" using nth_length_takeWhile by fastforce
  then show ?thesis using n by (simp add: from_byte_def op_byte_def unat_of_nat length_all_ops)
qed

lemma distinct_all_ops: "distinct all_ops"
  by (simp add: all_ops_def all_basic_def all_data_def all_control_def all_match_def all_dict_def)

lemma from_byte_unique: "from_byte a = Some op \<Longrightarrow> from_byte b = Some op \<Longrightarrow> a = b"
  using nth_eq_iff_index_eq [OF distinct_all_ops, of "unat a" "unat b"]
  by (auto simp: from_byte_def word_unat_eq_iff split: if_splits)

end
