(* ===== verification/Verify.thy ===== *)
theory Verify
  imports Bytecode
begin

text \<open>
  The bytecode verifier (\<^verbatim>\<open>bytecode/verify.rs\<close>): abstract interpretation of the height of a
  function's frame. A constant is what the verifier asks of it; the builtin registry is an
  argument. The message of an error is a constructor with what the message names.
\<close>

section \<open>Functions\<close>

datatype cval =
    CV_Closure nat nat  \<comment> \<open>how many upvalues its function has, and how many it holds\<close>
  | CV_Builtin nat
  | CV_String
  | CV_Ctor
  | CV_Type
  | CV_Int
  | CV_Float
  | CV_Dict
  | CV_Other

record fn =
  fn_arity :: nat
  fn_upvalues :: nat
  fn_dict_slot :: bool
  fn_code :: "byte list"
  fn_constants :: "cval list"

record builtin_row =
  row_enabled :: bool
  row_is_constant :: bool
  row_arity :: nat

type_synonym registry = "nat \<Rightarrow> builtin_row option"

datatype reason =
    No_Instruction
  | No_Code
  | Runs_Off
  | Different_Heights
  | No_Constant nat nat
  | Wrong_Constant nat const_kind
  | Disabled_Builtin nat
  | No_Builtin nat
  | No_Slot nat nat
  | No_Upvalue nat nat
  | Captures_No_Slot nat nat
  | Captures_No_Upvalue nat nat
  | Wrong_Segments nat nat
  | Wrong_Captures nat nat
  | No_Receiver
  | Keeps_Too_Many nat nat
  | No_Dict_Slot
  | Checks_No_Argument nat nat
  | No_Dict
  | Finds_No_Argument nat nat
  | Builtin_Arguments nat nat nat
  | Takes_Too_Many nat nat
  | Cuts_Too_High nat nat
  | No_Target nat
  | No_Global nat nat
  | No_Trait nat nat
  | No_Method nat nat
  | Panics  \<comment> \<open>an index out of range, or a constant that is not the function it is read as\<close>

type_synonym verify_error = "nat \<times> reason"

record frame =
  f_height :: nat
  f_ragged :: bool

section \<open>One instruction\<close>

definition builtin_error :: "registry \<Rightarrow> nat \<Rightarrow> reason option" where
  "builtin_error reg bid =
     (case reg bid of
        Some row \<Rightarrow> if row_enabled row \<and> \<not> row_is_constant row then None else Some (Disabled_Builtin bid)
      | None \<Rightarrow> Some (No_Builtin bid))"

fun const_fits :: "const_kind \<Rightarrow> cval \<Rightarrow> bool" where
  "const_fits CK_Any (CV_Closure upvalues held) = (upvalues = held)"
| "const_fits CK_Any _ = True"
| "const_fits CK_Str v = (v = CV_String)"
| "const_fits CK_Tag v = (v = CV_Ctor)"
| "const_fits CK_Type v = (v = CV_Type)"
| "const_fits CK_Func (CV_Closure _ _) = True"
| "const_fits CK_Func _ = False"
| "const_fits CK_Int v = (v = CV_Int)"
| "const_fits CK_Float v = (v = CV_Float)"

definition constant_error :: "registry \<Rightarrow> cval list \<Rightarrow> nat \<Rightarrow> const_kind \<Rightarrow> reason option" where
  "constant_error reg constants k kind =
     (if k < length constants
      then (case (kind, constants ! k) of
              (CK_Any, CV_Builtin bid) \<Rightarrow> builtin_error reg bid
            | (kind, v) \<Rightarrow> if const_fits kind v then None else Some (Wrong_Constant k kind))
      else Some (No_Constant k (length constants)))"

fun first_error :: "reason option list \<Rightarrow> reason option" where
  "first_error [] = None"
| "first_error (Some e # es) = Some e"
| "first_error (None # es) = first_error es"

definition capture_error :: "fn \<Rightarrow> nat \<Rightarrow> upvalue_desc \<Rightarrow> reason option" where
  "capture_error f height c =
     (if is_local c
      then if height \<le> uv_index c then Some (Captures_No_Slot (uv_index c) height) else None
      else if fn_upvalues f \<le> uv_index c then Some (Captures_No_Upvalue (uv_index c) (fn_upvalues f)) else None)"

fun segment_error :: "registry \<Rightarrow> fn \<Rightarrow> segment \<Rightarrow> reason option" where
  "segment_error reg f (Literal k) = constant_error reg (fn_constants f) k CK_Str"
| "segment_error reg f Seg_Value = None"

fun operand_error :: "registry \<Rightarrow> fn \<Rightarrow> nat \<Rightarrow> operand \<Rightarrow> reason option" where
  "operand_error reg f height Plain = None"
| "operand_error reg f height (Target _) = None"
| "operand_error reg f height (Slot slot) = (if height \<le> slot then Some (No_Slot slot height) else None)"
| "operand_error reg f height (Upvalue i) =
     (if fn_upvalues f \<le> i then Some (No_Upvalue i (fn_upvalues f)) else None)"
| "operand_error reg f height (Const_Operand k kind) = constant_error reg (fn_constants f) k kind"
| "operand_error reg f height (Builtin bid) = builtin_error reg bid"
| "operand_error reg f height (Strs at n) =
     (if length (fn_code f) < at + n * 2 then Some Panics
      else first_error (map (\<lambda>k. constant_error reg (fn_constants f) k CK_Str) (str_items (fn_code f) at n)))"
| "operand_error reg f height (Captures at n) =
     (if length (fn_code f) < at + n * 2 then Some Panics
      else first_error (map (capture_error f height) (capture_items (fn_code f) at n)))"
| "operand_error reg f height (Segments at n vs) =
     (let segments = segment_items (fn_code f) at n;
          found = length (filter (\<lambda>s. s = Seg_Value) segments)
      in if length (fn_code f) < at + n * 3 then Some Panics
         else if found = vs then first_error (map (segment_error reg f) segments)
         else Some (Wrong_Segments vs found))"

text \<open>What an opcode asks of its operands beyond their kinds. \<^verbatim>\<open>Chunk::closure\<close> panics at a constant that is
  no function, \<^verbatim>\<open>Chunk::constant\<close> at one that is not there.\<close>

definition closure_upvalues :: "fn \<Rightarrow> nat \<Rightarrow> nat option" where
  "closure_upvalues f k =
     (if k < length (fn_constants f)
      then (case fn_constants f ! k of CV_Closure upvalues _ \<Rightarrow> Some upvalues | _ \<Rightarrow> None)
      else None)"

fun receiver_error :: "nat \<Rightarrow> nat \<Rightarrow> reason option" where
  "receiver_error argc at = (if argc \<le> at \<and> at \<noteq> 255 then Some (Checks_No_Argument (at + 1) argc) else None)"

fun method_error :: "nat \<Rightarrow> nat \<Rightarrow> reason option" where
  "method_error argc at =
     (if argc = 0 then Some No_Receiver
      else if argc \<le> at then Some (Finds_No_Argument (at + 1) argc) else None)"

definition instr_error :: "registry \<Rightarrow> fn \<Rightarrow> instr \<Rightarrow> reason option" where
  "instr_error reg f i =
     (let args = snd i
      in case fst i of
           Data Op_MakeClosure \<Rightarrow>
             (case closure_upvalues f (num (args ! 0)) of
                None \<Rightarrow> Some Panics
              | Some upvalues \<Rightarrow>
                  if upvalues \<noteq> count (args ! 1) then Some (Wrong_Captures (count (args ! 1)) upvalues) else None)
         | Dict Op_CallMethod \<Rightarrow> method_error (num (args ! 1)) (num (args ! 3))
         | Dict Op_TailCallMethod \<Rightarrow> method_error (num (args ! 1)) (num (args ! 3))
         | Data Op_TailCallKeep \<Rightarrow>
             (if fn_arity f < num (args ! 1) then Some (Keeps_Too_Many (num (args ! 1)) (fn_arity f)) else None)
         | Dict Op_FrameDict \<Rightarrow> if \<not> fn_dict_slot f then Some No_Dict_Slot else None
         | Dict Op_CallDict \<Rightarrow> receiver_error (num (args ! 1)) (num (args ! 2))
         | Dict Op_TailCallDict \<Rightarrow> receiver_error (num (args ! 1)) (num (args ! 2))
         | Dict Op_CallChecked \<Rightarrow> receiver_error (num (args ! 0)) (num (args ! 1))
         | Dict Op_TailCallChecked \<Rightarrow> receiver_error (num (args ! 0)) (num (args ! 1))
         | Dict Op_MakeDict \<Rightarrow>
             if num (args ! 0) < length (fn_constants f)
             then if fn_constants f ! num (args ! 0) \<noteq> CV_Dict then Some No_Dict else None
             else Some Panics
         | Data Op_CallBuiltin \<Rightarrow>
             (case reg (num (args ! 0)) of
                Some row \<Rightarrow>
                  if num (args ! 1) \<noteq> row_arity row
                  then Some (Builtin_Arguments (num (args ! 0)) (num (args ! 1)) (row_arity row)) else None
              | None \<Rightarrow> None)
         | _ \<Rightarrow> None)"

text \<open>The instructions that may follow where paths arrive with different heights.\<close>

definition runs_ragged :: "op \<Rightarrow> bool" where
  "runs_ragged op \<longleftrightarrow> op \<in> {Basic Op_GetLocal, Basic Op_Constant, Dict Op_Slide, Control Op_Jump, Data Op_Return,
     Dict Op_Panic}"

definition check :: "registry \<Rightarrow> fn \<Rightarrow> nat \<Rightarrow> instr \<Rightarrow> frame \<Rightarrow> verify_error + frame" where
  "check reg f at i frame =
     (let e = instr_effect i;
          popped = f_height frame - e_pops e
      in if f_ragged frame \<and> \<not> runs_ragged (fst i) then Inl (at, Different_Heights)
         else case first_error (map (operand_error reg f (f_height frame)) (operands i)) of
           Some what \<Rightarrow> Inl (at, what)
         | None \<Rightarrow>
             (case instr_error reg f i of
                Some what \<Rightarrow> Inl (at, what)
              | None \<Rightarrow>
                  if f_height frame < e_pops e then Inl (at, Takes_Too_Many (e_pops e) (f_height frame))
                  else if \<exists>c \<in> set_option (e_cut e). popped < c
                  then Inl (at, Cuts_Too_High popped (the (e_cut e)))
                  else Inr \<lparr>f_height = (case e_cut e of Some c \<Rightarrow> c | None \<Rightarrow> popped) + e_pushes e,
                            f_ragged = (f_ragged frame \<and> e_cut e = None)\<rparr>))"

section \<open>The code of a function\<close>

lemma decode_operand_range:
  "decode_operand k code at = Some (a, next) \<Longrightarrow> at \<le> length code \<Longrightarrow> at \<le> next \<and> next \<le> length code"
  by (cases k) (auto simp: plain_u8_def plain_u16_def read_u8_def read_u16_def read_fwd_def read_rel_def
      read_list_def read_items_def read_segments_def Let_def split: if_splits option.splits)

lemma decode_operands_range:
  "decode_operands ks code at = Some (as, next) \<Longrightarrow> at \<le> length code \<Longrightarrow> at \<le> next \<and> next \<le> length code"
proof (induction ks arbitrary: at as)
  case (Cons k ks)
  then obtain a mid as' where m: "decode_operand k code at = Some (a, mid)"
    "decode_operands ks code mid = Some (as', next)"
    by (auto split: option.splits)
  then show ?case using Cons.IH [OF m(2)] decode_operand_range [OF m(1) Cons.prems(2)] by auto
qed simp

lemma decode_range: "decode code at = Some (i, next) \<Longrightarrow> at < next \<and> next \<le> length code"
  using decode_operands_range [of _ code "at + 1"]
  by (fastforce simp: decode_def split: if_splits option.splits)

text \<open>The instructions of the code from an offset on, each with its offset and the one behind it.\<close>

function decode_all :: "byte list \<Rightarrow> nat \<Rightarrow> verify_error + (nat \<times> instr \<times> nat) list" where
  "decode_all code at =
     (if at < length code
      then (case decode code at of
              None \<Rightarrow> Inl (at, No_Instruction)
            | Some (i, next) \<Rightarrow>
                (case decode_all code next of
                   Inl e \<Rightarrow> Inl e
                 | Inr rest \<Rightarrow> Inr ((at, i, next) # rest)))
      else Inr [])"
  by pat_completeness auto
termination
  by (relation "measure (\<lambda>(code, at). length code - at)") (auto dest: decode_range)

declare decode_all.simps [simp del]

text \<open>Which instruction starts at each offset.\<close>

definition starting_at :: "nat \<Rightarrow> (nat \<times> instr \<times> nat) list \<Rightarrow> nat option list" where
  "starting_at n instrs =
     fold (\<lambda>(k, (at, i, next)) table. table[at := Some k]) (List.enumerate 0 instrs) (replicate n None)"

section \<open>The search for a fixed point\<close>

definition merge :: "frame option \<Rightarrow> frame \<Rightarrow> frame" where
  "merge known frame =
     (case known of
        None \<Rightarrow> frame
      | Some k \<Rightarrow> \<lparr>f_height = min (f_height k) (f_height frame),
                  f_ragged = (f_ragged k \<or> f_ragged frame \<or> f_height k \<noteq> f_height frame)\<rparr>)"

text \<open>Tell the instruction \<open>target\<close> that control arrives with \<open>frame\<close>; whether that is news to it.
  \<open>None\<close> is an index out of range.\<close>

definition arrive :: "frame option list \<Rightarrow> nat \<Rightarrow> frame \<Rightarrow> (frame option list \<times> bool) option" where
  "arrive frames target frame =
     (if target < length frames
      then (let merged = merge (frames ! target) frame
            in Some (frames[target := Some merged], frames ! target \<noteq> Some merged))
      else None)"

definition jump_target :: "instr \<Rightarrow> nat" where
  "jump_target i = fold (\<lambda>operand offset. case operand of Target t \<Rightarrow> t | _ \<Rightarrow> offset) (operands i) 0"

type_synonym instrs = "(nat \<times> instr \<times> nat) list"

text \<open>The target of a jump, told of the frame the instruction leaves.\<close>

definition start_index :: "nat option list \<Rightarrow> nat \<Rightarrow> nat option" where
  "start_index starts offset = (if offset < length starts then starts ! offset else None)"

definition arrive_target ::
  "nat option list \<Rightarrow> nat \<Rightarrow> instr \<Rightarrow> frame \<Rightarrow> frame option list \<Rightarrow> verify_error + frame option list \<times> nat list"
where
  "arrive_target starts at i after frames =
     (if e_flow (instr_effect i) \<in> {F_Branch, F_Jump}
      then (let offset = jump_target i
            in case start_index starts offset of
                 None \<Rightarrow> Inl (at, No_Target offset)
               | Some target \<Rightarrow>
                   (case arrive frames target after of
                      None \<Rightarrow> Inl (at, Panics)
                    | Some (frames1, news) \<Rightarrow> Inr (frames1, if news then [target] else [])))
      else Inr (frames, []))"

text \<open>One instruction whose frame changed: what it leaves is told to the instructions behind it.
  Those to which it is news are to be looked at, the next one first: the inner loop of the
  code goes on with it before it takes another from the work list.\<close>

definition verify_step ::
  "registry \<Rightarrow> fn \<Rightarrow> instrs \<Rightarrow> nat option list \<Rightarrow> nat \<Rightarrow> frame option list
    \<Rightarrow> verify_error + frame option list \<times> nat list"
where
  "verify_step reg f instrs starts index frames =
     (if index < length instrs \<and> index < length frames
      then (case (instrs ! index, frames ! index) of
              ((at, i, _), None) \<Rightarrow> Inl (at, Panics)
            | ((at, i, _), Some frame) \<Rightarrow>
                (case check reg f at i frame of
                   Inl e \<Rightarrow> Inl e
                 | Inr after \<Rightarrow>
                     (case arrive_target starts at i after frames of
                        Inl e \<Rightarrow> Inl e
                      | Inr (frames1, pushed) \<Rightarrow>
                          if e_flow (instr_effect i) \<in> {F_Jump, F_End} then Inr (frames1, pushed)
                          else (case arrive frames1 (index + 1) after of
                                  None \<Rightarrow> Inl (at, Panics)
                                | Some (frames2, news) \<Rightarrow>
                                    Inr (frames2, if news then (index + 1) # pushed else pushed)))))
      else Inl (0, Panics))"

subsection \<open>The search ends\<close>

text \<open>A frame that is news is lower than the one that was known, or ragged where that was not.\<close>

definition unseen :: "frame option list \<Rightarrow> nat" where
  "unseen frames = length (filter (\<lambda>x. x = None) frames)"

definition frame_weight :: "frame option \<Rightarrow> nat" where
  "frame_weight x = (case x of None \<Rightarrow> 0 | Some k \<Rightarrow> 2 * f_height k + (if f_ragged k then 0 else 1))"

definition weight :: "frame option list \<Rightarrow> nat" where
  "weight frames = (\<Sum>x\<leftarrow>frames. frame_weight x)"

definition lower :: "frame option list \<Rightarrow> frame option list \<Rightarrow> bool" where
  "lower new old \<longleftrightarrow> unseen new < unseen old \<or> unseen new = unseen old \<and> weight new < weight old"

lemma lower_trans: "lower a b \<Longrightarrow> lower b c \<Longrightarrow> lower a c"
  by (auto simp: lower_def)

lemma filter_update_length:
  "i < length xs \<Longrightarrow> length (filter P (xs[i := x])) + (if P (xs ! i) then 1 else 0) =
    length (filter P xs) + (if P x then 1 else 0)"
proof (induction xs arbitrary: i)
  case (Cons y xs)
  show ?case
  proof (cases i)
    case (Suc j)
    then show ?thesis using Cons.IH [of j] Cons.prems by auto
  qed auto
qed simp

lemma weight_update:
  "i < length xs \<Longrightarrow> weight (xs[i := x]) + frame_weight (xs ! i) = weight xs + frame_weight x"
  by (induction xs arbitrary: i) (auto simp: weight_def nth_Cons' gr0_conv_Suc split: nat.splits)

lemma merge_lower: "merge (Some k) frame \<noteq> k \<Longrightarrow> frame_weight (Some (merge (Some k) frame)) < frame_weight (Some k)"
  by (cases k) (auto simp: merge_def frame_weight_def)

lemma arrive_lower:
  assumes "arrive frames target frame = Some (frames', news)"
  shows "length frames' = length frames" and "news \<Longrightarrow> lower frames' frames" and "\<not> news \<Longrightarrow> frames' = frames"
proof -
  have t: "target < length frames" and eq: "frames' = frames[target := Some (merge (frames ! target) frame)]"
    and n: "news \<longleftrightarrow> frames ! target \<noteq> Some (merge (frames ! target) frame)"
    using assms by (auto simp: arrive_def Let_def split: if_splits)
  show "length frames' = length frames" using eq by simp
  show "\<not> news \<Longrightarrow> frames' = frames" using eq n by (metis list_update_id)
  assume news
  show "lower frames' frames"
  proof (cases "frames ! target")
    case None
    then show ?thesis
      using filter_update_length [OF t, of "\<lambda>x. x = None" "Some (merge (frames ! target) frame)"] eq
      by (simp add: lower_def unseen_def)
  next
    case (Some k)
    then have "frame_weight (Some (merge (Some k) frame)) < frame_weight (Some k)"
      using merge_lower n \<open>news\<close> by auto
    then show ?thesis
      using filter_update_length [OF t, of "\<lambda>x. x = None" "Some (merge (frames ! target) frame)"]
        weight_update [OF t, of "Some (merge (frames ! target) frame)"] eq Some
      by (simp add: lower_def unseen_def)
  qed
qed

lemma arrive_target_cases:
  assumes "arrive_target starts at i after frames = Inr (frames', pushed)"
  obtains (no_jump) "e_flow (instr_effect i) \<notin> {F_Branch, F_Jump}" "frames' = frames" "pushed = []"
  | (jump) target news where "e_flow (instr_effect i) \<in> {F_Branch, F_Jump}"
      "start_index starts (jump_target i) = Some target" "arrive frames target after = Some (frames', news)"
      "pushed = (if news then [target] else [])"
proof (cases "e_flow (instr_effect i) \<in> {F_Branch, F_Jump}")
  case True
  then obtain target where t: "start_index starts (jump_target i) = Some target"
    using assms by (cases "start_index starts (jump_target i)") (simp_all add: arrive_target_def Let_def)
  then obtain fs news where a: "arrive frames target after = Some (fs, news)"
    using assms True by (cases "arrive frames target after") (auto simp: arrive_target_def Let_def)
  then show ?thesis
    using jump [of target news] assms True t by (simp add: arrive_target_def Let_def)
next
  case False
  then show ?thesis using no_jump assms by (simp add: arrive_target_def)
qed

lemma arrive_target_lower:
  assumes "arrive_target starts at i after frames = Inr (frames', pushed)"
  shows "lower frames' frames \<or> frames' = frames \<and> pushed = []"
  using assms
proof (cases rule: arrive_target_cases)
  case (jump target news)
  then show ?thesis using arrive_lower(2,3) [OF jump(3)] by auto
qed simp

text \<open>A step that does not fail: the frame of the instruction, what it leaves, and who is told.\<close>

lemma verify_step_cases:
  assumes "verify_step reg f instrs starts index frames = Inr (frames', pushed)"
  obtains at i nx frame after frames1 pushed1 where
    "index < length instrs" "index < length frames" "instrs ! index = (at, i, nx)" "frames ! index = Some frame"
    "check reg f at i frame = Inr after" "arrive_target starts at i after frames = Inr (frames1, pushed1)"
    "e_flow (instr_effect i) \<in> {F_Jump, F_End} \<and> frames' = frames1 \<and> pushed = pushed1 \<or>
     e_flow (instr_effect i) \<notin> {F_Jump, F_End} \<and>
       (\<exists>news. arrive frames1 (index + 1) after = Some (frames', news) \<and>
         pushed = (if news then (index + 1) # pushed1 else pushed1))"
proof -
  have r: "index < length instrs" "index < length frames"
    using assms by (auto simp: verify_step_def split: if_splits)
  obtain at i nx where i: "instrs ! index = (at, i, nx)" by (cases "instrs ! index")
  obtain frame where fr: "frames ! index = Some frame"
    using assms r i by (cases "frames ! index") (auto simp: verify_step_def)
  obtain after where af: "check reg f at i frame = Inr after"
    using assms r i fr by (cases "check reg f at i frame") (auto simp: verify_step_def)
  obtain frames1 pushed1 where t: "arrive_target starts at i after frames = Inr (frames1, pushed1)"
    using assms r i fr af by (cases "arrive_target starts at i after frames") (auto simp: verify_step_def)
  show ?thesis
  proof (rule that [OF r i fr af t])
    show "e_flow (instr_effect i) \<in> {F_Jump, F_End} \<and> frames' = frames1 \<and> pushed = pushed1 \<or>
      e_flow (instr_effect i) \<notin> {F_Jump, F_End} \<and>
       (\<exists>news. arrive frames1 (index + 1) after = Some (frames', news) \<and>
         pushed = (if news then (index + 1) # pushed1 else pushed1))"
    proof (cases "e_flow (instr_effect i) \<in> {F_Jump, F_End}")
      case True
      then show ?thesis using assms r i fr af t by (simp add: verify_step_def)
    next
      case False
      then obtain fs news where a: "arrive frames1 (index + 1) after = Some (fs, news)"
        using assms r i fr af t by (cases "arrive frames1 (index + 1) after") (auto simp: verify_step_def)
      then show ?thesis using assms r i fr af t False by (simp add: verify_step_def)
    qed
  qed
qed

lemma verify_step_lower:
  assumes "verify_step reg f instrs starts index frames = Inr (frames', pushed)"
  shows "lower frames' frames \<or> frames' = frames \<and> pushed = []"
  using assms
proof (rule verify_step_cases)
  fix at i nx frame after frames1 pushed1
  assume t: "arrive_target starts at i after frames = Inr (frames1, pushed1)"
    and s: "e_flow (instr_effect i) \<in> {F_Jump, F_End} \<and> frames' = frames1 \<and> pushed = pushed1 \<or>
      e_flow (instr_effect i) \<notin> {F_Jump, F_End} \<and>
       (\<exists>news. arrive frames1 (index + 1) after = Some (frames', news) \<and>
         pushed = (if news then (index + 1) # pushed1 else pushed1))"
  note first = arrive_target_lower [OF t]
  from s show ?thesis
  proof
    assume "e_flow (instr_effect i) \<notin> {F_Jump, F_End} \<and>
       (\<exists>news. arrive frames1 (index + 1) after = Some (frames', news) \<and>
         pushed = (if news then (index + 1) # pushed1 else pushed1))"
    then obtain news where n: "arrive frames1 (index + 1) after = Some (frames', news)"
      "pushed = (if news then (index + 1) # pushed1 else pushed1)" by blast
    then show ?thesis
      using first arrive_lower(2,3) [OF n(1)] lower_trans [of frames' frames1 frames] by (cases news) auto
  qed (use first in simp)
qed

function verify_loop ::
  "registry \<Rightarrow> fn \<Rightarrow> instrs \<Rightarrow> nat option list \<Rightarrow> frame option list \<Rightarrow> nat list \<Rightarrow> verify_error + frame option list"
where
  "verify_loop reg f instrs starts frames [] = Inr frames"
| "verify_loop reg f instrs starts frames (index # work) =
     (case verify_step reg f instrs starts index frames of
        Inl e \<Rightarrow> Inl e
      | Inr (frames', pushed) \<Rightarrow> verify_loop reg f instrs starts frames' (pushed @ work))"
  by pat_completeness auto
termination
proof (relation "inv_image (less_than <*lex*> less_than <*lex*> less_than)
    (\<lambda>(reg, f, instrs, starts, frames, work). (unseen frames, weight frames, length work))")
  show "((reg, f, instrs, starts, frames', pushed @ work), reg, f, instrs, starts, frames, index # work)
      \<in> inv_image (less_than <*lex*> less_than <*lex*> less_than)
        (\<lambda>(reg, f, instrs, starts, frames, work). (unseen frames, weight frames, length work))"
    if "verify_step reg f instrs starts index frames = Inr x" "(frames', pushed) = x"
    for reg f instrs starts frames index work x frames' pushed
    using verify_step_lower [of reg f instrs starts index frames frames' pushed] that by (auto simp: lower_def)
qed (intro wf_inv_image wf_lex_prod wf_less_than)

section \<open>The verifier\<close>

definition verify :: "registry \<Rightarrow> fn \<Rightarrow> verify_error + unit" where
  "verify reg f =
     (case decode_all (fn_code f) 0 of
        Inl e \<Rightarrow> Inl e
      | Inr instrs \<Rightarrow>
          if instrs = [] then Inl (0, No_Code)
          else (case last instrs of (at, i, _) \<Rightarrow>
            if e_flow (instr_effect i) \<in> {F_Next, F_Branch} then Inl (at, Runs_Off)
            else (case verify_loop reg f instrs (starting_at (length (fn_code f)) instrs)
                    ((replicate (length instrs) None)[0 := Some \<lparr>f_height = fn_arity f, f_ragged = False\<rparr>]) [0] of
                    Inl e \<Rightarrow> Inl e
                  | Inr _ \<Rightarrow> Inr ())))"

text \<open>What the code names of the program's globals: \<open>globals\<close>, \<open>traits\<close> and \<open>methods\<close> are how many there
  are.\<close>

definition global_error :: "nat \<Rightarrow> nat \<Rightarrow> nat \<Rightarrow> instr \<Rightarrow> reason option" where
  "global_error globals traits methods i =
     (let args = snd i;
          in_method = (if traits \<le> num (args ! 2) then Some (No_Trait (num (args ! 2)) traits)
                       else if methods \<le> num (args ! 0) then Some (No_Method (num (args ! 0)) methods) else None);
          in_global = (if globals \<le> num (args ! 0) then Some (No_Global (num (args ! 0)) globals) else None)
      in case fst i of
           Basic Op_GetGlobal \<Rightarrow> in_global
         | Basic Op_SetGlobal \<Rightarrow> in_global
         | Dict Op_CallMethod \<Rightarrow> in_method
         | Dict Op_TailCallMethod \<Rightarrow> in_method
         | _ \<Rightarrow> None)"

function globals_loop :: "nat \<Rightarrow> nat \<Rightarrow> nat \<Rightarrow> byte list \<Rightarrow> nat \<Rightarrow> verify_error + unit" where
  "globals_loop globals traits methods code at =
     (if at < length code
      then (case decode code at of
              None \<Rightarrow> Inl (at, No_Instruction)
            | Some (i, next) \<Rightarrow>
                (case global_error globals traits methods i of
                   Some what \<Rightarrow> Inl (at, what)
                 | None \<Rightarrow> globals_loop globals traits methods code next))
      else Inr ())"
  by pat_completeness auto
termination
  by (relation "measure (\<lambda>(globals, traits, methods, code, at). length code - at)") (auto dest: decode_range)

declare globals_loop.simps [simp del]

definition verify_globals :: "nat \<Rightarrow> nat \<Rightarrow> nat \<Rightarrow> fn \<Rightarrow> verify_error + unit" where
  "verify_globals globals traits methods f = globals_loop globals traits methods (fn_code f) 0"

end
