(* ===== verification/Emit.thy ===== *)
theory Emit
  imports Verify
begin

text \<open>
  The emitter (\<^verbatim>\<open>bytecode/emit.rs\<close>), with the encoder the instruction table makes (\<^verbatim>\<open>bytecode/ops.rs\<close>)
  and the chunk it writes (\<^verbatim>\<open>bytecode/mod.rs\<close>): instructions at full width with jumps to labels
  become bytes, jumps are written when their label is placed, and pairs are fused.

  An operation gives the emitter as it is afterwards, or a diagnostic with its span. After a
  diagnostic the compiler gives the function up, so what the emitter then holds is not modelled.
  An index out of range is the error \<open>E_Panic\<close>. A span is a number; \<open>0\<close> is \<^verbatim>\<open>Span::BUILTIN\<close>. The name of
  the function, which only messages show, is left out.
\<close>

section \<open>Limits\<close>

record limit =
  l_what :: string
  l_count :: nat
  l_max :: nat

datatype jump_bug =
    Jumps_Forward  \<comment> \<open>"jumps forward to a label that is behind it"\<close>
  | Jumps_Height  \<comment> \<open>"jumps back with a height the loop did not start with"\<close>

datatype bug =
    Bug_Takes op nat nat
  | Bug_Cuts op nat nat
  | Bug_Jump op jump_bug
  | Bug_Bound_Twice
  | Bug_Never_Bound
  | Bug_Malformed verify_error

datatype emit_error = E_Limit limit | E_Bug bug | E_Panic

definition FRAME_VALUES :: string where
  "FRAME_VALUES = ''values in the frame of a function (its local bindings plus the values of the expression being evaluated)''"

definition narrow_u8 :: "nat \<Rightarrow> string \<Rightarrow> limit + byte" where
  "narrow_u8 n what =
     (if n < 256 then Inr (word_of_nat n) else Inl \<lparr>l_what = what, l_count = n, l_max = 255\<rparr>)"

text \<open>A 16-bit number stays a number here; \<open>u16_bytes\<close> are its two bytes.\<close>

definition narrow_u16 :: "nat \<Rightarrow> string \<Rightarrow> limit + nat" where
  "narrow_u16 n what = (if n < 65536 then Inr n else Inl \<lparr>l_what = what, l_count = n, l_max = 65535\<rparr>)"

definition slot_u16 :: "nat \<Rightarrow> limit + nat" where
  "slot_u16 slot =
     (if slot < 65536 then Inr slot else Inl \<lparr>l_what = FRAME_VALUES, l_count = slot + 1, l_max = 65536\<rparr>)"

definition u16_bytes :: "nat \<Rightarrow> byte list" where
  "u16_bytes n = [word_of_nat n, word_of_nat (n div 256)]"

definition i32_bytes :: "int \<Rightarrow> byte list" where
  "i32_bytes d = [word_of_int d, word_of_int (d div 256), word_of_int (d div 65536), word_of_int (d div 16777216)]"

definition function_too_large :: "nat \<Rightarrow> limit" where
  "function_too_large n = \<lparr>l_what = ''bytes of code in a function'', l_count = n, l_max = 2147483647\<rparr>"

section \<open>Chunks\<close>

text \<open>A constant, with what the pool and the verifier ask of it. A type descriptor has its id, its
  address, and whether it is anonymous or applied to types.\<close>

datatype cvalue =
    V_Int int
  | V_Bool bool
  | V_String string
  | V_Float nat
  | V_Ctor nat nat
  | V_Variant nat nat nat
  | V_Type nat nat bool bool
  | V_Builtin nat
  | V_Primitive string
  | V_Closure nat nat nat
  | V_Dict nat
  | V_Other nat

datatype constant_key =
    CK_of_Int int
  | CK_of_Bool bool
  | CK_of_String string
  | CK_of_Float nat
  | CK_of_Variant nat nat
  | CK_of_Nullary nat nat
  | CK_of_AnonType nat
  | CK_of_Type nat
  | CK_of_Builtin nat
  | CK_of_Primitive string

type_synonym span = nat

definition BUILTIN :: span where
  "BUILTIN = 0"

record chunk =
  ch_code :: "byte list"
  ch_constants :: "cvalue list"
  ch_spans :: "(nat \<times> span) list"
  ch_dedup :: "constant_key \<Rightarrow> nat option"

definition chunk_new :: chunk where
  "chunk_new = \<lparr>ch_code = [], ch_constants = [], ch_spans = [], ch_dedup = Map.empty\<rparr>"

definition chunk_push :: "byte \<Rightarrow> span \<Rightarrow> chunk \<Rightarrow> chunk" where
  "chunk_push b span c =
     c\<lparr>ch_spans := (if ch_spans c = [] \<or> snd (last (ch_spans c)) \<noteq> span
                   then ch_spans c @ [(length (ch_code c), span)] else ch_spans c),
       ch_code := ch_code c @ [b]\<rparr>"

definition chunk_truncate :: "nat \<Rightarrow> chunk \<Rightarrow> chunk" where
  "chunk_truncate at c =
     c\<lparr>ch_code := take at (ch_code c),
       ch_spans := rev (dropWhile (\<lambda>(offset, _). at \<le> offset) (rev (ch_spans c)))\<rparr>"

fun constant_key_of :: "cvalue \<Rightarrow> constant_key option" where
  "constant_key_of (V_Int n) = Some (CK_of_Int n)"
| "constant_key_of (V_Bool b) = Some (CK_of_Bool b)"
| "constant_key_of (V_String s) = Some (CK_of_String s)"
| "constant_key_of (V_Float bits) = Some (CK_of_Float bits)"
| "constant_key_of (V_Ctor tid ord) = Some (CK_of_Variant tid ord)"
| "constant_key_of (V_Variant tid ord n) = (if n = 0 then Some (CK_of_Nullary tid ord) else None)"
| "constant_key_of (V_Type tid ptr anon applied) =
     (if anon then Some (CK_of_AnonType ptr) else if applied then None else Some (CK_of_Type tid))"
| "constant_key_of (V_Builtin bid) = Some (CK_of_Builtin bid)"
| "constant_key_of (V_Primitive name) = Some (CK_of_Primitive name)"
| "constant_key_of _ = None"

definition add_constant :: "cvalue \<Rightarrow> chunk \<Rightarrow> (nat \<times> chunk) option" where
  "add_constant v c =
     (let key = constant_key_of v
      in case Option.bind key (ch_dedup c) of
           Some index \<Rightarrow> Some (index, c)
         | None \<Rightarrow>
             (if length (ch_constants c) < 65536
              then (let index = length (ch_constants c)
                    in Some (index, c\<lparr>ch_constants := ch_constants c @ [v],
                       ch_dedup := (case key of None \<Rightarrow> ch_dedup c | Some k \<Rightarrow> (ch_dedup c)(k \<mapsto> index))\<rparr>))
              else None))"

definition span_at :: "nat \<Rightarrow> chunk \<Rightarrow> span" where
  "span_at offset c =
     (case takeWhile (\<lambda>(off, _). off \<le> offset) (ch_spans c) of [] \<Rightarrow> BUILTIN | xs \<Rightarrow> snd (last xs))"

section \<open>Instructions at full width\<close>

datatype asm_arg =
    A_Num nat
  | A_To nat
  | A_Strs "nat list"
  | A_Captures "upvalue_desc list"
  | A_Segments "segment list"

type_synonym asm = "op \<times> asm_arg list"

definition segment_values :: "segment list \<Rightarrow> nat" where
  "segment_values segments = length (filter (\<lambda>s. s = Seg_Value) segments)"

text \<open>An operand as the effects of the table read it.\<close>

fun asm_count :: "asm_arg \<Rightarrow> arg" where
  "asm_count (A_Num n) = Num n"
| "asm_count (A_To l) = Num 0"
| "asm_count (A_Strs ks) = Items 0 (length ks)"
| "asm_count (A_Captures cs) = Items 0 (length cs)"
| "asm_count (A_Segments segments) = Segs 0 (length segments) (segment_values segments)"

definition asm_effect :: "asm \<Rightarrow> effect" where
  "asm_effect a = op_effect (fst a) (map asm_count (snd a))"

section \<open>The emitter\<close>

record label_state =
  ls_bound :: "(nat \<times> nat) option"
  ls_arriving :: "nat option"
  ls_waiting :: "(nat \<times> bool) list"

definition label_default :: label_state where
  "label_default = \<lparr>ls_bound = None, ls_arriving = None, ls_waiting = []\<rparr>"

datatype first = First_Int nat | First_Compare op

record last_instr =
  la_first :: first
  la_at :: nat
  la_height :: nat
  la_span :: span

record emitter =
  em_arity :: nat
  em_upvalues :: nat
  em_hidden :: nat
  em_dict_slot :: bool
  em_chunk :: chunk
  em_height :: nat
  em_reachable :: bool
  em_ended :: bool
  em_labels :: "label_state list"
  em_last :: "last_instr option"

type_synonym 'a outcome = "(emit_error \<times> span) + 'a"

definition emitter_new :: "nat \<Rightarrow> span \<Rightarrow> emitter outcome" where
  "emitter_new arity span =
     (case narrow_u8 arity ''parameters of a function'' of
        Inl l \<Rightarrow> Inl (E_Limit l, span)
      | Inr narrowed \<Rightarrow>
          Inr \<lparr>em_arity = unat narrowed, em_upvalues = 0, em_hidden = 0, em_dict_slot = False,
               em_chunk = chunk_new, em_height = arity, em_reachable = True, em_ended = False,
               em_labels = [], em_last = None\<rparr>)"

definition ended :: "emitter \<Rightarrow> bool" where
  "ended e \<longleftrightarrow> em_ended e \<and> \<not> em_reachable e"

definition assume_height :: "nat \<Rightarrow> emitter \<Rightarrow> emitter" where
  "assume_height h e = (if em_reachable e then e else e\<lparr>em_height := h\<rparr>)"

definition emit_constant :: "cvalue \<Rightarrow> span \<Rightarrow> emitter \<Rightarrow> (nat \<times> emitter) outcome" where
  "emit_constant v span e =
     (case add_constant v (em_chunk e) of
        Some (k, c) \<Rightarrow> Inr (k, e\<lparr>em_chunk := c\<rparr>)
      | None \<Rightarrow>
          Inl (E_Limit \<lparr>l_what = ''constants in a function (its distinct literals, names and functions)'',
            l_count = length (ch_constants (em_chunk e)) + 1, l_max = 65536\<rparr>, span))"

subsection \<open>Fusing\<close>

definition first_of :: "asm \<Rightarrow> chunk \<Rightarrow> (unit + first option)" where
  "first_of a c =
     (case a of
        (Basic Op_Constant, [A_Num k]) \<Rightarrow>
          if k < length (ch_constants c)
          then Inr (case ch_constants c ! k of V_Int _ \<Rightarrow> Some (First_Int k) | _ \<Rightarrow> None)
          else Inl ()
      | (op, _) \<Rightarrow>
          Inr (if op \<in> {Basic Op_Lt, Basic Op_Gt, Basic Op_Leq, Basic Op_Geq, Basic Op_Eq, Basic Op_Neq}
               then Some (First_Compare op) else None))"

definition jump_unless :: "op \<Rightarrow> op" where
  "jump_unless op =
     (if op = Basic Op_Lt then Control Op_JumpIfNotLt
      else if op = Basic Op_Gt then Control Op_JumpIfNotGt
      else if op = Basic Op_Leq then Control Op_JumpIfNotLeq
      else if op = Basic Op_Geq then Control Op_JumpIfNotGeq
      else if op = Basic Op_Eq then Control Op_JumpIfNotEq
      else Control Op_JumpIfNotNeq)"

definition negation :: "op \<Rightarrow> op" where
  "negation op =
     (if op = Basic Op_Lt then Basic Op_Geq
      else if op = Basic Op_Gt then Basic Op_Leq
      else if op = Basic Op_Leq then Basic Op_Gt
      else if op = Basic Op_Geq then Basic Op_Lt
      else if op = Basic Op_Eq then Basic Op_Neq
      else Basic Op_Eq)"

fun fused :: "first \<Rightarrow> asm \<Rightarrow> (asm \<times> bool) option" where
  "fused (First_Int k) (Basic Op_Add, []) = Some ((Basic Op_AddConst, [A_Num k]), False)"
| "fused (First_Int k) (Basic Op_Sub, []) = Some ((Basic Op_SubConst, [A_Num k]), False)"
| "fused (First_Compare op) (Control Op_JumpIfFalse, [to]) = Some ((jump_unless op, [to]), True)"
| "fused (First_Compare op) (Control Op_JumpIfTrue, [to]) = Some ((jump_unless (negation op), [to]), True)"
| "fused _ _ = None"

subsection \<open>Writing an instruction\<close>

record out =
  o_chunk :: chunk
  o_labels :: "label_state list"
  o_span :: span
  o_arriving :: "nat option"
  o_bug :: "jump_bug option"

definition out_u8 :: "byte \<Rightarrow> out \<Rightarrow> out" where
  "out_u8 b w = w\<lparr>o_chunk := chunk_push b (o_span w) (o_chunk w)\<rparr>"

definition out_bytes :: "byte list \<Rightarrow> out \<Rightarrow> out" where
  "out_bytes bs w = fold out_u8 bs w"

definition out_u16 :: "nat \<Rightarrow> out \<Rightarrow> out" where
  "out_u16 n w = out_bytes (u16_bytes n) w"

definition arrive_label :: "nat option \<Rightarrow> label_state \<Rightarrow> label_state" where
  "arrive_label arriving s =
     (case arriving of
        None \<Rightarrow> s
      | Some a \<Rightarrow> s\<lparr>ls_arriving := Some (case ls_arriving s of None \<Rightarrow> a | Some known \<Rightarrow> min known a)\<rparr>)"

definition out_wait :: "nat \<Rightarrow> bool \<Rightarrow> out \<Rightarrow> out" where
  "out_wait to wide w =
     (let s = o_labels w ! to
      in w\<lparr>o_labels := (o_labels w)[to := arrive_label (o_arriving w)
             (s\<lparr>ls_waiting := ls_waiting s @ [(length (ch_code (o_chunk w)), wide)]\<rparr>)]\<rparr>)"

definition out_fwd :: "nat \<Rightarrow> out \<Rightarrow> emit_error + out" where
  "out_fwd to w =
     (if to < length (o_labels w)
      then Inr (out_u16 65535
             (out_wait to False
               (if ls_bound (o_labels w ! to) \<noteq> None then w\<lparr>o_bug := Some Jumps_Forward\<rparr> else w)))
      else Inl E_Panic)"

definition out_rel :: "nat \<Rightarrow> out \<Rightarrow> emit_error + out" where
  "out_rel to w =
     (if to < length (o_labels w)
      then (case ls_bound (o_labels w ! to) of
              None \<Rightarrow> Inr (out_bytes (i32_bytes 0) (out_wait to True w))
            | Some (target, height) \<Rightarrow>
                (let w1 = (if \<exists>a \<in> set_option (o_arriving w). a \<noteq> height then w\<lparr>o_bug := Some Jumps_Height\<rparr> else w);
                     n = length (ch_code (o_chunk w)) + 4
                 in if n < target then Inl E_Panic
                    else if n - target \<le> 2147483647 then Inr (out_bytes (i32_bytes (- int (n - target))) w1)
                    else Inl (E_Limit (function_too_large (n - target)))))
      else Inl E_Panic)"

fun limited :: "limit + 'a \<Rightarrow> ('a \<Rightarrow> emit_error + 'b) \<Rightarrow> emit_error + 'b" where
  "limited (Inl l) g = Inl (E_Limit l)"
| "limited (Inr x) g = g x"

fun encode_captures :: "string \<Rightarrow> upvalue_desc list \<Rightarrow> out \<Rightarrow> emit_error + out" where
  "encode_captures what [] w = Inr w"
| "encode_captures what (c # cs) w =
     limited (narrow_u8 (uv_index c)
         (if is_local c then ''values in the frame below a local that a closure captures'' else what))
       (\<lambda>index. encode_captures what cs (out_u8 index (out_u8 (if is_local c then 1 else 0) w)))"

fun segment_bytes :: "segment \<Rightarrow> byte list" where
  "segment_bytes Seg_Value = 0 # u16_bytes 0"
| "segment_bytes (Literal k) = 1 # u16_bytes k"

text \<open>By the operand's type; a kind whose operands are of another type does not occur.\<close>

fun encode_operand :: "kind \<Rightarrow> string \<Rightarrow> asm_arg \<Rightarrow> out \<Rightarrow> emit_error + out" where
  "encode_operand k what (A_Num n) w =
     (if k \<in> {K_U8, K_Byte, K_Upvalue} then limited (narrow_u8 n what) (\<lambda>b. Inr (out_u8 b w))
      else if k = K_U16 then limited (narrow_u16 n what) (\<lambda>m. Inr (out_u16 m w))
      else if k \<in> {K_Slot, K_Cut} then limited (slot_u16 n) (\<lambda>m. Inr (out_u16 m w))
      else if k \<in> {K_Global, K_Trait, K_Method, K_Builtin, K_Const, K_Str, K_Tag, K_Type, K_Func, K_Int, K_Float}
      then Inr (out_u16 n w)
      else Inl E_Panic)"
| "encode_operand k what (A_To l) w =
     (if k = K_Fwd then out_fwd l w else if k = K_Rel then out_rel l w else Inl E_Panic)"
| "encode_operand k what (A_Strs ks) w =
     (if k = K_Strs
      then limited (narrow_u8 (length ks) what) (\<lambda>n. Inr (fold out_u16 ks (out_u8 n w)))
      else Inl E_Panic)"
| "encode_operand k what (A_Captures cs) w =
     (if k = K_Captures
      then limited (narrow_u8 (length cs) what) (\<lambda>n. encode_captures what cs (out_u8 n w))
      else Inl E_Panic)"
| "encode_operand k what (A_Segments ss) w =
     (if k = K_Segments
      then limited (narrow_u8 (length ss) what) (\<lambda>n.
        limited (narrow_u8 (segment_values ss) what) (\<lambda>vs.
          Inr (out_bytes (concat (map segment_bytes ss)) (out_u8 vs (out_u8 n w)))))
      else Inl E_Panic)"

fun encode_operands :: "(kind \<times> string) list \<Rightarrow> asm_arg list \<Rightarrow> out \<Rightarrow> emit_error + out" where
  "encode_operands ((k, what) # ks) (a # as) w =
     (case encode_operand k what a w of Inl e \<Rightarrow> Inl e | Inr w' \<Rightarrow> encode_operands ks as w')"
| "encode_operands [] [] w = Inr w"
| "encode_operands _ _ w = Inl E_Panic"

definition encode :: "asm \<Rightarrow> out \<Rightarrow> emit_error + out" where
  "encode a w = encode_operands (op_kinds (fst a)) (snd a) (out_u8 (op_byte (fst a)) w)"

definition emit_write :: "asm \<Rightarrow> span \<Rightarrow> emitter \<Rightarrow> emitter outcome" where
  "emit_write a span e =
     (let at = length (ch_code (em_chunk e));
          before = em_height e;
          eff = asm_effect a;
          popped = em_height e - e_pops eff;
          left = (case e_cut eff of Some c \<Rightarrow> c | None \<Rightarrow> popped) + e_pushes eff
      in if em_reachable e \<and> em_height e < e_pops eff
         then Inl (E_Bug (Bug_Takes (fst a) (e_pops eff) (em_height e)), span)
         else if em_reachable e \<and> (\<exists>c \<in> set_option (e_cut eff). popped < c)
         then Inl (E_Bug (Bug_Cuts (fst a) popped (the (e_cut eff))), span)
         else (case encode a \<lparr>o_chunk = em_chunk e, o_labels = em_labels e, o_span = span,
                     o_arriving = (if em_reachable e then Some left else None),
                     o_bug = None\<rparr> of
                 Inl err \<Rightarrow> Inl (err, span)
               | Inr w \<Rightarrow>
                   (case (o_bug w, first_of a (o_chunk w)) of
                      (Some bug, _) \<Rightarrow> Inl (E_Bug (Bug_Jump (fst a) bug), span)
                    | (None, Inl _) \<Rightarrow> Inl (E_Panic, span)
                    | (None, Inr first) \<Rightarrow>
                             Inr (e\<lparr>em_chunk := o_chunk w, em_labels := o_labels w, em_height := left,
                               em_reachable := em_reachable e \<and> e_flow eff \<notin> {F_Jump, F_End},
                               em_ended := (e_flow eff = F_End),
                               em_last := map_option (\<lambda>f. \<lparr>la_first = f, la_at = at, la_height = before,
                                 la_span = span\<rparr>) first\<rparr>))))"

definition emit :: "asm \<Rightarrow> span \<Rightarrow> emitter \<Rightarrow> emitter outcome" where
  "emit a span e =
     (case Option.bind (em_last e) (\<lambda>la. map_option (\<lambda>f. (la, f)) (fused (la_first la) a)) of
        Some (la, (one, on_first)) \<Rightarrow>
          emit_write one (if on_first then la_span la else span)
            (e\<lparr>em_chunk := chunk_truncate (la_at la) (em_chunk e), em_height := la_height la\<rparr>)
      | None \<Rightarrow> emit_write a span e)"

subsection \<open>Labels\<close>

definition new_label :: "emitter \<Rightarrow> nat \<times> emitter" where
  "new_label e = (length (em_labels e), e\<lparr>em_labels := em_labels e @ [label_default]\<rparr>)"

definition patch :: "nat \<Rightarrow> byte list \<Rightarrow> byte list \<Rightarrow> byte list" where
  "patch at bs code = take at code @ bs @ drop (at + length bs) code"

definition patch_jump :: "nat \<Rightarrow> string \<Rightarrow> nat \<times> bool \<Rightarrow> byte list \<Rightarrow> emit_error + byte list" where
  "patch_jump here over jump code =
     (case jump of (operand, wide) \<Rightarrow>
        if wide
        then if here < operand + 4 then Inl E_Panic
             else if here - (operand + 4) \<le> 2147483647
             then Inr (patch operand (i32_bytes (int (here - (operand + 4)))) code)
             else Inl (E_Limit (function_too_large (here - (operand + 4))))
        else if here < operand + 2 then Inl E_Panic
             else if here - (operand + 2) \<le> 65535
             then Inr (patch operand (u16_bytes (here - (operand + 2))) code)
             else Inl (E_Limit \<lparr>l_what = over, l_count = here - (operand + 2), l_max = 65535\<rparr>))"

fun patch_jumps :: "nat \<Rightarrow> string \<Rightarrow> (nat \<times> bool) list \<Rightarrow> byte list \<Rightarrow> emit_error + byte list" where
  "patch_jumps here over [] code = Inr code"
| "patch_jumps here over (j # js) code =
     (case patch_jump here over j code of Inl e \<Rightarrow> Inl e | Inr code' \<Rightarrow> patch_jumps here over js code')"

definition bind_over :: "nat \<Rightarrow> string \<Rightarrow> span \<Rightarrow> emitter \<Rightarrow> emitter outcome" where
  "bind_over label over span e =
     (if label < length (em_labels e)
      then (let here = length (ch_code (em_chunk e));
                s = em_labels e ! label
            in if ls_bound s \<noteq> None then Inl (E_Bug Bug_Bound_Twice, span)
               else (case patch_jumps here over (ls_waiting s) (ch_code (em_chunk e)) of
                       Inl err \<Rightarrow> Inl (err, span)
                     | Inr code \<Rightarrow>
                         (let height = (case ls_arriving s of
                                          None \<Rightarrow> em_height e
                                        | Some a \<Rightarrow> if em_reachable e then min (em_height e) a else a)
                          in Inr (e\<lparr>em_last := None, em_chunk := (em_chunk e)\<lparr>ch_code := code\<rparr>,
                               em_height := height,
                               em_reachable := em_reachable e \<or> ls_arriving s \<noteq> None,
                               em_labels := (em_labels e)[label :=
                                 s\<lparr>ls_waiting := [], ls_bound := Some (here, height)\<rparr>]\<rparr>))))
      else Inl (E_Panic, span))"

definition bind_label :: "nat \<Rightarrow> span \<Rightarrow> emitter \<Rightarrow> emitter outcome" where
  "bind_label label span e = bind_over label ''bytes of code in a branch'' span e"

subsection \<open>The function\<close>

definition hidden_params :: "nat \<Rightarrow> emitter \<Rightarrow> emitter" where
  "hidden_params n e = e\<lparr>em_hidden := min n 255\<rparr>"

definition takes_dict_slot :: "emitter \<Rightarrow> emitter" where
  "takes_dict_slot e = e\<lparr>em_dict_slot := True\<rparr>"

fun cval_of :: "cvalue \<Rightarrow> cval" where
  "cval_of (V_Int _) = CV_Int"
| "cval_of (V_Float _) = CV_Float"
| "cval_of (V_String _) = CV_String"
| "cval_of (V_Ctor _ _) = CV_Ctor"
| "cval_of (V_Type _ _ _ _) = CV_Type"
| "cval_of (V_Builtin bid) = CV_Builtin bid"
| "cval_of (V_Closure _ upvalues held) = CV_Closure upvalues held"
| "cval_of (V_Dict _) = CV_Dict"
| "cval_of _ = CV_Other"

definition fn_of :: "emitter \<Rightarrow> fn" where
  "fn_of e = \<lparr>fn_arity = em_arity e, fn_upvalues = em_upvalues e, fn_dict_slot = em_dict_slot e,
     fn_code = ch_code (em_chunk e), fn_constants = map cval_of (ch_constants (em_chunk e))\<rparr>"

definition emit_finish :: "registry \<Rightarrow> nat \<Rightarrow> emitter \<Rightarrow> emitter outcome" where
  "emit_finish reg upvalue_count e =
     (let span = (case ch_spans (em_chunk e) of [] \<Rightarrow> BUILTIN | (_, span) # _ \<Rightarrow> span)
      in if list_ex (\<lambda>l. ls_bound l = None \<and> ls_waiting l \<noteq> []) (em_labels e)
         then Inl (E_Bug Bug_Never_Bound, span)
         else (case narrow_u8 upvalue_count ''values a closure captures'' of
                 Inl l \<Rightarrow> Inl (E_Limit l, span)
               | Inr n \<Rightarrow>
                   (let e1 = e\<lparr>em_upvalues := unat n\<rparr>
                    in case verify reg (fn_of e1) of
                         Inr _ \<Rightarrow> Inr e1
                       | Inl err \<Rightarrow> Inl (E_Bug (Bug_Malformed err), span))))"

definition bounds_past_limit :: "nat \<Rightarrow> nat \<Rightarrow> limit option" where
  "bounds_past_limit params bounds =
     (let n = params + bounds
      in if 0 < bounds \<and> 255 < n
         then Some \<lparr>l_what = ''parameters and bounds of a function'', l_count = n, l_max = 255\<rparr> else None)"

end
