(* ===== verification/Verify_Sound.thy ===== *)
theory Verify_Sound
  imports Verify
begin

text \<open>
  What the verifier promises the VM. A run of a function is the sequence of the offsets it is at
  and of the heights its frame has there, with the effects of the instruction table. Verified
  code is safe at every place a run comes to: an instruction starts there, the frame holds what
  it takes off, its slots, constants, upvalues and captures are there and of the kinds it needs.
\<close>

section \<open>Runs\<close>

definition height_after :: "effect \<Rightarrow> nat \<Rightarrow> nat" where
  "height_after e h = (case e_cut e of Some c \<Rightarrow> c | None \<Rightarrow> h - e_pops e) + e_pushes e"

inductive frame_step :: "fn \<Rightarrow> nat \<times> nat \<Rightarrow> nat \<times> nat \<Rightarrow> bool" for f where
  goes_on: "decode (fn_code f) at = Some (i, nx) \<Longrightarrow> e_flow (instr_effect i) \<in> {F_Next, F_Branch} \<Longrightarrow>
    frame_step f (at, h) (nx, height_after (instr_effect i) h)"
| jumps: "decode (fn_code f) at = Some (i, nx) \<Longrightarrow> e_flow (instr_effect i) \<in> {F_Branch, F_Jump} \<Longrightarrow>
    frame_step f (at, h) (jump_target i, height_after (instr_effect i) h)"

inductive_cases frame_stepE: "frame_step f (at, h) s"

text \<open>What an operand needs, of the frame as it really is.\<close>

definition has_kind :: "const_kind \<Rightarrow> cval \<Rightarrow> bool" where
  "has_kind kind v \<longleftrightarrow>
     (kind = CK_Any \<longrightarrow> (\<forall>upvalues held. v = CV_Closure upvalues held \<longrightarrow> upvalues = held)) \<and>
     (kind = CK_Func \<longrightarrow> (\<exists>upvalues held. v = CV_Closure upvalues held)) \<and>
     (kind = CK_Str \<longrightarrow> v = CV_String) \<and> (kind = CK_Tag \<longrightarrow> v = CV_Ctor) \<and> (kind = CK_Type \<longrightarrow> v = CV_Type) \<and>
     (kind = CK_Int \<longrightarrow> v = CV_Int) \<and> (kind = CK_Float \<longrightarrow> v = CV_Float)"

definition constant_ok :: "registry \<Rightarrow> fn \<Rightarrow> nat \<Rightarrow> const_kind \<Rightarrow> bool" where
  "constant_ok reg f k kind \<longleftrightarrow> k < length (fn_constants f) \<and> has_kind kind (fn_constants f ! k) \<and>
     (\<forall>b. kind = CK_Any \<and> fn_constants f ! k = CV_Builtin b \<longrightarrow>
       (\<exists>row. reg b = Some row \<and> row_enabled row \<and> \<not> row_is_constant row))"

fun operand_ok :: "registry \<Rightarrow> fn \<Rightarrow> nat \<Rightarrow> operand \<Rightarrow> bool" where
  "operand_ok reg f h Plain = True"
| "operand_ok reg f h (Target t) = True"
| "operand_ok reg f h (Slot slot) = (slot < h)"
| "operand_ok reg f h (Upvalue i) = (i < fn_upvalues f)"
| "operand_ok reg f h (Const_Operand k kind) = constant_ok reg f k kind"
| "operand_ok reg f h (Builtin b) = (\<exists>row. reg b = Some row \<and> row_enabled row \<and> \<not> row_is_constant row)"
| "operand_ok reg f h (Strs at n) = (\<forall>k \<in> set (str_items (fn_code f) at n). constant_ok reg f k CK_Str)"
| "operand_ok reg f h (Captures at n) =
     (\<forall>c \<in> set (capture_items (fn_code f) at n). uv_index c < (if is_local c then h else fn_upvalues f))"
| "operand_ok reg f h (Segments at n vs) =
     (let segments = segment_items (fn_code f) at n
      in length (filter (\<lambda>s. s = Seg_Value) segments) = vs \<and>
         (\<forall>k. Literal k \<in> set segments \<longrightarrow> constant_ok reg f k CK_Str))"

text \<open>What some opcodes need of their operands together.\<close>

definition instr_ok :: "registry \<Rightarrow> fn \<Rightarrow> instr \<Rightarrow> bool" where
  "instr_ok reg f i \<longleftrightarrow>
     (fst i = Data Op_MakeClosure \<longrightarrow> (\<exists>held. fn_constants f ! num (snd i ! 0) = CV_Closure (count (snd i ! 1)) held)) \<and>
     (fst i \<in> {Dict Op_CallMethod, Dict Op_TailCallMethod} \<longrightarrow> num (snd i ! 3) < num (snd i ! 1)) \<and>
     (fst i = Data Op_TailCallKeep \<longrightarrow> num (snd i ! 1) \<le> fn_arity f) \<and>
     (fst i = Dict Op_FrameDict \<longrightarrow> fn_dict_slot f) \<and>
     (fst i \<in> {Dict Op_CallDict, Dict Op_TailCallDict} \<longrightarrow> num (snd i ! 2) < num (snd i ! 1) \<or> num (snd i ! 2) = 255) \<and>
     (fst i \<in> {Dict Op_CallChecked, Dict Op_TailCallChecked} \<longrightarrow>
       num (snd i ! 1) < num (snd i ! 0) \<or> num (snd i ! 1) = 255) \<and>
     (fst i = Dict Op_MakeDict \<longrightarrow>
       num (snd i ! 0) < length (fn_constants f) \<and> fn_constants f ! num (snd i ! 0) = CV_Dict) \<and>
     (fst i = Data Op_CallBuiltin \<longrightarrow> (\<forall>row. reg (num (snd i ! 0)) = Some row \<longrightarrow> num (snd i ! 1) = row_arity row))"

definition safe_at :: "registry \<Rightarrow> fn \<Rightarrow> nat \<Rightarrow> nat \<Rightarrow> bool" where
  "safe_at reg f at h \<longleftrightarrow> (\<exists>i nx. decode (fn_code f) at = Some (i, nx) \<and>
     e_pops (instr_effect i) \<le> h \<and>
     (\<forall>c. e_cut (instr_effect i) = Some c \<longrightarrow> c \<le> h - e_pops (instr_effect i)) \<and>
     (\<forall>x \<in> set (operands i). operand_ok reg f h x) \<and>
     instr_ok reg f i \<and>
     (e_flow (instr_effect i) \<in> {F_Next, F_Branch} \<longrightarrow> nx < length (fn_code f)) \<and>
     (e_flow (instr_effect i) \<in> {F_Branch, F_Jump} \<longrightarrow> jump_target i < length (fn_code f)))"

section \<open>The instructions of verified code\<close>

lemma decode_all_nth:
  assumes "decode_all code at = Inr instrs" and "k < length instrs" and "instrs ! k = (a, i, nx)"
  shows "decode code a = Some (i, nx)"
    and "k = 0 \<Longrightarrow> a = at"
    and "Suc k < length instrs \<Longrightarrow> fst (instrs ! Suc k) = nx"
    and "Suc k = length instrs \<Longrightarrow> \<not> nx < length code"
    and "a < length code"
proof -
  have "decode code a = Some (i, nx) \<and> (k = 0 \<longrightarrow> a = at) \<and>
      (Suc k < length instrs \<longrightarrow> fst (instrs ! Suc k) = nx) \<and> (Suc k = length instrs \<longrightarrow> \<not> nx < length code) \<and>
      a < length code"
    using assms
  proof (induction code at arbitrary: instrs k rule: decode_all.induct)
    case (1 code at)
    show ?case
    proof (cases "at < length code")
      case True
      then obtain i' nx' rest where d: "decode code at = Some (i', nx')" "decode_all code nx' = Inr rest"
        "instrs = (at, i', nx') # rest"
        using 1(2) by (subst (asm) decode_all.simps) (auto split: option.splits sum.splits)
      have first: "rest \<noteq> [] \<longrightarrow> fst (rest ! 0) = nx'" "rest = [] \<longrightarrow> \<not> nx' < length code"
        using d(2) by (subst (asm) decode_all.simps; auto split: option.splits sum.splits if_splits)+
      show ?thesis
      proof (cases k)
        case 0
        then show ?thesis using 1(4) d first True by auto
      next
        case (Suc k')
        then show ?thesis using 1(1) [OF True d(1) refl d(2), of k'] 1(3,4) d(3) by auto
      qed
    next
      case False
      then show ?thesis using 1(2,3) by (subst (asm) decode_all.simps) auto
    qed
  qed
  then show "decode code a = Some (i, nx)" "k = 0 \<Longrightarrow> a = at"
    "Suc k < length instrs \<Longrightarrow> fst (instrs ! Suc k) = nx" "Suc k = length instrs \<Longrightarrow> \<not> nx < length code"
    "a < length code"
    by auto
qed

lemma starting_at_fold:
  assumes "fold (\<lambda>(k, (at, i, nx)) table. table[at := Some k]) (List.enumerate m instrs) table ! off = Some k"
    and "off < length table"
  shows "table ! off = Some k \<or> (m \<le> k \<and> k < m + length instrs \<and> fst (instrs ! (k - m)) = off)"
  using assms
proof (induction instrs arbitrary: m table)
  case (Cons x instrs)
  obtain a i nx where x: "x = (a, i, nx)" by (cases x)
  then have "table[a := Some m] ! off = Some k \<or>
      (Suc m \<le> k \<and> k < Suc m + length instrs \<and> fst (instrs ! (k - Suc m)) = off)"
    using Cons.IH [of "Suc m" "table[a := Some m]"] Cons.prems by simp
  then show ?case
  proof
    assume "table[a := Some m] ! off = Some k"
    then show ?thesis using x Cons.prems(2) by (cases "a = off") auto
  next
    assume "Suc m \<le> k \<and> k < Suc m + length instrs \<and> fst (instrs ! (k - Suc m)) = off"
    then show ?thesis by (auto simp: nth_Cons' Suc_diff_Suc)
  qed
qed simp

lemma start_index_spec:
  assumes "start_index (starting_at (length code) instrs) off = Some k"
  shows "k < length instrs" and "fst (instrs ! k) = off"
proof -
  have len: "length (fold (\<lambda>(k, (at, i, nx)) table. table[at := Some k]) xs table) = length table"
    for xs and table :: "nat option list"
    by (induction xs arbitrary: table) auto
  have off: "off < length code" "starting_at (length code) instrs ! off = Some k"
    using assms by (auto simp: start_index_def starting_at_def len split: if_splits)
  then show "k < length instrs" "fst (instrs ! k) = off"
    using starting_at_fold [of 0 instrs "replicate (length code) None" off k] by (auto simp: starting_at_def)
qed

section \<open>Frames as sets of heights\<close>

text \<open>The heights a frame of the verifier stands for.\<close>

definition fits :: "nat \<Rightarrow> frame \<Rightarrow> bool" where
  "fits h frame \<longleftrightarrow> f_height frame \<le> h \<and> (\<not> f_ragged frame \<longrightarrow> h = f_height frame)"

definition below :: "frame \<Rightarrow> frame \<Rightarrow> bool" where
  "below g frame \<longleftrightarrow> (\<forall>h. fits h frame \<longrightarrow> fits h g)"

lemma below_refl [simp]: "below g g"
  by (simp add: below_def)

lemma below_trans: "below a b \<Longrightarrow> below b c \<Longrightarrow> below a c"
  by (auto simp: below_def)

lemma merge_below: "below (merge known frame) frame" and merge_below_known: "below (merge (Some k) frame) k"
  by (auto simp: merge_def below_def fits_def split: option.splits)

lemma first_error_None: "first_error es = None \<longleftrightarrow> (\<forall>e \<in> set es. e = None)"
  by (induction es rule: first_error.induct) auto

lemma builtin_error_None:
  "builtin_error reg b = None \<longleftrightarrow> (\<exists>row. reg b = Some row \<and> row_enabled row \<and> \<not> row_is_constant row)"
  by (auto simp: builtin_error_def split: option.splits)

lemma const_fits_kind: "const_fits kind v \<Longrightarrow> has_kind kind v"
  by (cases kind; cases v) (simp_all add: has_kind_def)

lemma constant_error_None: "constant_error reg (fn_constants f) k kind = None \<Longrightarrow> constant_ok reg f k kind"
  by (cases kind; cases "fn_constants f ! k")
    (auto simp: constant_error_def constant_ok_def builtin_error_None has_kind_def split: if_splits)

lemma instr_error_None:
  assumes "instr_error reg f i = None"
  shows "instr_ok reg f i"
proof (cases "fst i")
  case (Data d)
  then show ?thesis
    using assms by (cases d) (auto simp: instr_error_def instr_ok_def Let_def closure_upvalues_def
        split: option.splits if_splits cval.splits)
next
  case (Dict d)
  then show ?thesis using assms by (cases d) (auto simp: instr_error_def instr_ok_def Let_def split: if_splits)
qed (simp_all add: instr_ok_def)

lemma capture_error_None:
  "capture_error f height c = None \<Longrightarrow> height \<le> h \<Longrightarrow> uv_index c < (if is_local c then h else fn_upvalues f)"
  by (auto simp: capture_error_def split: if_splits)

lemma operand_error_None:
  assumes "operand_error reg f height x = None" and "height \<le> h"
  shows "operand_ok reg f h x"
proof (cases x)
  case (Captures at n)
  then have "\<forall>c \<in> set (capture_items (fn_code f) at n). capture_error f height c = None"
    using assms(1) by (simp add: first_error_None split: if_splits)
  then show ?thesis
    unfolding Captures operand_ok.simps by (intro ballI capture_error_None [OF _ assms(2)]) blast
next
  case (Segments at n vs)
  then show ?thesis
    using assms(1) constant_error_None [of reg f _ CK_Str]
    by (fastforce simp: first_error_None Let_def split: if_splits)
qed (use assms constant_error_None [of reg f] in
    \<open>auto simp: first_error_None builtin_error_None split: if_splits\<close>)

text \<open>What the check of an instruction shows of every frame that fits, and what it leaves of it.\<close>

lemma check_cases:
  assumes "check reg f at i frame = Inr after"
  shows "f_ragged frame \<Longrightarrow> runs_ragged (fst i)"
    and "x \<in> set (operands i) \<Longrightarrow> operand_error reg f (f_height frame) x = None"
    and "instr_error reg f i = None"
    and "e_pops (instr_effect i) \<le> f_height frame"
    and "e_cut (instr_effect i) = Some c \<Longrightarrow> c \<le> f_height frame - e_pops (instr_effect i)"
    and "after = \<lparr>f_height = height_after (instr_effect i) (f_height frame),
                  f_ragged = (f_ragged frame \<and> e_cut (instr_effect i) = None)\<rparr>"
  using assms
  by (auto simp: check_def Let_def height_after_def first_error_None
      split: if_splits option.splits)

lemma check_fits:
  assumes "check reg f at i frame = Inr after" and "fits h frame"
  shows "fits (height_after (instr_effect i) h) after"
  using check_cases(4,6) [OF assms(1)] assms(2)
  by (auto simp: fits_def height_after_def split: option.splits)

section \<open>The fixed point\<close>

definition told :: "frame option list \<Rightarrow> nat \<Rightarrow> frame \<Rightarrow> bool" where
  "told frames t frame \<longleftrightarrow> t < length frames \<and> (\<exists>g. frames ! t = Some g \<and> below g frame)"

lemma arrive_told:
  assumes "arrive frames t frame = Some (frames', news)"
  shows "told frames' t frame"
    and "told frames s b \<Longrightarrow> told frames' s b"
    and "frames' ! k \<noteq> frames ! k \<Longrightarrow> k = t \<and> news"
    and "length frames' = length frames"
  using assms merge_below [of "frames ! t" frame]
  by (auto simp: arrive_def told_def Let_def nth_list_update merge_below_known
      intro: below_trans [OF merge_below_known] split: if_splits)

definition settled :: "registry \<Rightarrow> fn \<Rightarrow> instrs \<Rightarrow> nat option list \<Rightarrow> frame option list \<Rightarrow> nat \<Rightarrow> bool" where
  "settled reg f instrs starts frames k \<longleftrightarrow>
     (\<exists>at i nx frame after. instrs ! k = (at, i, nx) \<and> frames ! k = Some frame \<and>
       check reg f at i frame = Inr after \<and>
       (e_flow (instr_effect i) \<in> {F_Branch, F_Jump} \<longrightarrow>
         (\<exists>t. start_index starts (jump_target i) = Some t \<and> told frames t after)) \<and>
       (e_flow (instr_effect i) \<in> {F_Next, F_Branch} \<longrightarrow> told frames (Suc k) after))"

lemma settled_mono:
  "settled reg f instrs starts frames k \<Longrightarrow> frames' ! k = frames ! k \<Longrightarrow>
    (\<And>s b. told frames s b \<Longrightarrow> told frames' s b) \<Longrightarrow> settled reg f instrs starts frames' k"
  unfolding settled_def by metis

definition searched :: "registry \<Rightarrow> fn \<Rightarrow> instrs \<Rightarrow> nat option list \<Rightarrow> frame option list \<Rightarrow> nat list \<Rightarrow> bool" where
  "searched reg f instrs starts frames work \<longleftrightarrow> length frames = length instrs \<and>
     (\<forall>k < length instrs. frames ! k \<noteq> None \<longrightarrow> k \<in> set work \<or> settled reg f instrs starts frames k)"

text \<open>A step tells the instructions behind, takes nothing back, and notes all that changes.\<close>

lemma arrive_target_told:
  assumes "arrive_target starts at i after frames = Inr (frames', pushed)"
  shows "e_flow (instr_effect i) \<in> {F_Branch, F_Jump} \<Longrightarrow>
      \<exists>t. start_index starts (jump_target i) = Some t \<and> told frames' t after"
    and "told frames s b \<Longrightarrow> told frames' s b"
    and "frames' ! k \<noteq> frames ! k \<Longrightarrow> k \<in> set pushed"
    and "length frames' = length frames"
  using assms by (cases rule: arrive_target_cases; auto dest: arrive_told)+

lemma verify_step_told:
  assumes "verify_step reg f instrs starts index frames = Inr (frames', pushed)"
  shows "told frames s b \<Longrightarrow> told frames' s b"
    and "frames' ! k \<noteq> frames ! k \<Longrightarrow> k \<in> set pushed"
    and "length frames' = length frames"
    and "frames' ! index = frames ! index \<Longrightarrow> settled reg f instrs starts frames' index"
proof -
  obtain at i nx frame after frames1 pushed1 where r: "index < length instrs" "index < length frames"
    and i: "instrs ! index = (at, i, nx)" "frames ! index = Some frame" "check reg f at i frame = Inr after"
    and t: "arrive_target starts at i after frames = Inr (frames1, pushed1)"
    and s: "e_flow (instr_effect i) \<in> {F_Jump, F_End} \<and> frames' = frames1 \<and> pushed = pushed1 \<or>
     e_flow (instr_effect i) \<notin> {F_Jump, F_End} \<and>
       (\<exists>news. arrive frames1 (index + 1) after = Some (frames', news) \<and>
         pushed = (if news then (index + 1) # pushed1 else pushed1))"
    using verify_step_cases [OF assms] by blast
  note first = arrive_target_told [OF t]
  consider (leaves) "e_flow (instr_effect i) \<in> {F_Jump, F_End}" "frames' = frames1" "pushed = pushed1"
    | (next') news where "e_flow (instr_effect i) \<notin> {F_Jump, F_End}"
      "arrive frames1 (index + 1) after = Some (frames', news)"
      "pushed = (if news then (index + 1) # pushed1 else pushed1)"
    using s by blast
  then have all: "(told frames s b \<longrightarrow> told frames' s b) \<and> (frames' ! k \<noteq> frames ! k \<longrightarrow> k \<in> set pushed) \<and>
      length frames' = length frames \<and>
      (e_flow (instr_effect i) \<in> {F_Branch, F_Jump} \<longrightarrow>
        (\<exists>t. start_index starts (jump_target i) = Some t \<and> told frames' t after)) \<and>
      (e_flow (instr_effect i) \<in> {F_Next, F_Branch} \<longrightarrow> told frames' (Suc index) after)" for s b k
  proof cases
    case leaves
    then show ?thesis using first by auto
  next
    case next'
    note second = arrive_told [OF next'(2)]
    have "frames' ! k \<noteq> frames ! k \<longrightarrow> k \<in> set pushed"
      using second(3) [of k] first(3) [of k] next'(3) by (cases "frames' ! k = frames1 ! k") auto
    then show ?thesis using first(1,2,4) second(1,2,4) by auto
  qed
  show "told frames s b \<Longrightarrow> told frames' s b" "frames' ! k \<noteq> frames ! k \<Longrightarrow> k \<in> set pushed"
    "length frames' = length frames" using all by blast+
  show "settled reg f instrs starts frames' index" if "frames' ! index = frames ! index"
    unfolding settled_def using all i that by fastforce
qed

lemma verify_step_searched:
  assumes "verify_step reg f instrs starts index frames = Inr (frames', pushed)"
    and "searched reg f instrs starts frames (index # work)"
  shows "searched reg f instrs starts frames' (pushed @ work)"
  unfolding searched_def
proof (intro conjI allI impI)
  note step = verify_step_told [OF assms(1)]
  show "length frames' = length instrs" using step(3) assms(2) by (simp add: searched_def)
  fix k assume k: "k < length instrs" "frames' ! k \<noteq> None"
  show "k \<in> set (pushed @ work) \<or> settled reg f instrs starts frames' k"
  proof (cases "frames' ! k = frames ! k")
    case True
    then have "k = index \<or> k \<in> set work \<or> settled reg f instrs starts frames k"
      using assms(2) k by (auto simp: searched_def)
    then show ?thesis
      using True step(4) settled_mono [OF _ True] step(1) by auto
  next
    case False
    then show ?thesis using step(2) by simp
  qed
qed

lemma verify_loop_settled:
  assumes "verify_loop reg f instrs starts frames work = Inr frames'"
    and "searched reg f instrs starts frames work" and "told frames 0 first"
  shows "searched reg f instrs starts frames' [] \<and> told frames' 0 first"
  using assms
proof (induction reg f instrs starts frames work rule: verify_loop.induct)
  case (2 reg f instrs starts frames index work)
  then obtain frames1 pushed where s: "verify_step reg f instrs starts index frames = Inr (frames1, pushed)"
    "verify_loop reg f instrs starts frames1 (pushed @ work) = Inr frames'"
    by (auto split: sum.splits)
  show ?case
    using "2.IH" [OF s(1) refl s(2)] verify_step_searched [OF s(1) "2.prems"(2)]
      verify_step_told(1) [OF s(1) "2.prems"(3)] by blast
qed simp
section \<open>Runs of verified code\<close>

lemma decode_all_ascending:
  assumes "decode_all code at = Inr instrs" and "k < k'" and "k' < length instrs"
  shows "fst (instrs ! k) < fst (instrs ! k')"
  using assms(2,3)
proof (induction k' rule: less_Suc_induct)
  case (1 n)
  then show ?case
    using decode_all_nth(1,3) [OF assms(1), of n] decode_range by (metis Suc_lessD prod.collapse)
qed auto

lemma decode_all_unique:
  assumes "decode_all code at = Inr instrs" and "k < length instrs" and "k' < length instrs"
    and "fst (instrs ! k) = fst (instrs ! k')"
  shows "k = k'"
  using assms decode_all_ascending [of code at instrs k k'] decode_all_ascending [of code at instrs k' k]
  by (cases k k' rule: linorder_cases) auto

lemma verifyE:
  assumes "verify reg f = Inr ()"
  obtains instrs frames where "decode_all (fn_code f) 0 = Inr instrs" "instrs \<noteq> []"
    "e_flow (instr_effect (fst (snd (last instrs)))) \<notin> {F_Next, F_Branch}"
    "searched reg f instrs (starting_at (length (fn_code f)) instrs) frames []"
    "told frames 0 \<lparr>f_height = fn_arity f, f_ragged = False\<rparr>"
proof -
  let ?first = "\<lparr>f_height = fn_arity f, f_ragged = False\<rparr>"
  obtain instrs where d: "decode_all (fn_code f) 0 = Inr instrs" "instrs \<noteq> []"
    using assms by (auto simp: verify_def split: sum.splits if_splits)
  obtain a i nx where l: "last instrs = (a, i, nx)" by (cases "last instrs")
  define starts where "starts = starting_at (length (fn_code f)) instrs"
  define frames0 where "frames0 = (replicate (length instrs) None)[0 := Some ?first]"
  have e: "e_flow (instr_effect i) \<notin> {F_Next, F_Branch}"
    using assms d l by (auto simp: verify_def)
  obtain frames where v: "verify_loop reg f instrs starts frames0 [0] = Inr frames"
    using assms d l e
    by (cases "verify_loop reg f instrs starts frames0 [0]") (simp_all add: verify_def starts_def frames0_def)
  have "searched reg f instrs starts frames0 [0]"
    by (auto simp: searched_def frames0_def) (metis list_update_code(2) nth_list_update_neq nth_replicate option.distinct(1))
  moreover have "told frames0 0 ?first"
    using d(2) by (simp add: told_def frames0_def)
  ultimately show ?thesis
    using that [OF d, of frames] e l verify_loop_settled [OF v, of ?first] by (simp add: starts_def)
qed

definition frame_known :: "instrs \<Rightarrow> frame option list \<Rightarrow> nat \<times> nat \<Rightarrow> bool" where
  "frame_known instrs frames s \<longleftrightarrow>
     (\<exists>k i nx frame. k < length instrs \<and> instrs ! k = (fst s, i, nx) \<and> frames ! k = Some frame \<and> fits (snd s) frame)"

lemma told_known:
  assumes "told frames t frame" and "length frames = length instrs" and "fits h frame"
  shows "frame_known instrs frames (fst (instrs ! t), h)"
proof -
  obtain a i nx where "instrs ! t = (a, i, nx)" by (cases "instrs ! t")
  then show ?thesis using assms by (auto simp: frame_known_def told_def below_def)
qed

lemma frame_knownE:
  assumes "frame_known instrs frames (at, h)" and "decode_all (fn_code f) 0 = Inr instrs"
    and "searched reg f instrs starts frames []"
  obtains k i nx frame after where "k < length instrs" "instrs ! k = (at, i, nx)" "frames ! k = Some frame"
    "fits h frame" "check reg f at i frame = Inr after" "decode (fn_code f) at = Some (i, nx)"
    "e_flow (instr_effect i) \<in> {F_Branch, F_Jump} \<Longrightarrow>
       \<exists>t. start_index starts (jump_target i) = Some t \<and> told frames t after"
    "e_flow (instr_effect i) \<in> {F_Next, F_Branch} \<Longrightarrow> told frames (Suc k) after"
proof -
  obtain k i nx frame where k: "k < length instrs" "instrs ! k = (at, i, nx)" "frames ! k = Some frame" "fits h frame"
    using assms(1) by (auto simp: frame_known_def)
  have "settled reg f instrs starts frames k" using assms(3) k by (auto simp: searched_def)
  then obtain after where "check reg f at i frame = Inr after"
    "e_flow (instr_effect i) \<in> {F_Branch, F_Jump} \<longrightarrow>
       (\<exists>t. start_index starts (jump_target i) = Some t \<and> told frames t after)"
    "e_flow (instr_effect i) \<in> {F_Next, F_Branch} \<longrightarrow> told frames (Suc k) after"
    using k by (auto simp: settled_def)
  then show ?thesis using that k decode_all_nth(1) [OF assms(2) k(1,2)] by blast
qed

lemma frame_step_known:
  assumes "frame_step f s s'" and "frame_known instrs frames s" and "decode_all (fn_code f) 0 = Inr instrs"
    and "searched reg f instrs (starting_at (length (fn_code f)) instrs) frames []"
  shows "frame_known instrs frames s'"
proof -
  obtain at h where s: "s = (at, h)" by (cases s)
  have len: "length frames = length instrs" using assms(4) by (simp add: searched_def)
  obtain k i nx frame after where k: "k < length instrs" "instrs ! k = (at, i, nx)" "frames ! k = Some frame"
    "fits h frame" "check reg f at i frame = Inr after" "decode (fn_code f) at = Some (i, nx)"
    and j: "e_flow (instr_effect i) \<in> {F_Branch, F_Jump} \<Longrightarrow>
       \<exists>t. start_index (starting_at (length (fn_code f)) instrs) (jump_target i) = Some t \<and> told frames t after"
    and n: "e_flow (instr_effect i) \<in> {F_Next, F_Branch} \<Longrightarrow> told frames (Suc k) after"
    using frame_knownE [OF assms(2) [unfolded s] assms(3,4)] by blast
  note fit = check_fits [OF k(5,4)]
  from assms(1) s show ?thesis
  proof (cases rule: frame_step.cases)
    case (goes_on _ i' nx')
    then have "told frames (Suc k) after" "s' = (nx, height_after (instr_effect i) h)" using n k(6) s by auto
    moreover from this have "fst (instrs ! Suc k) = nx"
      using decode_all_nth(3) [OF assms(3) k(1,2)] len by (simp add: told_def)
    ultimately show ?thesis using told_known [OF _ len fit] by auto
  next
    case (jumps _ i' nx')
    then obtain t where "start_index (starting_at (length (fn_code f)) instrs) (jump_target i) = Some t"
      "told frames t after" "s' = (jump_target i, height_after (instr_effect i) h)"
      using j k(6) s by auto
    then show ?thesis using told_known [OF _ len fit] start_index_spec(2) by fastforce
  qed
qed

lemma run_known:
  assumes "(frame_step f)\<^sup>*\<^sup>* (0, fn_arity f) s" and "decode_all (fn_code f) 0 = Inr instrs" and "instrs \<noteq> []"
    and "searched reg f instrs (starting_at (length (fn_code f)) instrs) frames []"
    and "told frames 0 \<lparr>f_height = fn_arity f, f_ragged = False\<rparr>"
  shows "frame_known instrs frames s"
  using assms(1)
proof (induction rule: rtranclp_induct)
  case base
  have "fst (instrs ! 0) = 0"
    using decode_all_nth(2) [OF assms(2)] assms(3) by (metis fst_conv length_greater_0_conv prod_cases3)
  then show ?case
    using told_known [OF assms(5)] assms(4) by (fastforce simp: searched_def fits_def)
next
  case (step s s')
  then show ?case using frame_step_known [OF _ _ assms(2,4)] by blast
qed

lemma known_safe:
  assumes "frame_known instrs frames (at, h)" and "decode_all (fn_code f) 0 = Inr instrs"
    and "searched reg f instrs (starting_at (length (fn_code f)) instrs) frames []"
  shows "safe_at reg f at h"
proof -
  have len: "length frames = length instrs" using assms(3) by (simp add: searched_def)
  obtain k i nx frame after where k: "k < length instrs" "instrs ! k = (at, i, nx)" "frames ! k = Some frame"
    "fits h frame" "check reg f at i frame = Inr after" "decode (fn_code f) at = Some (i, nx)"
    and j: "e_flow (instr_effect i) \<in> {F_Branch, F_Jump} \<Longrightarrow>
       \<exists>t. start_index (starting_at (length (fn_code f)) instrs) (jump_target i) = Some t \<and> told frames t after"
    and n: "e_flow (instr_effect i) \<in> {F_Next, F_Branch} \<Longrightarrow> told frames (Suc k) after"
    using frame_knownE [OF assms] by blast
  note c = check_cases [OF k(5)]
  have h: "f_height frame \<le> h" using k(4) by (simp add: fits_def)
  have inside: "fst (instrs ! t) < length (fn_code f)" if "told frames t after" for t
    using that len decode_all_nth(5) [OF assms(2)] by (metis fst_conv prod_cases3 told_def)
  have "nx < length (fn_code f)" if "e_flow (instr_effect i) \<in> {F_Next, F_Branch}"
    using inside [OF n [OF that]] decode_all_nth(3) [OF assms(2) k(1,2)] n [OF that] len by (simp add: told_def)
  moreover have "jump_target i < length (fn_code f)" if "e_flow (instr_effect i) \<in> {F_Branch, F_Jump}"
    using j [OF that] inside start_index_spec(2) [of "fn_code f" instrs "jump_target i"] by fastforce
  moreover have "operand_ok reg f h x" if "x \<in> set (operands i)" for x
    using operand_error_None [OF c(2) [OF that] h] .
  ultimately show ?thesis
    unfolding safe_at_def using k(6) instr_error_None [OF c(3)] c(4) c(5) h by fastforce
qed

lemma verified_code_safe:
  assumes "verify reg f = Inr ()" and "(frame_step f)\<^sup>*\<^sup>* (0, fn_arity f) (at, h)"
  shows "safe_at reg f at h"
  using verifyE [OF assms(1)] run_known [OF assms(2)] known_safe by metis

text \<open>C8: Code the verifier accepts is safe wherever a run of it comes to. At every offset that is
  reached, with the height the frame then really has, an instruction starts that takes no more
  values than the frame holds, cuts it no higher than what is left, names slots below the height,
  upvalues and constants that are there and of the kinds the table says, and goes on to the start
  of another instruction inside the code.\<close>

theorem verified_code_is_safe:
  assumes "verify reg f = Inr ()" and "(frame_step f)\<^sup>*\<^sup>* (0, fn_arity f) (at, h)"
  shows "safe_at reg f at h"
  by (rule verified_code_safe [OF assms])

lemma verified_heights_agree:
  assumes "verify reg f = Inr ()"
    and "(frame_step f)\<^sup>*\<^sup>* (0, fn_arity f) (at, h)" and "(frame_step f)\<^sup>*\<^sup>* (0, fn_arity f) (at, h')"
    and "decode (fn_code f) at = Some (i, nx)" and "\<not> runs_ragged (fst i)"
  shows "h = h'"
proof -
  obtain instrs frames where v: "decode_all (fn_code f) 0 = Inr instrs" "instrs \<noteq> []"
    "searched reg f instrs (starting_at (length (fn_code f)) instrs) frames []"
    "told frames 0 \<lparr>f_height = fn_arity f, f_ragged = False\<rparr>"
    using verifyE [OF assms(1)] by metis
  obtain k i1 nx1 frame after where k: "k < length instrs" "instrs ! k = (at, i1, nx1)" "frames ! k = Some frame"
    "fits h frame" "check reg f at i1 frame = Inr after" and d: "decode (fn_code f) at = Some (i1, nx1)"
    by (rule frame_knownE [OF run_known [OF assms(2) v] v(1,3)]) (rule that, assumption+)
  have "i1 = i" using d assms(4) by simp
  obtain k' i' nx' frame' where k': "k' < length instrs" "instrs ! k' = (at, i', nx')" "frames ! k' = Some frame'"
    "fits h' frame'"
    using run_known [OF assms(3) v] by (auto simp: frame_known_def)
  have "k' = k" using decode_all_unique [OF v(1) k'(1) k(1)] k(2) k'(2) by simp
  then show ?thesis
    using k(3,4) k'(3,4) check_cases(1) [OF k(5)] assms(5) \<open>i1 = i\<close> by (auto simp: fits_def)
qed
text \<open>C9: In verified code the height of the frame at an instruction does not depend on the path to it,
  but for the six instructions that may run where heights differ.\<close>

theorem verified_height_is_unique:
  assumes "verify reg f = Inr ()" and "decode (fn_code f) at = Some (i, nx)" and "\<not> runs_ragged (fst i)"
  shows "\<exists>h0. {h. (frame_step f)\<^sup>*\<^sup>* (0, fn_arity f) (at, h)} \<subseteq> {h0}"
  using verified_heights_agree [OF assms(1) _ _ assms(2,3)] by blast

section \<open>The shapes of decoded operands\<close>

fun arg_shape :: "kind \<Rightarrow> arg \<Rightarrow> bool" where
  "arg_shape K_Strs a = (\<exists>at n. a = Items at n)"
| "arg_shape K_Captures a = (\<exists>at n. a = Items at n)"
| "arg_shape K_Segments a = (\<exists>at n vs. a = Segs at n vs)"
| "arg_shape _ a = (\<exists>n. a = Num n)"

lemma decode_operand_shape: "decode_operand k code at = Some (a, nx) \<Longrightarrow> arg_shape k a"
  by (cases k) (auto simp: plain_u8_def plain_u16_def read_list_def read_items_def read_segments_def
      split: if_splits option.splits)

lemma decode_operands_shape: "decode_operands ks code at = Some (as, nx) \<Longrightarrow> list_all2 arg_shape ks as"
  by (induction ks arbitrary: at as) (auto split: option.splits dest: decode_operand_shape)

lemma decode_shape: "decode code at = Some ((op, args), nx) \<Longrightarrow> list_all2 arg_shape (map fst (op_kinds op)) args"
  by (auto simp: decode_def split: if_splits option.splits dest: decode_operands_shape)

section \<open>The verifier does not panic\<close>

lemma first_error_in: "first_error es = Some e \<Longrightarrow> Some e \<in> set es"
  by (induction es rule: first_error.induct) auto

lemma constant_error_no_panic: "constant_error reg cs k kind \<noteq> Some Panics"
  by (auto simp: constant_error_def builtin_error_def split: if_splits option.splits const_kind.splits cval.splits)

lemma segment_error_no_panic: "segment_error reg f s \<noteq> Some Panics"
  by (cases s) (simp_all add: constant_error_no_panic)

text \<open>The items of a decoded list are inside the code.\<close>

fun items_inside :: "byte list \<Rightarrow> operand \<Rightarrow> bool" where
  "items_inside code (Strs at n) = (at + n * 2 \<le> length code)"
| "items_inside code (Captures at n) = (at + n * 2 \<le> length code)"
| "items_inside code (Segments at n vs) = (at + n * 3 \<le> length code)"
| "items_inside code x = True"

lemma decode_operand_inside: "decode_operand k code at = Some (a, nx) \<Longrightarrow> items_inside code (checked_operand k a)"
  by (cases k) (auto simp: read_list_def read_items_def read_segments_def plain_u8_def plain_u16_def
      split: if_splits option.splits)

lemma decode_operands_inside:
  "decode_operands ks code at = Some (as, nx) \<Longrightarrow> x \<in> set (map2 checked_operand ks as) \<Longrightarrow> items_inside code x"
proof (induction ks arbitrary: at as)
  case (Cons k ks)
  then obtain a mid as' where m: "decode_operand k code at = Some (a, mid)"
    "decode_operands ks code mid = Some (as', nx)" "as = a # as'"
    by (auto split: option.splits)
  then show ?case using Cons.IH [OF m(2)] Cons.prems(2) decode_operand_inside [OF m(1)] by auto
qed simp

lemma decode_inside: "decode code at = Some (i, nx) \<Longrightarrow> x \<in> set (operands i) \<Longrightarrow> items_inside code x"
  using decode_operands_inside [of "map fst (op_kinds (fst i))" code "at + 1" "snd i" nx x]
  by (auto simp: decode_def operands_def split: if_splits option.splits)

lemma operand_error_no_panic:
  assumes "items_inside (fn_code f) x"
  shows "operand_error reg f height x \<noteq> Some Panics"
proof (cases x)
  case (Strs at n)
  then show ?thesis using assms by (auto dest!: first_error_in simp: constant_error_no_panic [symmetric])
next
  case (Captures at n)
  then show ?thesis using assms by (auto dest!: first_error_in simp: capture_error_def split: if_splits)
next
  case (Segments at n vs)
  then show ?thesis using assms by (auto dest!: first_error_in simp: Let_def segment_error_no_panic [symmetric])
qed (simp_all add: constant_error_no_panic builtin_error_def split: option.splits)

lemma method_error_no_panic: "method_error argc at \<noteq> Some Panics" "receiver_error argc at \<noteq> Some Panics"
  by simp_all

text \<open>The constants an instruction is asked about once its operands have passed.\<close>

lemma operands_passed:
  assumes "\<forall>x \<in> set (operands i). operand_error reg f height x = None" and "decode (fn_code f) at = Some (i, nx)"
  shows "fst i = Data Op_MakeClosure \<Longrightarrow> constant_ok reg f (num (snd i ! 0)) CK_Func"
    and "fst i = Dict Op_MakeDict \<Longrightarrow> constant_ok reg f (num (snd i ! 0)) CK_Any"
proof -
  have shape: "list_all2 arg_shape (map fst (op_kinds (fst i))) (snd i)"
    using assms(2) decode_shape [of "fn_code f" at "fst i" "snd i" nx] by simp
  show "constant_ok reg f (num (snd i ! 0)) CK_Func" if "fst i = Data Op_MakeClosure"
    using assms(1) shape that constant_error_None [of reg f _ CK_Func]
    by (auto simp: operands_def list_all2_Cons1)
  show "constant_ok reg f (num (snd i ! 0)) CK_Any" if "fst i = Dict Op_MakeDict"
    using assms(1) shape that constant_error_None [of reg f _ CK_Any]
    by (auto simp: operands_def list_all2_Cons1)
qed

lemma instr_error_no_panic:
  assumes "\<forall>x \<in> set (operands i). operand_error reg f height x = None" and "decode (fn_code f) at = Some (i, nx)"
  shows "instr_error reg f i \<noteq> Some Panics"
proof (cases "fst i")
  case (Data d)
  then show ?thesis
    using operands_passed(1) [OF assms]
    by (cases d) (auto simp: instr_error_def Let_def closure_upvalues_def constant_ok_def has_kind_def split: option.splits)
next
  case (Dict d)
  then show ?thesis
    using operands_passed(2) [OF assms] by (cases d) (auto simp: instr_error_def Let_def constant_ok_def)
qed (simp_all add: instr_error_def)

lemma check_no_panic:
  assumes "decode (fn_code f) at = Some (i, nx)"
  shows "check reg f at i frame \<noteq> Inl (a, Panics)"
proof (cases "first_error (map (operand_error reg f (f_height frame)) (operands i))")
  case None
  then have "instr_error reg f i \<noteq> Some Panics"
    using instr_error_no_panic [OF _ assms] by (auto simp: first_error_None)
  then show ?thesis using None by (auto simp: check_def Let_def split: option.splits)
next
  case (Some e)
  then have "e \<noteq> Panics" using operand_error_no_panic decode_inside [OF assms] by (fastforce dest!: first_error_in)
  then show ?thesis using Some by (simp add: check_def Let_def)
qed

text \<open>What keeps the loop inside its lists: a work list of instructions that have frames, and code
  that does not run off its end.\<close>

definition in_work :: "frame option list \<Rightarrow> nat list \<Rightarrow> bool" where
  "in_work frames work \<longleftrightarrow> (\<forall>k \<in> set work. k < length frames \<and> frames ! k \<noteq> None)"

definition ends_inside :: "instrs \<Rightarrow> bool" where
  "ends_inside instrs \<longleftrightarrow> instrs \<noteq> [] \<and> e_flow (instr_effect (fst (snd (last instrs)))) \<notin> {F_Next, F_Branch}"

lemma arrive_in_work:
  assumes "arrive frames t frame = Some (frames', news)"
  shows "in_work frames work \<Longrightarrow> in_work frames' (t # work)"
  using assms by (auto simp: arrive_def in_work_def Let_def nth_list_update split: if_splits)

lemma in_work_if: "in_work frames (x # xs) \<Longrightarrow> in_work frames ((if b then [x] else []) @ xs)"
  by (cases b) (simp_all add: in_work_def)

lemma arrive_target_in_work:
  assumes "arrive_target starts at i after frames = Inr (frames', pushed)" and "in_work frames work"
  shows "in_work frames' (pushed @ work)"
  using assms(1)
proof (cases rule: arrive_target_cases)
  case (jump target news)
  then show ?thesis using in_work_if [OF arrive_in_work [OF jump(3) assms(2)]] by simp
qed (use assms(2) in simp)

lemma verify_step_in_work:
  assumes "verify_step reg f instrs starts index frames = Inr (frames', pushed)" and "in_work frames work"
  shows "in_work frames' (pushed @ work)"
  using assms(1)
proof (rule verify_step_cases)
  fix at i nx frame after frames1 pushed1
  assume t: "arrive_target starts at i after frames = Inr (frames1, pushed1)"
    and s: "e_flow (instr_effect i) \<in> {F_Jump, F_End} \<and> frames' = frames1 \<and> pushed = pushed1 \<or>
      e_flow (instr_effect i) \<notin> {F_Jump, F_End} \<and>
       (\<exists>news. arrive frames1 (index + 1) after = Some (frames', news) \<and>
         pushed = (if news then (index + 1) # pushed1 else pushed1))"
  note first = arrive_target_in_work [OF t assms(2)]
  from s show ?thesis
  proof
    assume "e_flow (instr_effect i) \<notin> {F_Jump, F_End} \<and>
       (\<exists>news. arrive frames1 (index + 1) after = Some (frames', news) \<and>
         pushed = (if news then (index + 1) # pushed1 else pushed1))"
    then obtain news where n: "arrive frames1 (index + 1) after = Some (frames', news)"
      "pushed = (if news then (index + 1) # pushed1 else pushed1)" by blast
    then show ?thesis using in_work_if [OF arrive_in_work [OF n(1) first], of news] by (cases news) simp_all
  qed (use first in simp)
qed

lemma next_instr:
  assumes "ends_inside instrs" and "k < length instrs" and "instrs ! k = (at, i, nx)"
    and "e_flow (instr_effect i) \<notin> {F_Jump, F_End}"
  shows "Suc k < length instrs"
proof (rule ccontr)
  assume "\<not> Suc k < length instrs"
  then have "last instrs = instrs ! k" using assms(1,2) by (metis Suc_lessI diff_Suc_1 ends_inside_def last_conv_nth)
  then show False using assms by (cases "e_flow (instr_effect i)") (auto simp: ends_inside_def)
qed

lemma arrive_defined: "t < length frames \<Longrightarrow> \<exists>frames' news. arrive frames t frame = Some (frames', news)"
  by (simp add: arrive_def Let_def)

lemma verify_step_no_panic:
  assumes "in_work frames (index # work)" and "ends_inside instrs" and "length frames = length instrs"
    and decoded: "decode_all (fn_code f) 0 = Inr instrs"
    and starts: "\<And>off t. start_index starts off = Some t \<Longrightarrow> t < length instrs"
  shows "verify_step reg f instrs starts index frames \<noteq> Inl (a, Panics)"
proof -
  obtain at i nx where i: "instrs ! index = (at, i, nx)" by (cases "instrs ! index")
  obtain frame where fr: "frames ! index = Some frame" and r: "index < length frames"
    using assms(1) by (auto simp: in_work_def)
  have no_target: "arrive_target starts at i after frames \<noteq> Inl (b, Panics)" for after b
  proof (cases "start_index starts (jump_target i)")
    case (Some t)
    then show ?thesis
      using arrive_defined [of t frames after] starts [OF Some] assms(3) by (auto simp: arrive_target_def Let_def)
  qed (simp add: arrive_target_def Let_def)
  have goes_on: "\<exists>frames' news. arrive frames1 (index + 1) after = Some (frames', news)"
    if "arrive_target starts at i after frames = Inr (frames1, pushed1)" "e_flow (instr_effect i) \<notin> {F_Jump, F_End}"
    for after frames1 pushed1
    using that arrive_defined [of "index + 1" frames1] next_instr [OF assms(2) _ i] arrive_target_told(4) [OF that(1)] r
      assms(3) by auto
  show ?thesis
  proof (cases "check reg f at i frame")
    case (Inl e)
    then show ?thesis
      using i fr r assms(3) check_no_panic [OF decode_all_nth(1) [OF decoded _ i], of reg frame] by (simp add: verify_step_def)
  next
    case check: (Inr after)
    show ?thesis
    proof (cases "arrive_target starts at i after frames")
      case (Inl e)
      then show ?thesis using i fr r assms(3) check no_target [of after] by (simp add: verify_step_def)
    next
      case (Inr told)
      then obtain frames1 pushed1 where t: "arrive_target starts at i after frames = Inr (frames1, pushed1)"
        by (cases told) simp
      then show ?thesis using i fr r assms(3) check goes_on [OF t] by (auto simp: verify_step_def)
    qed
  qed
qed

lemma verify_loop_no_panic:
  assumes "in_work frames work" and "ends_inside instrs" and "length frames = length instrs"
    and "decode_all (fn_code f) 0 = Inr instrs"
    and "\<And>off t. start_index starts off = Some t \<Longrightarrow> t < length instrs"
  shows "verify_loop reg f instrs starts frames work \<noteq> Inl (a, Panics)"
  using assms
proof (induction reg f instrs starts frames work rule: verify_loop.induct)
  case (2 reg f instrs starts frames index work)
  show ?case
  proof (cases "verify_step reg f instrs starts index frames")
    case (Inl e)
    then show ?thesis using verify_step_no_panic [OF "2.prems"] by auto
  next
    case (Inr r)
    obtain frames' pushed where r: "r = (frames', pushed)" by (cases r)
    have "in_work frames work" using "2.prems"(1) by (simp add: in_work_def)
    then show ?thesis
      using "2.IH" [OF Inr r [symmetric]] Inr r verify_step_in_work [of reg f instrs starts index frames frames' pushed]
        verify_step_told(3) [of reg f instrs starts index frames frames' pushed] "2.prems" by simp
  qed
qed simp
lemma decode_all_no_panic: "decode_all code at \<noteq> Inl (a, Panics)"
proof (induction code at rule: decode_all.induct)
  case (1 code at)
  show ?case
  proof (cases "decode code at")
    case None
    then show ?thesis by (subst decode_all.simps) simp
  next
    case (Some r)
    then show ?thesis
      using 1 [OF _ Some, of "fst r" "snd r"] by (subst decode_all.simps) (auto split: sum.splits prod.split)
  qed
qed

text \<open>C30: The verifier itself never panics, whatever the code. None of its tables (the instructions, the
  offsets they start at, the frames) is read outside, nor are the constants and the lists of operands
  inside the code; an instruction of the work list has a frame; and a constant that is read as a
  function, once the operands have passed, is one. Each of these is a branch of the model that gives the
  error \<open>Panics\<close>.\<close>

theorem verifier_never_panics: "verify reg f \<noteq> Inl (at, Panics)"
proof (cases "decode_all (fn_code f) 0")
  case (Inl e)
  then show ?thesis using decode_all_no_panic [of "fn_code f" 0] by (simp add: verify_def)
next
  case (Inr instrs)
  show ?thesis
  proof (cases "ends_inside instrs")
    case True
    let ?frames = "(replicate (length instrs) None)[0 := Some \<lparr>f_height = fn_arity f, f_ragged = False\<rparr>]"
    let ?starts = "starting_at (length (fn_code f)) instrs"
    have "in_work ?frames [0]" using True by (simp add: in_work_def ends_inside_def)
    then have "verify_loop reg f instrs ?starts ?frames [0] \<noteq> Inl (at, Panics)"
      by (rule verify_loop_no_panic) (use True Inr start_index_spec(1) in auto)
    then show ?thesis
      using Inr by (auto simp: verify_def split: prod.split sum.split)
  next
    case False
    then show ?thesis using Inr by (auto simp: verify_def ends_inside_def split: prod.split)
  qed
qed

section \<open>Globals\<close>

definition names_inside :: "nat \<Rightarrow> nat \<Rightarrow> nat \<Rightarrow> instr \<Rightarrow> bool" where
  "names_inside globals traits methods i \<longleftrightarrow>
     (fst i \<in> {Basic Op_GetGlobal, Basic Op_SetGlobal} \<longrightarrow> num (snd i ! 0) < globals) \<and>
     (fst i \<in> {Dict Op_CallMethod, Dict Op_TailCallMethod} \<longrightarrow>
       num (snd i ! 2) < traits \<and> num (snd i ! 0) < methods)"

lemma global_error_None: "global_error globals traits methods i = None \<longleftrightarrow> names_inside globals traits methods i"
proof (cases "fst i")
  case (Basic d)
  then show ?thesis by (cases d) (auto simp: global_error_def names_inside_def Let_def)
next
  case (Dict d)
  then show ?thesis by (cases d) (auto simp: global_error_def names_inside_def Let_def)
qed (simp_all add: global_error_def names_inside_def Let_def)

lemma globals_loop_spec:
  "globals_loop globals traits methods code at = Inr () \<longleftrightarrow>
     (\<exists>instrs. decode_all code at = Inr instrs \<and>
       list_all (\<lambda>(at, i, nx). names_inside globals traits methods i) instrs)"
proof (induction globals traits methods code at rule: globals_loop.induct)
  case (1 globals traits methods code at)
  show ?case
  proof (cases "at < length code")
    case True
    show ?thesis
    proof (cases "decode code at")
      case None
      then show ?thesis using True by (simp add: globals_loop.simps [of _ _ _ _ at] decode_all.simps [of _ at])
    next
      case (Some r)
      obtain i nx where r: "r = (i, nx)" by (cases r)
      note step = 1 [OF True Some r [symmetric]]
      have rest: "(\<exists>instrs. decode_all code at = Inr instrs \<and> list_all (\<lambda>(at, i, nx). names_inside globals traits methods i) instrs)
          \<longleftrightarrow> names_inside globals traits methods i \<and>
            (\<exists>instrs. decode_all code nx = Inr instrs \<and> list_all (\<lambda>(at, i, nx). names_inside globals traits methods i) instrs)"
        using True Some r by (subst decode_all.simps) (auto split: sum.split)
      show ?thesis
      proof (cases "global_error globals traits methods i")
        case None
        then show ?thesis
          using True \<open>decode code at = Some r\<close> r step [OF None] global_error_None [of globals traits methods i] rest
          by (subst globals_loop.simps) simp
      next
        case (Some what)
        then have "\<not> names_inside globals traits methods i" using global_error_None by (metis option.distinct(1))
        then show ?thesis
          using True \<open>decode code at = Some r\<close> r Some rest by (subst globals_loop.simps) simp
      qed
    qed
  next
    case False
    then show ?thesis by (simp add: globals_loop.simps [of _ _ _ _ at] decode_all.simps [of _ at])
  qed
qed

text \<open>C31: The check against the globals accepts exactly the code whose every instruction names a global
  slot, a trait and a method the program has, and that decodes from its first byte to its last.\<close>

theorem verify_globals_spec:
  "verify_globals globals traits methods f = Inr () \<longleftrightarrow>
     (\<exists>instrs. decode_all (fn_code f) 0 = Inr instrs \<and>
       list_all (\<lambda>(at, i, nx). names_inside globals traits methods i) instrs)"
  by (simp add: verify_globals_def globals_loop_spec)

section \<open>A function of one loop\<close>

text \<open>A test of the parameter, a jump back to it, and the return of a constant.\<close>

definition sample :: fn where
  "sample = \<lparr>fn_arity = 1, fn_upvalues = 0, fn_dict_slot = False,
     fn_code = [op_byte (Basic Op_GetLocal), 0, 0, op_byte (Control Op_JumpIfFalse), 5, 0,
       op_byte (Control Op_Jump), 0xF5, 0xFF, 0xFF, 0xFF,
       op_byte (Basic Op_Constant), 0, 0, op_byte (Data Op_Return)],
     fn_constants = [CV_Int]\<rparr>"

lemma sample_verified: "verify (\<lambda>_. None) sample = Inr ()"
  by code_simp

lemma sample_decode:
  "decode (fn_code sample) 0 = Some ((Basic Op_GetLocal, [Num 0]), 3)"
  "decode (fn_code sample) 3 = Some ((Control Op_JumpIfFalse, [Num 11]), 6)"
  by code_simp+

lemma sample_run: "(frame_step sample)\<^sup>*\<^sup>* (0, fn_arity sample) (11, 1)"
proof -
  have "frame_step sample (0, 1) (3, 2)"
    using goes_on [OF sample_decode(1), of 1] by (simp add: instr_effect_def moves_def height_after_def numeral_2_eq_2)
  moreover have "frame_step sample (3, 2) (11, 1)"
    using jumps [OF sample_decode(2), of 2]
    by (simp add: instr_effect_def flows_def height_after_def jump_target_def operands_def)
  ultimately show ?thesis by (simp add: sample_def [THEN arg_cong, of fn_arity])
qed

theorem verified_code_is_safe_witness: "safe_at (\<lambda>_. None) sample 11 1"
  by (rule verified_code_is_safe [OF sample_verified sample_run])

theorem verified_height_is_unique_witness:
  "\<exists>h0. {h. (frame_step sample)\<^sup>*\<^sup>* (0, fn_arity sample) (3, h)} \<subseteq> {h0}"
  by (rule verified_height_is_unique [OF sample_verified sample_decode(2)]) (simp add: runs_ragged_def)

end
