(* ===== verification/Emit_Sound.thy ===== *)
theory Emit_Sound
  imports Emit Verify_Sound
begin

text \<open>
  The emitter is right: what it wrote decodes to the instructions it was given, each jump going
  to the place of its label. The proof reads the code as symbolic code, where a jump is still a
  jump to a label, and shows that the bytes are always the symbolic code with the labels that
  are placed filled in.
\<close>

section \<open>Bytes\<close>

lemma u16_of_bytes: "n < 65536 \<Longrightarrow> u16_of (word_of_nat n) (word_of_nat (n div 256)) = n"
  by (simp add: u16_of_def unat_of_nat)

lemma le_digits: "(d :: int) mod 256 + 256 * (d div 256 mod 256) + 65536 * (d div 65536 mod 256) +
    16777216 * (d div 16777216 mod 256) = d mod 4294967296"
proof -
  have "d mod 4294967296 = 256 * (d div 256 mod 16777216) + d mod 256"
    using zmod_zmult2_eq [of 16777216 d 256] by simp
  moreover have "d div 256 mod 16777216 = 256 * (d div 65536 mod 65536) + d div 256 mod 256"
    using zmod_zmult2_eq [of 65536 "d div 256" 256] zdiv_zmult2_eq [of 256 d 256] by simp
  moreover have "d div 65536 mod 65536 = 256 * (d div 16777216 mod 256) + d div 65536 mod 256"
    using zmod_zmult2_eq [of 256 "d div 65536" 256] zdiv_zmult2_eq [of 256 d 65536] by simp
  ultimately show ?thesis by linarith
qed

lemma i32_of_bytes:
  assumes "- 2147483648 \<le> d" and "d < 2147483648"
  shows "i32_of (word_of_int d) (word_of_int (d div 256)) (word_of_int (d div 65536)) (word_of_int (d div 16777216)) = d"
proof -
  have byte: "uint (word_of_int x :: byte) = x mod 256" for x
    by (simp add: uint_word_of_int take_bit_eq_mod)
  have "i32_of (word_of_int d) (word_of_int (d div 256)) (word_of_int (d div 65536)) (word_of_int (d div 16777216)) =
      (if d mod 4294967296 < 2147483648 then d mod 4294967296 else d mod 4294967296 - 4294967296)"
    unfolding i32_of_def Let_def byte le_digits by simp
  moreover have "d mod 4294967296 = (if 0 \<le> d then d else d + 4294967296)"
  proof (cases "0 \<le> d")
    case False
    then have "d mod 4294967296 = (d + 4294967296) mod 4294967296" by simp
    also have "\<dots> = d + 4294967296" using False assms by (intro mod_pos_pos_trivial) auto
    finally show ?thesis using False by simp
  qed (use assms in simp)
  ultimately show ?thesis using assms by auto
qed

section \<open>Symbolic code\<close>

datatype sym = Raw byte | Fwd_To nat | Rel_To nat

fun sym_len :: "sym \<Rightarrow> nat" where
  "sym_len (Raw b) = 1"
| "sym_len (Fwd_To l) = 2"
| "sym_len (Rel_To l) = 4"

definition syms_len :: "sym list \<Rightarrow> nat" where
  "syms_len ss = sum_list (map sym_len ss)"

lemma syms_len_simps [simp]: "syms_len [] = 0" "syms_len (s # ss) = sym_len s + syms_len ss"
  "syms_len (ss @ ts) = syms_len ss + syms_len ts"
  by (simp_all add: syms_len_def)

text \<open>The bytes, where the labels that are placed are; a jump to another holds what the emitter writes
  until it is.\<close>

fun sym_bytes :: "(nat \<Rightarrow> nat option) \<Rightarrow> nat \<Rightarrow> sym \<Rightarrow> byte list" where
  "sym_bytes L off (Raw b) = [b]"
| "sym_bytes L off (Fwd_To l) = u16_bytes (case L l of None \<Rightarrow> 65535 | Some t \<Rightarrow> t - (off + 2))"
| "sym_bytes L off (Rel_To l) = i32_bytes (case L l of None \<Rightarrow> 0 | Some t \<Rightarrow> int t - int (off + 4))"

fun conc :: "(nat \<Rightarrow> nat option) \<Rightarrow> nat \<Rightarrow> sym list \<Rightarrow> byte list" where
  "conc L off [] = []"
| "conc L off (s # ss) = sym_bytes L off s @ conc L (off + sym_len s) ss"

text \<open>The placed labels are within reach of the jumps to them.\<close>

fun in_reach :: "(nat \<Rightarrow> nat option) \<Rightarrow> nat \<Rightarrow> sym \<Rightarrow> bool" where
  "in_reach L off (Raw b) = True"
| "in_reach L off (Fwd_To l) = (case L l of None \<Rightarrow> True | Some t \<Rightarrow> off + 2 \<le> t \<and> t - (off + 2) \<le> 65535)"
| "in_reach L off (Rel_To l) = (case L l of None \<Rightarrow> True | Some t \<Rightarrow> \<bar>int t - int (off + 4)\<bar> \<le> 2147483647)"

fun all_reach :: "(nat \<Rightarrow> nat option) \<Rightarrow> nat \<Rightarrow> sym list \<Rightarrow> bool" where
  "all_reach L off [] = True"
| "all_reach L off (s # ss) = (in_reach L off s \<and> all_reach L (off + sym_len s) ss)"

text \<open>The jumps to a label, as the emitter keeps them.\<close>

fun sym_waits :: "nat \<Rightarrow> nat \<Rightarrow> sym \<Rightarrow> (nat \<times> bool) list" where
  "sym_waits l off (Raw b) = []"
| "sym_waits l off (Fwd_To l') = (if l' = l then [(off, False)] else [])"
| "sym_waits l off (Rel_To l') = (if l' = l then [(off, True)] else [])"

fun waits :: "nat \<Rightarrow> nat \<Rightarrow> sym list \<Rightarrow> (nat \<times> bool) list" where
  "waits l off [] = []"
| "waits l off (s # ss) = sym_waits l off s @ waits l (off + sym_len s) ss"

fun sym_label :: "sym \<Rightarrow> nat option" where
  "sym_label (Raw b) = None"
| "sym_label (Fwd_To l) = Some l"
| "sym_label (Rel_To l) = Some l"

lemma bytes_len [simp]: "length (u16_bytes n) = 2" "length (i32_bytes d) = 4"
  by (simp_all add: u16_bytes_def i32_bytes_def)

lemma sym_bytes_len [simp]: "length (sym_bytes L off s) = sym_len s"
  by (cases s) simp_all

lemma conc_len [simp]: "length (conc L off ss) = syms_len ss"
  by (induction ss arbitrary: off) auto

lemma conc_append [simp]: "conc L off (ss @ ts) = conc L off ss @ conc L (off + syms_len ss) ts"
  by (induction ss arbitrary: off) (auto simp: add.assoc)

lemma all_reach_append [simp]:
  "all_reach L off (ss @ ts) \<longleftrightarrow> all_reach L off ss \<and> all_reach L (off + syms_len ss) ts"
  by (induction ss arbitrary: off) (auto simp: add.assoc)

lemma waits_append [simp]: "waits l off (ss @ ts) = waits l off ss @ waits l (off + syms_len ss) ts"
  by (induction ss arbitrary: off) (auto simp: add.assoc)

lemma raw_code [simp]:
  "conc L off (map Raw bs) = bs" "all_reach L off (map Raw bs)" "waits l off (map Raw bs) = []"
  "syms_len (map Raw bs) = length bs"
  by (induction bs arbitrary: off) auto

lemma waits_Nil: "(\<forall>s \<in> set ss. sym_label s \<noteq> Some l) \<Longrightarrow> waits l off ss = []"
proof (induction ss arbitrary: off)
  case (Cons s ss)
  then show ?case by (cases s) auto
qed simp

section \<open>Placing a label\<close>

lemma patch_at [simp]: "length bs = length old \<Longrightarrow> patch (length pre) bs (pre @ old @ rest) = pre @ bs @ rest"
  by (simp add: patch_def)

lemma sym_bytes_other: "sym_label s \<noteq> Some l \<Longrightarrow> sym_bytes (L(l := x)) off s = sym_bytes L off s"
  "sym_label s \<noteq> Some l \<Longrightarrow> in_reach (L(l := x)) off s = in_reach L off s"
  "sym_label s \<noteq> Some l \<Longrightarrow> sym_waits l off s = []"
  by (cases s; simp)+

lemma patch_jump_sym:
  assumes "sym_label s = Some l" and "patch_jump here over (hd (sym_waits l off s)) (pre @ sym_bytes L off s @ rest) = Inr code"
    and "length pre = off"
  shows "code = pre @ sym_bytes (L(l \<mapsto> here)) off s @ rest" and "in_reach (L(l \<mapsto> here)) off s"
    and "length (sym_waits l off s) = 1"
  using assms by (cases s; auto simp: patch_jump_def split: if_splits)+

lemma patch_jumps_conc:
  assumes "patch_jumps here over (waits l off ss) (pre @ conc L off ss) = Inr code"
    and "length pre = off" and "all_reach L off ss"
  shows "code = pre @ conc (L(l \<mapsto> here)) off ss \<and> all_reach (L(l \<mapsto> here)) off ss"
  using assms
proof (induction ss arbitrary: off pre)
  case (Cons s ss)
  show ?case
  proof (cases "sym_label s = Some l")
    case False
    then show ?thesis
      using Cons.IH [of "off + sym_len s" "pre @ sym_bytes L off s"] Cons.prems sym_bytes_other [OF False]
      by (auto simp del: fun_upd_apply)
  next
    case True
    let ?rest = "conc L (off + sym_len s) ss"
    obtain j where j: "sym_waits l off s = [j]" using True by (cases s) auto
    obtain code1 where c: "patch_jump here over j (pre @ sym_bytes L off s @ ?rest) = Inr code1"
      and d: "patch_jumps here over (waits l (off + sym_len s) ss) code1 = Inr code"
      using Cons.prems(1) j by (auto split: sum.splits)
    note p = patch_jump_sym [OF True _ Cons.prems(2), of here over L ?rest code1]
    have c1: "code1 = (pre @ sym_bytes (L(l \<mapsto> here)) off s) @ ?rest" and r: "in_reach (L(l \<mapsto> here)) off s"
      using p j c by auto
    show ?thesis
      using Cons.IH [OF d [unfolded c1]] Cons.prems(2,3) r by (auto simp del: fun_upd_apply)
  qed
qed simp
section \<open>Writing an instruction\<close>

definition places :: "label_state list \<Rightarrow> nat \<Rightarrow> nat option" where
  "places labels l = (if l < length labels then map_option fst (ls_bound (labels ! l)) else None)"

text \<open>The code is the symbolic code with the placed labels filled in, and every other label knows
  the jumps that wait for it.\<close>

definition coded :: "byte list \<Rightarrow> label_state list \<Rightarrow> sym list \<Rightarrow> bool" where
  "coded code labels ss \<longleftrightarrow> code = conc (places labels) 0 ss \<and> all_reach (places labels) 0 ss \<and>
     (\<forall>l. if l < length labels
          then ls_waiting (labels ! l) = (if ls_bound (labels ! l) = None then waits l 0 ss else [])
          else waits l 0 ss = [])"

abbreviation w_coded :: "out \<Rightarrow> sym list \<Rightarrow> bool" where
  "w_coded w ss \<equiv> coded (ch_code (o_chunk w)) (o_labels w) ss"

lemma out_u8_simps [simp]:
  "ch_code (o_chunk (out_u8 b w)) = ch_code (o_chunk w) @ [b]"
  "ch_constants (o_chunk (out_u8 b w)) = ch_constants (o_chunk w)"
  "o_labels (out_u8 b w) = o_labels w" "o_bug (out_u8 b w) = o_bug w" "o_arriving (out_u8 b w) = o_arriving w"
  by (simp_all add: out_u8_def chunk_push_def)

lemma out_bytes_simps [simp]:
  "ch_code (o_chunk (out_bytes bs w)) = ch_code (o_chunk w) @ bs"
  "ch_constants (o_chunk (out_bytes bs w)) = ch_constants (o_chunk w)"
  "o_labels (out_bytes bs w) = o_labels w" "o_bug (out_bytes bs w) = o_bug w"
  unfolding out_bytes_def by (induction bs arbitrary: w) simp_all

lemma out_u16_bytes: "out_u16 n w = out_bytes (u16_bytes n) w"
  by (simp add: out_u16_def)

lemma fold_out_u16: "fold out_u16 ks w = out_bytes (concat (map u16_bytes ks)) w"
  by (induction ks arbitrary: w) (simp_all add: out_u16_def out_bytes_def)

lemma coded_bytes: "coded code labels ss \<Longrightarrow> coded (code @ bs) labels (ss @ map Raw bs)"
  by (simp add: coded_def)

lemma places_update:
  "ls_bound s = ls_bound (labels ! l) \<Longrightarrow> places (labels[l := s]) = places labels"
  by (cases "l < length labels") (auto simp: places_def nth_list_update fun_eq_iff list_update_beyond)

lemma coded_wait:
  assumes "coded code labels ss" and "l < length labels" and "ls_bound (labels ! l) = None"
    and "sym_label s = Some l" and "bs = sym_bytes (places labels) (length code) s"
    and "ls_bound st = None" and "ls_waiting st = ls_waiting (labels ! l) @ sym_waits l (length code) s"
  shows "coded (code @ bs) (labels[l := st]) (ss @ [s])"
proof -
  have p: "places (labels[l := st]) = places labels" using assms(3,6) by (simp add: places_update)
  have none: "places labels l = None" using assms(2,3) by (simp add: places_def)
  have r: "in_reach (places labels) (length code) s" using none assms(4) by (cases s) auto
  have o: "sym_waits k off s = []" if "k \<noteq> l" for k off using assms(4) that by (cases s) auto
  show ?thesis
    using assms(1-3) assms(5-7) r o unfolding coded_def p by (auto simp: nth_list_update)
qed

lemma coded_back:
  assumes "coded code labels ss" and "places labels l = Some t"
    and "\<bar>int t - int (length code + 4)\<bar> \<le> 2147483647" and "d = int t - int (length code + 4)"
  shows "coded (code @ i32_bytes d) labels (ss @ [Rel_To l])"
proof -
  have len: "syms_len ss = length code" using assms(1) by (simp add: coded_def)
  have l: "l < length labels" "ls_bound (labels ! l) \<noteq> None"
    using assms(2) by (auto simp: places_def split: if_splits)
  have "waits k 0 (ss @ [Rel_To l]) = waits k 0 ss" if "k \<noteq> l" for k using that by simp
  then have "\<forall>k. if k < length labels
      then ls_waiting (labels ! k) = (if ls_bound (labels ! k) = None then waits k 0 (ss @ [Rel_To l]) else [])
      else waits k 0 (ss @ [Rel_To l]) = []"
    using assms(1) l unfolding coded_def by metis
  moreover have "conc (places labels) 0 (ss @ [Rel_To l]) = conc (places labels) 0 ss @ i32_bytes d"
    using assms(2,4) len by simp
  moreover have "all_reach (places labels) 0 ss" using assms(1) by (simp add: coded_def)
  then have "all_reach (places labels) 0 (ss @ [Rel_To l])"
    using assms(2,3) len by simp
  moreover have "code = conc (places labels) 0 ss" using assms(1) by (simp add: coded_def)
  ultimately show ?thesis unfolding coded_def by metis
qed

lemma out_wait_simps:
  "o_chunk (out_wait l wide w) = o_chunk w" "o_bug (out_wait l wide w) = o_bug w"
  "\<exists>st. o_labels (out_wait l wide w) = (o_labels w)[l := st] \<and> ls_bound st = ls_bound (o_labels w ! l) \<and>
     ls_waiting st = ls_waiting (o_labels w ! l) @ [(length (ch_code (o_chunk w)), wide)]"
  by (auto simp: out_wait_def Let_def arrive_label_def split: option.splits)

lemma out_fwd_coded:
  assumes "out_fwd l w = Inr w'" and "o_bug w' = None" and "w_coded w ss"
  shows "w_coded w' (ss @ [Fwd_To l])" and "o_bug w = None" and "ch_constants (o_chunk w') = ch_constants (o_chunk w)"
    and "length (o_labels w') = length (o_labels w)" and "places (o_labels w') = places (o_labels w)"
proof -
  have l: "l < length (o_labels w)" using assms(1) by (auto simp: out_fwd_def split: if_splits)
  have b: "ls_bound (o_labels w ! l) = None"
    using assms(1,2) l
    by (cases "ls_bound (o_labels w ! l)") (auto simp: out_fwd_def out_u16_bytes out_wait_simps)
  have w': "w' = out_bytes (u16_bytes 65535) (out_wait l False w)"
    using assms(1) l b by (simp add: out_fwd_def out_u16_bytes)
  obtain st where st: "o_labels (out_wait l False w) = (o_labels w)[l := st]" "ls_bound st = None"
    "ls_waiting st = ls_waiting (o_labels w ! l) @ [(length (ch_code (o_chunk w)), False)]"
    using out_wait_simps(3) [of l False w] b by auto
  have "places (o_labels w) l = None" using l b by (simp add: places_def)
  then show "w_coded w' (ss @ [Fwd_To l])"
    using coded_wait [OF assms(3) l b, of "Fwd_To l" _ st] st w' by (simp add: out_wait_simps)
  show "o_bug w = None" "ch_constants (o_chunk w') = ch_constants (o_chunk w)"
    "length (o_labels w') = length (o_labels w)" "places (o_labels w') = places (o_labels w)"
    using assms(2) w' st b by (simp_all add: out_wait_simps places_update)
qed

lemma out_rel_coded:
  assumes "out_rel l w = Inr w'" and "o_bug w' = None" and "w_coded w ss"
  shows "w_coded w' (ss @ [Rel_To l])" and "o_bug w = None" and "ch_constants (o_chunk w') = ch_constants (o_chunk w)"
    and "length (o_labels w') = length (o_labels w)" and "places (o_labels w') = places (o_labels w)"
proof -
  have l: "l < length (o_labels w)" using assms(1) by (auto simp: out_rel_def split: if_splits)
  have "w_coded w' (ss @ [Rel_To l]) \<and> o_bug w = None \<and> ch_constants (o_chunk w') = ch_constants (o_chunk w) \<and>
    length (o_labels w') = length (o_labels w) \<and> places (o_labels w') = places (o_labels w)"
  proof (cases "ls_bound (o_labels w ! l)")
    case None
    have w': "w' = out_bytes (i32_bytes 0) (out_wait l True w)"
      using assms(1) l None by (simp add: out_rel_def)
    obtain st where st: "o_labels (out_wait l True w) = (o_labels w)[l := st]" "ls_bound st = None"
      "ls_waiting st = ls_waiting (o_labels w ! l) @ [(length (ch_code (o_chunk w)), True)]"
      using out_wait_simps(3) [of l True w] None by auto
    have "places (o_labels w) l = None" using l None by (simp add: places_def)
    then show ?thesis
      using coded_wait [OF assms(3) l None, of "Rel_To l" _ st] st w' None assms(2)
      by (simp add: out_wait_simps places_update)
  next
    case (Some b)
    obtain target height where b: "b = (target, height)" by (cases b)
    let ?n = "length (ch_code (o_chunk w)) + 4"
    have r: "target \<le> ?n" "?n - target \<le> 2147483647"
      and w': "w' = out_bytes (i32_bytes (- int (?n - target)))
        (if \<exists>a \<in> set_option (o_arriving w). a \<noteq> height then w\<lparr>o_bug := Some Jumps_Height\<rparr> else w)"
      using assms(1) l Some b by (auto simp: out_rel_def Let_def split: if_splits)
    have w'': "w' = out_bytes (i32_bytes (- int (?n - target))) w"
      using w' assms(2) by (auto split: if_splits)
    have p: "places (o_labels w) l = Some target" using l Some b by (simp add: places_def)
    have "- int (?n - target) = int target - int (length (ch_code (o_chunk w)) + 4)" using r(1) by simp
    moreover have "\<bar>int target - int (length (ch_code (o_chunk w)) + 4)\<bar> \<le> 2147483647" using r by simp
    ultimately have "coded (ch_code (o_chunk w) @ i32_bytes (- int (?n - target))) (o_labels w) (ss @ [Rel_To l])"
      by (intro coded_back [OF assms(3) p])
    then show ?thesis using assms(2) w'' by simp
  qed
  then show "w_coded w' (ss @ [Rel_To l])" "o_bug w = None" "ch_constants (o_chunk w') = ch_constants (o_chunk w)"
    "length (o_labels w') = length (o_labels w)" "places (o_labels w') = places (o_labels w)" by simp_all
qed
text \<open>An operand as symbolic code, and what its encoding has checked.\<close>

definition capture_bytes :: "upvalue_desc \<Rightarrow> byte list" where
  "capture_bytes c = [if is_local c then 1 else 0, word_of_nat (uv_index c)]"

fun operand_syms :: "kind \<Rightarrow> asm_arg \<Rightarrow> sym list" where
  "operand_syms k (A_Num n) =
     (if k \<in> {K_U8, K_Byte, K_Upvalue} then [Raw (word_of_nat n)] else map Raw (u16_bytes n))"
| "operand_syms k (A_To l) = (if k = K_Fwd then [Fwd_To l] else [Rel_To l])"
| "operand_syms k (A_Strs ks) = map Raw (word_of_nat (length ks) # concat (map u16_bytes ks))"
| "operand_syms k (A_Captures cs) = map Raw (word_of_nat (length cs) # concat (map capture_bytes cs))"
| "operand_syms k (A_Segments ss) =
     map Raw (word_of_nat (length ss) # word_of_nat (segment_values ss) # concat (map segment_bytes ss))"

text \<open>Constants, globals, traits, methods and builtins are 16-bit numbers by their type.\<close>

fun arg_typed :: "asm_arg \<Rightarrow> kind \<Rightarrow> bool" where
  "arg_typed (A_Num n) k =
     (k \<in> {K_Global, K_Trait, K_Method, K_Builtin, K_Const, K_Str, K_Tag, K_Type, K_Func, K_Int, K_Float} \<longrightarrow> n < 65536)"
| "arg_typed (A_Strs ks) k = (\<forall>n \<in> set ks. n < 65536)"
| "arg_typed (A_Segments ss) k = (\<forall>n. Literal n \<in> set ss \<longrightarrow> n < 65536)"
| "arg_typed a k = True"

fun operand_fits :: "kind \<Rightarrow> asm_arg \<Rightarrow> bool" where
  "operand_fits k (A_Num n) =
     (if k \<in> {K_U8, K_Byte, K_Upvalue} then n < 256
      else k \<notin> {K_Fwd, K_Rel, K_Strs, K_Captures, K_Segments} \<and> n < 65536)"
| "operand_fits k (A_To l) = (k = K_Fwd \<or> k = K_Rel)"
| "operand_fits k (A_Strs ks) = (k = K_Strs \<and> length ks < 256 \<and> (\<forall>n \<in> set ks. n < 65536))"
| "operand_fits k (A_Captures cs) = (k = K_Captures \<and> length cs < 256 \<and> (\<forall>c \<in> set cs. uv_index c < 256))"
| "operand_fits k (A_Segments ss) = (k = K_Segments \<and> length ss < 256 \<and> (\<forall>n. Literal n \<in> set ss \<longrightarrow> n < 65536))"

definition wrote :: "out \<Rightarrow> out \<Rightarrow> bool" where
  "wrote w w' \<longleftrightarrow> o_bug w = None \<and> ch_constants (o_chunk w') = ch_constants (o_chunk w) \<and>
     length (o_labels w') = length (o_labels w) \<and> places (o_labels w') = places (o_labels w)"

lemma limited_Inr: "limited r g = Inr y \<Longrightarrow> \<exists>x. r = Inr x \<and> g x = Inr y"
  by (cases r) auto

lemma narrow_Inr:
  "narrow_u8 n what = Inr b \<longleftrightarrow> n < 256 \<and> b = word_of_nat n"
  "narrow_u16 n what = Inr m \<longleftrightarrow> n < 65536 \<and> m = n"
  "slot_u16 n = Inr m \<longleftrightarrow> n < 65536 \<and> m = n"
  by (auto simp: narrow_u8_def narrow_u16_def slot_u16_def)

lemma out_u8_bytes: "out_u8 b w = out_bytes [b] w" and out_bytes_bytes: "out_bytes cs (out_bytes bs w) = out_bytes (bs @ cs) w"
  by (simp_all add: out_bytes_def)

lemma encode_captures_Inr:
  "encode_captures what cs w = Inr w' \<Longrightarrow>
    w' = out_bytes (concat (map capture_bytes cs)) w \<and> (\<forall>c \<in> set cs. uv_index c < 256)"
proof (induction what cs w rule: encode_captures.induct)
  case (2 what c cs w)
  then obtain b where b: "uv_index c < 256" "b = word_of_nat (uv_index c)"
    "encode_captures what cs (out_u8 b (out_u8 (if is_local c then 1 else 0) w)) = Inr w'"
    by (auto dest!: limited_Inr simp: narrow_Inr)
  then show ?case
    using "2.IH" [OF b(3)] by (simp add: capture_bytes_def out_u8_bytes out_bytes_bytes)
qed (simp add: out_bytes_def)

lemma out_bytes_wrote:
  assumes "w' = out_bytes bs w" and "syms = map Raw bs" and "o_bug w' = None" and "w_coded w ss"
  shows "w_coded w' (ss @ syms) \<and> wrote w w'"
  using assms by (simp add: coded_bytes wrote_def)

lemma encode_operand_coded:
  assumes "encode_operand k what a w = Inr w'" and "o_bug w' = None" and "w_coded w ss" and "arg_typed a k"
  shows "w_coded w' (ss @ operand_syms k a) \<and> wrote w w' \<and> operand_fits k a"
proof (cases a)
  case (A_Num n)
  let ?bs = "if k \<in> {K_U8, K_Byte, K_Upvalue} then [word_of_nat n] else u16_bytes n"
  have "operand_fits k a" "w' = out_bytes ?bs w"
    using assms(1,4) unfolding A_Num
    by (cases k; auto dest!: limited_Inr simp: narrow_Inr out_u16_bytes out_u8_bytes)+
  moreover have "operand_syms k a = map Raw ?bs" using A_Num by simp
  ultimately show ?thesis
    using out_bytes_wrote [of w' ?bs w "operand_syms k a" ss] assms(2,3) by blast
next
  case (A_To l)
  then consider (fwd) "k = K_Fwd" "out_fwd l w = Inr w'" | (rel) "k = K_Rel" "out_rel l w = Inr w'"
    using assms(1) by (auto split: if_splits)
  then show ?thesis
  proof cases
    case fwd
    then show ?thesis using out_fwd_coded [OF fwd(2) assms(2,3)] A_To by (simp add: wrote_def)
  next
    case rel
    then show ?thesis using out_rel_coded [OF rel(2) assms(2,3)] A_To by (simp add: wrote_def)
  qed
next
  case (A_Strs ks)
  then have "k = K_Strs" "length ks < 256" and w': "w' = out_bytes (word_of_nat (length ks) # concat (map u16_bytes ks)) w"
    using assms(1)
    by (auto dest!: limited_Inr simp: narrow_Inr fold_out_u16 out_u8_bytes out_bytes_bytes split: if_splits)
  then show ?thesis using out_bytes_wrote [OF w' _ assms(2,3), of "operand_syms k a"] assms(4) A_Strs by simp
next
  case (A_Captures cs)
  then have "k = K_Captures" "length cs < 256" "encode_captures what cs (out_u8 (word_of_nat (length cs)) w) = Inr w'"
    using assms(1) by (auto dest!: limited_Inr simp: narrow_Inr split: if_splits)
  then have "k = K_Captures" "length cs < 256" "\<forall>c \<in> set cs. uv_index c < 256"
    and w': "w' = out_bytes (word_of_nat (length cs) # concat (map capture_bytes cs)) w"
    using encode_captures_Inr by (fastforce simp: out_u8_bytes out_bytes_bytes)+
  then show ?thesis using out_bytes_wrote [OF w' _ assms(2,3), of "operand_syms k a"] assms(4) A_Captures by simp
next
  case (A_Segments segs)
  then have "k = K_Segments" "length segs < 256"
    and w': "w' = out_bytes (word_of_nat (length segs) # word_of_nat (segment_values segs) # concat (map segment_bytes segs)) w"
    using assms(1)
    by (auto dest!: limited_Inr simp: narrow_Inr out_u8_bytes out_bytes_bytes split: if_splits)
  then show ?thesis using out_bytes_wrote [OF w' _ assms(2,3), of "operand_syms k a"] assms(4) A_Segments by simp
qed
lemma encode_operand_bug:
  assumes "encode_operand k what a w = Inr w'" and "o_bug w' = None"
  shows "o_bug w = None"
proof (cases a)
  case (A_Num n)
  then show ?thesis using assms by (cases k) (auto dest!: limited_Inr simp: out_u16_bytes)
next
  case (A_To l)
  then show ?thesis
    using assms by (auto simp: out_fwd_def out_rel_def out_u16_bytes out_wait_simps Let_def split: if_splits option.splits)
next
  case (A_Captures cs)
  then show ?thesis
    using assms encode_captures_Inr by (fastforce dest!: limited_Inr split: if_splits)
qed (use assms in \<open>auto dest!: limited_Inr simp: fold_out_u16 split: if_splits\<close>)

definition operands_syms :: "kind list \<Rightarrow> asm_arg list \<Rightarrow> sym list" where
  "operands_syms ks as = concat (map2 operand_syms ks as)"

definition asm_syms :: "asm \<Rightarrow> sym list" where
  "asm_syms a = Raw (op_byte (fst a)) # operands_syms (map fst (op_kinds (fst a))) (snd a)"

definition asm_typed :: "asm \<Rightarrow> bool" where
  "asm_typed a \<longleftrightarrow> list_all2 arg_typed (snd a) (map fst (op_kinds (fst a)))"

definition asm_fits :: "asm \<Rightarrow> bool" where
  "asm_fits a \<longleftrightarrow> list_all2 operand_fits (map fst (op_kinds (fst a))) (snd a)"

lemma encode_operands_bug: "encode_operands ks as w = Inr w' \<Longrightarrow> o_bug w' = None \<Longrightarrow> o_bug w = None"
  by (induction ks as w rule: encode_operands.induct) (auto split: sum.splits dest: encode_operand_bug)

lemma wrote_trans: "wrote w w1 \<Longrightarrow> wrote w1 w2 \<Longrightarrow> wrote w w2"
  by (simp add: wrote_def)

lemma encode_operands_coded:
  assumes "encode_operands ks as w = Inr w'" and "o_bug w' = None" and "w_coded w ss"
    and "list_all2 arg_typed as (map fst ks)"
  shows "w_coded w' (ss @ operands_syms (map fst ks) as) \<and> wrote w w' \<and> list_all2 operand_fits (map fst ks) as"
  using assms
proof (induction ks as w arbitrary: ss rule: encode_operands.induct)
  case (1 k what ks a as w)
  then obtain w1 where w1: "encode_operand k what a w = Inr w1" "encode_operands ks as w1 = Inr w'"
    by (auto split: sum.splits)
  have b: "o_bug w1 = None" using encode_operands_bug [OF w1(2) "1.prems"(2)] .
  have first: "w_coded w1 (ss @ operand_syms k a) \<and> wrote w w1 \<and> operand_fits k a"
    using encode_operand_coded [OF w1(1) b "1.prems"(3)] "1.prems"(4) by simp
  then show ?case
    using "1.IH" [OF w1 "1.prems"(2), of "ss @ operand_syms k a"] "1.prems"(4) wrote_trans [of w w1 w']
    by (simp add: operands_syms_def)
qed (auto simp: operands_syms_def wrote_def)

lemma encode_coded:
  assumes "encode a w = Inr w'" and "o_bug w' = None" and "w_coded w ss" and "asm_typed a"
  shows "w_coded w' (ss @ asm_syms a) \<and> wrote w w' \<and> asm_fits a"
proof -
  have "w_coded (out_u8 (op_byte (fst a)) w) (ss @ [Raw (op_byte (fst a))])"
    using coded_bytes [OF assms(3), of "[op_byte (fst a)]"] by simp
  from encode_operands_coded [OF assms(1) [unfolded encode_def] assms(2) this] assms(4)
  show ?thesis by (simp add: asm_syms_def asm_typed_def asm_fits_def wrote_def)
qed

section \<open>The operations of the emitter\<close>

definition first_is :: "first \<Rightarrow> asm \<Rightarrow> bool" where
  "first_is f a \<longleftrightarrow> (case f of
      First_Int k \<Rightarrow> a = (Basic Op_Constant, [A_Num k])
    | First_Compare op \<Rightarrow> fst a = op \<and> op_kinds op = [])"

definition emitted :: "emitter \<Rightarrow> asm list \<Rightarrow> bool" where
  "emitted e ws \<longleftrightarrow> coded (ch_code (em_chunk e)) (em_labels e) (concat (map asm_syms ws)) \<and> list_all asm_fits ws \<and>
     (\<forall>la. em_last e = Some la \<longrightarrow> ws \<noteq> [] \<and> la_at la = syms_len (concat (map asm_syms (butlast ws))) \<and>
       first_is (la_first la) (last ws))"

lemma first_of_is:
  assumes "first_of a c = Inr (Some f)"
  shows "first_is f a"
proof (cases f)
  case (First_Int k)
  then show ?thesis
    using assms by (auto simp: first_of_def first_is_def split: prod.splits op.splits basic_op.splits list.splits
        asm_arg.splits if_splits cvalue.splits)
next
  case (First_Compare op)
  then have "fst a = op \<and> op \<in> {Basic Op_Lt, Basic Op_Gt, Basic Op_Leq, Basic Op_Geq, Basic Op_Eq, Basic Op_Neq}"
    using assms by (auto simp: first_of_def split: prod.splits op.splits basic_op.splits list.splits
        asm_arg.splits if_splits cvalue.splits)
  then show ?thesis using First_Compare by (auto simp: first_is_def)
qed
lemma emit_writeE:
  assumes "emit_write a span e = Inr e'"
  obtains w first where
    "encode a \<lparr>o_chunk = em_chunk e, o_labels = em_labels e, o_span = span,
       o_arriving = (if em_reachable e then Some (em_height e') else None), o_bug = None\<rparr> = Inr w"
    "o_bug w = None" "first_of a (o_chunk w) = Inr first" "em_chunk e' = o_chunk w" "em_labels e' = o_labels w"
    "em_last e' = map_option (\<lambda>f. \<lparr>la_first = f, la_at = length (ch_code (em_chunk e)), la_height = em_height e,
       la_span = span\<rparr>) first"
  using assms
  by (auto simp: emit_write_def Let_def split: if_splits sum.splits option.splits)

lemma emit_write_coded:
  assumes "emit_write a span e = Inr e'" and "asm_typed a"
    and "coded (ch_code (em_chunk e)) (em_labels e) (concat (map asm_syms ws))" and "list_all asm_fits ws"
  shows "emitted e' (ws @ [a])"
proof -
  obtain w first where w: "encode a \<lparr>o_chunk = em_chunk e, o_labels = em_labels e, o_span = span,
       o_arriving = (if em_reachable e then Some (em_height e') else None), o_bug = None\<rparr> = Inr w"
    "o_bug w = None" "first_of a (o_chunk w) = Inr first" "em_chunk e' = o_chunk w" "em_labels e' = o_labels w"
    "em_last e' = map_option (\<lambda>f. \<lparr>la_first = f, la_at = length (ch_code (em_chunk e)), la_height = em_height e,
       la_span = span\<rparr>) first"
    using emit_writeE [OF assms(1)] .
  have c: "w_coded w (concat (map asm_syms ws) @ asm_syms a)" "asm_fits a"
    using encode_coded [OF w(1,2) _ assms(2), of "concat (map asm_syms ws)"] assms(3) by simp_all
  have len: "length (ch_code (em_chunk e)) = syms_len (concat (map asm_syms ws))"
    using assms(3) by (simp add: coded_def)
  have "first_is (la_first la) a" if "em_last e' = Some la" for la
    using that w(3,6) first_of_is [of a "o_chunk w"] by auto
  then show ?thesis
    using c assms(4) w(4,5,6) len by (auto simp: emitted_def)
qed

lemma coded_truncate:
  assumes "coded code labels (ss @ map Raw bs)"
  shows "coded (take (syms_len ss) code) labels ss"
  using assms by (simp add: coded_def cong: if_cong)

lemma first_is_raw:
  assumes "first_is f a" and "asm_fits a"
  shows "\<exists>bs. asm_syms a = map Raw bs"
proof (cases f)
  case (First_Int k)
  then have "asm_syms a = map Raw (op_byte (Basic Op_Constant) # u16_bytes k)"
    using assms by (simp add: first_is_def asm_syms_def operands_syms_def)
  then show ?thesis by blast
next
  case (First_Compare op)
  then have "asm_syms a = map Raw [op_byte op]"
    using assms by (simp add: first_is_def asm_syms_def asm_fits_def operands_syms_def)
  then show ?thesis by blast
qed

lemma fused_typed:
  assumes "fused f a = Some (one, on_first)" and "first_is f b" and "asm_fits b" and "asm_typed a"
  shows "asm_typed one"
  using assms
proof (cases rule: fused.cases [of "(f, a)"])
  case (1 k)
  then show ?thesis using assms by (auto simp: first_is_def asm_fits_def asm_typed_def)
next
  case (2 k)
  then show ?thesis using assms by (auto simp: first_is_def asm_fits_def asm_typed_def)
next
  case (3 op to)
  then show ?thesis using assms by (cases to) (auto simp: asm_typed_def jump_unless_def)
next
  case (4 op to)
  then show ?thesis using assms by (cases to) (auto simp: asm_typed_def jump_unless_def)
qed simp_all

text \<open>What the emitter has been given: the last of the instructions is replaced where it is fused.\<close>

definition add_asm :: "last_instr option \<Rightarrow> asm \<Rightarrow> asm list \<Rightarrow> asm list" where
  "add_asm la a ws =
     (case Option.bind la (\<lambda>la. fused (la_first la) a) of
        Some (one, _) \<Rightarrow> butlast ws @ [one]
      | None \<Rightarrow> ws @ [a])"

lemma emit_emitted:
  assumes "emit a span e = Inr e'" and "asm_typed a" and "emitted e ws"
  shows "emitted e' (add_asm (em_last e) a ws)"
proof (cases "Option.bind (em_last e) (\<lambda>la. fused (la_first la) a)")
  case None
  then have "emit_write a span e = Inr e'"
    using assms(1) by (cases "em_last e") (auto simp: emit_def)
  then show ?thesis
    using emit_write_coded [of a span e e' ws] assms(2,3) None by (simp add: add_asm_def emitted_def)
next
  case (Some r)
  then obtain la one on_first where la: "em_last e = Some la" "fused (la_first la) a = Some (one, on_first)" "r = (one, on_first)"
    by (cases r) (auto simp: bind_eq_Some_conv)
  let ?e = "e\<lparr>em_chunk := chunk_truncate (la_at la) (em_chunk e), em_height := la_height la\<rparr>"
  have w: "emit_write one (if on_first then la_span la else span) ?e = Inr e'"
    using assms(1) la by (simp add: emit_def)
  have ws: "ws \<noteq> []" "la_at la = syms_len (concat (map asm_syms (butlast ws)))" "first_is (la_first la) (last ws)"
    and fits: "list_all asm_fits ws"
    and coded: "coded (ch_code (em_chunk e)) (em_labels e) (concat (map asm_syms ws))"
    using assms(3) la(1) by (auto simp: emitted_def)
  have "concat (map asm_syms ws) = concat (map asm_syms (butlast ws @ [last ws]))" using ws(1) by simp
  then have c: "coded (ch_code (em_chunk e)) (em_labels e) (concat (map asm_syms (butlast ws)) @ asm_syms (last ws))"
    using coded by simp
  have f: "asm_fits (last ws)" "list_all asm_fits (butlast ws)"
    using fits ws(1) by (auto simp: list_all_iff dest: in_set_butlastD)
  obtain bs where "asm_syms (last ws) = map Raw bs" using first_is_raw [OF ws(3) f(1)] by blast
  then have "coded (ch_code (em_chunk ?e)) (em_labels ?e) (concat (map asm_syms (butlast ws)))"
    using coded_truncate c ws(2) by (simp add: chunk_truncate_def)
  then have "emitted e' (butlast ws @ [one])"
    by (rule emit_write_coded [OF w fused_typed [OF la(2) ws(3) f(1) assms(2)] _ f(2)])
  then show ?thesis using Some la by (simp add: add_asm_def)
qed

lemma bind_over_emitted:
  assumes "bind_over l over span e = Inr e'" and "emitted e ws"
  shows "emitted e' ws"
proof -
  let ?code = "ch_code (em_chunk e)" and ?labels = "em_labels e" and ?ss = "concat (map asm_syms ws)"
  have l: "l < length ?labels" using assms(1) by (auto simp: bind_over_def split: if_splits)
  have b: "ls_bound (?labels ! l) = None"
    using assms(1) l by (cases "ls_bound (?labels ! l)") (auto simp: bind_over_def Let_def)
  obtain code where code: "patch_jumps (length ?code) over (ls_waiting (?labels ! l)) ?code = Inr code"
    using assms(1) l b by (auto simp: bind_over_def Let_def split: sum.splits)
  obtain h where e': "ch_code (em_chunk e') = code" "em_last e' = None"
    "em_labels e' = ?labels[l := (?labels ! l)\<lparr>ls_waiting := [], ls_bound := Some (length ?code, h)\<rparr>]"
    using assms(1) l b code by (auto simp: bind_over_def Let_def)
  have c: "?code = conc (places ?labels) 0 ?ss" "all_reach (places ?labels) 0 ?ss"
    and wait: "\<And>k. k < length ?labels \<Longrightarrow>
      ls_waiting (?labels ! k) = (if ls_bound (?labels ! k) = None then waits k 0 ?ss else [])"
      "\<And>k. \<not> k < length ?labels \<Longrightarrow> waits k 0 ?ss = []"
    using assms(2) unfolding emitted_def coded_def by (auto split: if_splits)
  have places: "places (em_labels e') = (places ?labels)(l \<mapsto> length ?code)"
    using l e'(3) by (auto simp: places_def fun_eq_iff nth_list_update)
  have "code = conc (places (em_labels e')) 0 ?ss \<and> all_reach (places (em_labels e')) 0 ?ss"
    using patch_jumps_conc [of "length ?code" over l 0 ?ss "[]" "places ?labels" code] code c wait(1) [OF l] b
    unfolding places by simp
  then have "coded (ch_code (em_chunk e')) (em_labels e') ?ss"
    using wait l unfolding coded_def e'(1) by (auto simp: e'(3) nth_list_update)
  then show ?thesis using assms(2) e'(2) by (simp add: emitted_def)
qed
end
