(* ===== verification/Emit_Decode.thy ===== *)
theory Emit_Decode
  imports Emit_Sound
begin

text \<open>
  What symbolic code decodes to once its labels are placed, and the theorems on the emitter: the
  round trip of the code, and that fusing two instructions changes nothing but their number.
\<close>

section \<open>Lists of items of one size\<close>

lemma nth_items:
  assumes "\<forall>x \<in> set xs. length (g x) = sz" and "i < length xs" and "j < sz"
  shows "(pre @ concat (map g xs) @ post) ! (length pre + sz * i + j) = g (xs ! i) ! j"
  using assms
proof (induction xs arbitrary: pre i)
  case (Cons x xs)
  show ?case
  proof (cases i)
    case 0
    then show ?thesis using Cons.prems by (simp add: nth_append)
  next
    case (Suc i')
    have "(pre @ concat (map g (x # xs)) @ post) ! (length pre + sz * i + j) =
        ((pre @ g x) @ concat (map g xs) @ post) ! (length (pre @ g x) + sz * i' + j)"
      using Cons.prems Suc by (simp add: algebra_simps)
    also have "\<dots> = g (xs ! i') ! j" using Cons.IH [of i' "pre @ g x"] Cons.prems Suc by simp
    finally show ?thesis using Suc by simp
  qed
qed simp

lemma length_items: "\<forall>x \<in> set xs. length (g x) = sz \<Longrightarrow> length (concat (map g xs)) = length xs * sz"
  by (induction xs) auto

lemma str_items_bytes:
  assumes "\<forall>n \<in> set ks. n < 65536" and "code = pre @ concat (map u16_bytes ks) @ post"
  shows "str_items code (length pre) (length ks) = ks"
proof (rule nth_equalityI)
  fix i assume "i < length (str_items code (length pre) (length ks))"
  then have i: "i < length ks" by (simp add: str_items_def)
  note at = nth_items [of ks u16_bytes 2 i _ pre post]
  have "code ! (length pre + 2 * i) = u16_bytes (ks ! i) ! 0" "code ! (length pre + 2 * i + 1) = u16_bytes (ks ! i) ! 1"
    using at [of 0] at [of 1] i assms(2) by simp_all
  then show "str_items code (length pre) (length ks) ! i = ks ! i"
    using i assms(1) u16_of_bytes [of "ks ! i"] by (simp add: str_items_def u16_bytes_def)
qed (simp add: str_items_def)

lemma capture_items_bytes:
  assumes "\<forall>c \<in> set cs. uv_index c < 256" and "code = pre @ concat (map capture_bytes cs) @ post"
  shows "capture_items code (length pre) (length cs) = cs"
proof (rule nth_equalityI)
  fix i assume "i < length (capture_items code (length pre) (length cs))"
  then have i: "i < length cs" by (simp add: capture_items_def)
  have len: "\<forall>c \<in> set cs. length (capture_bytes c) = 2" by (simp add: capture_bytes_def)
  note at = nth_items [OF len i, of _ pre post]
  have "code ! (length pre + 2 * i) = capture_bytes (cs ! i) ! 0"
    "code ! (length pre + 2 * i + 1) = capture_bytes (cs ! i) ! 1"
    using at [of 0] at [of 1] assms(2) by simp_all
  moreover have "uv_index (cs ! i) < 256" using assms(1) i by simp
  ultimately show "capture_items code (length pre) (length cs) ! i = cs ! i"
    using i by (simp add: capture_items_def capture_bytes_def unat_of_nat)
qed (simp add: capture_items_def)

lemma segment_items_bytes:
  assumes "\<forall>n. Literal n \<in> set ss \<longrightarrow> n < 65536" and "code = pre @ concat (map segment_bytes ss) @ post"
  shows "segment_items code (length pre) (length ss) = ss"
proof (rule nth_equalityI)
  fix i assume "i < length (segment_items code (length pre) (length ss))"
  then have i: "i < length ss" by (simp add: segment_items_def)
  have len: "\<forall>s \<in> set ss. length (segment_bytes s) = 3"
  proof
    fix s show "length (segment_bytes s) = 3" by (cases s) simp_all
  qed
  note at = nth_items [OF len i, of _ pre post]
  have b: "code ! (length pre + 3 * i) = segment_bytes (ss ! i) ! 0"
    "code ! (length pre + 3 * i + 1) = segment_bytes (ss ! i) ! 1"
    "code ! (length pre + 3 * i + 2) = segment_bytes (ss ! i) ! 2"
    using at [of 0] at [of 1] at [of 2] assms(2) by simp_all
  have "segment_items code (length pre) (length ss) ! i =
    (if code ! (length pre + 3 * i) \<noteq> 0
     then Literal (u16_of (code ! (length pre + 3 * i + 1)) (code ! (length pre + 3 * i + 2))) else Seg_Value)"
    using i by (simp add: segment_items_def)
  then show "segment_items code (length pre) (length ss) ! i = ss ! i"
  proof (cases "ss ! i")
    case (Literal n)
    then have "n < 65536" using assms(1) i by (metis nth_mem)
    then show ?thesis
      using Literal b u16_of_bytes [of n] \<open>segment_items code (length pre) (length ss) ! i = _\<close> by (simp add: u16_bytes_def)
  qed (use b in simp)
qed (simp add: segment_items_def)

section \<open>Decoding\<close>

text \<open>What a decoded operand is of the operand that was written.\<close>

fun arg_is :: "(nat \<Rightarrow> nat option) \<Rightarrow> byte list \<Rightarrow> arg \<Rightarrow> asm_arg \<Rightarrow> bool" where
  "arg_is L code (Num n) (A_Num m) = (n = m)"
| "arg_is L code (Num n) (A_To l) = (L l = Some n)"
| "arg_is L code (Items at n) (A_Strs ks) = (str_items code at n = ks)"
| "arg_is L code (Items at n) (A_Captures cs) = (capture_items code at n = cs)"
| "arg_is L code (Segs at n vs) (A_Segments ss) = (segment_items code at n = ss \<and> vs = segment_values ss)"
| "arg_is L code _ _ = False"

definition is_asm :: "(nat \<Rightarrow> nat option) \<Rightarrow> byte list \<Rightarrow> nat \<times> instr \<times> nat \<Rightarrow> asm \<Rightarrow> bool" where
  "is_asm L code x a \<longleftrightarrow> fst (fst (snd x)) = fst a \<and> list_all2 (arg_is L code) (snd (fst (snd x))) (snd a)"

definition placed :: "(nat \<Rightarrow> nat option) \<Rightarrow> sym list \<Rightarrow> bool" where
  "placed L ss \<longleftrightarrow> (\<forall>s \<in> set ss. \<forall>l. sym_label s = Some l \<longrightarrow> L l \<noteq> None)"

lemma read_u16_at:
  "code = pre @ u16_bytes n @ post \<Longrightarrow> n < 65536 \<Longrightarrow> read_u16 code (length pre) = Some (n, length pre + 2)"
  by (simp add: read_u16_def u16_bytes_def nth_append u16_of_bytes)

lemma read_u8_at: "code = pre @ b # post \<Longrightarrow> read_u8 code (length pre) = Some (b, length pre + 1)"
  by (simp add: read_u8_def nth_append)

lemma read_rel_at:
  assumes "code = pre @ i32_bytes (int t - int (length pre + 4)) @ post" and "\<bar>int t - int (length pre + 4)\<bar> \<le> 2147483647"
  shows "read_rel code (length pre) = Some (t, length pre + 4)"
proof -
  let ?d = "int t - int (length pre + 4)"
  have "i32_of (code ! length pre) (code ! (length pre + 1)) (code ! (length pre + 2)) (code ! (length pre + 3)) = ?d"
    using i32_of_bytes [of ?d] assms by (simp add: i32_bytes_def nth_append)
  moreover have "length pre + 4 \<le> length code" using assms(1) by simp
  ultimately show ?thesis by (simp add: read_rel_def Let_def)
qed

lemma read_list_at:
  assumes "code = pre @ word_of_nat n # items @ post" and "n < 256" and "length items = n * sz"
  shows "read_list code (length pre) sz = Some (Items (length pre + 1) n, length pre + 1 + n * sz)"
  using assms read_u8_at [OF assms(1)] by (simp add: read_list_def read_items_def unat_of_nat)

lemma segment_values_le: "segment_values ss \<le> length ss"
  by (simp add: segment_values_def)

lemma decode_num:
  assumes "operand_fits k (A_Num n)" and "code = pre @ conc L (length pre) (operand_syms k (A_Num n)) @ post"
  shows "decode_operand k code (length pre) = Some (Num n, length pre + syms_len (operand_syms k (A_Num n)))"
proof (cases "k \<in> {K_U8, K_Byte, K_Upvalue}")
  case True
  then have c: "code = pre @ word_of_nat n # post" and n: "n < 256" using assms by auto
  show ?thesis using True n read_u8_at [OF c] by (auto simp: plain_u8_def unat_of_nat)
next
  case False
  then have s: "operand_syms k (A_Num n) = map Raw (u16_bytes n)" and n: "n < 65536" using assms(1) by auto
  have "code = pre @ u16_bytes n @ post" using assms(2) unfolding s by simp
  from read_u16_at [OF this n] show ?thesis using False assms(1) unfolding s by (cases k) (auto simp: plain_u16_def)
qed

lemma decode_operand_syms:
  assumes "operand_fits k a" and "code = pre @ conc L (length pre) (operand_syms k a) @ post"
    and "all_reach L (length pre) (operand_syms k a)" and "placed L (operand_syms k a)"
  shows "\<exists>x. decode_operand k code (length pre) = Some (x, length pre + syms_len (operand_syms k a)) \<and> arg_is L code x a"
proof (cases a)
  case (A_Num n)
  then show ?thesis using decode_num [of k n] assms(1,2) by simp
next
  case (A_To l)
  then have k: "k = K_Fwd \<or> k = K_Rel" using assms(1) by simp
  obtain t where t: "L l = Some t" using assms(4) A_To by (auto simp: placed_def split: if_splits)
  from k show ?thesis
  proof
    assume "k = K_Fwd"
    then have c: "code = pre @ u16_bytes (t - (length pre + 2)) @ post"
      and r: "length pre + 2 \<le> t" "t - (length pre + 2) < 65536"
      using assms(2,3) A_To t by auto
    show ?thesis using \<open>k = K_Fwd\<close> A_To t r(1) read_u16_at [OF c r(2)] by (simp add: read_fwd_def)
  next
    assume "k = K_Rel"
    then have "read_rel code (length pre) = Some (t, length pre + 4)"
      using assms(2,3) A_To t by (auto intro!: read_rel_at)
    then show ?thesis using \<open>k = K_Rel\<close> A_To t by simp
  qed
next
  case (A_Strs ks)
  then have f: "k = K_Strs" "length ks < 256" "\<forall>n \<in> set ks. n < 65536" using assms(1) by auto
  have c: "code = pre @ word_of_nat (length ks) # concat (map u16_bytes ks) @ post" using assms(2) A_Strs by simp
  then have "code = (pre @ [word_of_nat (length ks)]) @ concat (map u16_bytes ks) @ post" by simp
  from str_items_bytes [OF f(3) this] show ?thesis
    using read_list_at [OF c f(2), of 2] f(1) A_Strs by (simp add: length_items [of _ _ 2])
next
  case (A_Captures cs)
  then have f: "k = K_Captures" "length cs < 256" "\<forall>c \<in> set cs. uv_index c < 256" using assms(1) by auto
  have c: "code = pre @ word_of_nat (length cs) # concat (map capture_bytes cs) @ post" using assms(2) A_Captures by simp
  then have "code = (pre @ [word_of_nat (length cs)]) @ concat (map capture_bytes cs) @ post" by simp
  from capture_items_bytes [OF f(3) this] show ?thesis
    using read_list_at [OF c f(2), of 2] f(1) A_Captures by (simp add: length_items [of _ _ 2] capture_bytes_def)
next
  case (A_Segments ss)
  let ?items = "concat (map segment_bytes ss)" and ?n = "word_of_nat (length ss) :: byte"
  have f: "k = K_Segments" "length ss < 256" "\<forall>n. Literal n \<in> set ss \<longrightarrow> n < 65536" using assms(1) A_Segments by auto
  have len: "length ?items = length ss * 3"
  proof (rule length_items)
    show "\<forall>s \<in> set ss. length (segment_bytes s) = 3"
    proof
      fix s show "length (segment_bytes s) = 3" by (cases s) simp_all
    qed
  qed
  have c: "code = pre @ ?n # word_of_nat (segment_values ss) # ?items @ post" using assms(2) A_Segments by simp
  then have c2: "code = (pre @ [?n]) @ word_of_nat (segment_values ss) # ?items @ post"
    and c3: "code = (pre @ [?n, word_of_nat (segment_values ss)]) @ ?items @ post" by simp_all
  have "segment_values ss < 256" using segment_values_le [of ss] f(2) by simp
  then have "decode_operand k code (length pre) =
      Some (Segs (length pre + 2) (length ss) (segment_values ss), length pre + 2 + length ss * 3)"
    using f read_u8_at [OF c] read_u8_at [OF c2] arg_cong [OF c, of length] len
    by (simp add: read_segments_def unat_of_nat)
  then show ?thesis using segment_items_bytes [OF f(3) c3] A_Segments len by simp
qed

lemma placed_append [simp]: "placed L (ss @ ts) \<longleftrightarrow> placed L ss \<and> placed L ts"
  by (auto simp: placed_def)

lemma decode_operands_syms:
  assumes "list_all2 operand_fits ks as" and "code = pre @ conc L (length pre) (operands_syms ks as) @ post"
    and "all_reach L (length pre) (operands_syms ks as)" and "placed L (operands_syms ks as)"
  shows "\<exists>xs. decode_operands ks code (length pre) = Some (xs, length pre + syms_len (operands_syms ks as)) \<and>
    list_all2 (arg_is L code) xs as"
  using assms
proof (induction ks as arbitrary: pre rule: list_all2_induct)
  case (Cons k ks a as)
  let ?first = "conc L (length pre) (operand_syms k a)"
  have s: "operands_syms (k # ks) (a # as) = operand_syms k a @ operands_syms ks as"
    by (simp add: operands_syms_def)
  have c: "code = pre @ ?first @ conc L (length (pre @ ?first)) (operands_syms ks as) @ post"
    "code = (pre @ ?first) @ conc L (length (pre @ ?first)) (operands_syms ks as) @ post"
    using Cons.prems(1) s by simp_all
  obtain x where x: "decode_operand k code (length pre) = Some (x, length (pre @ ?first))" "arg_is L code x a"
    using decode_operand_syms [OF Cons.hyps(1) c(1)] Cons.prems(2,3) s by auto
  obtain xs where "decode_operands ks code (length (pre @ ?first)) =
      Some (xs, length (pre @ ?first) + syms_len (operands_syms ks as))" "list_all2 (arg_is L code) xs as"
    using Cons.IH [OF c(2)] Cons.prems(2,3) s by auto
  then show ?case using x s by (auto simp: add.assoc)
qed (simp add: operands_syms_def)

lemma decode_asm:
  assumes "asm_fits a" and "code = pre @ conc L (length pre) (asm_syms a) @ post"
    and "all_reach L (length pre) (asm_syms a)" and "placed L (asm_syms a)"
  shows "\<exists>i. decode code (length pre) = Some (i, length pre + syms_len (asm_syms a)) \<and>
    is_asm L code (length pre, i, length pre + syms_len (asm_syms a)) a"
proof -
  let ?ks = "map fst (op_kinds (fst a))" and ?b = "op_byte (fst a)"
  have c: "code = (pre @ [?b]) @ conc L (length (pre @ [?b])) (operands_syms ?ks (snd a)) @ post"
    using assms(2) by (simp add: asm_syms_def)
  obtain xs where xs: "decode_operands ?ks code (length (pre @ [?b])) =
      Some (xs, length (pre @ [?b]) + syms_len (operands_syms ?ks (snd a)))" "list_all2 (arg_is L code) xs (snd a)"
    using decode_operands_syms [OF assms(1) [unfolded asm_fits_def] c] assms(3,4)
    by (auto simp: asm_syms_def placed_def)
  have "code ! length pre = ?b" "length pre < length code" using c by (simp_all add: nth_append)
  then have "decode code (length pre) = Some ((fst a, xs), length pre + syms_len (asm_syms a))"
    using xs(1) from_byte_op_byte by (simp add: decode_def asm_syms_def)
  then show ?thesis using xs(2) by (simp add: is_asm_def)
qed

definition asms_len :: "asm list \<Rightarrow> nat" where
  "asms_len ws = syms_len (concat (map asm_syms ws))"

lemma asms_len_simps [simp]:
  "asms_len [] = 0" "asms_len (w # ws) = syms_len (asm_syms w) + asms_len ws" "asms_len (vs @ ws) = asms_len vs + asms_len ws"
  by (simp_all add: asms_len_def)

text \<open>Instructions one behind the other from an offset, each the one that was written.\<close>

fun laid_at :: "(nat \<Rightarrow> nat option) \<Rightarrow> byte list \<Rightarrow> nat \<Rightarrow> asm list \<Rightarrow> (nat \<times> instr \<times> nat) list \<Rightarrow> bool" where
  "laid_at L code n [] xs = (xs = [])"
| "laid_at L code n (w # ws) xs =
     (let m = n + syms_len (asm_syms w)
      in \<exists>i ys. xs = (n, i, m) # ys \<and> is_asm L code (n, i, m) w \<and> laid_at L code m ws ys)"

lemma laid_at_append:
  "laid_at L code n (vs @ ws) xs \<longleftrightarrow>
    (\<exists>ys zs. xs = ys @ zs \<and> laid_at L code n vs ys \<and> laid_at L code (n + asms_len vs) ws zs)"
proof (induction vs arbitrary: n xs)
  case (Cons v vs)
  then show ?case by (simp add: Let_def add.assoc) (metis append_Cons)
qed simp

lemma laid_at_snoc:
  assumes "laid_at L code 0 (ws @ [w]) xs"
  obtains ys i where "laid_at L code 0 ws ys" "xs = ys @ [(asms_len ws, i, asms_len (ws @ [w]))]"
    "is_asm L code (asms_len ws, i, asms_len (ws @ [w])) w"
  using assms by (auto simp: laid_at_append Let_def)

lemma decode_all_asms:
  assumes "list_all asm_fits ws" and "code = pre @ conc L (length pre) (concat (map asm_syms ws))"
    and "all_reach L (length pre) (concat (map asm_syms ws))" and "placed L (concat (map asm_syms ws))"
  shows "\<exists>instrs. decode_all code (length pre) = Inr instrs \<and> laid_at L code (length pre) ws instrs"
  using assms
proof (induction ws arbitrary: pre)
  case Nil
  then show ?case by (subst decode_all.simps) simp
next
  case (Cons a ws)
  let ?first = "conc L (length pre) (asm_syms a)" and ?rest = "concat (map asm_syms ws)"
  have c: "code = pre @ ?first @ conc L (length (pre @ ?first)) ?rest"
    "code = (pre @ ?first) @ conc L (length (pre @ ?first)) ?rest"
    using Cons.prems(2) by simp_all
  obtain i where i: "decode code (length pre) = Some (i, length (pre @ ?first))"
    "is_asm L code (length pre, i, length (pre @ ?first)) a"
    using decode_asm [OF _ c(1)] Cons.prems by auto
  obtain instrs where r: "decode_all code (length (pre @ ?first)) = Inr instrs" "laid_at L code (length (pre @ ?first)) ws instrs"
    using Cons.IH [OF _ c(2)] Cons.prems by auto
  have "length pre < length code" using c(1) by (simp add: asm_syms_def)
  then have "decode_all code (length pre) = Inr ((length pre, i, length (pre @ ?first)) # instrs)"
    using i(1) r(1) by (subst decode_all.simps) simp
  then show ?case using i(2) r(2) by (cases i) (auto simp: Let_def)
qed

lemma waits_nonempty: "s \<in> set ss \<Longrightarrow> sym_label s = Some l \<Longrightarrow> waits l off ss \<noteq> []"
proof (induction ss arbitrary: off)
  case (Cons t ss)
  then show ?case by (cases "t = s"; cases s) auto
qed simp

section \<open>Everything the compiler can do with an emitter\<close>

text \<open>What the compiler gives to an emitter, in its order: an instruction, or the place of a label.\<close>

datatype given = Gave asm | Bound nat

inductive built :: "emitter \<Rightarrow> given list \<Rightarrow> bool" where
  starts: "emitter_new arity span = Inr e \<Longrightarrow> built e []"
| emits: "built e gs \<Longrightarrow> asm_typed a \<Longrightarrow> emit a span e = Inr e' \<Longrightarrow> built e' (gs @ [Gave a])"
| names: "built e gs \<Longrightarrow> emit_constant v span e = Inr (k, e') \<Longrightarrow> built e' gs"
| labels: "built e gs \<Longrightarrow> new_label e = (l, e') \<Longrightarrow> built e' gs"
| binds: "built e gs \<Longrightarrow> bind_over l over span e = Inr e' \<Longrightarrow> built e' (gs @ [Bound l])"
| assumes_height: "built e gs \<Longrightarrow> built (assume_height h e) gs"
| hides: "built e gs \<Longrightarrow> built (hidden_params n e) gs"
| takes_dict: "built e gs \<Longrightarrow> built (takes_dict_slot e) gs"

text \<open>The pairs that one instruction stands for: an Int constant that is added or subtracted, and a
  comparison whose answer decides a jump.\<close>

definition compare_jumps :: "(basic_op \<times> control_op \<times> control_op) list" where
  "compare_jumps =
     [(Op_Lt, Op_JumpIfFalse, Op_JumpIfNotLt), (Op_Lt, Op_JumpIfTrue, Op_JumpIfNotGeq),
      (Op_Gt, Op_JumpIfFalse, Op_JumpIfNotGt), (Op_Gt, Op_JumpIfTrue, Op_JumpIfNotLeq),
      (Op_Leq, Op_JumpIfFalse, Op_JumpIfNotLeq), (Op_Leq, Op_JumpIfTrue, Op_JumpIfNotGt),
      (Op_Geq, Op_JumpIfFalse, Op_JumpIfNotGeq), (Op_Geq, Op_JumpIfTrue, Op_JumpIfNotLt),
      (Op_Eq, Op_JumpIfFalse, Op_JumpIfNotEq), (Op_Eq, Op_JumpIfTrue, Op_JumpIfNotNeq),
      (Op_Neq, Op_JumpIfFalse, Op_JumpIfNotNeq), (Op_Neq, Op_JumpIfTrue, Op_JumpIfNotEq)]"

definition int_const :: "cvalue list \<Rightarrow> nat \<Rightarrow> bool" where
  "int_const cs k \<longleftrightarrow> k < length cs \<and> (\<exists>n. cs ! k = V_Int n)"

inductive one_for :: "cvalue list \<Rightarrow> asm \<Rightarrow> asm \<Rightarrow> asm \<Rightarrow> bool" for cs where
  one_add: "int_const cs k \<Longrightarrow> one_for cs (Basic Op_Constant, [A_Num k]) (Basic Op_Add, []) (Basic Op_AddConst, [A_Num k])"
| one_sub: "int_const cs k \<Longrightarrow> one_for cs (Basic Op_Constant, [A_Num k]) (Basic Op_Sub, []) (Basic Op_SubConst, [A_Num k])"
| one_jump: "(c, j, w) \<in> set compare_jumps \<Longrightarrow> one_for cs (Basic c, []) (Control j, [to]) (Control w, [to])"

text \<open>Decoded code says what the compiler gave: read from the first byte, each instruction is the next that
  was given, or stands for the next two with no label between them, and a label is where the
  instruction begins that was given after it.\<close>

inductive says :: "cvalue list \<Rightarrow> (nat \<Rightarrow> nat option) \<Rightarrow> byte list \<Rightarrow> given list \<Rightarrow> (nat \<times> instr \<times> nat) list \<Rightarrow> nat \<Rightarrow> bool"
  for cs L code where
  says_none: "says cs L code [] [] 0"
| says_label: "says cs L code gs xs n \<Longrightarrow> L l = Some n \<Longrightarrow> says cs L code (gs @ [Bound l]) xs n"
| says_instr: "says cs L code gs xs n \<Longrightarrow> is_asm L code (n, i, m) a \<Longrightarrow>
    says cs L code (gs @ [Gave a]) (xs @ [(n, i, m)]) m"
| says_pair: "says cs L code gs xs n \<Longrightarrow> one_for cs a b w \<Longrightarrow> is_asm L code (n, i, m) w \<Longrightarrow>
    says cs L code (gs @ [Gave a, Gave b]) (xs @ [(n, i, m)]) m"

text \<open>The same of the instructions as the emitter writes them.\<close>

inductive covers :: "cvalue list \<Rightarrow> (nat \<Rightarrow> nat option) \<Rightarrow> given list \<Rightarrow> asm list \<Rightarrow> bool" for cs L where
  covers_none: "covers cs L [] []"
| covers_label: "covers cs L gs ws \<Longrightarrow> L l = Some (asms_len ws) \<Longrightarrow> covers cs L (gs @ [Bound l]) ws"
| covers_instr: "covers cs L gs ws \<Longrightarrow> covers cs L (gs @ [Gave a]) (ws @ [a])"
| covers_pair: "covers cs L gs ws \<Longrightarrow> one_for cs a b w \<Longrightarrow> covers cs L (gs @ [Gave a, Gave b]) (ws @ [w])"

lemma covers_says:
  assumes "covers cs L gs ws" and "laid_at L code 0 ws xs"
  shows "says cs L code gs xs (asms_len ws)"
  using assms
proof (induction arbitrary: xs)
  case (covers_instr gs ws a)
  from covers_instr.prems obtain ys i where "laid_at L code 0 ws ys"
    "xs = ys @ [(asms_len ws, i, asms_len (ws @ [a]))]" "is_asm L code (asms_len ws, i, asms_len (ws @ [a])) a"
    by (rule laid_at_snoc)
  then show ?case using covers_instr.IH says_instr by blast
next
  case (covers_pair gs ws a b w)
  from covers_pair.prems obtain ys i where "laid_at L code 0 ws ys"
    "xs = ys @ [(asms_len ws, i, asms_len (ws @ [w]))]" "is_asm L code (asms_len ws, i, asms_len (ws @ [w])) w"
    by (rule laid_at_snoc)
  then show ?case using covers_pair.IH covers_pair.hyps(2) says_pair by blast
qed (auto intro: says.intros)

lemma int_const_append: "int_const cs k \<Longrightarrow> int_const (cs @ ds) k"
  by (auto simp: int_const_def nth_append)

lemma one_for_append: "one_for cs a b w \<Longrightarrow> one_for (cs @ ds) a b w"
  by (induction rule: one_for.induct) (auto intro: one_for.intros int_const_append)

lemma covers_mono: "covers cs L gs ws \<Longrightarrow> L \<subseteq>\<^sub>m L' \<Longrightarrow> covers (cs @ ds) L' gs ws"
  by (induction rule: covers.induct) (auto intro: covers.intros one_for_append simp: map_le_def dom_def)

text \<open>The emitter's code covers what was given, and the instruction it may fuse with the next is the last
  that was given, with no label behind it.\<close>

definition may_fuse :: "cvalue list \<Rightarrow> (nat \<Rightarrow> nat option) \<Rightarrow> given list \<Rightarrow> asm list \<Rightarrow> first \<Rightarrow> bool" where
  "may_fuse cs L gs ws f \<longleftrightarrow> (\<exists>gs' ws' a. gs = gs' @ [Gave a] \<and> ws = ws' @ [a] \<and> covers cs L gs' ws') \<and>
     (\<forall>k. f = First_Int k \<longrightarrow> int_const cs k) \<and>
     (\<forall>op. f = First_Compare op \<longrightarrow> op \<in> {Basic Op_Lt, Basic Op_Gt, Basic Op_Leq, Basic Op_Geq, Basic Op_Eq, Basic Op_Neq})"

definition laid :: "emitter \<Rightarrow> given list \<Rightarrow> asm list \<Rightarrow> bool" where
  "laid e gs ws \<longleftrightarrow> emitted e ws \<and> covers (ch_constants (em_chunk e)) (places (em_labels e)) gs ws \<and>
     dom (places (em_labels e)) = {l. Bound l \<in> set gs} \<and>
     (\<forall>la. em_last e = Some la \<longrightarrow> may_fuse (ch_constants (em_chunk e)) (places (em_labels e)) gs ws (la_first la))"

lemma may_fuse_mono: "may_fuse cs L gs ws f \<Longrightarrow> may_fuse (cs @ ds) L gs ws f"
  unfolding may_fuse_def by (auto intro: int_const_append covers_mono [OF _ map_le_refl])

lemma first_of_const:
  assumes "first_of a c = Inr (Some f)"
  shows "(\<forall>k. f = First_Int k \<longrightarrow> int_const (ch_constants c) k) \<and>
    (\<forall>op. f = First_Compare op \<longrightarrow> op \<in> {Basic Op_Lt, Basic Op_Gt, Basic Op_Leq, Basic Op_Geq, Basic Op_Eq, Basic Op_Neq})"
  using assms by (auto simp: first_of_def int_const_def split: prod.splits op.splits basic_op.splits list.splits
        asm_arg.splits if_splits cvalue.splits)

lemma emit_write_laid:
  assumes "emit_write a span e = Inr e'" and "emitted e' (ws @ [a])"
    and "covers (ch_constants (em_chunk e)) (places (em_labels e)) gs ws"
    and "coded (ch_code (em_chunk e)) (em_labels e) (concat (map asm_syms ws))" and "asm_typed a"
  shows "ch_constants (em_chunk e') = ch_constants (em_chunk e)" "places (em_labels e') = places (em_labels e)"
    "\<And>la. em_last e' = Some la \<Longrightarrow>
      may_fuse (ch_constants (em_chunk e')) (places (em_labels e')) (gs @ [Gave a]) (ws @ [a]) (la_first la)"
proof -
  obtain w first where w: "encode a \<lparr>o_chunk = em_chunk e, o_labels = em_labels e, o_span = span,
       o_arriving = (if em_reachable e then Some (em_height e') else None), o_bug = None\<rparr> = Inr w"
    "o_bug w = None" "first_of a (o_chunk w) = Inr first" "em_chunk e' = o_chunk w" "em_labels e' = o_labels w"
    "em_last e' = map_option (\<lambda>f. \<lparr>la_first = f, la_at = length (ch_code (em_chunk e)), la_height = em_height e,
       la_span = span\<rparr>) first"
    using emit_writeE [OF assms(1)] .
  have "wrote \<lparr>o_chunk = em_chunk e, o_labels = em_labels e, o_span = span,
       o_arriving = (if em_reachable e then Some (em_height e') else None), o_bug = None\<rparr> w"
    using encode_coded [OF w(1,2) _ assms(5), of "concat (map asm_syms ws)"] assms(4) by simp
  then show same: "ch_constants (em_chunk e') = ch_constants (em_chunk e)" "places (em_labels e') = places (em_labels e)"
    using w(4,5) by (simp_all add: wrote_def)
  show "may_fuse (ch_constants (em_chunk e')) (places (em_labels e')) (gs @ [Gave a]) (ws @ [a]) (la_first la)"
    if "em_last e' = Some la" for la
    using that w(3,4,6) first_of_const [of a "o_chunk w"] assms(3) same by (auto simp: may_fuse_def)
qed

lemma new_label_emitted:
  assumes "emitted e ws" and "new_label e = (l, e')"
  shows "emitted e' ws"
proof -
  let ?ss = "concat (map asm_syms ws)"
  have e': "em_labels e' = em_labels e @ [label_default]" "em_chunk e' = em_chunk e" "em_last e' = em_last e"
    using assms(2) by (auto simp: new_label_def)
  have p: "places (em_labels e') = places (em_labels e)"
    by (auto simp: e' places_def fun_eq_iff nth_append label_default_def)
  have old: "if k < length (em_labels e)
      then ls_waiting (em_labels e ! k) = (if ls_bound (em_labels e ! k) = None then waits k 0 ?ss else [])
      else waits k 0 ?ss = []" for k
    using assms(1) by (simp add: emitted_def coded_def)
  have "if k < length (em_labels e')
      then ls_waiting (em_labels e' ! k) = (if ls_bound (em_labels e' ! k) = None then waits k 0 ?ss else [])
      else waits k 0 ?ss = []" for k
  proof (cases k "length (em_labels e)" rule: linorder_cases)
    case less
    then show ?thesis using old [of k] by (simp add: e' nth_append)
  next
    case equal
    then show ?thesis using old [of k] by (simp add: e' label_default_def)
  next
    case greater
    then show ?thesis using old [of k] by (simp add: e')
  qed
  then show ?thesis
    using assms(1) p unfolding emitted_def coded_def by (simp add: e'(2,3))
qed

lemma fused_one_for:
  assumes "fused f a = Some (one, on_first)" and "may_fuse cs L gs ws f" and "first_is f b" and "asm_fits b"
  shows "one_for cs b a one" and "first_of one c = Inr None"
proof -
  have b: "snd b = []" if "f = First_Compare op" for op
    using that assms(3,4) by (auto simp: first_is_def asm_fits_def)
  have "one_for cs b a one \<and> first_of one c = Inr None"
  proof (cases f)
    case (First_Int k)
    then have "b = (Basic Op_Constant, [A_Num k])" "int_const cs k"
      using assms(2,3) by (auto simp: first_is_def may_fuse_def)
    then show ?thesis
      using assms(1) First_Int by (cases "(f, a)" rule: fused.cases) (auto intro: one_add one_sub simp: first_of_def)
  next
    case (First_Compare op)
    then have b: "b = (op, [])" and op: "op \<in> {Basic Op_Lt, Basic Op_Gt, Basic Op_Leq, Basic Op_Geq, Basic Op_Eq, Basic Op_Neq}"
      using assms(2,3) b by (auto simp: first_is_def may_fuse_def prod_eq_iff)
    then show ?thesis
      using assms(1) First_Compare
      by (cases "(f, a)" rule: fused.cases)
        (auto intro!: one_jump simp: first_of_def jump_unless_def negation_def compare_jumps_def)
  qed
  then show "one_for cs b a one" "first_of one c = Inr None" by simp_all
qed

lemma emit_laid:
  assumes "emit a span e = Inr e'" and "asm_typed a" and "laid e gs ws"
  shows "\<exists>ws'. laid e' (gs @ [Gave a]) ws'"
proof -
  let ?cs = "ch_constants (em_chunk e)" and ?L = "places (em_labels e)"
  have em: "emitted e ws" and cov: "covers ?cs ?L gs ws" and dom: "dom ?L = {l. Bound l \<in> set gs}"
    using assms(3) by (simp_all add: laid_def)
  have new: "emitted e' (add_asm (em_last e) a ws)" by (rule emit_emitted [OF assms(1,2) em])
  show ?thesis
  proof (cases "Option.bind (em_last e) (\<lambda>la. fused (la_first la) a)")
    case None
    then have w: "emit_write a span e = Inr e'" and new': "emitted e' (ws @ [a])"
      using assms(1) new by (cases "em_last e"; auto simp: emit_def add_asm_def)+
    note wrote = emit_write_laid [OF w new' cov _ assms(2)]
    have "laid e' (gs @ [Gave a]) (ws @ [a])"
      using em new' covers_instr [OF cov, of a] dom wrote by (simp add: laid_def emitted_def)
    then show ?thesis ..
  next
    case (Some r)
    then obtain la one on_first where la: "em_last e = Some la" "fused (la_first la) a = Some (one, on_first)" "r = (one, on_first)"
      by (cases r) (auto simp: bind_eq_Some_conv)
    let ?e = "e\<lparr>em_chunk := chunk_truncate (la_at la) (em_chunk e), em_height := la_height la\<rparr>"
    have w: "emit_write one (if on_first then la_span la else span) ?e = Inr e'"
      using assms(1) la by (simp add: emit_def)
    have fuse: "may_fuse ?cs ?L gs ws (la_first la)" using assms(3) la(1) by (simp add: laid_def)
    then obtain gs' ws' b where b: "gs = gs' @ [Gave b]" "ws = ws' @ [b]" "covers ?cs ?L gs' ws'"
      by (auto simp: may_fuse_def)
    have first: "first_is (la_first la) b" "asm_fits b" and c: "coded (ch_code (em_chunk e)) (em_labels e) (concat (map asm_syms ws') @ asm_syms b)"
      and at: "la_at la = syms_len (concat (map asm_syms ws'))"
      using em la(1) b(2) by (auto simp: emitted_def)
    obtain bs where "asm_syms b = map Raw bs" using first_is_raw [OF first] by blast
    then have c': "coded (ch_code (em_chunk ?e)) (em_labels ?e) (concat (map asm_syms ws'))"
      using coded_truncate c at by (simp add: chunk_truncate_def)
    have new': "emitted e' (ws' @ [one])" using new la b(2) by (simp add: add_asm_def)
    have same: "ch_constants (em_chunk e') = ?cs" "places (em_labels e') = ?L"
      using emit_write_laid(1,2) [OF w new' _ c' fused_typed [OF la(2) first assms(2)], of gs'] b(3)
      by (simp_all add: chunk_truncate_def)
    have "em_last e' = None"
      by (rule emit_writeE [OF w]) (simp add: fused_one_for(2) [OF la(2) fuse first])
    moreover have "covers ?cs ?L (gs' @ [Gave b, Gave a]) (ws' @ [one])"
      by (rule covers_pair [OF b(3) fused_one_for(1) [OF la(2) fuse first]])
    ultimately have "laid e' (gs @ [Gave a]) (ws' @ [one])"
      using new' dom same b(1) by (simp add: laid_def)
    then show ?thesis ..
  qed
qed

lemma bind_over_laid:
  assumes "bind_over l over span e = Inr e'" and "laid e gs ws"
  shows "laid e' (gs @ [Bound l]) ws"
proof -
  let ?L = "places (em_labels e)"
  have em: "emitted e ws" and cov: "covers (ch_constants (em_chunk e)) ?L gs ws" and dom: "dom ?L = {l. Bound l \<in> set gs}"
    using assms(2) by (simp_all add: laid_def)
  have l: "l < length (em_labels e)" using assms(1) by (auto simp: bind_over_def split: if_splits)
  have free: "ls_bound (em_labels e ! l) = None"
    using assms(1) l by (cases "ls_bound (em_labels e ! l)") (auto simp: bind_over_def Let_def)
  obtain h where e': "em_last e' = None" "ch_constants (em_chunk e') = ch_constants (em_chunk e)"
    "em_labels e' = (em_labels e)[l := (em_labels e ! l)\<lparr>ls_waiting := [], ls_bound := Some (length (ch_code (em_chunk e)), h)\<rparr>]"
    using assms(1) l free by (auto simp: bind_over_def Let_def split: sum.splits)
  have "length (ch_code (em_chunk e)) = asms_len ws" using em by (simp add: emitted_def coded_def asms_len_def)
  then have places: "places (em_labels e') = ?L(l \<mapsto> asms_len ws)"
    using l e'(3) by (auto simp: places_def fun_eq_iff nth_list_update)
  have "?L l = None" using free by (simp add: places_def)
  then have "?L \<subseteq>\<^sub>m ?L(l \<mapsto> asms_len ws)" by (auto simp: map_le_def dom_def)
  from covers_mono [OF cov this, of "[]"] have "covers (ch_constants (em_chunk e)) (?L(l \<mapsto> asms_len ws)) gs ws" by simp
  then show ?thesis
    using bind_over_emitted [OF assms(1) em] covers_label e' places dom by (auto simp: laid_def)
qed

lemma new_label_laid:
  assumes "new_label e = (l, e')" and "laid e gs ws"
  shows "laid e' gs ws"
proof -
  have e': "em_labels e' = em_labels e @ [label_default]" "em_chunk e' = em_chunk e" "em_last e' = em_last e"
    using assms(1) by (auto simp: new_label_def)
  have "places (em_labels e') = places (em_labels e)"
    by (auto simp: e' places_def fun_eq_iff nth_append label_default_def)
  then show ?thesis using assms new_label_emitted [of e ws l e'] e' by (simp add: laid_def)
qed

lemma emit_constant_laid:
  assumes "emit_constant v span e = Inr (k, e')" and "laid e gs ws"
  shows "laid e' gs ws"
proof -
  obtain c where c: "add_constant v (em_chunk e) = Some (k, c)" "e' = e\<lparr>em_chunk := c\<rparr>"
    using assms(1) by (auto simp: emit_constant_def split: option.splits)
  then have "ch_code c = ch_code (em_chunk e) \<and> (\<exists>ds. ch_constants c = ch_constants (em_chunk e) @ ds)"
    by (auto simp: add_constant_def Let_def split: option.splits if_splits)
  then obtain ds where "ch_code c = ch_code (em_chunk e)" "ch_constants c = ch_constants (em_chunk e) @ ds" by blast
  then show ?thesis
    using assms(2) c(2) covers_mono [OF _ map_le_refl] may_fuse_mono by (simp add: laid_def emitted_def)
qed

lemma built_laid: "built e gs \<Longrightarrow> \<exists>ws. laid e gs ws"
proof (induction rule: built.induct)
  case (starts arity span e)
  then have "laid e [] []"
    by (auto simp: emitter_new_def laid_def emitted_def coded_def chunk_new_def places_def split: sum.splits intro: covers_none)
  then show ?case ..
next
  case (emits e gs a span e')
  then show ?case using emit_laid by blast
next
  case (names e gs v span k e')
  then show ?case using emit_constant_laid by blast
next
  case (labels e gs l e')
  then show ?case using new_label_laid by blast
next
  case (binds e gs l over span e')
  then show ?case using bind_over_laid by blast
qed (simp_all add: laid_def emitted_def assume_height_def hidden_params_def takes_dict_slot_def)

text \<open>C10: What the emitter wrote is what it was given. When a function is finished, its code decodes from
  the first byte to the last to the instructions the compiler gave, in their order, each with its
  operands unchanged. One instruction stands for two only if the two were given one after the other with
  no label between them, and only for an Int constant that is added or subtracted and for a comparison
  that a jump follows. A label is where the instruction begins that was given next after it, and every
  jump to the label goes there.\<close>

theorem finished_code_decodes:
  assumes "built e gs" and "emit_finish reg upvalues e = Inr e'"
  shows "\<exists>instrs L. decode_all (ch_code (em_chunk e')) 0 = Inr instrs \<and> dom L = {l. Bound l \<in> set gs} \<and>
    says (ch_constants (em_chunk e')) L (ch_code (em_chunk e')) gs instrs (length (ch_code (em_chunk e')))"
proof -
  have e': "em_chunk e' = em_chunk e" "em_labels e' = em_labels e"
    using assms(2) by (auto simp: emit_finish_def Let_def split: if_splits sum.splits)
  have all: "\<not> list_ex (\<lambda>l. ls_bound l = None \<and> ls_waiting l \<noteq> []) (em_labels e)"
    using assms(2) by (auto simp: emit_finish_def Let_def split: if_splits)
  obtain ws where ws: "laid e gs ws" using built_laid [OF assms(1)] by blast
  then have em: "coded (ch_code (em_chunk e)) (em_labels e) (concat (map asm_syms ws))" "list_all asm_fits ws"
    by (simp_all add: laid_def emitted_def)
  have "places (em_labels e) l \<noteq> None" if "s \<in> set (concat (map asm_syms ws))" "sym_label s = Some l" for s l
  proof -
    note w = waits_nonempty [OF that, of 0]
    have l: "l < length (em_labels e)" using em(1) w unfolding coded_def by metis
    moreover have "ls_bound (em_labels e ! l) \<noteq> None"
      using em(1) w l all unfolding coded_def list_ex_length by metis
    ultimately show ?thesis by (simp add: places_def)
  qed
  then have "placed (places (em_labels e)) (concat (map asm_syms ws))" by (simp add: placed_def)
  then obtain instrs where instrs: "decode_all (ch_code (em_chunk e)) 0 = Inr instrs"
    "laid_at (places (em_labels e)) (ch_code (em_chunk e)) 0 ws instrs"
    using decode_all_asms [OF em(2), of "ch_code (em_chunk e)" "[]" "places (em_labels e)"] em(1) by (auto simp: coded_def)
  have "length (ch_code (em_chunk e)) = asms_len ws" using em(1) by (simp add: coded_def asms_len_def)
  then show ?thesis
    using instrs covers_says [OF _ instrs(2)] ws e' unfolding laid_def by metis
qed

section \<open>A function with a jump\<close>

definition stage :: "byte list \<Rightarrow> (nat \<times> span) list \<Rightarrow> nat \<Rightarrow> bool \<Rightarrow> bool \<Rightarrow> label_state \<Rightarrow> emitter" where
  "stage code spans height reachable over label =
     \<lparr>em_arity = 0, em_upvalues = 0, em_hidden = 0, em_dict_slot = False,
      em_chunk = chunk_new\<lparr>ch_code := code, ch_spans := spans\<rparr>, em_height = height, em_reachable = reachable,
      em_ended = over, em_labels = [label], em_last = None\<rparr>"

lemma sample_bytes:
  "op_byte (Control Op_Jump) = 44" "op_byte (Basic Op_Unit) = 1" "op_byte (Data Op_Return) = 30"
  by code_simp+

lemmas stage_eval = stage_def emit_def emit_write_def asm_effect_def first_of_def encode_def sample_bytes Let_def
  flows_def moves_def out_rel_def out_wait_def out_u8_def out_bytes_def chunk_push_def i32_bytes_def arrive_label_def
  chunk_new_def label_default_def

lemma stage_jump:
  "emit (Control Op_Jump, [A_To 0]) 1 (stage [] [] 0 True False label_default) =
    Inr (stage [44, 0, 0, 0, 0] [(0, 1)] 0 False False \<lparr>ls_bound = None, ls_arriving = Some 0, ls_waiting = [(1, True)]\<rparr>)"
  by (simp add: stage_eval)

lemma stage_bind:
  "bind_over 0 [] 1 (stage [44, 0, 0, 0, 0] [(0, 1)] 0 False False
      \<lparr>ls_bound = None, ls_arriving = Some 0, ls_waiting = [(1, True)]\<rparr>) =
    Inr (stage [44, 0, 0, 0, 0] [(0, 1)] 0 True False \<lparr>ls_bound = Some (5, 0), ls_arriving = Some 0, ls_waiting = []\<rparr>)"
  by (simp add: stage_eval bind_over_def patch_jump_def patch_def)

definition stage_end :: emitter where
  "stage_end = stage [44, 0, 0, 0, 0, 1, 30] [(0, 1)] 0 False True \<lparr>ls_bound = Some (5, 0), ls_arriving = Some 0, ls_waiting = []\<rparr>"

lemma stage_unit:
  "emit (Basic Op_Unit, []) 1 (stage [44, 0, 0, 0, 0] [(0, 1)] 0 True False
      \<lparr>ls_bound = Some (5, 0), ls_arriving = Some 0, ls_waiting = []\<rparr>) =
    Inr (stage [44, 0, 0, 0, 0, 1] [(0, 1)] 1 True False \<lparr>ls_bound = Some (5, 0), ls_arriving = Some 0, ls_waiting = []\<rparr>)"
  by (simp add: stage_eval)

lemma stage_return:
  "emit (Data Op_Return, []) 1 (stage [44, 0, 0, 0, 0, 1] [(0, 1)] 1 True False
      \<lparr>ls_bound = Some (5, 0), ls_arriving = Some 0, ls_waiting = []\<rparr>) = Inr stage_end"
  by (simp add: stage_eval stage_end_def)

lemma stage_built: "built stage_end [Gave (Control Op_Jump, [A_To 0]), Bound 0, Gave (Basic Op_Unit, []), Gave (Data Op_Return, [])]"
proof -
  have "emitter_new 0 1 = Inr (stage [] [] 0 True False label_default\<lparr>em_labels := []\<rparr>)"
    by (simp add: emitter_new_def narrow_u8_def stage_def chunk_new_def)
  from labels [OF starts [OF this], of 0 "stage [] [] 0 True False label_default"]
  have "built (stage [] [] 0 True False label_default) []"
    by (simp add: new_label_def stage_def)
  from emits [OF this _ stage_jump]
  have "built (stage [44, 0, 0, 0, 0] [(0, 1)] 0 False False \<lparr>ls_bound = None, ls_arriving = Some 0, ls_waiting = [(1, True)]\<rparr>)
      [Gave (Control Op_Jump, [A_To 0])]"
    by (simp add: asm_typed_def)
  from emits [OF emits [OF binds [OF this stage_bind] _ stage_unit] _ stage_return] show ?thesis
    by (simp add: asm_typed_def)
qed

lemma stage_finish: "emit_finish (\<lambda>_. None) 0 stage_end = Inr stage_end"
proof -
  have "verify (\<lambda>_. None) \<lparr>fn_arity = 0, fn_upvalues = 0, fn_dict_slot = False,
      fn_code = [44, 0, 0, 0, 0, 1, 30], fn_constants = []\<rparr> = Inr ()" by code_simp
  then show ?thesis
    by (simp add: emit_finish_def stage_end_def stage_def fn_of_def narrow_u8_def chunk_new_def Let_def)
qed

theorem finished_code_decodes_witness:
  "\<exists>instrs L. decode_all [44, 0, 0, 0, 0, 1, 30] 0 = Inr instrs \<and> dom L = {0} \<and>
    says [] L [44, 0, 0, 0, 0, 1, 30]
      [Gave (Control Op_Jump, [A_To 0]), Bound 0, Gave (Basic Op_Unit, []), Gave (Data Op_Return, [])] instrs 7"
  using finished_code_decodes [OF stage_built stage_finish] by (simp add: stage_end_def stage_def chunk_new_def eval_nat_numeral)

end
