(* ===== verification/Chunk_Spans.thy ===== *)
theory Chunk_Spans
  imports Emit
begin

text \<open>
  The spans of a chunk (\<^verbatim>\<open>Chunk::push\<close>, \<^verbatim>\<open>Chunk::truncate\<close>, \<^verbatim>\<open>Chunk::span_at\<close>) and its pool
  (\<^verbatim>\<open>Chunk::add_constant\<close>): the run-length encoded table gives every byte the span it was written
  with, and a constant stays where it was put.
\<close>

section \<open>The table of the spans\<close>

definition spans_ok :: "chunk \<Rightarrow> bool" where
  "spans_ok c \<longleftrightarrow> sorted_wrt (\<lambda>x y. fst x < fst y) (ch_spans c) \<and>
     (\<forall>x \<in> set (ch_spans c). fst x < length (ch_code c)) \<and> (ch_code c \<noteq> [] \<longrightarrow> ch_spans c \<noteq> [])"

lemma takeWhile_takeWhile_imp: "(\<And>x. Q x \<Longrightarrow> P x) \<Longrightarrow> takeWhile Q (takeWhile P xs) = takeWhile Q xs"
  by (induction xs) auto

lemma dropWhile_rev_sorted:
  "sorted_wrt (\<lambda>x y. fst x < fst y) xs \<Longrightarrow>
    rev (dropWhile (\<lambda>(offset, _). at \<le> offset) (rev xs)) = takeWhile (\<lambda>(offset, _). offset < (at :: nat)) xs"
proof (induction xs rule: rev_induct)
  case (snoc x xs)
  obtain off span where x: "x = (off, span)" by (cases x)
  have below: "\<forall>y \<in> set xs. fst y < off" using snoc.prems x by (auto simp: sorted_wrt_append)
  show ?case
  proof (cases "at \<le> off")
    case True
    then show ?thesis using snoc x by (auto simp: sorted_wrt_append takeWhile_tail)
  next
    case False
    then have "\<forall>y \<in> set xs. fst y < at" using below by auto
    then have "takeWhile (\<lambda>(offset, _). offset < at) xs = xs" by (auto simp: takeWhile_eq_all_conv)
    then show ?thesis using False x by (simp add: takeWhile_append2 split_beta)
  qed
qed simp

lemma span_at_alt:
  "span_at offset c = (let xs = takeWhile (\<lambda>x. fst x \<le> offset) (ch_spans c) in if xs = [] then BUILTIN else snd (last xs))"
  by (auto simp: span_at_def Let_def case_prod_unfold split: list.split)

lemma span_at_push_old:
  assumes "i < length (ch_code c)"
  shows "span_at i (chunk_push b span c) = span_at i c"
  using assms by (simp add: span_at_alt chunk_push_def takeWhile_tail)

lemma span_at_push_new:
  assumes "spans_ok c"
  shows "span_at (length (ch_code c)) (chunk_push b span c) = span"
proof -
  have "\<forall>x \<in> set (ch_spans c). fst x \<le> length (ch_code c)" using assms by (force simp: spans_ok_def)
  then show ?thesis
    by (cases "ch_spans c = [] \<or> snd (last (ch_spans c)) \<noteq> span")
      (auto simp: span_at_alt chunk_push_def takeWhile_append2 takeWhile_eq_all_conv [THEN iffD2])
qed

lemma spans_ok_push: "spans_ok c \<Longrightarrow> spans_ok (chunk_push b span c)"
  by (auto simp: spans_ok_def chunk_push_def sorted_wrt_append)

lemma truncate_spans:
  "spans_ok c \<Longrightarrow> ch_spans (chunk_truncate at c) = takeWhile (\<lambda>(offset, _). offset < at) (ch_spans c)"
  by (simp add: chunk_truncate_def spans_ok_def dropWhile_rev_sorted)

lemma span_at_truncate: "spans_ok c \<Longrightarrow> i < at \<Longrightarrow> span_at i (chunk_truncate at c) = span_at i c"
  using takeWhile_takeWhile_imp [of "\<lambda>x. fst x \<le> i" "\<lambda>(offset, _). offset < at" "ch_spans c"]
  by (auto simp: span_at_alt truncate_spans)

text \<open>The first span is that of the first byte.\<close>

definition spans_start :: "chunk \<Rightarrow> bool" where
  "spans_start c \<longleftrightarrow> (ch_spans c \<noteq> [] \<longrightarrow> fst (hd (ch_spans c)) = 0)"

lemma spans_ok_truncate:
  assumes "spans_ok c" and "spans_start c"
  shows "spans_ok (chunk_truncate at c) \<and> spans_start (chunk_truncate at c)"
proof -
  let ?xs = "takeWhile (\<lambda>(offset, _). offset < at) (ch_spans c)"
  have "\<forall>x \<in> set ?xs. fst x < length (take at (ch_code c))"
    using assms(1) by (auto simp: spans_ok_def dest!: set_takeWhileD)
  moreover have "sorted_wrt (\<lambda>x y. fst x < fst y) ?xs"
    using assms(1) unfolding spans_ok_def by (metis sorted_wrt_take takeWhile_eq_take)
  moreover have "take at (ch_code c) \<noteq> [] \<Longrightarrow> ?xs \<noteq> []"
    using assms by (cases "ch_spans c") (auto simp: spans_ok_def spans_start_def)
  moreover have "?xs \<noteq> [] \<Longrightarrow> fst (hd ?xs) = 0"
    using assms(2) by (cases "ch_spans c") (auto simp: spans_start_def split: if_splits)
  ultimately show ?thesis
    unfolding spans_ok_def spans_start_def truncate_spans [OF assms(1)]
    by (auto simp: chunk_truncate_def)
qed

text \<open>What the emitter does to a chunk, with the span of every byte.\<close>

inductive pushed :: "chunk \<Rightarrow> (byte \<times> span) list \<Rightarrow> bool" where
  new: "pushed chunk_new []"
| push: "pushed c bs \<Longrightarrow> pushed (chunk_push b span c) (bs @ [(b, span)])"
| truncate: "pushed c bs \<Longrightarrow> pushed (chunk_truncate at c) (take at bs)"
| patch: "pushed c bs \<Longrightarrow> length code = length (ch_code c) \<Longrightarrow> pushed (c\<lparr>ch_code := code\<rparr>) (zip code (map snd bs))"
| pool: "pushed c bs \<Longrightarrow> add_constant v c = Some (k, c') \<Longrightarrow> pushed c' bs"

lemma add_constant_code: "add_constant v c = Some (k, c') \<Longrightarrow> ch_code c' = ch_code c \<and> ch_spans c' = ch_spans c"
  by (auto simp: add_constant_def Let_def split: option.splits if_splits)

lemma pushed_spans:
  "pushed c bs \<Longrightarrow> spans_ok c \<and> spans_start c \<and> ch_code c = map fst bs \<and> (\<forall>i < length bs. span_at i c = snd (bs ! i))"
proof (induction rule: pushed.induct)
  case new
  then show ?case by (simp add: spans_ok_def spans_start_def chunk_new_def)
next
  case (push c bs b span)
  have "spans_start (chunk_push b span c)"
    using push.IH by (cases "ch_spans c") (auto simp: spans_start_def spans_ok_def chunk_push_def hd_append)
  moreover have "ch_code (chunk_push b span c) = ch_code c @ [b]" by (simp add: chunk_push_def)
  ultimately show ?case
    using push.IH spans_ok_push [of c b span] span_at_push_new [of c b span] span_at_push_old [of _ c b span]
    by (auto simp: nth_append less_Suc_eq)
next
  case (truncate c bs at)
  then show ?case
    using spans_ok_truncate [of c at] span_at_truncate [of c _ at] by (auto simp: chunk_truncate_def take_map)
next
  case (patch c bs code)
  then have "length code = length bs" "code \<noteq> [] \<longleftrightarrow> ch_code c \<noteq> []" by auto
  then show ?case using patch by (auto simp: spans_ok_def spans_start_def span_at_alt)
next
  case (pool c bs v k c')
  then show ?case using add_constant_code [OF pool.hyps(2)] by (auto simp: spans_ok_def spans_start_def span_at_alt)
qed

text \<open>C32: Every byte of the code is blamed on the span it was written with, through the run-length encoded
  table of the spans, however the emitter wrote, took back (when it fuses two instructions) and
  patched (when it binds a label).\<close>

theorem span_at_is_span_written:
  assumes "pushed c bs" and "i < length (ch_code c)"
  shows "span_at i c = snd (bs ! i)"
  using pushed_spans [OF assms(1)] assms(2) by simp

theorem span_at_is_span_written_witness:
  "span_at 1 (chunk_push 8 3 (chunk_truncate 1 (chunk_push 6 2 (chunk_push 7 3 chunk_new)))) = 3"
proof -
  have p: "pushed (chunk_push 8 3 (chunk_truncate 1 (chunk_push 6 2 (chunk_push 7 3 chunk_new)))) [(7, 3), (8, 3)]"
    using pushed.push [OF pushed.truncate [OF pushed.push [OF pushed.push [OF pushed.new, of 7 3], of 6 2], of 1], of 8 3]
    by simp
  show ?thesis
    using span_at_is_span_written [OF p, of 1] by (simp add: chunk_push_def chunk_truncate_def chunk_new_def)
qed

section \<open>The pool\<close>

definition pool_ok :: "chunk \<Rightarrow> bool" where
  "pool_ok c \<longleftrightarrow> (\<forall>key k. ch_dedup c key = Some k \<longrightarrow>
     k < length (ch_constants c) \<and> constant_key_of (ch_constants c ! k) = Some key)"

lemma pool_new: "pool_ok chunk_new"
  by (simp add: pool_ok_def chunk_new_def)

text \<open>Two constants no program tells apart: one value, one type description, or two descriptions of one
  named type that is not applied to types.\<close>

fun same_constant :: "cvalue \<Rightarrow> cvalue \<Rightarrow> bool" where
  "same_constant (V_Type i p anon applied) (V_Type j q anon' applied') =
     (p = q \<or> i = j \<and> \<not> anon \<and> \<not> anon' \<and> \<not> applied \<and> \<not> applied')"
| "same_constant a b = (a = b)"

fun literal :: "cvalue \<Rightarrow> bool" where
  "literal (V_Int _) = True"
| "literal (V_Bool _) = True"
| "literal (V_String _) = True"
| "literal (V_Float _) = True"
| "literal _ = False"

lemma same_constant_refl: "same_constant v v"
  by (cases v) simp_all

lemma one_key_same_constant: "constant_key_of a = Some key \<Longrightarrow> constant_key_of b = Some key \<Longrightarrow> same_constant a b"
  by (cases a; cases b) (auto split: if_splits)

lemma literal_key: "literal v \<Longrightarrow> \<exists>key. constant_key_of v = Some key"
  by (cases v) simp_all

lemma add_constant_pool:
  assumes "pool_ok c" and "add_constant v c = Some (k, c')"
  shows "pool_ok c' \<and> k < length (ch_constants c') \<and> same_constant (ch_constants c' ! k) v \<and>
    (\<forall>key. constant_key_of v = Some key \<longrightarrow> ch_dedup c' key = Some k) \<and>
    take (length (ch_constants c)) (ch_constants c') = ch_constants c"
proof (cases "Option.bind (constant_key_of v) (ch_dedup c)")
  case (Some index)
  then obtain key where key: "constant_key_of v = Some key" "ch_dedup c key = Some index"
    by (auto simp: bind_eq_Some_conv)
  have "k = index" "c' = c" using assms(2) Some by (auto simp: add_constant_def)
  then show ?thesis using assms(1) key one_key_same_constant [of "ch_constants c ! k" key v] by (simp add: pool_ok_def)
next
  case None
  then have k: "k = length (ch_constants c)" and c': "ch_constants c' = ch_constants c @ [v]"
    "ch_dedup c' = (case constant_key_of v of None \<Rightarrow> ch_dedup c | Some key \<Rightarrow> (ch_dedup c)(key \<mapsto> k))"
    using assms(2) by (auto simp: add_constant_def Let_def split: if_splits)
  have "pool_ok c'"
    unfolding pool_ok_def
  proof (intro allI impI)
    fix key j assume "ch_dedup c' key = Some j"
    then have "ch_dedup c key = Some j \<or> constant_key_of v = Some key \<and> j = k"
      using c'(2) by (auto split: option.splits if_splits)
    then show "j < length (ch_constants c') \<and> constant_key_of (ch_constants c' ! j) = Some key"
      using assms(1) c'(1) k by (auto simp: pool_ok_def nth_append)
  qed
  then show ?thesis using k c' same_constant_refl [of v] by simp
qed

lemma pushed_pool: "pushed c bs \<Longrightarrow> pool_ok c"
proof (induction rule: pushed.induct)
  case new
  show ?case by (rule pool_new)
next
  case (pool c bs v k c')
  then show ?case using add_constant_pool by blast
qed (simp_all add: pool_ok_def chunk_push_def chunk_truncate_def)

text \<open>C33: A constant that is put into the pool of a chunk is there under the index it got: the constant of
  that index is one no program tells from it. No constant that was there moves. A literal is in the pool
  once: put in again it gets the same index, and the chunk stays as it is.\<close>

theorem add_constant_finds:
  assumes "pushed c bs" and "add_constant v c = Some (k, c')"
  shows "k < length (ch_constants c') \<and> same_constant (ch_constants c' ! k) v \<and>
    take (length (ch_constants c)) (ch_constants c') = ch_constants c \<and>
    (literal v \<longrightarrow> add_constant v c' = Some (k, c'))"
  using add_constant_pool [OF pushed_pool [OF assms(1)] assms(2)] literal_key [of v]
  by (auto simp: add_constant_def)

theorem add_constant_finds_witness:
  "(case add_constant (V_Float 5) chunk_new of
      Some (k, c) \<Rightarrow> k < length (ch_constants c) \<and> same_constant (ch_constants c ! k) (V_Float 5) \<and>
        add_constant (V_Float 5) c = Some (k, c)
    | None \<Rightarrow> False)"
proof -
  obtain k c where a: "add_constant (V_Float 5) chunk_new = Some (k, c)"
    by (cases "add_constant (V_Float 5) chunk_new") (auto simp: add_constant_def chunk_new_def Let_def)
  show ?thesis using add_constant_finds [OF pushed.new a] a by simp
qed

end
