(* ===== verification/Value.thy ===== *)
theory Value
  imports Prelude "HOL-Library.List_Lexorder" "HOL-Library.Product_Lexorder" "HOL-Library.Char_ord"
begin

text \<open>
  The key of a value (\<^verbatim>\<open>value/key.rs\<close>): whether two values are equal, which of two comes first, and
  the hash, all three read off one walk through a value or through two side by side.

  A value is what the walk sees of it: a list is its runs, or the ends of a range that is not held;
  a map is its entries and a set its members, in the order their iterators give; a Float is its bits;
  an object that is compared by where it is, or by an id, is that number. The walk is over \<open>N\<close> values
  side by side, a list of them here. A visitor is a record of functions; what it changes is a state
  that is passed along, and a step that stops the walk is \<open>Inl\<close>.
\<close>

section \<open>Values\<close>

datatype ordering = Less | Equal | Greater

definition cmp :: "'a :: linorder \<Rightarrow> 'a \<Rightarrow> ordering" where
  "cmp a b = (if a < b then Less else if a = b then Equal else Greater)"

fun then_cmp :: "ordering \<Rightarrow> ordering \<Rightarrow> ordering" where
  "then_cmp Equal o2 = o2"
| "then_cmp o1 o2 = o1"

fun reverse_cmp :: "ordering \<Rightarrow> ordering" where
  "reverse_cmp Less = Greater"
| "reverse_cmp Equal = Equal"
| "reverse_cmp Greater = Less"

text \<open>The type of a record: where its description is, its id, and the names of its fields. Two
  references are to one description if they are equal, address and all.\<close>

record rtype =
  rt_addr :: nat
  rt_id :: nat
  rt_fields :: "string list"

definition ANON_RECORD :: nat where
  "ANON_RECORD = 28"

definition is_anon :: "rtype \<Rightarrow> bool" where
  "is_anon t \<longleftrightarrow> rt_id t = ANON_RECORD"

datatype val =
    Unit_Val
  | Bool_Val bool
  | Int_Val int
  | Float_Val nat
  | String_Val string
  | List_Val "val list list"
  | Range_Val int int
  | Tuple_Val "val list"
  | Map_Val "(val \<times> val) list"
  | Set_Val "val list"
  | Record_Val rtype "val list"
  | Variant_Val nat nat "val list"
  | Channel_Val nat
  | Handle_Val nat
  | Bytes_Val "nat list"
  | Listener_Val nat
  | Stream_Val nat
  | Closure_Val nat "val list" "val list"  \<comment> \<open>its function, what it captures, what is bound to it\<close>
  | Builtin_Val nat
  | Ctor_Val nat nat
  | Type_Val nat
  | Primitive_Val string
  | Host_Val string
  | Dict_Val nat nat

section \<open>A value's head\<close>

primrec rank :: "val \<Rightarrow> nat" where
  "rank Unit_Val = 0"
| "rank (Bool_Val _) = 1"
| "rank (Int_Val _) = 2"
| "rank (Float_Val _) = 3"
| "rank (String_Val _) = 4"
| "rank (List_Val _) = 5"
| "rank (Range_Val _ _) = 5"
| "rank (Tuple_Val _) = 6"
| "rank (Map_Val _) = 7"
| "rank (Set_Val _) = 8"
| "rank (Record_Val _ _) = 9"
| "rank (Variant_Val _ _ _) = 10"
| "rank (Channel_Val _) = 11"
| "rank (Handle_Val _) = 12"
| "rank (Bytes_Val _) = 13"
| "rank (Listener_Val _) = 14"
| "rank (Stream_Val _) = 15"
| "rank (Closure_Val _ _ _) = 16"
| "rank (Builtin_Val _) = 17"
| "rank (Ctor_Val _ _) = 18"
| "rank (Type_Val _) = 19"
| "rank (Primitive_Val _) = 20"
| "rank (Host_Val _) = 21"
| "rank (Dict_Val _ _) = 22"

definition has_parts :: "val \<Rightarrow> bool" where
  "has_parts v \<longleftrightarrow> rank v \<in> {5, 6, 7, 8, 9, 10, 16}"

text \<open>\<^verbatim>\<open>f64::total_cmp\<close> of two Floats, by their bits.\<close>

definition float_place :: "nat \<Rightarrow> int" where
  "float_place bits = (if bits < 2 ^ 63 then int bits else 2 ^ 63 - 1 - int bits)"

definition cmp_record_types :: "rtype \<Rightarrow> rtype \<Rightarrow> ordering" where
  "cmp_record_types a b =
     (if a = b then Equal
      else then_cmp (cmp (rt_id a) (rt_id b))
             (if is_anon a then cmp (rt_fields a) (rt_fields b) else Equal))"

definition cmp_heads :: "val \<Rightarrow> val \<Rightarrow> ordering" where
  "cmp_heads a b =
     (case a of
        Int_Val x \<Rightarrow> (case b of Int_Val y \<Rightarrow> cmp x y | _ \<Rightarrow> cmp (rank a) (rank b))
      | String_Val x \<Rightarrow> (case b of String_Val y \<Rightarrow> cmp x y | _ \<Rightarrow> cmp (rank a) (rank b))
      | Float_Val x \<Rightarrow> (case b of Float_Val y \<Rightarrow> cmp (float_place x) (float_place y) | _ \<Rightarrow> cmp (rank a) (rank b))
      | Bool_Val x \<Rightarrow> (case b of Bool_Val y \<Rightarrow> cmp x y | _ \<Rightarrow> cmp (rank a) (rank b))
      | Variant_Val t x _ \<Rightarrow> (case b of Variant_Val u y _ \<Rightarrow> cmp (t, x) (u, y) | _ \<Rightarrow> cmp (rank a) (rank b))
      | Record_Val t _ \<Rightarrow> (case b of Record_Val u _ \<Rightarrow> cmp_record_types t u | _ \<Rightarrow> cmp (rank a) (rank b))
      | Bytes_Val x \<Rightarrow> (case b of Bytes_Val y \<Rightarrow> cmp x y | _ \<Rightarrow> cmp (rank a) (rank b))
      | Channel_Val x \<Rightarrow> (case b of Channel_Val y \<Rightarrow> cmp x y | _ \<Rightarrow> cmp (rank a) (rank b))
      | Handle_Val x \<Rightarrow> (case b of Handle_Val y \<Rightarrow> cmp x y | _ \<Rightarrow> cmp (rank a) (rank b))
      | Listener_Val x \<Rightarrow> (case b of Listener_Val y \<Rightarrow> cmp x y | _ \<Rightarrow> cmp (rank a) (rank b))
      | Stream_Val x \<Rightarrow> (case b of Stream_Val y \<Rightarrow> cmp x y | _ \<Rightarrow> cmp (rank a) (rank b))
      | Closure_Val x _ _ \<Rightarrow> (case b of Closure_Val y _ _ \<Rightarrow> cmp x y | _ \<Rightarrow> cmp (rank a) (rank b))
      | Builtin_Val x \<Rightarrow> (case b of Builtin_Val y \<Rightarrow> cmp x y | _ \<Rightarrow> cmp (rank a) (rank b))
      | Host_Val x \<Rightarrow> (case b of Host_Val y \<Rightarrow> cmp x y | _ \<Rightarrow> cmp (rank a) (rank b))
      | Ctor_Val t x \<Rightarrow> (case b of Ctor_Val u y \<Rightarrow> cmp (t, x) (u, y) | _ \<Rightarrow> cmp (rank a) (rank b))
      | Type_Val x \<Rightarrow> (case b of Type_Val y \<Rightarrow> cmp x y | _ \<Rightarrow> cmp (rank a) (rank b))
      | Primitive_Val x \<Rightarrow> (case b of Primitive_Val y \<Rightarrow> cmp x y | _ \<Rightarrow> cmp (rank a) (rank b))
      | Dict_Val t x \<Rightarrow> (case b of Dict_Val u y \<Rightarrow> cmp (t, x) (u, y) | _ \<Rightarrow> cmp (rank a) (rank b))
      | _ \<Rightarrow> cmp (rank a) (rank b))"

text \<open>What is written to a hasher, in order.\<close>

datatype hashed =
    H_U8 nat
  | H_U16 nat
  | H_U32 nat
  | H_U64 nat
  | H_I64 int
  | H_Usize nat
  | H_Bool bool
  | H_Str string
  | H_Bytes "nat list"

primrec hash_head :: "val \<Rightarrow> hashed list" where
  "hash_head Unit_Val = [H_U8 0]"
| "hash_head (Bool_Val b) = [H_U8 1, H_Bool b]"
| "hash_head (Int_Val n) = [H_U8 2, H_I64 n]"
| "hash_head (Float_Val bits) = [H_U8 3, H_U64 bits]"
| "hash_head (String_Val s) = [H_U8 4, H_Str s]"
| "hash_head (List_Val _) = [H_U8 5]"
| "hash_head (Range_Val _ _) = [H_U8 5]"
| "hash_head (Tuple_Val _) = [H_U8 6]"
| "hash_head (Map_Val _) = [H_U8 7]"
| "hash_head (Set_Val _) = [H_U8 8]"
| "hash_head (Record_Val _ _) = [H_U8 9]"
| "hash_head (Variant_Val _ ord _) = [H_U8 10, H_U16 ord]"
| "hash_head (Channel_Val n) = [H_U8 11, H_Usize n]"
| "hash_head (Handle_Val n) = [H_U8 12, H_Usize n]"
| "hash_head (Bytes_Val bs) = [H_U8 13, H_Usize (length bs), H_Bytes bs]"
| "hash_head (Listener_Val n) = [H_U8 14, H_Usize n]"
| "hash_head (Stream_Val n) = [H_U8 15, H_Usize n]"
| "hash_head (Closure_Val _ _ _) = [H_U8 16]"
| "hash_head (Builtin_Val n) = [H_U8 17, H_U16 n]"
| "hash_head (Ctor_Val t ord) = [H_U8 18, H_U32 t, H_U16 ord]"
| "hash_head (Type_Val t) = [H_U8 19, H_U32 t]"
| "hash_head (Primitive_Val s) = [H_U8 20, H_Str s]"
| "hash_head (Host_Val s) = [H_U8 21, H_Str s]"
| "hash_head (Dict_Val i p) = [H_U8 22, H_U32 i, H_Usize p]"

section \<open>Side by side\<close>

datatype 'a among = All "'a list" | None_Left | Some_Left "bool list"

definition among :: "'a option list \<Rightarrow> 'a among" where
  "among items =
     (let missing = map (\<lambda>i. i = None) items
      in if list_all (\<lambda>m. m) missing then None_Left
         else if list_ex (\<lambda>m. m) missing then Some_Left missing
         else All (map the items))"

definition head_of :: "'a list \<Rightarrow> 'a option" where
  "head_of xs = (case xs of [] \<Rightarrow> None | x # _ \<Rightarrow> Some x)"

text \<open>The first of each list, and the lists without it.\<close>

definition first_of_each :: "'a list list \<Rightarrow> 'a among \<times> 'a list list" where
  "first_of_each xss = (among (map head_of xss), map tl xss)"

definition next_name :: "rtype \<Rightarrow> val list \<Rightarrow> string option" where
  "next_name ty left =
     (if left \<noteq> [] \<and> length left \<le> length (rt_fields ty)
      then Some (rt_fields ty ! (length (rt_fields ty) - length left)) else None)"

section \<open>Visitors\<close>

record ('s, 'p) visit =
  v_names :: bool
  v_heads :: "val list \<Rightarrow> 's \<Rightarrow> 'p + 's"
  v_lens :: "nat list \<Rightarrow> 's \<Rightarrow> 'p + 's"
  v_lists :: "val list \<Rightarrow> 's \<Rightarrow> 'p + bool \<times> 's"
  v_name :: "string \<Rightarrow> 's \<Rightarrow> 's"
  v_uneven :: "bool list \<Rightarrow> 's \<Rightarrow> 'p + 's"

datatype runs =
    R_Of "rtype option" "val list list"
  | R_Elements "val list list list"
  | R_Done
  | R_Not

fun slice_of :: "val \<Rightarrow> val list" where
  "slice_of (Tuple_Val xs) = xs"
| "slice_of (Variant_Val _ _ xs) = xs"
| "slice_of (Closure_Val _ xs _) = xs"
| "slice_of _ = []"

fun fields_of :: "val \<Rightarrow> val list" where
  "fields_of (Record_Val _ xs) = xs"
| "fields_of _ = []"

fun list_or :: "val \<Rightarrow> val \<Rightarrow> val" where
  "list_or first (List_Val rs) = List_Val rs"
| "list_or first (Range_Val lo hi) = Range_Val lo hi"
| "list_or first _ = first"

text \<open>\<^verbatim>\<open>List::runs\<close>: a list that holds no element has no run.\<close>

fun list_runs :: "val \<Rightarrow> val list list" where
  "list_runs (List_Val rs) = rs"
| "list_runs _ = []"

definition runs_of :: "('s, 'p) visit \<Rightarrow> val list \<Rightarrow> 's \<Rightarrow> 'p + runs \<times> 's" where
  "runs_of V vs s =
     (if rank (hd vs) \<in> {6, 10, 16}
      then (let rs = map slice_of vs
            in case v_lens V (map length rs) s of Inl p \<Rightarrow> Inl p | Inr s1 \<Rightarrow> Inr (R_Of None rs, s1))
      else if rank (hd vs) = 9
      then Inr (R_Of (case hd vs of Record_Val ty _ \<Rightarrow> Some ty | _ \<Rightarrow> None) (map fields_of vs), s)
      else if rank (hd vs) = 5
      then (let ls = map (list_or (hd vs)) vs
            in case v_lists V ls s of
                 Inl p \<Rightarrow> Inl p
               | Inr (go, s1) \<Rightarrow> Inr (if go then R_Elements (map list_runs ls) else R_Done, s1))
      else Inr (R_Not, s))"

definition visit_name :: "('s, 'p) visit \<Rightarrow> rtype option \<Rightarrow> val list \<Rightarrow> 's \<Rightarrow> 's" where
  "visit_name V names left s =
     (if v_names V
      then (case Option.bind names (\<lambda>ty. next_name ty left) of Some n \<Rightarrow> v_name V n s | None \<Rightarrow> s)
      else s)"

definition next_run :: "val list \<Rightarrow> val list list \<Rightarrow> val list \<times> val list list" where
  "next_run run behind = (if run = [] then (case behind of [] \<Rightarrow> ([], []) | r # rest \<Rightarrow> (r, rest)) else (run, behind))"

definition next_runs :: "val list list \<Rightarrow> val list list list \<Rightarrow> val list list \<times> val list list list" where
  "next_runs rs behind = (map fst (map2 next_run rs behind), map snd (map2 next_run rs behind))"

definition entries_or :: "val \<Rightarrow> val \<Rightarrow> (val \<times> val) list" where
  "entries_or first v =
     (case v of Map_Val es \<Rightarrow> es | _ \<Rightarrow> (case first of Map_Val es \<Rightarrow> es | _ \<Rightarrow> []))"

definition members_or :: "val \<Rightarrow> val \<Rightarrow> val list" where
  "members_or first v =
     (case v of Set_Val xs \<Rightarrow> xs | _ \<Rightarrow> (case first of Set_Val xs \<Rightarrow> xs | _ \<Rightarrow> []))"

section \<open>The walk far down\<close>

datatype parts =
    P_Values "val list list"
  | P_Elements "val list list" "val list list list"
  | P_Fields rtype "val list list"
  | P_Entries "(val \<times> val) list list" "val list option"
  | P_Members "val list list"

text \<open>The next part of each value, and the parts without it.\<close>

fun parts_next :: "parts \<Rightarrow> val among \<times> parts" where
  "parts_next (P_Values rs) = (case first_of_each rs of (a, rs1) \<Rightarrow> (a, P_Values rs1))"
| "parts_next (P_Fields ty rs) = (case first_of_each rs of (a, rs1) \<Rightarrow> (a, P_Fields ty rs1))"
| "parts_next (P_Elements rs behind) =
     (case next_runs rs behind of (rs1, behind1) \<Rightarrow>
        case first_of_each rs1 of (a, rs2) \<Rightarrow> (a, P_Elements rs2 behind1))"
| "parts_next (P_Entries es (Some vs)) = (All vs, P_Entries es None)"
| "parts_next (P_Entries es None) =
     (case first_of_each es of
        (All entries, es1) \<Rightarrow> (All (map fst entries), P_Entries es1 (Some (map snd entries)))
      | (None_Left, es1) \<Rightarrow> (None_Left, P_Entries es1 None)
      | (Some_Left ended, es1) \<Rightarrow> (Some_Left ended, P_Entries es1 None))"
| "parts_next (P_Members ms) = (case first_of_each ms of (a, ms1) \<Rightarrow> (a, P_Members ms1))"

fun parts_name :: "('s, 'p) visit \<Rightarrow> parts \<Rightarrow> 's \<Rightarrow> 's" where
  "parts_name V (P_Fields ty rs) s = visit_name V (Some ty) (hd rs) s"
| "parts_name V _ s = s"

fun parts_done :: "parts \<Rightarrow> bool" where
  "parts_done (P_Values rs) = list_all (\<lambda>r. r = []) rs"
| "parts_done (P_Fields ty rs) = list_all (\<lambda>r. r = []) rs"
| "parts_done (P_Elements rs behind) = (list_all (\<lambda>r. r = []) rs \<and> list_all (\<lambda>m. m = []) behind)"
| "parts_done (P_Entries es vs) = (vs = None \<and> list_all (\<lambda>e. e = []) es)"
| "parts_done (P_Members ms) = list_all (\<lambda>m. m = []) ms"

definition parts_of_many :: "val list \<Rightarrow> nat list option \<times> parts" where
  "parts_of_many vs =
     (case hd vs of
        Map_Val _ \<Rightarrow> (let es = map (entries_or (hd vs)) vs in (Some (map length es), P_Entries es None))
      | Set_Val _ \<Rightarrow> (let ms = map (members_or (hd vs)) vs in (Some (map length ms), P_Members ms))
      | _ \<Rightarrow> (None, P_Values (map (\<lambda>_. []) vs)))"

definition parts_of :: "('s, 'p) visit \<Rightarrow> val list \<Rightarrow> 's \<Rightarrow> 'p + parts option \<times> 's" where
  "parts_of V vs s =
     (case runs_of V vs s of
        Inl p \<Rightarrow> Inl p
      | Inr (R_Of (Some ty) rs, s1) \<Rightarrow> Inr (Some (P_Fields ty rs), s1)
      | Inr (R_Of None rs, s1) \<Rightarrow> Inr (Some (P_Values rs), s1)
      | Inr (R_Elements behind, s1) \<Rightarrow>
          (case next_runs (map (\<lambda>_. []) behind) behind of (rs, behind1) \<Rightarrow>
             Inr (Some (if list_all (\<lambda>m. m = []) behind1 then P_Values rs else P_Elements rs behind1), s1))
      | Inr (R_Done, s1) \<Rightarrow> Inr (None, s1)
      | Inr (R_Not, s1) \<Rightarrow>
          (case parts_of_many vs of
             (Some lens, ps) \<Rightarrow> (case v_lens V lens s1 of Inl p \<Rightarrow> Inl p | Inr s2 \<Rightarrow> Inr (Some ps, s2))
           | (None, ps) \<Rightarrow> Inr (Some ps, s1)))"

subsection \<open>The walk ends\<close>

text \<open>What is left of the first value gets smaller with every part that is visited.\<close>

abbreviation vs_size :: "val list \<Rightarrow> nat" where
  "vs_size \<equiv> size_list size"

definition first_size :: "('a \<Rightarrow> nat) \<Rightarrow> 'a list \<Rightarrow> nat" where
  "first_size f xs = (case xs of [] \<Rightarrow> 0 | x # _ \<Rightarrow> f x)"

lemma first_size_simps [simp]: "first_size f [] = 0" "first_size f (x # xs) = f x"
  by (simp_all add: first_size_def)

fun parts_size :: "parts \<Rightarrow> nat" where
  "parts_size (P_Values rs) = first_size vs_size rs"
| "parts_size (P_Fields ty rs) = first_size vs_size rs"
| "parts_size (P_Elements rs behind) = first_size vs_size rs + first_size (size_list vs_size) behind"
| "parts_size (P_Entries es vs) =
     first_size (size_list (size_prod size size)) es + (case vs of None \<Rightarrow> 0 | Some vs \<Rightarrow> Suc (first_size size vs))"
| "parts_size (P_Members ms) = first_size vs_size ms"

lemma among_All: "among items = All xs \<Longrightarrow> items \<noteq> [] \<and> items = map Some xs"
proof -
  assume a: "among items = All xs"
  then have n: "items \<noteq> []" "None \<notin> set items" "xs = map the items"
    by (auto simp: among_def Let_def list_all_iff list_ex_iff split: if_splits)
  then have "map (Some \<circ> the) items = items" by (intro map_idI) (metis comp_apply not_None_eq option.sel)
  then show ?thesis using n by simp
qed

lemma first_of_each_All:
  assumes "first_of_each xss = (All xs, yss)"
  shows "xss \<noteq> [] \<and> xss = map2 (#) xs yss \<and> length xs = length xss \<and> length yss = length xss"
proof -
  have h: "map head_of xss \<noteq> []" "map head_of xss = map Some xs" and t: "yss = map tl xss"
    using assms among_All [of "map head_of xss" xs] by (auto simp: first_of_each_def)
  have len: "length xs = length xss" using arg_cong [OF h(2), of length] by simp
  have "xss ! i = xs ! i # tl (xss ! i)" if "i < length xss" for i
  proof -
    have "head_of (xss ! i) = Some (xs ! i)" using arg_cong [OF h(2), of "\<lambda>l. l ! i"] that len by simp
    then show ?thesis by (cases "xss ! i") (auto simp: head_of_def)
  qed
  then have "xss = map2 (#) xs yss" using len t by (intro nth_equalityI) simp_all
  then show ?thesis using len t h(1) by simp
qed

lemma first_of_each_size:
  assumes "first_of_each xss = (All xs, yss)"
  shows "xs \<noteq> [] \<and> first_size (size_list f) xss = Suc (first_size f xs) + first_size (size_list f) yss"
proof -
  have e: "xss \<noteq> []" "xss = map2 (#) xs yss" "length xs = length xss" "length yss = length xss"
    using first_of_each_All [OF assms] by blast+
  obtain x xs' where x: "xs = x # xs'" using e(1,3) by (cases xs) auto
  obtain y ys' where y: "yss = y # ys'" using e(1,4) by (cases yss) auto
  have "first_size (size_list f) xss = size_list f (x # y)" using e(2) unfolding x y by simp
  then show ?thesis using x y by simp
qed

lemma next_runs_size:
  assumes "next_runs rs behind = (rs1, behind1)"
  shows "first_size vs_size rs1 + first_size (size_list vs_size) behind1 \<le>
    first_size vs_size rs + first_size (size_list vs_size) behind"
  using assms
  by (cases rs; cases behind) (auto simp: next_runs_def next_run_def split: list.splits)

lemma parts_next_size:
  assumes "parts_next c = (All xs, c')"
  shows "parts_size c' + Suc (first_size size xs) \<le> parts_size c"
proof (cases c)
  case (P_Elements rs behind)
  obtain rs1 behind1 where n: "next_runs rs behind = (rs1, behind1)" by (cases "next_runs rs behind")
  obtain rs2 where f: "first_of_each rs1 = (All xs, rs2)" and c': "c' = P_Elements rs2 behind1"
    using assms P_Elements n by (auto split: prod.splits)
  show ?thesis using first_of_each_size [OF f, of size] next_runs_size [OF n] c' P_Elements by simp
next
  case (P_Entries es vs)
  show ?thesis
  proof (cases vs)
    case None
    then obtain entries es1 where f: "first_of_each es = (All entries, es1)"
      and c': "c' = P_Entries es1 (Some (map snd entries))" "xs = map fst entries"
      using assms P_Entries by (auto split: prod.splits among.splits)
    then show ?thesis
      using first_of_each_size [OF f, of "size_prod size size"] P_Entries None by (cases entries) auto
  qed (use assms P_Entries in auto)
qed (use assms first_of_each_size [of _ xs _ size] in \<open>fastforce split: prod.splits\<close>)+

lemma slice_size: "vs_size (slice_of v) \<le> size v" "vs_size (fields_of v) \<le> size v"
  by (cases v; simp)+

lemma runs_of_size:
  assumes "runs_of V vs s = Inr (r, s1)"
  shows "r = R_Of names rs \<Longrightarrow> first_size vs_size rs \<le> first_size size vs"
    and "r = R_Elements behind \<Longrightarrow> first_size (size_list vs_size) behind \<le> first_size size vs"
proof -
  have hd: "list_runs (list_or v v) = list_runs v" "size_list vs_size (list_runs v) \<le> size v" for v by (cases v; simp)+
  show "r = R_Of names rs \<Longrightarrow> first_size vs_size rs \<le> first_size size vs"
    using assms slice_size by (cases vs) (auto simp: runs_of_def Let_def split: if_splits sum.splits)
  show "r = R_Elements behind \<Longrightarrow> first_size (size_list vs_size) behind \<le> first_size size vs"
    using assms hd by (cases vs) (auto simp: runs_of_def Let_def split: if_splits sum.splits)
qed

lemma parts_of_many_size: "parts_of_many vs = (lens, ps) \<Longrightarrow> parts_size ps \<le> first_size size vs"
  by (cases vs; cases "hd vs") (auto simp: parts_of_many_def entries_or_def members_or_def Let_def)

lemma parts_of_size:
  assumes "parts_of V vs s = Inr (Some ps, s1)"
  shows "parts_size ps \<le> first_size size vs"
proof (cases "runs_of V vs s")
  case (Inr x)
  obtain r s' where x: "x = (r, s')" by (cases x)
  note size = runs_of_size [OF Inr [unfolded x]]
  show ?thesis
  proof (cases r)
    case (R_Of names rs)
    then show ?thesis using assms Inr x size(1) by (cases names) (auto simp: parts_of_def)
  next
    case (R_Elements behind)
    obtain rs1 behind1 where n: "next_runs (map (\<lambda>_. []) behind) behind = (rs1, behind1)"
      by (cases "next_runs (map (\<lambda>_. []) behind) behind")
    have "parts_size ps \<le> first_size vs_size rs1 + first_size (size_list vs_size) behind1"
      using assms Inr x R_Elements n by (auto simp: parts_of_def split: if_splits)
    also have "\<dots> \<le> first_size (size_list vs_size) behind"
      using next_runs_size [OF n] by (cases behind) auto
    finally show ?thesis using size(2) [OF R_Elements] by simp
  next
    case R_Not
    then show ?thesis
      using assms Inr x parts_of_many_size by (auto simp: parts_of_def split: prod.splits option.splits sum.splits)
  qed (use assms Inr x in \<open>simp add: parts_of_def\<close>)
qed (use assms in \<open>simp add: parts_of_def\<close>)

subsection \<open>The loop\<close>

function far_loop :: "('s, 'p) visit \<Rightarrow> parts \<Rightarrow> parts list \<Rightarrow> 's \<Rightarrow> 'p + 's" where
  "far_loop V current waiting s =
     (let s1 = parts_name V current s
      in case parts_next current of
           (All next, rest) \<Rightarrow>
             (case v_heads V next s1 of
                Inl p \<Rightarrow> Inl p
              | Inr s2 \<Rightarrow>
                  if \<not> has_parts (hd next) then far_loop V rest waiting s2
                  else (case parts_of V next s2 of
                          Inl p \<Rightarrow> Inl p
                        | Inr (None, s3) \<Rightarrow> far_loop V rest waiting s3
                        | Inr (Some inner, s3) \<Rightarrow>
                            far_loop V inner (if parts_done rest then waiting else rest # waiting) s3))
         | (None_Left, _) \<Rightarrow> (case waiting of [] \<Rightarrow> Inr s1 | outer # waiting1 \<Rightarrow> far_loop V outer waiting1 s1)
         | (Some_Left ended, _) \<Rightarrow> v_uneven V ended s1)"
  by pat_completeness auto
termination
  by (relation "measure (\<lambda>(V, current, waiting, s). 2 * (parts_size current + (\<Sum>c\<leftarrow>waiting. parts_size c)) + length waiting)")
    (auto dest!: parts_next_size parts_of_size sym [of "(All _, _)"])

declare far_loop.simps [simp del]

definition through_far :: "('s, 'p) visit \<Rightarrow> val list \<Rightarrow> 's \<Rightarrow> 'p + 's" where
  "through_far V vs s =
     (case parts_of V vs s of
        Inl p \<Rightarrow> Inl p
      | Inr (None, s1) \<Rightarrow> Inr s1
      | Inr (Some current, s1) \<Rightarrow> far_loop V current [] s1)"

section \<open>The walk by calls\<close>

definition NEAR :: nat where
  "NEAR = 64"

text \<open>As many elements of each list as the shortest run has, side by side.\<close>

definition run_step :: "val list list \<Rightarrow> nat" where
  "run_step rs = (if rs = [] then 0 else Min (set (map length rs)))"

definition beside :: "val list list \<Rightarrow> val list list" where
  "beside rs = map (\<lambda>at. map (\<lambda>r. r ! at) rs) [0..<run_step rs]"

lemma run_step_le: "r \<in> set rs \<Longrightarrow> run_step rs \<le> length r"
  by (auto simp: run_step_def)

lemma vs_size_take_drop: "vs_size xs = vs_size (take n xs) + vs_size (drop n xs)"
  by (induction xs arbitrary: n) (auto simp: take_Cons' drop_Cons')

lemma vs_size_sum: "vs_size xs = (\<Sum>x\<leftarrow>xs. Suc (size x))"
  by (induction xs) auto

lemma beside_size:
  "(\<Sum>t\<leftarrow>beside rs. Suc (first_size size t)) + first_size vs_size (map (drop (run_step rs)) rs) = first_size vs_size rs"
proof (cases rs)
  case (Cons r rest)
  let ?n = "run_step rs"
  have n: "?n \<le> length r" using run_step_le [of r rs] Cons by simp
  have "map (\<lambda>t. Suc (first_size size t)) (beside rs) = map (\<lambda>x. Suc (size x)) (take ?n r)"
    using n Cons by (intro nth_equalityI) (simp_all add: beside_def)
  then have "(\<Sum>t\<leftarrow>beside rs. Suc (first_size size t)) = vs_size (take ?n r)" by (simp add: vs_size_sum)
  then show ?thesis using vs_size_take_drop [of r ?n] Cons by simp
qed (simp add: beside_def run_step_def)

lemma vs_size_drop_less: "run_step rs \<noteq> 0 \<Longrightarrow> first_size vs_size (map (drop (run_step rs)) rs) < first_size vs_size rs"
  using beside_size [of rs] by (cases "run_step rs") (auto simp: beside_def upt_conv_Cons simp del: upt_Suc)

text \<open>What the recursive calls of the walk are smaller by.\<close>

lemma first_of_each_ends:
  assumes "(All xs, yss) = first_of_each xss"
  shows "4 * first_size f xs + 3 < 4 * first_size (size_list f) xss"
    and "first_size (size_list f) yss < first_size (size_list f) xss"
  using first_of_each_size [OF assms [symmetric], of f] by simp_all

lemma entries_ends:
  assumes "(All entries, rest) = first_of_each es"
  shows "4 * first_size size (map fst entries) + 3 < 4 * first_size (size_list (size_prod size size)) es"
    and "4 * first_size size (map snd entries) + 3 < 4 * first_size (size_list (size_prod size size)) es"
  using first_of_each_size [OF assms [symmetric], of "size_prod size size"] by (cases entries; auto)+

lemma runs_ends:
  "runs_of V vs s = Inr (R_Of names rs, s1) \<Longrightarrow> 4 * first_size vs_size rs < Suc (Suc (4 * first_size size vs))"
  "runs_of V vs s = Inr (R_Elements behind, s1) \<Longrightarrow>
    4 * first_size vs_size (map (\<lambda>_. []) behind) + 4 * first_size (size_list vs_size) behind < Suc (4 * first_size size vs)"
  using runs_of_size [of V vs s] by (force, cases behind) (auto dest: runs_of_size(2) [of V vs s])

lemma elements_ends:
  assumes "(rs1, behind1) = next_runs rs behind"
  shows "4 * (\<Sum>t\<leftarrow>beside rs1. Suc (first_size size t)) <
      Suc (4 * first_size vs_size rs + 4 * first_size (size_list vs_size) behind)"
    and "0 < run_step rs1 \<Longrightarrow>
      4 * first_size vs_size (map (drop (run_step rs1)) rs1) + 4 * first_size (size_list vs_size) behind1 <
      4 * first_size vs_size rs + 4 * first_size (size_list vs_size) behind"
  using next_runs_size [OF assms [symmetric]] beside_size [of rs1] vs_size_drop_less [of rs1] by auto

lemma many_ends:
  "hd vs = Map_Val es \<Longrightarrow>
    4 * first_size (size_list (size_prod size size)) (map (entries_or (Map_Val es)) vs) < Suc (4 * first_size size vs)"
  "hd vs = Set_Val xs \<Longrightarrow> 4 * first_size vs_size (map (members_or (Set_Val xs)) vs) < Suc (4 * first_size size vs)"
  by (cases vs; simp add: entries_or_def members_or_def)+

function
  through :: "('s, 'p) visit \<Rightarrow> nat \<Rightarrow> val list \<Rightarrow> 's \<Rightarrow> 'p + 's" and
  loop_of :: "('s, 'p) visit \<Rightarrow> nat \<Rightarrow> rtype option \<Rightarrow> val list list \<Rightarrow> 's \<Rightarrow> 'p + 's" and
  through_elements :: "('s, 'p) visit \<Rightarrow> nat \<Rightarrow> val list list \<Rightarrow> val list list list \<Rightarrow> 's \<Rightarrow> 'p + 's" and
  parts_seq :: "('s, 'p) visit \<Rightarrow> nat \<Rightarrow> val list list \<Rightarrow> 's \<Rightarrow> 'p + 's" and
  through_many :: "('s, 'p) visit \<Rightarrow> nat \<Rightarrow> val list \<Rightarrow> 's \<Rightarrow> 'p + 's" and
  loop_entries :: "('s, 'p) visit \<Rightarrow> nat \<Rightarrow> (val \<times> val) list list \<Rightarrow> 's \<Rightarrow> 'p + 's" and
  part :: "('s, 'p) visit \<Rightarrow> nat \<Rightarrow> val list \<Rightarrow> 's \<Rightarrow> 'p + 's"
where
  "through V depth vs s =
     (case runs_of V vs s of
        Inl p \<Rightarrow> Inl p
      | Inr (r, s1) \<Rightarrow>
          (case r of
             R_Of names rs \<Rightarrow> loop_of V depth names rs s1
           | R_Elements behind \<Rightarrow> through_elements V depth (map (\<lambda>_. []) behind) behind s1
           | R_Done \<Rightarrow> Inr s1
           | R_Not \<Rightarrow> through_many V depth vs s1))"
| "loop_of V depth names rs s =
     (let s1 = visit_name V names (hd rs) s
      in case first_of_each rs of
           (All next, rest) \<Rightarrow>
             (case part V depth next s1 of Inl p \<Rightarrow> Inl p | Inr s2 \<Rightarrow> loop_of V depth names rest s2)
         | (None_Left, _) \<Rightarrow> Inr s1
         | (Some_Left ended, _) \<Rightarrow> v_uneven V ended s1)"
| "through_elements V depth rs behind s =
     (case next_runs rs behind of (rs1, behind1) \<Rightarrow>
        if run_step rs1 = 0
        then (let ended = map (\<lambda>r. r = []) rs1
              in if list_ex (\<lambda>e. \<not> e) ended then v_uneven V ended s else Inr s)
        else (case parts_seq V depth (beside rs1) s of
                Inl p \<Rightarrow> Inl p
              | Inr s1 \<Rightarrow> through_elements V depth (map (drop (run_step rs1)) rs1) behind1 s1))"
| "parts_seq V depth [] s = Inr s"
| "parts_seq V depth (t # ts) s =
     (case part V depth t s of Inl p \<Rightarrow> Inl p | Inr s1 \<Rightarrow> parts_seq V depth ts s1)"
| "through_many V depth vs s =
     (case hd vs of
        Map_Val _ \<Rightarrow>
          (let es = map (entries_or (hd vs)) vs
           in case v_lens V (map length es) s of Inl p \<Rightarrow> Inl p | Inr s1 \<Rightarrow> loop_entries V depth es s1)
      | Set_Val _ \<Rightarrow>
          (let ms = map (members_or (hd vs)) vs
           in case v_lens V (map length ms) s of Inl p \<Rightarrow> Inl p | Inr s1 \<Rightarrow> loop_of V depth None ms s1)
      | _ \<Rightarrow> Inr s)"
| "loop_entries V depth es s =
     (case first_of_each es of
        (All entries, rest) \<Rightarrow>
          (case part V depth (map fst entries) s of
             Inl p \<Rightarrow> Inl p
           | Inr s1 \<Rightarrow>
               (case part V depth (map snd entries) s1 of
                  Inl p \<Rightarrow> Inl p
                | Inr s2 \<Rightarrow> loop_entries V depth rest s2))
      | (None_Left, _) \<Rightarrow> Inr s
      | (Some_Left ended, _) \<Rightarrow> v_uneven V ended s)"
| "part V depth vs s =
     (case v_heads V vs s of
        Inl p \<Rightarrow> Inl p
      | Inr s1 \<Rightarrow>
          if has_parts (hd vs)
          then if depth < NEAR then through V (depth + 1) vs s1 else through_far V vs s1
          else Inr s1)"
  by pat_completeness auto
termination
proof (relation "measure (\<lambda>x. case x of
      Inl (Inl (V, depth, vs, s)) \<Rightarrow> 4 * first_size size vs + 2
    | Inl (Inr (Inl (V, depth, names, rs, s))) \<Rightarrow> 4 * first_size vs_size rs
    | Inl (Inr (Inr (V, depth, rs, behind, s))) \<Rightarrow>
        4 * (first_size vs_size rs + first_size (size_list vs_size) behind) + 1
    | Inr (Inl (Inl (V, depth, ts, s))) \<Rightarrow> 4 * (\<Sum>t\<leftarrow>ts. Suc (first_size size t))
    | Inr (Inl (Inr (V, depth, vs, s))) \<Rightarrow> 4 * first_size size vs + 1
    | Inr (Inr (Inl (V, depth, es, s))) \<Rightarrow> 4 * first_size (size_list (size_prod size size)) es
    | Inr (Inr (Inr (V, depth, vs, s))) \<Rightarrow> 4 * first_size size vs + 3)")
qed (auto intro: first_of_each_ends entries_ends runs_ends elements_ends many_ends)

declare through.simps [simp del] loop_of.simps [simp del] through_elements.simps [simp del] through_many.simps [simp del]
  loop_entries.simps [simp del] part.simps [simp del]
definition walk :: "('s, 'p) visit \<Rightarrow> val list \<Rightarrow> 's \<Rightarrow> 'p + 's" where
  "walk V vs s =
     (case v_heads V vs s of
        Inl p \<Rightarrow> Inl p
      | Inr s1 \<Rightarrow> if has_parts (hd vs) then through V 0 vs s1 else Inr s1)"

section \<open>The three visitors\<close>

text \<open>\<^verbatim>\<open>List::range_ends\<close>, \<^verbatim>\<open>List::len\<close>.\<close>

definition range_ends :: "val \<Rightarrow> (int \<times> int) option" where
  "range_ends v = (case v of Range_Val lo hi \<Rightarrow> Some (lo, hi) | _ \<Rightarrow> None)"

definition list_len :: "val \<Rightarrow> nat" where
  "list_len v = (case v of Range_Val lo hi \<Rightarrow> nat \<bar>hi - lo\<bar> + 1 | _ \<Rightarrow> length (concat (list_runs v)))"

text \<open>The first element that is not the Int in its place, in the order of the elements; an Int has no
  parts, so that the order of a value and an Int is that of their heads.\<close>

fun cmp_ints_from :: "val list \<Rightarrow> int \<Rightarrow> int \<Rightarrow> ordering" where
  "cmp_ints_from [] n hi = Equal"
| "cmp_ints_from (x # xs) n hi =
     (if hi < n then Equal
      else case cmp_heads x (Int_Val n) of
             Equal \<Rightarrow> cmp_ints_from xs (n + 1) hi
           | unequal \<Rightarrow> unequal)"

definition cmp_held_ints :: "val \<Rightarrow> int \<Rightarrow> int \<Rightarrow> ordering" where
  "cmp_held_ints held lo hi =
     then_cmp (cmp_ints_from (concat (list_runs held)) lo hi) (cmp (list_len held) (nat \<bar>hi - lo\<bar> + 1))"

definition cmp_without_elements :: "val \<Rightarrow> val \<Rightarrow> ordering option" where
  "cmp_without_elements a b =
     (case (range_ends a, range_ends b) of
        (None, None) \<Rightarrow> None
      | (Some (alo, ahi), Some (blo, bhi)) \<Rightarrow> Some (then_cmp (cmp alo blo) (cmp ahi bhi))
      | (None, Some (lo, hi)) \<Rightarrow> Some (cmp_held_ints a lo hi)
      | (Some (lo, hi), None) \<Rightarrow> Some (reverse_cmp (cmp_held_ints b lo hi)))"

definition equal_visit :: "(unit, unit) visit" where
  "equal_visit = \<lparr>v_names = False,
     v_heads = (\<lambda>vs s. if cmp_heads (vs ! 0) (vs ! 1) = Equal then Inr s else Inl ()),
     v_lens = (\<lambda>ls s. if ls ! 0 = ls ! 1 then Inr s else Inl ()),
     v_lists = (\<lambda>vs s. case cmp_without_elements (vs ! 0) (vs ! 1) of
        None \<Rightarrow> if list_len (vs ! 0) = list_len (vs ! 1) then Inr (True, s) else Inl ()
      | Some Equal \<Rightarrow> Inr (False, s)
      | Some _ \<Rightarrow> Inl ()),
     v_name = (\<lambda>_ s. s),
     v_uneven = (\<lambda>_ s. Inl ())\<rparr>"

definition order_visit :: "(unit, ordering) visit" where
  "order_visit = \<lparr>v_names = False,
     v_heads = (\<lambda>vs s. case cmp_heads (vs ! 0) (vs ! 1) of Equal \<Rightarrow> Inr s | unequal \<Rightarrow> Inl unequal),
     v_lens = (\<lambda>_ s. Inr s),
     v_lists = (\<lambda>vs s. case cmp_without_elements (vs ! 0) (vs ! 1) of
        None \<Rightarrow> Inr (True, s)
      | Some Equal \<Rightarrow> Inr (False, s)
      | Some unequal \<Rightarrow> Inl unequal),
     v_name = (\<lambda>_ s. s),
     v_uneven = (\<lambda>ended s. Inl (if ended ! 0 then Less else Greater))\<rparr>"

text \<open>\<^verbatim>\<open>List::ascending_ints\<close>: the ends of a list of Ints that each are one more than the one before.\<close>

fun ascend :: "int \<Rightarrow> val list \<Rightarrow> int option" where
  "ascend n [] = Some n"
| "ascend n (x # xs) = (case x of Int_Val m \<Rightarrow> if m = n + 1 then ascend m xs else None | _ \<Rightarrow> None)"

definition ascending_ints :: "val \<Rightarrow> (int \<times> int) option" where
  "ascending_ints v =
     (case range_ends v of
        Some ends \<Rightarrow> Some ends
      | None \<Rightarrow>
          (case concat (list_runs v) of
             Int_Val lo # xs \<Rightarrow> map_option (\<lambda>hi. (lo, hi)) (ascend lo xs)
           | _ \<Rightarrow> None))"

text \<open>Hashing never stops the walk.\<close>

definition hash_visit :: "(hashed list, unit) visit" where
  "hash_visit = \<lparr>v_names = True,
     v_heads = (\<lambda>vs s. Inr (s @ hash_head (vs ! 0))),
     v_lens = (\<lambda>ls s. Inr (s @ [H_Usize (ls ! 0)])),
     v_lists = (\<lambda>vs s.
        let s1 = s @ [H_Usize (list_len (vs ! 0))]
        in case ascending_ints (vs ! 0) of
             Some (lo, _) \<Rightarrow> Inr (False, s1 @ [H_U8 1, H_I64 lo])
           | None \<Rightarrow> Inr (True, s1 @ [H_U8 0])),
     v_name = (\<lambda>n s. s @ [H_Str n]),
     v_uneven = (\<lambda>_ s. Inr s)\<rparr>"

definition value_eq :: "val \<Rightarrow> val \<Rightarrow> bool" where
  "value_eq a b = (case walk equal_visit [a, b] () of Inr _ \<Rightarrow> True | Inl _ \<Rightarrow> False)"

definition value_cmp :: "val \<Rightarrow> val \<Rightarrow> ordering" where
  "value_cmp a b = (case walk order_visit [a, b] () of Inl unequal \<Rightarrow> unequal | Inr _ \<Rightarrow> Equal)"

text \<open>The order of a value and an Int is that of their heads: it is what the order of a held list and a
  range asks for, element by element.\<close>

lemma value_cmp_int: "value_cmp x (Int_Val n) = cmp_heads x (Int_Val n)"
proof (cases "cmp_heads x (Int_Val n)")
  case Equal
  then have "\<not> has_parts x" by (cases x) (auto simp: cmp_heads_def has_parts_def cmp_def)
  then show ?thesis using Equal by (simp add: value_cmp_def walk_def order_visit_def)
qed (simp_all add: value_cmp_def walk_def order_visit_def)

definition value_hash :: "val \<Rightarrow> hashed list \<Rightarrow> hashed list" where
  "value_hash v state = (case walk hash_visit [v] state of Inr s \<Rightarrow> s | Inl _ \<Rightarrow> state)"
end
