(* ===== verification/Value_Walk.thy ===== *)
theory Value_Walk
  imports Value
begin

text \<open>
  The walk is a plain recursion. A list that is stored in runs is walked as its elements, a map as its
  keys and values in turn; and where the walk goes on with a stack of its own it does what its calls
  do nearer. The recursion the walk is compared with knows no depth, no stack and no runs.
\<close>

section \<open>The plain recursion\<close>

definition flat_entries :: "(val \<times> val) list \<Rightarrow> val list" where
  "flat_entries e = concat (map (\<lambda>(k, v). [k, v]) e)"

lemma flat_entries_simps [simp]: "flat_entries [] = []" "flat_entries ((k, v) # e) = k # v # flat_entries e"
  by (simp_all add: flat_entries_def)

lemma vs_size_append [simp]: "vs_size (xs @ ys) = vs_size xs + vs_size ys"
  by (induction xs) auto

lemma concat_size: "vs_size (concat rs) \<le> size_list vs_size rs"
  by (induction rs) auto

lemma flat_entries_size: "vs_size (flat_entries e) = size_list (size_prod size size) e"
  by (induction e) auto

lemmas flat_sizes = concat_size flat_entries_size

lemma ref_ends:
  "runs_of V vs s = Inr (R_Elements behind, s1) \<Longrightarrow> 4 * first_size vs_size (map concat behind) < Suc (Suc (4 * first_size size vs))"
  "hd vs = Map_Val es \<Longrightarrow> 4 * first_size vs_size (map (flat_entries \<circ> entries_or (Map_Val es)) vs) < Suc (Suc (4 * first_size size vs))"
  "hd vs = Set_Val xs \<Longrightarrow> 4 * first_size vs_size (map (members_or (Set_Val xs)) vs) < Suc (Suc (4 * first_size size vs))"
proof -
  show "4 * first_size vs_size (map concat behind) < Suc (Suc (4 * first_size size vs))"
    if "runs_of V vs s = Inr (R_Elements behind, s1)"
    using runs_of_size(2) [OF that refl] concat_size [of "hd behind"] by (cases behind) auto
qed (use many_ends in \<open>cases vs; fastforce simp: flat_sizes entries_or_def members_or_def\<close>)+

function
  ref_part :: "('s, 'p) visit \<Rightarrow> val list \<Rightarrow> 's \<Rightarrow> 'p + 's" and
  ref_through :: "('s, 'p) visit \<Rightarrow> val list \<Rightarrow> 's \<Rightarrow> 'p + 's" and
  ref_loop :: "('s, 'p) visit \<Rightarrow> rtype option \<Rightarrow> val list list \<Rightarrow> 's \<Rightarrow> 'p + 's"
where
  "ref_part V vs s =
     (case v_heads V vs s of
        Inl p \<Rightarrow> Inl p
      | Inr s1 \<Rightarrow> if has_parts (hd vs) then ref_through V vs s1 else Inr s1)"
| "ref_through V vs s =
     (case runs_of V vs s of
        Inl p \<Rightarrow> Inl p
      | Inr (r, s1) \<Rightarrow>
          (case r of
             R_Of names rs \<Rightarrow> ref_loop V names rs s1
           | R_Elements behind \<Rightarrow> ref_loop V None (map concat behind) s1
           | R_Done \<Rightarrow> Inr s1
           | R_Not \<Rightarrow>
               (case hd vs of
                  Map_Val _ \<Rightarrow>
                    (let es = map (entries_or (hd vs)) vs
                     in case v_lens V (map length es) s1 of
                          Inl p \<Rightarrow> Inl p | Inr s2 \<Rightarrow> ref_loop V None (map flat_entries es) s2)
                | Set_Val _ \<Rightarrow>
                    (let ms = map (members_or (hd vs)) vs
                     in case v_lens V (map length ms) s1 of Inl p \<Rightarrow> Inl p | Inr s2 \<Rightarrow> ref_loop V None ms s2)
                | _ \<Rightarrow> Inr s1)))"
| "ref_loop V names rs s =
     (let s1 = visit_name V names (hd rs) s
      in case first_of_each rs of
           (All next, rest) \<Rightarrow>
             (case ref_part V next s1 of Inl p \<Rightarrow> Inl p | Inr s2 \<Rightarrow> ref_loop V names rest s2)
         | (None_Left, _) \<Rightarrow> Inr s1
         | (Some_Left ended, _) \<Rightarrow> v_uneven V ended s1)"
  by pat_completeness auto

termination
  by (relation "measure (\<lambda>x. case x of
      Inl (V, vs, s) \<Rightarrow> 4 * first_size size vs + 3
    | Inr (Inl (V, vs, s)) \<Rightarrow> 4 * first_size size vs + 2
    | Inr (Inr (V, names, rs, s)) \<Rightarrow> 4 * first_size vs_size rs)")
    (auto intro: first_of_each_ends runs_ends ref_ends)

declare ref_part.simps [simp del] ref_through.simps [simp del] ref_loop.simps [simp del]

section \<open>Values as they are stored\<close>

text \<open>No run of a list is empty.\<close>

fun runs_ok :: "val \<Rightarrow> bool" where
  "runs_ok (List_Val rs) = (\<forall>r \<in> set rs. r \<noteq> [] \<and> (\<forall>x \<in> set r. runs_ok x))"
| "runs_ok (Tuple_Val xs) = (\<forall>x \<in> set xs. runs_ok x)"
| "runs_ok (Map_Val es) = (\<forall>e \<in> set es. runs_ok (fst e) \<and> runs_ok (snd e))"
| "runs_ok (Set_Val xs) = (\<forall>x \<in> set xs. runs_ok x)"
| "runs_ok (Record_Val _ xs) = (\<forall>x \<in> set xs. runs_ok x)"
| "runs_ok (Variant_Val _ _ xs) = (\<forall>x \<in> set xs. runs_ok x)"
| "runs_ok (Closure_Val _ xs _) = (\<forall>x \<in> set xs. runs_ok x)"
| "runs_ok _ = True"

definition lists_ok :: "val list list \<Rightarrow> bool" where
  "lists_ok rs \<longleftrightarrow> rs \<noteq> [] \<and> (\<forall>r \<in> set rs. \<forall>x \<in> set r. runs_ok x)"

definition behind_ok :: "val list list list \<Rightarrow> bool" where
  "behind_ok behind \<longleftrightarrow> (\<forall>m \<in> set behind. \<forall>r \<in> set m. r \<noteq> [] \<and> (\<forall>x \<in> set r. runs_ok x))"

definition entries_ok :: "(val \<times> val) list list \<Rightarrow> bool" where
  "entries_ok es \<longleftrightarrow> es \<noteq> [] \<and> (\<forall>e \<in> set es. \<forall>x \<in> set e. runs_ok (fst x) \<and> runs_ok (snd x))"

definition vals_ok :: "val list \<Rightarrow> bool" where
  "vals_ok vs \<longleftrightarrow> vs \<noteq> [] \<and> (\<forall>v \<in> set vs. runs_ok v)"

lemma first_of_each_members:
  assumes "first_of_each xss = (All xs, yss)" and "\<forall>l \<in> set xss. \<forall>x \<in> set l. P x"
  shows "\<forall>x \<in> set xs. P x" and "\<forall>l \<in> set yss. \<forall>x \<in> set l. P x"
    and "xss \<noteq> []" and "length xs = length xss" and "length yss = length xss"
proof -
  have h: "map head_of xss = map Some xs" and t: "yss = map tl xss"
    using assms among_All [of "map head_of xss" xs] by (auto simp: first_of_each_def)
  show "\<forall>x \<in> set xs. P x"
  proof
    fix x assume "x \<in> set xs"
    then have "Some x \<in> set (map head_of xss)" unfolding h by simp
    then obtain l where "l \<in> set xss" "head_of l = Some x" by auto
    then show "P x" using assms(2) by (auto simp: head_of_def split: list.splits)
  qed
  show "\<forall>l \<in> set yss. \<forall>x \<in> set l. P x"
    using assms(2) t by (auto dest: list.set_sel(2) [rotated] simp: tl_Nil) (metis list.sel(2) list.set_sel(2))
qed (use first_of_each_All [OF assms(1)] in blast)+

lemma first_ok:
  assumes "first_of_each rs = (All xs, rest)" and "lists_ok rs"
  shows "vals_ok xs" and "lists_ok rest" and "length xs = length rs" and "length rest = length rs"
  using first_of_each_members [OF assms(1), of runs_ok] assms(2) unfolding vals_ok_def lists_ok_def by force+

lemma first_entries_ok:
  assumes "first_of_each es = (All xs, rest)" and "entries_ok es"
  shows "vals_ok (map fst xs)" and "vals_ok (map snd xs)" and "entries_ok rest"
    and "length xs = length es" and "length rest = length es"
  using first_of_each_members [OF assms(1), of "\<lambda>x. runs_ok (fst x) \<and> runs_ok (snd x)"] assms(2)
  unfolding vals_ok_def entries_ok_def by force+

lemma slices_ok: "runs_ok v \<Longrightarrow> \<forall>x \<in> set (slice_of v). runs_ok x" "runs_ok v \<Longrightarrow> \<forall>x \<in> set (fields_of v). runs_ok x"
  by (cases v; simp)+

lemma list_ok:
  "runs_ok v \<Longrightarrow> \<forall>r \<in> set (list_runs v). r \<noteq> [] \<and> (\<forall>x \<in> set r. runs_ok x)"
  "runs_ok v \<Longrightarrow> runs_ok w \<Longrightarrow> runs_ok (list_or w v)"
  by (cases v; simp)+

lemma many_ok:
  "runs_ok v \<Longrightarrow> runs_ok (Map_Val es) \<Longrightarrow> \<forall>e \<in> set (entries_or (Map_Val es) v). runs_ok (fst e) \<and> runs_ok (snd e)"
  "runs_ok v \<Longrightarrow> runs_ok (Set_Val xs) \<Longrightarrow> \<forall>x \<in> set (members_or (Set_Val xs) v). runs_ok x"
  by (cases v; simp add: entries_or_def members_or_def)+

lemma many_lists_ok:
  assumes "vals_ok vs"
  shows "hd vs = Map_Val es \<Longrightarrow> entries_ok (map (entries_or (hd vs)) vs)"
    and "hd vs = Set_Val ms \<Longrightarrow> lists_ok (map (members_or (hd vs)) vs)"
proof -
  have vs: "vs \<noteq> []" "\<forall>v \<in> set vs. runs_ok v" "runs_ok (hd vs)" using assms by (simp_all add: vals_ok_def)
  show "entries_ok (map (entries_or (hd vs)) vs)" if "hd vs = Map_Val es"
    unfolding entries_ok_def set_map that using vs(1,2) many_ok(1) [OF _ vs(3) [unfolded that]] by blast
  show "lists_ok (map (members_or (hd vs)) vs)" if "hd vs = Set_Val ms"
    unfolding lists_ok_def set_map that using vs(1,2) many_ok(2) [OF _ vs(3) [unfolded that]] by blast
qed

lemma runs_of_ok:
  assumes "runs_of V vs s = Inr (r, s1)" and "vals_ok vs"
  shows "r = R_Of names rs \<Longrightarrow> lists_ok rs \<and> length rs = length vs"
    and "r = R_Elements behind \<Longrightarrow> behind \<noteq> [] \<and> behind_ok behind \<and> length behind = length vs"
proof -
  have vs: "vs \<noteq> []" "\<forall>v \<in> set vs. runs_ok v" using assms(2) by (simp_all add: vals_ok_def)
  then have first: "runs_ok (hd vs)" by simp
  show "lists_ok rs \<and> length rs = length vs" if "r = R_Of names rs"
  proof -
    have "rs = map slice_of vs \<or> rs = map fields_of vs"
      using assms(1) that by (auto simp: runs_of_def Let_def split: if_splits sum.splits)
    moreover have "\<forall>x \<in> set (slice_of v). runs_ok x" "\<forall>x \<in> set (fields_of v). runs_ok x" if "v \<in> set vs" for v
      using slices_ok [of v] vs(2) that by blast+
    ultimately show ?thesis using vs(1) unfolding lists_ok_def by auto
  qed
  show "behind \<noteq> [] \<and> behind_ok behind \<and> length behind = length vs" if "r = R_Elements behind"
  proof -
    have "behind = map list_runs (map (list_or (hd vs)) vs)"
      using assms(1) that by (auto simp: runs_of_def Let_def split: if_splits sum.splits)
    moreover have "\<forall>r \<in> set (list_runs (list_or (hd vs) v)). r \<noteq> [] \<and> (\<forall>x \<in> set r. runs_ok x)" if "v \<in> set vs" for v
      using list_ok(1) [OF list_ok(2) [OF _ first]] vs(2) that by blast
    ultimately show ?thesis using vs(1) unfolding behind_ok_def by auto
  qed
qed

section \<open>Parts, flattened\<close>

abbreviation flat_runs :: "val list list \<Rightarrow> val list list list \<Rightarrow> val list list" where
  "flat_runs rs behind \<equiv> map2 (\<lambda>r m. r @ concat m) rs behind"

fun flat_parts :: "parts \<Rightarrow> val list list" where
  "flat_parts (P_Values rs) = rs"
| "flat_parts (P_Fields ty rs) = rs"
| "flat_parts (P_Elements rs behind) = flat_runs rs behind"
| "flat_parts (P_Entries es None) = map flat_entries es"
| "flat_parts (P_Entries es (Some vs)) = map2 (#) vs (map flat_entries es)"
| "flat_parts (P_Members ms) = ms"

fun names_of :: "parts \<Rightarrow> rtype option" where
  "names_of (P_Fields ty rs) = Some ty"
| "names_of _ = None"

definition parts_ok :: "nat \<Rightarrow> parts \<Rightarrow> bool" where
  "parts_ok n c \<longleftrightarrow> 0 < n \<and>
     (case c of
        P_Values rs \<Rightarrow> length rs = n \<and> lists_ok rs
      | P_Fields _ rs \<Rightarrow> length rs = n \<and> lists_ok rs
      | P_Elements rs behind \<Rightarrow> length rs = n \<and> length behind = n \<and> lists_ok rs \<and> behind_ok behind
      | P_Entries es vs \<Rightarrow> length es = n \<and> entries_ok es \<and> (case vs of None \<Rightarrow> True | Some vs \<Rightarrow> length vs = n \<and> vals_ok vs)
      | P_Members ms \<Rightarrow> length ms = n \<and> lists_ok ms)"

lemma parts_name_names: "parts_name V c s = visit_name V (names_of c) (hd (flat_parts c)) s"
  by (cases c) (simp_all add: visit_name_def)

text \<open>The first of each list, told by which lists are empty.\<close>

lemma head_of_None: "(head_of xs = None) = (xs = [])"
  by (cases xs) (simp_all add: head_of_def)

lemma first_of_each_alt:
  "first_of_each xss =
     (if \<forall>xs \<in> set xss. xs = [] then None_Left
      else if [] \<in> set xss then Some_Left (map (\<lambda>xs. xs = []) xss) else All (map hd xss), map tl xss)"
proof -
  have "map (the \<circ> head_of) xss = map hd xss" if "[] \<notin> set xss"
    using that by (intro map_cong refl) (metis comp_apply head_of_def list.case(2) list.collapse option.sel)
  then show ?thesis
    by (auto simp: first_of_each_def among_def Let_def list_all_iff list_ex_iff head_of_None comp_def)
qed

lemma first_of_each_none: "(\<forall>xs \<in> set xss. xs = []) \<Longrightarrow> first_of_each xss = (None_Left, map tl xss)"
  by (simp add: first_of_each_alt)

lemma first_of_each_all: "xss \<noteq> [] \<Longrightarrow> [] \<notin> set xss \<Longrightarrow> first_of_each xss = (All (map hd xss), map tl xss)"
  by (cases xss) (auto simp: first_of_each_alt)

lemma ref_loop_none: "rs \<noteq> [] \<Longrightarrow> \<forall>r \<in> set rs. r = [] \<Longrightarrow> ref_loop V names rs s = Inr s"
  by (subst ref_loop.simps) (simp add: first_of_each_none visit_name_def next_name_def bind_eq_None_conv split: option.splits)

lemma next_runs_flat:
  assumes "next_runs rs behind = (rs1, behind1)" and "length rs = n" "length behind = n" "lists_ok rs" "behind_ok behind"
  shows "flat_runs rs1 behind1 = flat_runs rs behind" and "length rs1 = n" "length behind1 = n"
    and "lists_ok rs1" "behind_ok behind1"
    and "map (\<lambda>r. r = []) (flat_runs rs1 behind1) = map (\<lambda>r. r = []) rs1"
    and "[] \<notin> set rs1 \<Longrightarrow> map hd (flat_runs rs1 behind1) = map hd rs1"
proof -
  have e: "rs1 = map fst (map2 next_run rs behind)" "behind1 = map snd (map2 next_run rs behind)"
    using assms(1) by (auto simp: next_runs_def)
  have ok: "\<forall>x \<in> set (rs ! i). runs_ok x"
    "\<forall>r \<in> set (behind ! i). r \<noteq> [] \<and> (\<forall>x \<in> set r. runs_ok x)" if "i < n" for i
    using assms(2-5) that unfolding lists_ok_def behind_ok_def all_set_conv_all_nth [of rs] all_set_conv_all_nth [of behind] by simp_all
  show len: "length rs1 = n" "length behind1 = n" using e assms by simp_all
  have nth: "rs1 ! i = fst (next_run (rs ! i) (behind ! i))" "behind1 ! i = snd (next_run (rs ! i) (behind ! i))" if "i < n" for i
    using e that assms(2,3) by simp_all
  have one: "fst (next_run r m) @ concat (snd (next_run r m)) = r @ concat m" for r m
    by (auto simp: next_run_def split: list.splits)
  show "flat_runs rs1 behind1 = flat_runs rs behind"
    using nth len assms(2,3) one by (simp add: list_eq_iff_nth_eq [of "flat_runs rs1 behind1"] case_prod_beta)
  have two: "\<forall>x \<in> set (fst (next_run r m)). runs_ok x" "\<forall>r \<in> set (snd (next_run r m)). r \<noteq> [] \<and> (\<forall>x \<in> set r. runs_ok x)"
    "fst (next_run r m) = [] \<Longrightarrow> snd (next_run r m) = []"
    if "\<forall>x \<in> set r. runs_ok x" "\<forall>r \<in> set m. r \<noteq> [] \<and> (\<forall>x \<in> set r. runs_ok x)" for r m
    using that by (auto simp: next_run_def split: list.splits if_splits)
  note at = two [OF ok]
  show "lists_ok rs1"
    using at(1) nth len assms(2,4) unfolding lists_ok_def all_set_conv_all_nth by auto
  show "behind_ok behind1"
    using at(2) nth len unfolding behind_ok_def all_set_conv_all_nth [of behind1] by simp
  show "map (\<lambda>r. r = []) (flat_runs rs1 behind1) = map (\<lambda>r. r = []) rs1"
    using at(3) nth len by (intro nth_equalityI) (auto simp: case_prod_beta)
  show "map hd (flat_runs rs1 behind1) = map hd rs1" if "[] \<notin> set rs1"
    using len that by (intro nth_equalityI) (auto simp: hd_append in_set_conv_nth)
qed

text \<open>The firsts of two groups of lists are alike if the same are empty and the others begin alike.\<close>

lemma first_of_each_alike:
  assumes "map (\<lambda>r. r = []) xss = map (\<lambda>r. r = []) yss"
    and "[] \<notin> set yss \<Longrightarrow> map hd xss = map hd yss"
  shows "fst (first_of_each xss) = fst (first_of_each yss)"
proof -
  have e: "(\<forall>xs \<in> set zss. xs = []) = (False \<notin> set (map (\<lambda>r. r = []) zss))"
    "([] \<in> set zss) = (True \<in> set (map (\<lambda>r. r = []) zss))" for zss :: "'z list list" by auto
  have "(\<forall>xs \<in> set xss. xs = []) = (\<forall>xs \<in> set yss. xs = [])" "([] \<in> set xss) = ([] \<in> set yss)"
    unfolding e assms(1) by (rule refl)+
  then show ?thesis using assms unfolding first_of_each_alt by simp
qed

lemma first_of_each_conses:
  "length vs = length rs \<Longrightarrow> rs \<noteq> [] \<Longrightarrow> first_of_each (map2 (#) vs rs) = (All vs, rs)"
  by (subst first_of_each_all) (auto simp: comp_def case_prod_beta intro!: nth_equalityI dest: set_zip_leftD)

lemma flat_entries_hd_tl:
  "(flat_entries e = []) = (e = [])"
  "e \<noteq> [] \<Longrightarrow> hd (flat_entries e) = fst (hd e)"
  "e \<noteq> [] \<Longrightarrow> tl (flat_entries e) = snd (hd e) # flat_entries (tl e)"
  by (cases e; auto)+

lemma entries_next_flat:
  assumes "first_of_each es = (a, rest)"
  shows "map_among fst a = fst (first_of_each (map flat_entries es))"
    and "a = All xs \<Longrightarrow> snd (first_of_each (map flat_entries es)) = map2 (#) (map snd xs) (map flat_entries rest)"
proof -
  show "map_among fst a = fst (first_of_each (map flat_entries es))"
  proof -
    have "(\<forall>xs \<in> set (map flat_entries es). xs = []) = (\<forall>xs \<in> set es. xs = [])"
      "([] \<in> set (map flat_entries es)) = ([] \<in> set es)"
      "map (\<lambda>xs. xs = []) (map flat_entries es) = map (\<lambda>xs. xs = []) es"
      by (simp_all add: flat_entries_hd_tl image_iff eq_commute [of "[]"])
    moreover have "map hd (map flat_entries es) = map fst (map hd es)" if "[] \<notin> set es"
      using that by (auto intro!: flat_entries_hd_tl(2))
    ultimately show ?thesis using assms unfolding first_of_each_alt by (auto simp del: map_map)
  qed
  assume a: "a = All xs"
  have "xs = map hd es" "rest = map tl es" "[] \<notin> set es"
    using assms a unfolding first_of_each_alt by (auto split: if_splits)
  then show "snd (first_of_each (map flat_entries es)) = map2 (#) (map snd xs) (map flat_entries rest)"
    by (intro nth_equalityI) (auto simp: first_of_each_def in_set_conv_nth flat_entries_hd_tl)
qed

lemma parts_next_flat:
  assumes "parts_next c = (a, c1)" and "parts_ok n c"
  shows "fst (first_of_each (flat_parts c)) = a"
    and "a = All xs \<Longrightarrow> snd (first_of_each (flat_parts c)) = flat_parts c1 \<and> names_of c1 = names_of c \<and>
      parts_ok n c1 \<and> vals_ok xs \<and> length xs = n"
proof -
  have "fst (first_of_each (flat_parts c)) = a \<and>
    (\<forall>xs. a = All xs \<longrightarrow> snd (first_of_each (flat_parts c)) = flat_parts c1 \<and> names_of c1 = names_of c \<and>
      parts_ok n c1 \<and> vals_ok xs \<and> length xs = n)"
  proof (cases c)
    case (P_Elements rs behind)
    obtain rs1 behind1 where n: "next_runs rs behind = (rs1, behind1)" by (cases "next_runs rs behind")
    obtain rs2 where f: "first_of_each rs1 = (a, rs2)" and c1: "c1 = P_Elements rs2 behind1"
      using assms(1) P_Elements n by (auto split: prod.splits)
    have ok: "length rs = n" "length behind = n" "lists_ok rs" "behind_ok behind" "0 < n"
      using assms(2) P_Elements by (simp_all add: parts_ok_def)
    note flat = next_runs_flat [OF n ok(1-4)]
    have "fst (first_of_each (flat_parts c)) = a"
      using first_of_each_alike [OF flat(6,7)] flat(1) f P_Elements by simp
    moreover have "map tl (flat_runs rs behind) = flat_runs rs2 behind1" if "a = All xs" for xs
    proof -
      have "[] \<notin> set rs1" "rs2 = map tl rs1" using f that by (auto simp: first_of_each_alt split: if_splits)
      then have "map tl (flat_runs rs1 behind1) = flat_runs rs2 behind1"
        using flat(2,3) by (intro nth_equalityI) (auto simp: in_set_conv_nth)
      then show ?thesis using flat(1) by simp
    qed
    ultimately show ?thesis
      using first_ok [OF _ flat(4)] f c1 flat P_Elements ok by (auto simp: parts_ok_def first_of_each_def)
  next
    case (P_Entries es vs)
    then have ok: "length es = n" "entries_ok es" "0 < n" using assms(2) by (simp_all add: parts_ok_def)
    show ?thesis
    proof (cases vs)
      case None
      obtain b es1 where f: "first_of_each es = (b, es1)" by (cases "first_of_each es")
      have a: "a = map_among fst b" using assms(1) P_Entries None f by (cases b) auto
      show ?thesis
      proof (cases b)
        case (All xs)
        then have "c1 = P_Entries es1 (Some (map snd xs))" using assms(1) P_Entries None f by auto
        then show ?thesis
          using a entries_next_flat [OF f] first_entries_ok [OF f [unfolded All] ok(2)] All P_Entries None ok
          by (auto simp: parts_ok_def)
      qed (use a entries_next_flat [OF f] P_Entries None in auto)
    next
      case (Some ws)
      then have ws: "length ws = n" "vals_ok ws" using assms(2) P_Entries by (simp_all add: parts_ok_def)
      then have "first_of_each (map2 (#) ws (map flat_entries es)) = (All ws, map flat_entries es)"
        using ok by (intro first_of_each_conses) auto
      then show ?thesis using assms(1) P_Entries Some ok ws by (auto simp: parts_ok_def)
    qed
  qed (use assms in \<open>auto simp: parts_ok_def dest: first_ok split: prod.splits\<close>)
  then show "fst (first_of_each (flat_parts c)) = a"
    and "a = All xs \<Longrightarrow> snd (first_of_each (flat_parts c)) = flat_parts c1 \<and> names_of c1 = names_of c \<and>
      parts_ok n c1 \<and> vals_ok xs \<and> length xs = n" by blast+
qed

lemma flat_none: "parts_ok n c \<Longrightarrow> flat_parts c \<noteq> []"
  by (cases c rule: flat_parts.cases) (auto simp: parts_ok_def)

lemma parts_done_ref:
  assumes "parts_done c" and "parts_ok n c"
  shows "ref_loop V (names_of c) (flat_parts c) s = Inr s"
proof (rule ref_loop_none [OF flat_none [OF assms(2)]])
  show "\<forall>r \<in> set (flat_parts c). r = []"
    using assms(1) by (cases c) (auto simp: list_all_iff dest: set_zip_leftD set_zip_rightD dest!: bspec)
qed

text \<open>The parts of values are the plain recursion's.\<close>

lemma next_runs_first:
  assumes "behind \<noteq> []" and "behind_ok behind" and "next_runs (map (\<lambda>_. []) behind) behind = (rs, behind1)"
  shows "flat_runs rs behind1 = map concat behind" and "length rs = length behind" "length behind1 = length behind"
    and "lists_ok rs" "behind_ok behind1"
proof -
  have "lists_ok (map (\<lambda>_. []) behind)" using assms(1) by (simp add: lists_ok_def)
  note f = next_runs_flat [OF assms(3) length_map refl this assms(2)]
  have "flat_runs (map (\<lambda>_. []) behind) behind = map concat behind" by (intro nth_equalityI) simp_all
  then show "flat_runs rs behind1 = map concat behind" and "length rs = length behind" "length behind1 = length behind"
    "lists_ok rs" "behind_ok behind1" using f by simp_all
qed

lemma parts_of_ref:
  assumes "vals_ok vs" and "length vs = n"
  shows "parts_of V vs s = Inl p \<Longrightarrow> ref_through V vs s = Inl p"
    and "parts_of V vs s = Inr (None, s1) \<Longrightarrow> ref_through V vs s = Inr s1"
    and "parts_of V vs s = Inr (Some c, s1) \<Longrightarrow>
      ref_through V vs s = ref_loop V (names_of c) (flat_parts c) s1 \<and> parts_ok n c"
proof -
  have "case parts_of V vs s of
      Inl p \<Rightarrow> ref_through V vs s = Inl p
    | Inr (None, s1) \<Rightarrow> ref_through V vs s = Inr s1
    | Inr (Some c, s1) \<Rightarrow> ref_through V vs s = ref_loop V (names_of c) (flat_parts c) s1 \<and> parts_ok n c"
  proof (cases "runs_of V vs s")
    case (Inl p)
    then show ?thesis by (simp add: parts_of_def ref_through.simps)
  next
    case (Inr x)
    obtain r s2 where r: "runs_of V vs s = Inr (r, s2)" using Inr by (cases x) auto
    note ok = runs_of_ok [OF r assms(1)]
    have n: "0 < n" using assms by (auto simp: vals_ok_def)
    show ?thesis
    proof (cases r)
      case (R_Of names rs)
      then show ?thesis
        using r ok(1) [OF R_Of] n assms(2)
        by (cases names) (auto simp: parts_of_def ref_through.simps parts_ok_def)
    next
      case (R_Elements behind)
      obtain rs behind1 where next_runs: "next_runs (map (\<lambda>_. []) behind) behind = (rs, behind1)"
        by (cases "next_runs (map (\<lambda>_. []) behind) behind")
      note f = next_runs_first [OF _ _ next_runs]
      have "flat_runs rs behind1 = rs" if "list_all (\<lambda>m. m = []) behind1" "length rs = length behind1"
        using that by (intro nth_equalityI) (simp_all add: list_all_length)
      then show ?thesis
        using r f ok(2) [OF R_Elements] next_runs R_Elements n assms(2)
        by (auto simp: parts_of_def ref_through.simps parts_ok_def)
    next
      case R_Done
      then show ?thesis using r by (simp add: parts_of_def ref_through.simps)
    next
      case R_Not
      have "lists_ok (map (\<lambda>_. []) vs)" "ref_loop V None (map (\<lambda>_. []) vs) s2 = Inr s2"
        using assms(1) by (simp_all add: lists_ok_def vals_ok_def ref_loop_none)
      then show ?thesis
        using r R_Not n assms(2) many_lists_ok [OF assms(1)]
        by (cases "hd vs") (simp_all add: parts_of_def ref_through.simps parts_of_many_def parts_ok_def Let_def comp_def split: sum.splits)
    qed
  qed
  then show "parts_of V vs s = Inl p \<Longrightarrow> ref_through V vs s = Inl p"
    and "parts_of V vs s = Inr (None, s1) \<Longrightarrow> ref_through V vs s = Inr s1"
    and "parts_of V vs s = Inr (Some c, s1) \<Longrightarrow>
      ref_through V vs s = ref_loop V (names_of c) (flat_parts c) s1 \<and> parts_ok n c"
    by auto
qed

section \<open>The walk with a stack of its own\<close>

text \<open>Where some of the values end before the others the walk ends, unless there is one value only.\<close>

definition uneven_stops :: "('s, 'p) visit \<Rightarrow> nat \<Rightarrow> bool" where
  "uneven_stops V n \<longleftrightarrow> n = 1 \<or> (\<forall>ended s. \<exists>p. v_uneven V ended s = Inl p)"

lemma one_is_even: "length rs = 1 \<Longrightarrow> fst (first_of_each rs) \<noteq> Some_Left ended"
  by (cases rs) (auto simp: first_of_each_alt)

fun ref_rest :: "('s, 'p) visit \<Rightarrow> parts list \<Rightarrow> 's \<Rightarrow> 'p + 's" where
  "ref_rest V [] s = Inr s"
| "ref_rest V (c # cs) s =
     (case ref_loop V (names_of c) (flat_parts c) s of Inl p \<Rightarrow> Inl p | Inr s1 \<Rightarrow> ref_rest V cs s1)"

lemma flat_length: "parts_ok n c \<Longrightarrow> length (flat_parts c) = n"
  by (cases c rule: flat_parts.cases) (auto simp: parts_ok_def)

lemma far_loop_ref:
  assumes "uneven_stops V n"
  shows "parts_ok n c \<Longrightarrow> \<forall>w \<in> set waiting. parts_ok n w \<Longrightarrow> far_loop V c waiting s = ref_rest V (c # waiting) s"
  using assms
proof (induction V c waiting s rule: far_loop.induct)
  case (1 V c waiting s)
  obtain a c1 where nx: "parts_next c = (a, c1)" by (cases "parts_next c")
  define s1 where "s1 = parts_name V c s"
  note flat = parts_next_flat [OF nx 1(5)]
  have s1: "visit_name V (names_of c) (hd (flat_parts c)) s = s1" by (simp add: s1_def parts_name_names)
  have f: "first_of_each (flat_parts c) = (a, map tl (flat_parts c))" using flat(1) by (simp add: first_of_each_def)
  show ?case
  proof (cases a)
    case None_Left
    then have loop: "far_loop V c waiting s = (case waiting of [] \<Rightarrow> Inr s1 | outer # rest \<Rightarrow> far_loop V outer rest s1)"
      using nx by (simp add: far_loop.simps [of V c] s1_def [symmetric] Let_def)
    have ref: "ref_loop V (names_of c) (flat_parts c) s = Inr s1"
      using f None_Left s1 by (simp add: ref_loop.simps [of V _ "flat_parts c"] Let_def)
    show ?thesis
    proof (cases waiting)
      case (Cons outer rest)
      then have "far_loop V outer rest s1 = ref_rest V (outer # rest) s1"
        using 1 nx None_Left s1_def by auto
      then show ?thesis using loop ref Cons by simp
    qed (use loop ref in simp)
  next
    case (Some_Left ended)
    then have "n \<noteq> 1" using one_is_even [of "flat_parts c"] flat_length [OF 1(5)] flat(1) by auto
    then obtain p where "v_uneven V ended s1 = Inl p" using 1(7) unfolding uneven_stops_def by blast
    then show ?thesis
      using nx f Some_Left s1 by (simp add: far_loop.simps [of V c] s1_def ref_loop.simps [of V _ "flat_parts c"] Let_def)
  next
    case (All xs)
    have c1: "map tl (flat_parts c) = flat_parts c1" "names_of c1 = names_of c" "parts_ok n c1" "vals_ok xs" "length xs = n"
      using flat(2) [OF All] by (simp_all add: first_of_each_def)
    have ref: "ref_loop V (names_of c) (flat_parts c) s =
      (case ref_part V xs s1 of Inl p \<Rightarrow> Inl p | Inr s2 \<Rightarrow> ref_loop V (names_of c1) (flat_parts c1) s2)"
      using f All s1 c1 by (simp add: ref_loop.simps [of V _ "flat_parts c"] Let_def split: sum.splits)
    show ?thesis
    proof (cases "v_heads V xs s1")
      case (Inl p)
      then show ?thesis using nx All ref by (simp add: far_loop.simps [of V c] s1_def Let_def ref_part.simps)
    next
      case (Inr s2)
      show ?thesis
      proof (cases "has_parts (hd xs)")
        case False
        then have "far_loop V c1 waiting s2 = ref_rest V (c1 # waiting) s2"
          using 1 nx All s1_def Inr c1 by auto
        then show ?thesis
          using nx All ref Inr False by (simp add: far_loop.simps [of V c] s1_def Let_def ref_part.simps)
      next
        case True
        note parts = parts_of_ref [OF c1(4,5), of V s2]
        have here: "ref_part V xs s1 = ref_through V xs s2" using Inr True by (simp add: ref_part.simps)
        show ?thesis
        proof (cases "parts_of V xs s2")
          case stop: (Inl p)
          then show ?thesis
            using nx All ref Inr True here parts(1) by (simp add: far_loop.simps [of V c] s1_def Let_def)
        next
          case go: (Inr x)
          show ?thesis
          proof (cases x)
            case (Pair inner s3)
            show ?thesis
            proof (cases inner)
              case None
              then have "far_loop V c1 waiting s3 = ref_rest V (c1 # waiting) s3"
                using 1 nx All s1_def Inr True go Pair c1 by auto
              then show ?thesis
                using nx All ref Inr True here parts(2) go Pair None by (simp add: far_loop.simps [of V c] s1_def Let_def)
            next
              case (Some c2)
              let ?w = "if parts_done c1 then waiting else c1 # waiting"
              have c2: "ref_through V xs s2 = ref_loop V (names_of c2) (flat_parts c2) s3" "parts_ok n c2"
                using parts(3) go Pair Some by auto
              have rest: "ref_rest V ?w s4 = ref_rest V (c1 # waiting) s4" for s4
                using parts_done_ref [OF _ c1(3), of V s4] by (cases "parts_done c1") simp_all
              have "far_loop V c waiting s = far_loop V c2 ?w s3"
                using nx All Inr True go Pair Some by (simp add: far_loop.simps [of V c] s1_def Let_def)
              also have "\<dots> = ref_rest V (c2 # ?w) s3"
                using 1 nx All s1_def Inr True go Pair Some c1 c2(2) by auto
              also have "\<dots> = (case ref_through V xs s2 of Inl p \<Rightarrow> Inl p | Inr s4 \<Rightarrow> ref_rest V (c1 # waiting) s4)"
                unfolding c2(1) ref_rest.simps(2) [of V c2] rest by (rule refl)
              also have "\<dots> = ref_rest V (c # waiting) s" using ref here by (simp split: sum.splits)
              finally show ?thesis .
            qed
          qed
        qed
      qed
    qed
  qed
qed

lemma through_far_ref:
  assumes "uneven_stops V n" and "vals_ok vs" and "length vs = n"
  shows "through_far V vs s = ref_through V vs s"
proof (cases "parts_of V vs s")
  case (Inl p)
  then show ?thesis using parts_of_ref(1) [OF assms(2,3) Inl] by (simp add: through_far_def)
next
  case (Inr x)
  obtain c s1 where x: "x = (c, s1)" by (cases x)
  then show ?thesis
    using Inr parts_of_ref(2) [OF assms(2,3), of V s s1] parts_of_ref(3) [OF assms(2,3), of V s _ s1] far_loop_ref [OF assms(1)]
    by (cases c) (auto simp: through_far_def split: sum.splits)
qed

section \<open>The walk by calls is the plain recursion\<close>

fun ref_seq :: "('s, 'p) visit \<Rightarrow> val list list \<Rightarrow> 's \<Rightarrow> 'p + 's" where
  "ref_seq V [] s = Inr s"
| "ref_seq V (t # ts) s = (case ref_part V t s of Inl p \<Rightarrow> Inl p | Inr s1 \<Rightarrow> ref_seq V ts s1)"

text \<open>Elements one after the other, or as many at once as all have.\<close>

lemma ref_loop_beside:
  assumes "rs \<noteq> []" and "\<forall>r \<in> set rs. k \<le> length r"
  shows "ref_loop V None rs s =
    (case ref_seq V (map (\<lambda>at. map (\<lambda>r. r ! at) rs) [0..<k]) s of
       Inl p \<Rightarrow> Inl p | Inr s1 \<Rightarrow> ref_loop V None (map (drop k) rs) s1)"
  using assms
proof (induction k arbitrary: rs s)
  case (Suc k)
  have ne: "[] \<notin> set rs" "\<forall>r \<in> set rs. r \<noteq> []" using Suc.prems(2) by auto
  have heads: "map (\<lambda>at. map (\<lambda>r. r ! at) rs) [0..<Suc k] = map hd rs # map (\<lambda>at. map (\<lambda>r. r ! at) (map tl rs)) [0..<k]"
    using ne Suc.prems(2)
    by (auto simp: map_Suc_upt [symmetric] upt_conv_Cons hd_conv_nth nth_tl simp del: upt_Suc)
  have rest: "map (drop k) (map tl rs) = map (drop (Suc k)) rs" by (simp add: drop_Suc)
  have "map tl rs \<noteq> []" "\<forall>r \<in> set (map tl rs). k \<le> length r" using Suc.prems by fastforce+
  note IH = Suc.IH [OF this, unfolded rest]
  have "ref_loop V None rs s = (case ref_part V (map hd rs) s of Inl p \<Rightarrow> Inl p | Inr s1 \<Rightarrow> ref_loop V None (map tl rs) s1)"
    using Suc.prems(1) ne by (simp add: ref_loop.simps [of V None rs] first_of_each_all visit_name_def)
  then show ?case unfolding heads IH by (simp del: map_map split: sum.splits)
qed simp

text \<open>What the walk by calls does is what the plain recursion does, for values no run of which is empty.\<close>

lemma elements_ref:
  assumes "next_runs rs behind = (rs1, behind1)" and "length rs = n" "length behind = n" "lists_ok rs" "behind_ok behind"
  shows "run_step rs1 = 0 \<Longrightarrow> ref_loop V None (flat_runs rs behind) s =
      (if list_ex (\<lambda>e. \<not> e) (map (\<lambda>r. r = []) rs1) then v_uneven V (map (\<lambda>r. r = []) rs1) s else Inr s)"
    and "ref_loop V None (flat_runs rs behind) s =
      (case ref_seq V (beside rs1) s of
         Inl p \<Rightarrow> Inl p | Inr s1 \<Rightarrow> ref_loop V None (flat_runs (map (drop (run_step rs1)) rs1) behind1) s1)"
proof -
  note flat = next_runs_flat [OF assms]
  have ne: "rs1 \<noteq> []" using flat(4) by (simp add: lists_ok_def)
  show "ref_loop V None (flat_runs rs behind) s =
      (if list_ex (\<lambda>e. \<not> e) (map (\<lambda>r. r = []) rs1) then v_uneven V (map (\<lambda>r. r = []) rs1) s else Inr s)"
    if "run_step rs1 = 0"
  proof -
    have "run_step rs1 \<in> length ` set rs1" using ne Min_in [of "length ` set rs1"] by (simp add: run_step_def)
    then have "[] \<in> set rs1" using that by force
    then have "fst (first_of_each rs1) =
      (if list_ex (\<lambda>e. \<not> e) (map (\<lambda>r. r = []) rs1) then Some_Left (map (\<lambda>r. r = []) rs1) else None_Left)"
      by (auto simp: first_of_each_alt list_ex_iff)
    moreover have "fst (first_of_each (flat_runs rs behind)) = fst (first_of_each rs1)"
      using first_of_each_alike [OF flat(6,7)] flat(1) by simp
    ultimately show ?thesis
      by (subst ref_loop.simps) (auto simp: visit_name_def split: prod.splits among.splits)
  qed
  let ?k = "run_step rs1"
  have le: "\<forall>r \<in> set rs1. ?k \<le> length r" by (simp add: run_step_le)
  have flat_le: "\<forall>r \<in> set (flat_runs rs1 behind1). ?k \<le> length r"
    using le by (auto dest!: set_zip_leftD intro: trans_le_add1)
  have rest: "map (drop ?k) (flat_runs rs1 behind1) = flat_runs (map (drop ?k) rs1) behind1"
    using le flat(2,3) by (intro nth_equalityI) auto
  have heads: "map (\<lambda>at. map (\<lambda>r. r ! at) (flat_runs rs1 behind1)) [0..<?k] = beside rs1"
    using le flat(2,3) unfolding beside_def
    by (auto intro!: nth_equalityI simp: nth_append) (metis less_le_trans nth_mem)
  have "flat_runs rs1 behind1 \<noteq> []" using ne flat(2,3) by auto
  then show "ref_loop V None (flat_runs rs behind) s =
      (case ref_seq V (beside rs1) s of
         Inl p \<Rightarrow> Inl p | Inr s1 \<Rightarrow> ref_loop V None (flat_runs (map (drop (run_step rs1)) rs1) behind1) s1)"
    using ref_loop_beside [OF _ flat_le, of V s] unfolding flat(1) [symmetric] rest heads by blast
qed

lemma entries_ref:
  assumes "first_of_each es = (a, rest)"
  shows "ref_loop V None (map flat_entries es) s =
    (case a of
       All xs \<Rightarrow>
         (case ref_part V (map fst xs) s of
            Inl p \<Rightarrow> Inl p
          | Inr s1 \<Rightarrow>
              (case ref_part V (map snd xs) s1 of
                 Inl p \<Rightarrow> Inl p | Inr s2 \<Rightarrow> ref_loop V None (map flat_entries rest) s2))
     | None_Left \<Rightarrow> Inr s
     | Some_Left ended \<Rightarrow> v_uneven V ended s)"
proof (cases a)
  case (All xs)
  have "length xs = length es" "length rest = length es" "es \<noteq> []"
    using first_of_each_All [OF assms [unfolded All]] by blast+
  then have len: "length xs = length rest" "rest \<noteq> []" by auto
  have "first_of_each (map flat_entries es) = (All (map fst xs), map2 (#) (map snd xs) (map flat_entries rest))"
    using entries_next_flat [OF assms] All by (metis among.map(1) prod.collapse)
  moreover have "first_of_each (map2 (#) (map snd xs) (map flat_entries rest)) = (All (map snd xs), map flat_entries rest)"
    using len by (intro first_of_each_conses) auto
  ultimately show ?thesis
    using All
    by (simp add: ref_loop.simps [of V None "map flat_entries es"] visit_name_def
        ref_loop.simps [of V None "map2 (#) (map snd xs) (map flat_entries rest)"] del: zip_map1 zip_map2 map_map split: sum.splits)
qed (use entries_next_flat(1) [OF assms, symmetric] in
  \<open>subst ref_loop.simps; auto simp: visit_name_def split: prod.splits\<close>)+

abbreviation ref_many :: "('s, 'p) visit \<Rightarrow> val list \<Rightarrow> 's \<Rightarrow> 'p + 's" where
  "ref_many V vs s \<equiv>
     (case hd vs of
        Map_Val _ \<Rightarrow>
          (let es = map (entries_or (hd vs)) vs
           in case v_lens V (map length es) s of Inl p \<Rightarrow> Inl p | Inr s1 \<Rightarrow> ref_loop V None (map flat_entries es) s1)
      | Set_Val _ \<Rightarrow>
          (let ms = map (members_or (hd vs)) vs
           in case v_lens V (map length ms) s of Inl p \<Rightarrow> Inl p | Inr s1 \<Rightarrow> ref_loop V None ms s1)
      | _ \<Rightarrow> Inr s)"

lemma near_ref:
  "uneven_stops V n \<Longrightarrow> vals_ok vs \<Longrightarrow> length vs = n \<Longrightarrow> through V depth vs s = ref_through V vs s"
  "uneven_stops V n \<Longrightarrow> lists_ok rs \<Longrightarrow> length rs = n \<Longrightarrow> loop_of V depth names rs s = ref_loop V names rs s"
  "uneven_stops V n \<Longrightarrow> length rs = n \<Longrightarrow> length behind = n \<Longrightarrow> lists_ok rs \<Longrightarrow> behind_ok behind \<Longrightarrow>
    through_elements V depth rs behind s = ref_loop V None (flat_runs rs behind) s"
  "uneven_stops V n \<Longrightarrow> \<forall>t \<in> set ts. vals_ok t \<and> length t = n \<Longrightarrow> parts_seq V depth ts s = ref_seq V ts s"
  "uneven_stops V n \<Longrightarrow> vals_ok vs \<Longrightarrow> length vs = n \<Longrightarrow> through_many V depth vs s = ref_many V vs s"
  "uneven_stops V n \<Longrightarrow> entries_ok es \<Longrightarrow> length es = n \<Longrightarrow>
    loop_entries V depth es s = ref_loop V None (map flat_entries es) s"
  "uneven_stops V n \<Longrightarrow> vals_ok vs \<Longrightarrow> length vs = n \<Longrightarrow> part V depth vs s = ref_part V vs s"
proof (induction V depth vs s and V depth names rs s and V depth rs behind s and V depth ts s and V depth vs s and
    V depth es s and V depth vs s
    rule: through_loop_of_through_elements_parts_seq_through_many_loop_entries_part.induct)
  case (1 V depth vs s)
  show ?case
  proof (cases "runs_of V vs s")
    case (Inl p)
    then show ?thesis by (simp add: through.simps ref_through.simps)
  next
    case (Inr x)
    obtain r s1 where x: "x = (r, s1)" by (cases x)
    note ok = runs_of_ok [OF Inr [unfolded x] 1(5)]
    show ?thesis
    proof (cases r)
      case (R_Of names rs)
      then show ?thesis using 1(1) [OF Inr x [symmetric] R_Of 1(4)] ok(1) Inr x 1(6) by (simp add: through.simps ref_through.simps)
    next
      case (R_Elements behind)
      have "flat_runs (map (\<lambda>_. []) behind) behind = map concat behind" by (intro nth_equalityI) simp_all
      then show ?thesis
        using 1(2) [OF Inr x [symmetric] R_Elements 1(4)] ok(2) [OF R_Elements] Inr x 1(6) R_Elements
        by (simp add: through.simps ref_through.simps lists_ok_def)
    qed (use 1(3) [OF Inr x [symmetric] _ 1(4-6)] Inr x in \<open>simp_all add: through.simps ref_through.simps\<close>)
  qed
next
  case (2 V depth names rs s)
  obtain a rest where f: "first_of_each rs = (a, rest)" by (cases "first_of_each rs")
  show ?case
  proof (cases a)
    case (All xs)
    then show ?thesis
      using 2(1,2) [OF refl f [symmetric] All] 2(3-5) first_ok [OF f [unfolded All] 2(4)] f
      by (simp add: loop_of.simps [of V _ _ rs] ref_loop.simps [of V _ rs] Let_def split: sum.splits)
  qed (use f in \<open>simp_all add: loop_of.simps [of V _ _ rs] ref_loop.simps [of V _ rs]\<close>)
next
  case (3 V depth rs behind s)
  obtain rs1 behind1 where nx: "next_runs rs behind = (rs1, behind1)" by (cases "next_runs rs behind")
  note ok = next_runs_flat [OF nx 3(4-7)] and ref = elements_ref [OF nx 3(4-7)]
  show ?case
  proof (cases "run_step rs1 = 0")
    case True
    then show ?thesis using nx ref(1) [OF True, of V s] by (simp add: through_elements.simps [of V _ rs] Let_def)
  next
    case False
    have "\<forall>t \<in> set (beside rs1). vals_ok t \<and> length t = n"
      using ok(2,4) run_step_le [of _ rs1] by (fastforce simp: beside_def vals_ok_def lists_ok_def)
    then have seq: "parts_seq V depth (beside rs1) s = ref_seq V (beside rs1) s"
      using 3(1) [OF nx [symmetric] False 3(3)] by blast
    have "lists_ok (map (drop (run_step rs1)) rs1)" using ok(4) by (auto simp: lists_ok_def dest: in_set_dropD)
    then have "through_elements V depth (map (drop (run_step rs1)) rs1) behind1 s1 =
      ref_loop V None (flat_runs (map (drop (run_step rs1)) rs1) behind1) s1" if "parts_seq V depth (beside rs1) s = Inr s1" for s1
      using 3(2) [OF nx [symmetric] False that 3(3)] ok by simp
    then show ?thesis
      using nx False seq ref(2) [of V s] by (simp add: through_elements.simps [of V _ rs] split: sum.splits)
  qed
next
  case (4 V depth s)
  then show ?case by simp
next
  case (5 V depth t ts s)
  then show ?case by (simp split: sum.splits)
next
  case (6 V depth vs s)
  have "loop_of V depth None (map (members_or (hd vs)) vs) s1 = ref_loop V None (map (members_or (hd vs)) vs) s1"
    if "hd vs = Set_Val ms" "v_lens V (map length (map (members_or (hd vs)) vs)) s = Inr s1" for ms s1
    using 6(2) [OF that(1) refl that(2) 6(3) many_lists_ok(2) [OF 6(4) that(1)]] 6(5) by simp
  moreover have "loop_entries V depth (map (entries_or (hd vs)) vs) s1 =
      ref_loop V None (map flat_entries (map (entries_or (hd vs)) vs)) s1"
    if "hd vs = Map_Val es" "v_lens V (map length (map (entries_or (hd vs)) vs)) s = Inr s1" for es s1
    using 6(1) [OF that(1) refl that(2) 6(3) many_lists_ok(1) [OF 6(4) that(1)]] 6(5) by simp
  ultimately show ?case
    by (cases "hd vs") (simp_all add: through_many.simps Let_def del: map_map split: sum.splits)
next
  case (7 V depth es s)
  obtain a rest where f: "first_of_each es = (a, rest)" by (cases "first_of_each es")
  show ?case
  proof (cases a)
    case (All xs)
    then show ?thesis
      using 7(1-3) [OF f [symmetric] All] 7(4-6) first_entries_ok [OF f [unfolded All] 7(5)] f entries_ref [OF f, of V s]
      by (simp add: loop_entries.simps [of V _ es] split: sum.splits)
  qed (use f entries_ref [OF f, of V s] in \<open>simp_all add: loop_entries.simps [of V _ es]\<close>)
next
  case (8 V depth vs s)
  show ?case
    using 8 through_far_ref [OF 8(2-4)] by (auto simp: part.simps [of V] ref_part.simps [of V] split: sum.splits)
qed

section \<open>Every visitor of the code\<close>

text \<open>What a walk relies on its visitor for.\<close>

locale visitor =
  fixes V :: "('s, 'p) visit" and n :: nat
  assumes uneven: "n = 1 \<or> (\<exists>p. v_uneven V ended s = Inl p)"
begin

lemma walk_ref:
  assumes "vals_ok vs" and "length vs = n"
  shows "walk V vs s = ref_part V vs s"
proof -
  have "uneven_stops V n" using uneven by (auto simp: uneven_stops_def)
  from near_ref(1) [OF this assms] show ?thesis by (simp add: walk_def ref_part.simps [of V] split: sum.splits)
qed

end

interpretation equal: visitor equal_visit 2
  by unfold_locales (simp add: equal_visit_def)

interpretation order: visitor order_visit 2
  by unfold_locales (simp add: order_visit_def)

interpretation hashing: visitor hash_visit 1
  by unfold_locales simp

text \<open>C38: the walk through values side by side, which goes down by calls near its start, with a stack of
  its own below, and through the runs of lists, does what the recursion does that knows no depth, no
  stack and no runs, for every visitor that stops where one value ends before another (or that walks
  through one value): its steps, their order and the outcome.
\<close>

theorem walk_is_plain_recursion:
  assumes "list_all runs_ok vs" and "vs \<noteq> []" and "length vs = 1 \<or> (\<forall>ended s. \<exists>p. v_uneven V ended s = Inl p)"
  shows "walk V vs s = ref_part V vs s"
  using assms visitor.walk_ref [of V "length vs" vs s] by (auto simp: visitor_def vals_ok_def list_all_iff)

theorem walk_is_plain_recursion_witness:
  "walk order_visit [List_Val [[Int_Val 1], [Int_Val 2, Int_Val 3]], List_Val [[Int_Val 1, Int_Val 2], [Int_Val 3]]] () =
   ref_part order_visit [List_Val [[Int_Val 1], [Int_Val 2, Int_Val 3]], List_Val [[Int_Val 1, Int_Val 2], [Int_Val 3]]] ()"
  by (rule walk_is_plain_recursion) (simp_all add: order_visit_def)
end
