(* ===== verification/Value_Order.thy ===== *)
theory Value_Order
  imports Value_Walk
begin

text \<open>
  The order of values is a total order, equality is its equality, and equal values hash alike. All
  three are read off the key of a value: a tree with a head and the keys of the parts, in which
  nothing is left of how a list is stored.
\<close>

section \<open>Comparing\<close>

lemma cmp_iff [simp]:
  "cmp a b = Equal \<longleftrightarrow> a = b" "cmp a b = Less \<longleftrightarrow> a < b" "cmp a b = Greater \<longleftrightarrow> b < a"
  "cmp a a = Equal"
  by (auto simp: cmp_def)

lemma cmp_prod: "cmp (a, b) (c, d) = then_cmp (cmp a c) (cmp b d)"
  by (auto simp: cmp_def less_prod_def)

lemma cmp_list [simp]:
  "cmp (x # xs) (y # ys) = then_cmp (cmp x y) (cmp xs ys)"
  "cmp [] (y # ys) = Less" "cmp (x # xs) [] = Greater"
  by (auto simp: cmp_def)


lemma cmp_int [simp]: "cmp (int a) (int b) = cmp a b" "cmp (of_bool c :: int) (of_bool d) = cmp c d"
  by (auto simp: cmp_def)

lemma cmp_ints [simp]: "cmp (map int xs) (map int ys) = cmp xs ys"
proof (induction xs arbitrary: ys)
  case Nil
  then show ?case by (cases ys) simp_all
next
  case (Cons x xs)
  then show ?case by (cases ys) simp_all
qed

lemma then_cmp_iff [simp]:
  "then_cmp a b = Equal \<longleftrightarrow> a = Equal \<and> b = Equal" "then_cmp a Equal = a"
  "reverse_cmp (then_cmp a b) = then_cmp (reverse_cmp a) (reverse_cmp b)" "reverse_cmp (reverse_cmp a) = a"
  "reverse_cmp a = Equal \<longleftrightarrow> a = Equal"
  by (cases a; cases b; simp)+

lemma then_cmp_unequal: "a \<noteq> Equal \<Longrightarrow> then_cmp a b = a"
  by (cases a) simp_all

lemma reverse_cmp_cmp [simp]: "reverse_cmp (cmp a b) = cmp b a"
  by (auto simp: cmp_def)

section \<open>Keys\<close>

datatype ktree = Node "nat \<times> int list \<times> string list" "ktree list"

fun kcmp :: "ktree \<Rightarrow> ktree \<Rightarrow> ordering" and kcmps :: "ktree list \<Rightarrow> ktree list \<Rightarrow> ordering" where
  "kcmp (Node h xs) (Node g ys) = then_cmp (cmp h g) (kcmps xs ys)"
| "kcmps [] [] = Equal"
| "kcmps [] (y # ys) = Less"
| "kcmps (x # xs) [] = Greater"
| "kcmps (x # xs) (y # ys) = then_cmp (kcmp x y) (kcmps xs ys)"

lemma kcmp_equal: "kcmp x y = Equal \<longleftrightarrow> x = y" "kcmps xs ys = Equal \<longleftrightarrow> xs = ys"
  by (induction x y and xs ys rule: kcmp_kcmps.induct) auto

lemma kcmp_reverse: "reverse_cmp (kcmp x y) = kcmp y x" "reverse_cmp (kcmps xs ys) = kcmps ys xs"
  by (induction x y and xs ys rule: kcmp_kcmps.induct) auto

lemma then_cmp_Less: "then_cmp a b = Less \<longleftrightarrow> a = Less \<or> a = Equal \<and> b = Less"
  by (cases a) auto

lemma kcmp_trans:
  "kcmp x y = Less \<Longrightarrow> kcmp y z = Less \<Longrightarrow> kcmp x z = Less"
  "kcmps xs ys = Less \<Longrightarrow> kcmps ys zs = Less \<Longrightarrow> kcmps xs zs = Less"
proof (induction x y and xs ys arbitrary: z and zs rule: kcmp_kcmps.induct)
  case (1 h xs g ys)
  then show ?case by (cases z) (auto simp: then_cmp_Less)
next
  case (3 y ys)
  then show ?case by (cases zs) simp_all
next
  case (5 x xs y ys)
  then show ?case by (cases zs) (auto simp: then_cmp_Less kcmp_equal)
qed simp_all

instantiation ktree :: linorder
begin

definition less_ktree :: "ktree \<Rightarrow> ktree \<Rightarrow> bool" where
  "x < y \<longleftrightarrow> kcmp x y = Less"

definition less_eq_ktree :: "ktree \<Rightarrow> ktree \<Rightarrow> bool" where
  "x \<le> y \<longleftrightarrow> kcmp x y \<noteq> Greater"

instance
proof
  fix x y z :: ktree
  have eq: "kcmp a b = Greater \<longleftrightarrow> kcmp b a = Less" for a b
    using kcmp_reverse(1) [of a b] by (cases "kcmp a b"; cases "kcmp b a") simp_all
  have less: "a < b \<or> a = b \<longleftrightarrow> kcmp a b \<noteq> Greater" for a b :: ktree
    using kcmp_equal(1) [of a b] by (cases "kcmp a b") (auto simp: less_ktree_def)
  show "x < y \<longleftrightarrow> x \<le> y \<and> \<not> y \<le> x"
    using kcmp_reverse(1) [of x y] by (cases "kcmp x y") (auto simp: less_ktree_def less_eq_ktree_def)
  show "x \<le> x" by (simp add: less_eq_ktree_def kcmp_equal(1) [THEN iffD2])
  show "x \<le> y \<Longrightarrow> y \<le> z \<Longrightarrow> x \<le> z"
    unfolding less_eq_ktree_def less [symmetric] less_ktree_def using kcmp_trans(1) by blast
  show "x \<le> y \<Longrightarrow> y \<le> x \<Longrightarrow> x = y"
    unfolding less_eq_ktree_def eq using kcmp_equal(1) [of x y] by (cases "kcmp x y") (auto simp: eq)
  show "x \<le> y \<or> y \<le> x" by (cases "kcmp x y") (auto simp: less_eq_ktree_def eq)
qed

end

lemma kcmp_cmp: "kcmp x y = cmp x y"
  using kcmp_equal(1) [of x y] by (cases "kcmp x y") (auto simp: cmp_def less_ktree_def)

text \<open>The head of a value as a key.\<close>

primrec hkey :: "val \<Rightarrow> nat \<times> int list \<times> string list" where
  "hkey Unit_Val = (0, [], [])"
| "hkey (Bool_Val b) = (1, [of_bool b], [])"
| "hkey (Int_Val n) = (2, [n], [])"
| "hkey (Float_Val bits) = (3, [float_place bits], [])"
| "hkey (String_Val s) = (4, [], [s])"
| "hkey (List_Val _) = (5, [], [])"
| "hkey (Range_Val _ _) = (5, [], [])"
| "hkey (Tuple_Val _) = (6, [], [])"
| "hkey (Map_Val _) = (7, [], [])"
| "hkey (Set_Val _) = (8, [], [])"
| "hkey (Record_Val t _) = (9, [int (rt_id t)], if is_anon t then rt_fields t else [])"
| "hkey (Variant_Val t ord _) = (10, [int t, int ord], [])"
| "hkey (Channel_Val n) = (11, [int n], [])"
| "hkey (Handle_Val n) = (12, [int n], [])"
| "hkey (Bytes_Val bs) = (13, map int bs, [])"
| "hkey (Listener_Val n) = (14, [int n], [])"
| "hkey (Stream_Val n) = (15, [int n], [])"
| "hkey (Closure_Val n _ _) = (16, [int n], [])"
| "hkey (Builtin_Val n) = (17, [int n], [])"
| "hkey (Ctor_Val t ord) = (18, [int t, int ord], [])"
| "hkey (Type_Val t) = (19, [int t], [])"
| "hkey (Primitive_Val s) = (20, [], [s])"
| "hkey (Host_Val s) = (21, [], [s])"
| "hkey (Dict_Val i p) = (22, [int i, int p], [])"

fun key :: "val \<Rightarrow> ktree" where
  "key (List_Val rs) = Node (5, [], []) (concat (map (map key) rs))"
| "key (Range_Val lo hi) = Node (5, [], []) (map (\<lambda>n. Node (2, [n], []) []) [lo..hi])"
| "key (Tuple_Val xs) = Node (6, [], []) (map key xs)"
| "key (Map_Val es) = Node (7, [], []) (concat (map (\<lambda>e. [key (fst e), key (snd e)]) es))"
| "key (Set_Val xs) = Node (8, [], []) (map key xs)"
| "key (Record_Val t xs) = Node (hkey (Record_Val t xs)) (map key xs)"
| "key (Variant_Val t ord xs) = Node (hkey (Variant_Val t ord xs)) (map key xs)"
| "key (Closure_Val n xs bs) = Node (hkey (Closure_Val n xs bs)) (map key xs)"
| "key v = Node (hkey v) []"

lemma cmp_heads_hkey: "cmp_heads a b = cmp (hkey a) (hkey b)"
proof -
  have types: "cmp_record_types t u = then_cmp (cmp (rt_id t) (rt_id u))
      (cmp (if is_anon t then rt_fields t else []) (if is_anon u then rt_fields u else []))" for t u
    by (auto simp: cmp_record_types_def is_anon_def then_cmp_unequal)
  show ?thesis
    by (cases a; cases b; simp add: cmp_heads_def cmp_prod types then_cmp_unequal)
qed


section \<open>The parts of a value\<close>

text \<open>The parts a value holds; a range holds none.\<close>

fun items :: "val \<Rightarrow> val list" where
  "items (List_Val rs) = concat rs"
| "items (Map_Val es) = flat_entries es"
| "items (Set_Val xs) = xs"
| "items (Record_Val _ xs) = xs"
| "items v = slice_of v"

fun kids :: "val \<Rightarrow> ktree list" where
  "kids (Range_Val lo hi) = map (\<lambda>n. key (Int_Val n)) [lo..hi]"
| "kids v = map key (items v)"

lemma key_kids: "key v = Node (hkey v) (kids v)"
proof -
  have "map key (flat_entries es) = concat (map (\<lambda>e. [key (fst e), key (snd e)]) es)" for es
    by (induction es) auto
  then show ?thesis by (cases v) (auto simp: map_concat)
qed

lemma item_size: "x \<in> set (items v) \<Longrightarrow> size x < size v"
proof -
  have part: "x \<in> set xs \<Longrightarrow> size x < Suc (vs_size xs)" for xs
    by (induction xs) auto
  have run: "vs_size (concat rs) \<le> size_list vs_size rs" for rs by (rule concat_size)
  show "x \<in> set (items v) \<Longrightarrow> size x < size v"
    using part [of "items v"] run by (cases v) (auto simp: flat_entries_size dest!: part intro: less_le_trans)
qed

text \<open>What a value is stored as: no run of a list is empty, no range is, and the fields of a record
  that has a name are the ones its type declares.\<close>

fun val_ok :: "(nat \<Rightarrow> string list) \<Rightarrow> val \<Rightarrow> bool" where
  "val_ok d (Range_Val lo hi) = (lo \<le> hi)"
| "val_ok d (List_Val rs) = (\<forall>r \<in> set rs. r \<noteq> [] \<and> (\<forall>x \<in> set r. val_ok d x))"
| "val_ok d (Tuple_Val xs) = (\<forall>x \<in> set xs. val_ok d x)"
| "val_ok d (Map_Val es) = (\<forall>e \<in> set es. val_ok d (fst e) \<and> val_ok d (snd e))"
| "val_ok d (Set_Val xs) = (\<forall>x \<in> set xs. val_ok d x)"
| "val_ok d (Record_Val t xs) = ((is_anon t \<or> rt_fields t = d (rt_id t)) \<and> (\<forall>x \<in> set xs. val_ok d x))"
| "val_ok d (Variant_Val _ _ xs) = (\<forall>x \<in> set xs. val_ok d x)"
| "val_ok d (Closure_Val _ xs _) = (\<forall>x \<in> set xs. val_ok d x)"
| "val_ok d _ = True"

lemma val_ok_runs: "val_ok d v \<Longrightarrow> runs_ok v"
  by (induction v rule: runs_ok.induct) auto

lemma val_ok_items: "val_ok d v \<Longrightarrow> x \<in> set (items v) \<Longrightarrow> val_ok d x"
  by (cases v) (auto simp: flat_entries_def)

text \<open>Through the parts of two values of one kind.\<close>

definition many_len :: "val \<Rightarrow> nat" where
  "many_len v = (case v of Map_Val es \<Rightarrow> length es | _ \<Rightarrow> length (items v))"

lemma ref_through_two:
  assumes "rank b = rank a" and "has_parts a"
  shows "ref_through V [a, b] s =
    (if rank a = 5
     then (case v_lists V [a, b] s of
             Inl p \<Rightarrow> Inl p
           | Inr (go, s1) \<Rightarrow> if go then ref_loop V None [concat (list_runs a), concat (list_runs b)] s1 else Inr s1)
     else if rank a = 9
     then ref_loop V (case a of Record_Val ty _ \<Rightarrow> Some ty | _ \<Rightarrow> None) [items a, items b] s
     else (case v_lens V [many_len a, many_len b] s of
             Inl p \<Rightarrow> Inl p | Inr s1 \<Rightarrow> ref_loop V None [items a, items b] s1))"
  using assms
  by (cases a; simp add: has_parts_def; cases b;
      simp add: ref_through.simps runs_of_def many_len_def entries_or_def members_or_def split: sum.splits)

section \<open>The order\<close>

text \<open>A range is ordered as the list of its Ints is.\<close>

lemma upto_kcmps:
  "lo \<le> hi1 \<Longrightarrow> lo \<le> hi2 \<Longrightarrow>
    kcmps (map (\<lambda>n. key (Int_Val n)) [lo..hi1]) (map (\<lambda>n. key (Int_Val n)) [lo..hi2]) = cmp hi1 hi2"
proof (induction "nat (hi1 - lo)" arbitrary: lo)
  case 0
  then have "hi1 = lo" by simp
  then show ?case using 0 by (cases "lo < hi2") (auto simp: upto_rec1 cmp_def kcmp_equal)
next
  case (Suc n)
  then have "lo < hi1" by simp
  then obtain zs where l: "[lo..hi1] = lo # (lo + 1) # zs" by (simp add: upto_rec1 [of lo] upto_rec1 [of "lo + 1"])
  show ?case
  proof (cases "lo < hi2")
    case True
    then show ?thesis using Suc \<open>lo < hi1\<close> by (simp add: upto_rec1 [of lo] kcmp_equal)
  next
    case False
    then have "hi2 = lo" using Suc.prems by simp
    then show ?thesis using l \<open>lo < hi1\<close> by (simp add: cmp_def)
  qed
qed

lemma ranges_kcmps:
  assumes "alo \<le> ahi" and "blo \<le> bhi"
  shows "kcmps (kids (Range_Val alo ahi)) (kids (Range_Val blo bhi)) = then_cmp (cmp alo blo) (cmp ahi bhi)"
proof (cases "alo = blo")
  case True
  then show ?thesis using assms upto_kcmps by simp
next
  case False
  then show ?thesis
    using assms by (simp add: upto_rec1 cmp_prod then_cmp_unequal)
qed

lemma kcmp_int: "kcmp (key x) (key (Int_Val n)) = cmp_heads x (Int_Val n)"
proof (cases "cmp_heads x (Int_Val n) = Equal")
  case True
  then have "hkey x = hkey (Int_Val n)" by (simp add: cmp_heads_hkey)
  then have "x = Int_Val n" by (cases x) simp_all
  then show ?thesis by (simp add: cmp_heads_hkey)
qed (simp add: key_kids [of x] cmp_heads_hkey then_cmp_unequal)

lemma held_kcmps:
  assumes "lo \<le> hi + 1"
  shows "then_cmp (cmp_ints_from xs lo hi) (cmp (length xs) (nat (hi - lo + 1))) =
    kcmps (map key xs) (map (\<lambda>n. key (Int_Val n)) [lo..hi])"
  using assms
proof (induction xs arbitrary: lo)
  case Nil
  then show ?case by (cases "lo \<le> hi") (auto simp: upto_rec1 cmp_def)
next
  case (Cons x xs)
  show ?case
  proof (cases "lo \<le> hi")
    case True
    have "cmp (Suc (length xs)) (nat (hi - lo + 1)) = cmp (length xs) (nat (hi - (lo + 1) + 1))"
      using True by (auto simp: cmp_def nat_eq_iff zless_nat_eq_int_zless)
    then show ?thesis
      using True Cons.IH [of "lo + 1"] kcmp_int [of x lo] kcmp_equal(1) [of "key x" "key (Int_Val lo)"]
      by (cases "cmp_heads x (Int_Val lo)") (simp_all add: upto_rec1 [of lo] del: key.simps)
  next
    case False
    then show ?thesis using Cons.prems by (simp add: cmp_def)
  qed
qed

lemma without_elements_kcmps:
  assumes "rank a = 5" "rank b = 5" "val_ok d a" "val_ok d b"
  shows "cmp_without_elements a b = Some c \<Longrightarrow> kcmps (kids a) (kids b) = c"
    and "cmp_without_elements a b = None \<Longrightarrow> kids a = map key (concat (list_runs a)) \<and> kids b = map key (concat (list_runs b))"
proof -
  have held: "cmp_held_ints (List_Val rs) lo hi = kcmps (kids (List_Val rs)) (kids (Range_Val lo hi))" if "lo \<le> hi" for rs lo hi
    using held_kcmps [of lo hi "concat rs"] that by (simp add: cmp_held_ints_def list_len_def nat_add_distrib)
  have rev: "kcmps xs ys = reverse_cmp (kcmps ys xs)" for xs ys using kcmp_reverse(2) [of ys xs] by simp
  have list: "(\<exists>rs. v = List_Val rs) \<or> (\<exists>lo hi. v = Range_Val lo hi)" if "rank v = 5" for v using that by (cases v) simp_all
  consider (held) ra rb where "a = List_Val ra" "b = List_Val rb"
    | (left) ra lo hi where "a = List_Val ra" "b = Range_Val lo hi"
    | (right) lo hi rb where "a = Range_Val lo hi" "b = List_Val rb"
    | (both) alo ahi blo bhi where "a = Range_Val alo ahi" "b = Range_Val blo bhi"
    using list [OF assms(1)] list [OF assms(2)] by blast
  then have "case cmp_without_elements a b of
      None \<Rightarrow> kids a = map key (concat (list_runs a)) \<and> kids b = map key (concat (list_runs b))
    | Some c \<Rightarrow> kcmps (kids a) (kids b) = c"
  proof cases
    case both
    then show ?thesis using assms ranges_kcmps by (simp add: cmp_without_elements_def range_ends_def)
  next
    case left
    then show ?thesis using assms held by (simp add: cmp_without_elements_def range_ends_def del: kids.simps)
  next
    case right
    then show ?thesis using assms held [of lo hi rb] rev [of "kids a"]
      by (simp add: cmp_without_elements_def range_ends_def del: kids.simps)
  qed (simp add: cmp_without_elements_def range_ends_def)
  then show "cmp_without_elements a b = Some c \<Longrightarrow> kcmps (kids a) (kids b) = c"
    and "cmp_without_elements a b = None \<Longrightarrow> kids a = map key (concat (list_runs a)) \<and> kids b = map key (concat (list_runs b))"
    by simp_all
qed

text \<open>A walk that tells two values apart, or does not.\<close>

definition outcome :: "ordering \<Rightarrow> ordering + unit" where
  "outcome c = (if c = Equal then Inr () else Inl c)"

lemma outcome_simps [simp]: "outcome Equal = Inr ()" "outcome Less = Inl Less" "outcome Greater = Inl Greater"
  by (simp_all add: outcome_def)

lemma outcome_alt: "outcome c = (case c of Less \<Rightarrow> Inl Less | Equal \<Rightarrow> Inr () | Greater \<Rightarrow> Inl Greater)"
  by (cases c) simp_all

lemma outcome_case: "(case outcome c of Inl unequal \<Rightarrow> unequal | Inr _ \<Rightarrow> Equal) = c"
  by (cases c) simp_all

lemma outcome_then: "outcome (then_cmp a b) = (case outcome a of Inl p \<Rightarrow> Inl p | Inr _ \<Rightarrow> outcome b)"
  by (cases a) simp_all

lemma first_of_two:
  "first_of_each [x # xs, y # ys] = (All [x, y], [xs, ys])"
  "first_of_each [x # xs, []] = (Some_Left [False, True], [xs, []])"
  "first_of_each [[], y # ys] = (Some_Left [True, False], [[], ys])"
  "first_of_each [[], [] :: 'a list] = (None_Left, [[], []])"
  by (simp_all add: first_of_each_alt)

lemma order_visit_simps [simp]:
  "visit_name order_visit names left s = s"
  "v_heads order_visit [a, b] () = outcome (cmp (hkey a) (hkey b))"
  "v_lens order_visit ls s = Inr s"
  "v_lists order_visit [a, b] () = (case cmp_without_elements a b of
      None \<Rightarrow> Inr (True, ()) | Some c \<Rightarrow> (case outcome c of Inl p \<Rightarrow> Inl p | Inr _ \<Rightarrow> Inr (False, ())))"
  "v_uneven order_visit (e # es) s = Inl (if e then Less else Greater)"
  by (simp_all add: order_visit_def visit_name_def cmp_heads_hkey outcome_alt split: option.splits ordering.splits)

lemma ref_loop_order:
  assumes "\<forall>x \<in> set xs. \<forall>y \<in> set ys. ref_part order_visit [x, y] () = outcome (kcmp (key x) (key y))"
  shows "ref_loop order_visit names [xs, ys] () = outcome (kcmps (map key xs) (map key ys))"
  using assms
proof (induction xs arbitrary: ys)
  case Nil
  show ?case by (cases ys) (simp_all add: ref_loop.simps first_of_two)
next
  case (Cons x xs)
  then show ?case
    using Cons.IH [of "tl ys"]
    by (cases ys) (simp_all add: ref_loop.simps [of order_visit _ "[x # xs, _]"] first_of_two outcome_then split: sum.splits)
qed

lemma same_rank: "hkey a = hkey b \<Longrightarrow> rank b = rank a"
proof -
  have "rank v = fst (hkey v)" for v by (cases v) simp_all
  then show "hkey a = hkey b \<Longrightarrow> rank b = rank a" by simp
qed

lemma no_parts: "\<not> has_parts v \<Longrightarrow> kids v = []"
  by (cases v) (simp_all add: has_parts_def)

lemma not_list: "rank v \<noteq> 5 \<Longrightarrow> kids v = map key (items v)"
  by (cases v) simp_all

lemma list_items: "rank v = 5 \<Longrightarrow> concat (list_runs v) = items v"
  by (cases v) simp_all

lemma ref_part_order:
  "val_ok d a \<Longrightarrow> val_ok d b \<Longrightarrow> ref_part order_visit [a, b] () = outcome (kcmp (key a) (key b))"
proof (induction "size a" arbitrary: a b rule: less_induct)
  case less
  have loop: "ref_loop order_visit names [items a, items b] () = outcome (kcmps (map key (items a)) (map key (items b)))" for names
    using less val_ok_items item_size by (intro ref_loop_order) blast
  show ?case
  proof (cases "hkey a = hkey b")
    case False
    then show ?thesis
      by (simp add: ref_part.simps key_kids outcome_def then_cmp_unequal)
  next
    case True
    note same = same_rank [OF True]
    have "ref_through order_visit [a, b] () = outcome (kcmps (kids a) (kids b))" if parts: "has_parts a"
    proof (cases "rank a = 5")
      case five: True
      then show ?thesis
        using five same loop [of None] without_elements_kcmps [of a b d] less(2,3)
        unfolding ref_through_two [OF same parts]
        by (auto simp: list_items outcome_def split: option.splits)
    next
      case False
      then show ?thesis
        using same loop not_list [of a] not_list [of b]
        unfolding ref_through_two [OF same parts] by simp
    qed
    moreover have "kids b = []" if "\<not> has_parts a" using that same no_parts [of b] by (simp add: has_parts_def)
    ultimately show ?thesis
      using True no_parts [of a] by (simp add: ref_part.simps key_kids)
  qed
qed

lemma value_cmp_key:
  assumes "val_ok d a" and "val_ok d b"
  shows "value_cmp a b = cmp (key a) (key b)"
proof -
  have "walk order_visit [a, b] () = ref_part order_visit [a, b] ()"
    using assms val_ok_runs by (intro order.walk_ref) (auto simp: vals_ok_def)
  then show ?thesis
    using ref_part_order [OF assms] by (simp add: value_cmp_def outcome_case kcmp_cmp)
qed

section \<open>Equality\<close>

definition told_equal :: "bool \<Rightarrow> unit + unit" where
  "told_equal b = (if b then Inr () else Inl ())"

lemma equal_visit_simps [simp]:
  "visit_name equal_visit names left s = s"
  "v_heads equal_visit [a, b] () = told_equal (hkey a = hkey b)"
  "v_lens equal_visit [m, k] () = told_equal (m = k)"
  "v_lists equal_visit [a, b] () = (case cmp_without_elements a b of
      None \<Rightarrow> if list_len a = list_len b then Inr (True, ()) else Inl ()
    | Some c \<Rightarrow> if c = Equal then Inr (False, ()) else Inl ())"
  "v_uneven equal_visit ended s = Inl ()"
  by (simp_all add: equal_visit_def visit_name_def cmp_heads_hkey told_equal_def split: option.splits ordering.splits)

lemma ref_loop_equal:
  assumes "\<forall>x \<in> set xs. \<forall>y \<in> set ys. ref_part equal_visit [x, y] () = told_equal (key x = key y)"
  shows "ref_loop equal_visit names [xs, ys] () = told_equal (map key xs = map key ys)"
  using assms
proof (induction xs arbitrary: ys)
  case Nil
  show ?case by (cases ys) (simp_all add: ref_loop.simps first_of_two told_equal_def)
next
  case (Cons x xs)
  then show ?case
    using Cons.IH [of "tl ys"]
    by (cases ys) (simp_all add: ref_loop.simps [of equal_visit _ "[x # xs, _]"] first_of_two told_equal_def)
qed

lemma many_len_key: "rank a = rank b \<Longrightarrow> map key (items a) = map key (items b) \<Longrightarrow> many_len a = many_len b"
proof -
  assume r: "rank a = rank b" and k: "map key (items a) = map key (items b)"
  have "length (flat_entries es) = 2 * length es" for es by (induction es) auto
  then have "length (items v) = (if rank v = 7 then 2 * many_len v else many_len v)" for v
    by (cases v) (simp_all add: many_len_def)
  then show "many_len a = many_len b" using r map_eq_imp_length_eq [OF k] by (simp split: if_splits)
qed

lemma ref_part_equal:
  "val_ok d a \<Longrightarrow> val_ok d b \<Longrightarrow> ref_part equal_visit [a, b] () = told_equal (key a = key b)"
proof (induction "size a" arbitrary: a b rule: less_induct)
  case less
  have loop: "ref_loop equal_visit names [items a, items b] () = told_equal (map key (items a) = map key (items b))" for names
    using less val_ok_items item_size by (intro ref_loop_equal) blast
  show ?case
  proof (cases "hkey a = hkey b")
    case True
    note same = same_rank [OF True]
    have "ref_through equal_visit [a, b] () = told_equal (kids a = kids b)" if parts: "has_parts a"
    proof (cases "rank a = 5")
      case five: True
      then have "cmp_without_elements a b = None \<Longrightarrow> list_len a = length (items a) \<and> list_len b = length (items b)"
        using same by (auto simp: cmp_without_elements_def range_ends_def list_len_def list_items split: val.splits)
      then show ?thesis
        using five same loop [of None] without_elements_kcmps [of a b d] less(2,3) kcmp_equal(2) [of "kids a" "kids b"]
        unfolding ref_through_two [OF same parts]
        by (auto simp: list_items told_equal_def dest: map_eq_imp_length_eq split: option.splits)
    next
      case False
      then show ?thesis
        using same loop not_list [of a] not_list [of b] many_len_key [of a b]
        unfolding ref_through_two [OF same parts] by (auto simp: told_equal_def)
    qed
    moreover have "kids b = []" if "\<not> has_parts a" using that same no_parts [of b] by (simp add: has_parts_def)
    ultimately show ?thesis
      using True no_parts [of a] by (simp add: ref_part.simps key_kids told_equal_def)
  qed (simp add: ref_part.simps key_kids told_equal_def)
qed

lemma value_eq_key:
  assumes "val_ok d a" and "val_ok d b"
  shows "value_eq a b \<longleftrightarrow> key a = key b"
proof -
  have "walk equal_visit [a, b] () = ref_part equal_visit [a, b] ()"
    using assms val_ok_runs by (intro equal.walk_ref) (auto simp: vals_ok_def)
  then show ?thesis using ref_part_equal [OF assms] by (simp add: value_eq_def told_equal_def)
qed

section \<open>Hashes\<close>

lemma float_place_inj: "float_place x = float_place y \<longleftrightarrow> x = y"
  by (auto simp: float_place_def split: if_splits)

lemma hash_head_hkey: "hkey a = hkey b \<Longrightarrow> hash_head a = hash_head b"
  by (cases a; cases b; simp add: float_place_inj inj_map_eq_map of_bool_eq_iff)

lemma int_key: "key x = key (Int_Val n) \<longleftrightarrow> x = Int_Val n"
  using kcmp_int [of x n] by (cases x) (auto simp: cmp_heads_hkey kcmp_equal)

lemma ascend_iff: "ascend n xs = Some hi \<longleftrightarrow> n \<le> hi \<and> map key xs = map (\<lambda>n. key (Int_Val n)) [n + 1..hi]"
proof (induction xs arbitrary: n)
  case Nil
  then show ?case by auto
next
  case (Cons x xs)
  have "ascend n (x # xs) = (if x = Int_Val (n + 1) then ascend (n + 1) xs else None)"
    by (cases x) auto
  then show ?case
    using Cons.IH [of "n + 1"] by (cases "n + 1 \<le> hi") (auto simp: upto_rec1 [of "n + 1"] int_key simp del: ascend.simps key.simps)
qed

lemma ascending_iff:
  assumes "val_ok d v" and "rank v = 5"
  shows "ascending_ints v = Some (lo, hi) \<longleftrightarrow> lo \<le> hi \<and> kids v = map (\<lambda>n. key (Int_Val n)) [lo..hi]"
proof (cases v)
  case (Range_Val l h)
  have "[l..h] = [lo..hi] \<longleftrightarrow> l = lo \<and> h = hi" if "l \<le> h" "lo \<le> hi"
    using that by (metis Icc_eq_Icc set_upto)
  moreover have "map (\<lambda>n. key (Int_Val n)) xs = map (\<lambda>n. key (Int_Val n)) ys \<longleftrightarrow> xs = ys" for xs ys
    by (rule inj_map_eq_map) (simp add: inj_def)
  ultimately show ?thesis using Range_Val assms by (auto simp: ascending_ints_def range_ends_def simp del: key.simps)
next
  case (List_Val rs)
  show ?thesis
  proof (cases "concat rs")
    case Nil
    then show ?thesis using List_Val by (auto simp: ascending_ints_def range_ends_def simp del: concat_eq_Nil_conv)
  next
    case (Cons x xs)
    have "ascending_ints v = Some (lo, hi) \<longleftrightarrow> x = Int_Val lo \<and> ascend lo xs = Some hi"
      using List_Val Cons by (cases x) (auto simp: ascending_ints_def range_ends_def)
    also have "\<dots> \<longleftrightarrow> lo \<le> hi \<and> kids v = map (\<lambda>n. key (Int_Val n)) [lo..hi]"
      using List_Val Cons by (auto simp: ascend_iff upto_rec1 int_key simp del: key.simps)
    finally show ?thesis .
  qed
qed (use assms in simp_all)

lemma list_len_kids: "val_ok d v \<Longrightarrow> rank v = 5 \<Longrightarrow> list_len v = length (kids v)"
  by (cases v) (simp_all add: list_len_def nat_add_distrib)

lemma ref_through_one:
  assumes "has_parts a"
  shows "ref_through V [a] s =
    (if rank a = 5
     then (case v_lists V [a] s of
             Inl p \<Rightarrow> Inl p
           | Inr (go, s1) \<Rightarrow> if go then ref_loop V None [concat (list_runs a)] s1 else Inr s1)
     else if rank a = 9
     then ref_loop V (case a of Record_Val ty _ \<Rightarrow> Some ty | _ \<Rightarrow> None) [items a] s
     else (case v_lens V [many_len a] s of
             Inl p \<Rightarrow> Inl p | Inr s1 \<Rightarrow> ref_loop V None [items a] s1))"
  using assms
  by (cases a; simp add: has_parts_def ref_through.simps runs_of_def many_len_def entries_or_def members_or_def split: sum.splits)

lemma first_of_one:
  "first_of_each [x # xs] = (All [x], [xs])" "first_of_each [[] :: 'a list] = (None_Left, [[]])"
  by (simp_all add: first_of_each_alt)

lemma hash_visit_simps:
  "v_heads hash_visit [a] s = Inr (s @ hash_head a)"
  "v_lens hash_visit [m] s = Inr (s @ [H_Usize m])"
  "v_lists hash_visit [a] s =
     (let s1 = s @ [H_Usize (list_len a)]
      in case ascending_ints a of Some (lo, _) \<Rightarrow> Inr (False, s1 @ [H_U8 1, H_I64 lo]) | None \<Rightarrow> Inr (True, s1 @ [H_U8 0]))"
  by (simp_all add: hash_visit_def)

lemma ref_loop_hash:
  assumes "\<forall>x \<in> set xs. \<forall>y \<in> set ys. \<forall>s. key x = key y \<longrightarrow> ref_part hash_visit [x] s = ref_part hash_visit [y] s"
    and "map key xs = map key ys" and "map_option rt_fields ns = map_option rt_fields ms"
  shows "ref_loop hash_visit ns [xs] s = ref_loop hash_visit ms [ys] s"
  using assms(1,2)
proof (induction xs arbitrary: ys s)
  case Nil
  then show ?case by (simp add: ref_loop.simps first_of_one visit_name_def next_name_def split: option.splits)
next
  case (Cons x xs)
  then obtain y zs where ys: "ys = y # zs" "key x = key y" "map key xs = map key zs" by (cases ys) auto
  then have "length xs = length zs" by (metis map_eq_imp_length_eq)
  then have name: "visit_name hash_visit ns (x # xs) s = visit_name hash_visit ms (y # zs) s"
    using assms(3) by (cases ns; cases ms) (simp_all add: visit_name_def next_name_def)
  have "ref_loop hash_visit ns [xs] s1 = ref_loop hash_visit ms [zs] s1" for s1 using Cons ys by simp
  moreover have "ref_part hash_visit [x] s1 = ref_part hash_visit [y] s1" for s1 using Cons.prems(1) ys by simp
  ultimately show ?case
    using name ys(1)
    by (simp add: ref_loop.simps [of hash_visit _ "[x # xs]"] ref_loop.simps [of hash_visit _ "[y # zs]"] first_of_one
        split: sum.splits)
qed

lemma ref_part_hash:
  "val_ok d a \<Longrightarrow> val_ok d b \<Longrightarrow> key a = key b \<Longrightarrow> ref_part hash_visit [a] s = ref_part hash_visit [b] s"
proof (induction "size a" arbitrary: a b s rule: less_induct)
  case less
  have hk: "hkey a = hkey b" "kids a = kids b" using less(4) by (simp_all add: key_kids)
  note same = same_rank [OF hk(1)]
  have loop: "ref_loop hash_visit ns [items a] s1 = ref_loop hash_visit ms [items b] s1"
    if "map_option rt_fields ns = map_option rt_fields ms" "map key (items a) = map key (items b)" for ns ms s1
    using that less(1) [OF item_size] less(2,3) val_ok_items by (intro ref_loop_hash) blast+
  have "ref_through hash_visit [a] s1 = ref_through hash_visit [b] s1" if parts: "has_parts a" for s1
  proof -
    have partsb: "has_parts b" using parts same by (simp add: has_parts_def)
    consider "rank a = 5" | "rank a = 9" | "rank a \<noteq> 5" "rank a \<noteq> 9" by blast
    then show ?thesis
    proof cases
      case 1
      have asc: "ascending_ints a = ascending_ints b"
        using ascending_iff [OF less(2)] ascending_iff [OF less(3)] 1 same hk(2) by (metis not_Some_eq surj_pair)
      have held: "kids v = map key (items v)" if "ascending_ints v = None" for v
        using that by (cases v) (simp_all add: ascending_ints_def range_ends_def)
      show ?thesis
        unfolding ref_through_one [OF parts] ref_through_one [OF partsb]
        using 1 same asc held [of a] held [of b] hk(2) loop [of None None] list_len_kids [OF less(2)] list_len_kids [OF less(3)]
        by (simp add: hash_visit_simps list_items Let_def split: option.splits)
    next
      case 2
      obtain t xs where a: "a = Record_Val t xs" using 2 by (cases a) simp_all
      obtain u ys where b: "b = Record_Val u ys" using 2 same by (cases b) simp_all
      have "rt_fields t = rt_fields u" using hk(1) less(2,3) a b by (auto simp: is_anon_def split: if_splits)
      then show ?thesis
        unfolding ref_through_one [OF parts] ref_through_one [OF partsb]
        using a b hk(2) loop [of "Some t" "Some u"] by simp
    next
      case 3
      then show ?thesis
        unfolding ref_through_one [OF parts] ref_through_one [OF partsb]
        using same not_list [of a] not_list [of b] hk(2) loop [of None None] many_len_key [of a b] by (simp add: hash_visit_simps)
    qed
  qed
  then show ?case
    using hash_head_hkey [OF hk(1)] same by (simp add: ref_part.simps has_parts_def hash_visit_simps)
qed

section \<open>What the walk promises\<close>

text \<open>C34: values are ordered as their keys are, which are totally ordered, and they are equal if their keys
  are. A list's key is the keys of its elements, so that two lists that are stored in different runs,
  or as a range, compare as their elements do.
\<close>

theorem values_refine_keys:
  assumes "val_ok d a" and "val_ok d b"
  shows "value_cmp a b = cmp (key a) (key b) \<and> (value_eq a b \<longleftrightarrow> key a = key b)"
  using value_cmp_key [OF assms] value_eq_key [OF assms] by blast

theorem values_refine_keys_witness:
  "value_cmp (List_Val [[Int_Val 1], [Int_Val 2, Int_Val 3]]) (Range_Val 1 3) = Equal \<and>
   value_eq (List_Val [[Int_Val 1], [Int_Val 2, Int_Val 3]]) (Range_Val 1 3) \<and>
   \<not> value_eq (Tuple_Val [Range_Val 1 2]) (Tuple_Val [List_Val [[Int_Val 1]]])"
  using values_refine_keys [of "\<lambda>_. []" "List_Val [[Int_Val 1], [Int_Val 2, Int_Val 3]]" "Range_Val 1 3"]
    values_refine_keys [of "\<lambda>_. []" "Tuple_Val [Range_Val 1 2]" "Tuple_Val [List_Val [[Int_Val 1]]]"]
  by (simp add: upto_rec1)

text \<open>C35: two values that are equal hash alike, for every hasher: what is written to it is the same, in
  the same order, however the lists in them are stored and wherever the descriptions of their record
  types are.
\<close>

theorem equal_values_hash_alike:
  assumes "val_ok d a" and "val_ok d b" and "value_eq a b"
  shows "value_hash a state = value_hash b state"
proof -
  have "walk hash_visit [v] state = ref_part hash_visit [v] state" if "val_ok d v" for v
    using that val_ok_runs by (intro hashing.walk_ref) (auto simp: vals_ok_def)
  then show ?thesis
    using ref_part_hash [OF assms(1,2)] value_eq_key [OF assms(1,2)] assms by (simp add: value_hash_def)
qed

theorem equal_values_hash_alike_witness:
  "value_hash (Tuple_Val [List_Val [[Int_Val 4], [Int_Val 5]]]) [] = value_hash (Tuple_Val [Range_Val 4 5]) []"
proof (rule equal_values_hash_alike [of "\<lambda>_. []"])
  show "value_eq (Tuple_Val [List_Val [[Int_Val 4], [Int_Val 5]]]) (Tuple_Val [Range_Val 4 5])"
    using value_eq_key [of "\<lambda>_. []" "Tuple_Val [List_Val [[Int_Val 4], [Int_Val 5]]]" "Tuple_Val [Range_Val 4 5]"]
    by (simp add: upto_rec1)
qed simp_all
end
