(* ===== verification/Sorted_Storage.thy ===== *)
theory Sorted_Storage
  imports Prelude
begin

text \<open>
  What maps and sets share (\<^verbatim>\<open>value/map.rs\<close>): entries, or members, that are kept side by side in order,
  the search for a place among them, and the walk through two of them. The element type is any linear
  order: the order of values is one (\<open>Value_Order\<close>), and values that are equal are one element.
\<close>

section \<open>Side by side\<close>

text \<open>The most entries a map, or members a set, keeps side by side.\<close>

definition FLAT_MOST :: nat where
  "FLAT_MOST = 32"

text \<open>A binary search in a sorted slice: where the key is (\<open>Inr\<close>), or where it would go.\<close>

definition find_at :: "('e \<Rightarrow> 'k :: linorder) \<Rightarrow> 'e list \<Rightarrow> 'k \<Rightarrow> nat + nat" where
  "find_at key es k =
     (let at = length (takeWhile (\<lambda>e. key e < k) es)
      in if at < length es \<and> key (es ! at) = k then Inr at else Inl at)"

definition with_at :: "'e list \<Rightarrow> nat \<Rightarrow> 'e \<Rightarrow> 'e list" where
  "with_at items at item = take at items @ [item] @ drop at items"

definition without_at :: "'e list \<Rightarrow> nat \<Rightarrow> 'e list" where
  "without_at items at = take at items @ drop (at + 1) items"

text \<open>Two sequences in the order of their keys, side by side: an item of the first with the item of the
  second of its key, if any, and an item of either that the other has no item of the key of.\<close>

fun side_by_side :: "('e \<Rightarrow> 'k :: linorder) \<Rightarrow> 'e list \<Rightarrow> 'e list \<Rightarrow> ('e option \<times> 'e option) list" where
  "side_by_side key [] [] = []"
| "side_by_side key (a # as) [] = (Some a, None) # side_by_side key as []"
| "side_by_side key [] (b # bs) = (None, Some b) # side_by_side key [] bs"
| "side_by_side key (a # as) (b # bs) =
     (if key a < key b then (Some a, None) # side_by_side key as (b # bs)
      else if key b < key a then (None, Some b) # side_by_side key (a # as) bs
      else (Some a, Some b) # side_by_side key as bs)"

section \<open>In order\<close>

abbreviation in_order :: "('e \<Rightarrow> 'k :: linorder) \<Rightarrow> 'e list \<Rightarrow> bool" where
  "in_order key es \<equiv> sorted_wrt (<) (map key es)"

lemma in_order_rest: "in_order key es \<Longrightarrow> \<forall>e \<in> set (dropWhile (\<lambda>e. key e < k) es). k \<le> key e"
  by (induction es) (auto simp: not_less dest: order_trans less_imp_le)

lemma find_at_cases:
  assumes "in_order key es"
  obtains (found) at ys e zs where "find_at key es k = Inr at" "es = ys @ e # zs" "at = length ys" "key e = k"
      "\<forall>y \<in> set ys. key y < k" "\<forall>z \<in> set zs. k < key z"
    | (missing) at ys zs where "find_at key es k = Inl at" "es = ys @ zs" "at = length ys"
      "\<forall>y \<in> set ys. key y < k" "\<forall>z \<in> set zs. k < key z"
proof -
  define ys where "ys = takeWhile (\<lambda>e. key e < k) es"
  define zs where "zs = dropWhile (\<lambda>e. key e < k) es"
  have es: "es = ys @ zs" unfolding zs_def ys_def by simp
  have ys: "\<forall>y \<in> set ys. key y < k" unfolding ys_def by (auto dest: set_takeWhileD)
  have zs: "\<forall>z \<in> set zs. k \<le> key z" using in_order_rest [OF assms] unfolding zs_def .
  have find_at: "find_at key es k = (if length ys < length es \<and> key (es ! length ys) = k then Inr (length ys) else Inl (length ys))"
    by (simp add: find_at_def ys_def Let_def)
  show thesis
  proof (cases zs)
    case Nil
    then show ?thesis by (intro missing [of "length ys" ys "[]"]) (use find_at es ys in simp_all)
  next
    case (Cons e rest)
    have rest: "\<forall>z \<in> set rest. key e < key z" using assms unfolding es Cons by (auto simp: sorted_wrt_append)
    have at: "length ys < length es" "es ! length ys = e" unfolding es Cons by simp_all
    show ?thesis
    proof (cases "key e = k")
      case True
      then show ?thesis by (intro found [of "length ys" ys e rest]) (use find_at es ys rest at Cons in simp_all)
    next
      case False
      then have "\<forall>z \<in> set zs. k < key z" using zs rest Cons by auto
      then show ?thesis by (intro missing [of "length ys" ys zs]) (use find_at es ys at False in simp_all)
    qed
  qed
qed

lemma with_at_append [simp]: "with_at (ys @ zs) (length ys) e = ys @ e # zs"
  by (simp add: with_at_def)

lemma without_at_append [simp]: "without_at (ys @ e # zs) (length ys) = ys @ zs"
  by (simp add: without_at_def)

lemma in_order_insert:
  "in_order key (ys @ zs) \<Longrightarrow> \<forall>y \<in> set ys. key y < key e \<Longrightarrow> \<forall>z \<in> set zs. key e < key z \<Longrightarrow> in_order key (ys @ e # zs)"
  by (auto simp: sorted_wrt_append)

lemma in_order_remove: "in_order key (ys @ e # zs) \<Longrightarrow> in_order key (ys @ zs)"
  by (auto simp: sorted_wrt_append)

lemma in_order_distinct: "in_order key es \<Longrightarrow> distinct (map key es)"
  by (simp add: strict_sorted_iff)

text \<open>What the walk through two sequences gives: every key of either once, in the order of the keys,
  with the items of the key.\<close>

fun item_key :: "('e \<Rightarrow> 'k) \<Rightarrow> 'e option \<times> 'e option \<Rightarrow> 'k" where
  "item_key key (Some a, _) = key a"
| "item_key key (None, Some b) = key b"
| "item_key key (None, None) = undefined"

fun kept_beside :: "('e \<Rightarrow> 'k) \<Rightarrow> 'e set \<Rightarrow> 'e set \<Rightarrow> 'e option \<times> 'e option \<Rightarrow> bool" where
  "kept_beside key A B (Some a, Some b) \<longleftrightarrow> a \<in> A \<and> b \<in> B \<and> key a = key b"
| "kept_beside key A B (Some a, None) \<longleftrightarrow> a \<in> A \<and> key a \<notin> key ` B"
| "kept_beside key A B (None, Some b) \<longleftrightarrow> b \<in> B \<and> key b \<notin> key ` A"
| "kept_beside key A B (None, None) \<longleftrightarrow> False"

lemma option_pair_cases:
  obtains a b where "p = (Some a, Some b)" | a where "p = (Some a, None)" | b where "p = (None, Some b)" | "p = (None, None)"
  by (cases p) (metis not_None_eq)

lemma side_by_side_set:
  assumes "in_order key as" and "in_order key bs"
  shows "p \<in> set (side_by_side key as bs) \<longleftrightarrow> kept_beside key (set as) (set bs) p"
  using assms
proof (induction key as bs rule: side_by_side.induct)
  case (4 key a as b bs)
  have a: "\<forall>x \<in> set as. key a < key x" and b: "\<forall>x \<in> set bs. key b < key x" using 4(4,5) by auto
  consider "key a < key b" | "key b < key a" | "key a = key b" by force
  then show ?case
  proof cases
    case 1
    then have "key a \<notin> key ` set (b # bs)" using b by force
    then have "kept_beside key (set (a # as)) (set (b # bs)) p \<longleftrightarrow> p = (Some a, None) \<or> kept_beside key (set as) (set (b # bs)) p"
      by (cases p rule: option_pair_cases) (auto simp: image_iff)
    then show ?thesis using 1 4(1) 4(4,5) by simp
  next
    case 2
    then have "key b \<notin> key ` set (a # as)" using a by force
    then have "kept_beside key (set (a # as)) (set (b # bs)) p \<longleftrightarrow> p = (None, Some b) \<or> kept_beside key (set (a # as)) (set bs) p"
      by (cases p rule: option_pair_cases) (auto simp: image_iff)
    then show ?thesis using 2 less_not_sym [OF 2] 4(2) 4(4,5) by simp
  next
    case 3
    then have "\<forall>x \<in> set as. key x \<noteq> key b" "\<forall>y \<in> set bs. key y \<noteq> key a" using a b by force+
    then have "kept_beside key (set (a # as)) (set (b # bs)) p \<longleftrightarrow> p = (Some a, Some b) \<or> kept_beside key (set as) (set bs) p"
      using 3 by (cases p rule: option_pair_cases) (auto simp: image_iff)
    then show ?thesis using 3 4(3) 4(4,5) by simp
  qed
next
  case (2 key a as)
  then have "kept_beside key (set (a # as)) {} p \<longleftrightarrow> p = (Some a, None) \<or> kept_beside key (set as) {} p"
    by (cases p rule: option_pair_cases) auto
  then show ?case using 2 by simp
next
  case (3 key b bs)
  then have "kept_beside key {} (set (b # bs)) p \<longleftrightarrow> p = (None, Some b) \<or> kept_beside key {} (set bs) p"
    by (cases p rule: option_pair_cases) auto
  then show ?case using 3 by simp
qed (cases p rule: option_pair_cases; simp)

lemma kept_beside_key: "kept_beside key A B p \<Longrightarrow> item_key key p \<in> key ` A \<union> key ` B"
  by (cases p rule: option_pair_cases) auto

lemma side_by_side_in_order:
  assumes "in_order key as" and "in_order key bs"
  shows "in_order (item_key key) (side_by_side key as bs)"
  using assms
proof (induction key as bs rule: side_by_side.induct)
  case (4 key a as b bs)
  have a: "\<forall>x \<in> set as. key a < key x" and b: "\<forall>x \<in> set bs. key b < key x" using 4(4,5) by auto
  have above: "\<forall>p \<in> set (side_by_side key cs ds). k < item_key key p"
    if "\<forall>x \<in> set cs. k < key x" "\<forall>x \<in> set ds. k < key x" "in_order key cs" "in_order key ds" for cs ds k
    using that by (auto simp: side_by_side_set dest!: kept_beside_key)
  consider "key a < key b" | "key b < key a" | "key a = key b" by force
  then show ?case
  proof cases
    case 1
    then have "\<forall>x \<in> set (b # bs). key a < key x" using b by auto
    then show ?thesis using 1 4 above [OF a, of "b # bs"] by simp
  next
    case 2
    then have "\<forall>x \<in> set (a # as). key b < key x" using a by auto
    then show ?thesis using 2 less_not_sym [OF 2] 4 above [OF _ b, of "a # as"] by simp
  next
    case 3
    then have "\<forall>x \<in> set bs. key a < key x" using b by auto
    then show ?thesis using 3 4 above [OF a, of bs] by simp
  qed
next
  case (2 key a as)
  then have "\<forall>p \<in> set (side_by_side key as []). key a < item_key key p"
    by (auto simp: side_by_side_set dest!: kept_beside_key)
  then show ?case using 2 by simp
next
  case (3 key b bs)
  then have "\<forall>p \<in> set (side_by_side key [] bs). key b < item_key key p"
    by (auto simp: side_by_side_set dest!: kept_beside_key)
  then show ?case using 3 by simp
qed simp

end
