(* ===== verification/Map_Value.thy ===== *)
theory Map_Value
  imports Sorted_Storage
begin

text \<open>
  The map value (\<^verbatim>\<open>value/map.rs\<close>): a small map keeps its entries side by side, a large one in a tree, a
  large one made in one go side by side with the tree its first change makes of them. The tree is the
  B-tree of a library, a record of its operations here; what is relied on of it is the contract of an
  ordered map, which the map value promises in turn.
\<close>

section \<open>Ordered maps\<close>

record ('t, 'k, 'v) ordmap =
  om_iter :: "'t \<Rightarrow> ('k \<times> 'v) list"
  om_len :: "'t \<Rightarrow> nat"
  om_get :: "'t \<Rightarrow> 'k \<Rightarrow> 'v option"
  om_insert :: "'k \<Rightarrow> 'v \<Rightarrow> 't \<Rightarrow> 't"
  om_remove :: "'k \<Rightarrow> 't \<Rightarrow> 't"
  om_of :: "('k \<times> 'v) list \<Rightarrow> 't"

text \<open>The entries come in the order of their keys, each key once, and every operation is that of the
  map of the entries; of a key given twice the value given last stays.\<close>

locale ordered_map =
  fixes M :: "('t, 'k :: linorder, 'v) ordmap" and ok :: "'t \<Rightarrow> bool"
  assumes iter: "ok t \<Longrightarrow> in_order fst (om_iter M t)"
    and len: "ok t \<Longrightarrow> om_len M t = length (om_iter M t)"
    and get: "ok t \<Longrightarrow> om_get M t k = map_of (om_iter M t) k"
    and insert: "ok t \<Longrightarrow> ok (om_insert M k v t) \<and> map_of (om_iter M (om_insert M k v t)) = (map_of (om_iter M t))(k \<mapsto> v)"
    and remove: "ok t \<Longrightarrow> ok (om_remove M k t) \<and> map_of (om_iter M (om_remove M k t)) = (map_of (om_iter M t))(k := None)"
    and of_list: "ok (om_of M es) \<and> map_of (om_iter M (om_of M es)) = map_of (rev es)"

section \<open>The map\<close>

text \<open>The entries as they are kept. (The tree of a map made in one go is there once it was made.)\<close>

datatype ('t, 'k, 'v) map_entries =
    Map_Flat "('k \<times> 'v) list"
  | Map_Side "('k \<times> 'v) list" "'t option"
  | Map_Tree 't

definition map_new :: "('t, 'k, 'v) map_entries" where
  "map_new = Map_Flat []"

definition map_of_sorted :: "('k \<times> 'v) list \<Rightarrow> ('t, 'k, 'v) map_entries" where
  "map_of_sorted es = (if length es \<le> FLAT_MOST then Map_Flat es else Map_Side es None)"

definition map_of_tree :: "('t, 'k, 'v) ordmap \<Rightarrow> 't \<Rightarrow> ('t, 'k, 'v) map_entries" where
  "map_of_tree M t = (if om_len M t > FLAT_MOST div 2 then Map_Tree t else Map_Flat (om_iter M t))"

fun map_side :: "('t, 'k, 'v) map_entries \<Rightarrow> ('k \<times> 'v) list option" where
  "map_side (Map_Flat es) = Some es"
| "map_side (Map_Side es _) = Some es"
| "map_side (Map_Tree _) = None"

fun map_tree :: "('t, 'k, 'v) ordmap \<Rightarrow> ('t, 'k, 'v) map_entries \<Rightarrow> 't option" where
  "map_tree M (Map_Flat _) = None"
| "map_tree M (Map_Side es (Some t)) = Some t"
| "map_tree M (Map_Side es None) = Some (om_of M es)"
| "map_tree M (Map_Tree t) = Some t"

text \<open>The map after its tree was made: what a change leaves behind in the map it starts from.\<close>

fun map_tree_made :: "('t, 'k, 'v) ordmap \<Rightarrow> ('t, 'k, 'v) map_entries \<Rightarrow> ('t, 'k, 'v) map_entries" where
  "map_tree_made M (Map_Side es None) = Map_Side es (Some (om_of M es))"
| "map_tree_made M m = m"

definition map_len :: "('t, 'k, 'v) ordmap \<Rightarrow> ('t, 'k, 'v) map_entries \<Rightarrow> nat" where
  "map_len M m =
     (case map_side m of Some es \<Rightarrow> length es | None \<Rightarrow> (case map_tree M m of Some t \<Rightarrow> om_len M t | None \<Rightarrow> 0))"

definition map_get :: "('t, 'k :: linorder, 'v) ordmap \<Rightarrow> ('t, 'k, 'v) map_entries \<Rightarrow> 'k \<Rightarrow> 'v option" where
  "map_get M m k =
     (case map_side m of
        Some es \<Rightarrow> (case find_at fst es k of Inr at \<Rightarrow> Some (snd (es ! at)) | Inl _ \<Rightarrow> None)
      | None \<Rightarrow> Option.bind (map_tree M m) (\<lambda>t. om_get M t k))"

definition map_iter :: "('t, 'k, 'v) ordmap \<Rightarrow> ('t, 'k, 'v) map_entries \<Rightarrow> ('k \<times> 'v) list" where
  "map_iter M m =
     (case (map_side m, m) of (Some es, _) \<Rightarrow> es | (None, Map_Tree t) \<Rightarrow> om_iter M t | (None, _) \<Rightarrow> [])"

text \<open>A map of entries in any order: a stable sort, then the last of the entries of each key.\<close>

fun dedup_last :: "('k \<times> 'v) list \<Rightarrow> ('k \<times> 'v) list" where
  "dedup_last (earlier # later # es) =
     (if fst later = fst earlier then dedup_last (later # es) else earlier # dedup_last (later # es))"
| "dedup_last es = es"

definition map_of_unsorted :: "('k :: linorder \<times> 'v) list \<Rightarrow> ('t, 'k, 'v) map_entries" where
  "map_of_unsorted es = map_of_sorted (dedup_last (sort_key fst es))"

text \<open>The items of a literal, each key before its value. (An odd one out is left out.)\<close>

fun pairs :: "'a list \<Rightarrow> ('a \<times> 'a) list" where
  "pairs (k # v # items) = (k, v) # pairs items"
| "pairs _ = []"

definition map_of_literal :: "'a :: linorder list \<Rightarrow> ('t, 'a, 'a) map_entries" where
  "map_of_literal items = map_of_unsorted (pairs items)"

definition map_insert ::
  "('t, 'k :: linorder, 'v) ordmap \<Rightarrow> 'k \<Rightarrow> 'v \<Rightarrow> ('t, 'k, 'v) map_entries \<Rightarrow> ('t, 'k, 'v) map_entries" where
  "map_insert M k v m =
     (case m of
        Map_Flat es \<Rightarrow>
          (case find_at fst es k of
             Inr at \<Rightarrow> Map_Flat (es[at := (fst (es ! at), v)])
           | Inl at \<Rightarrow>
               if length es < FLAT_MOST then Map_Flat (with_at es at (k, v))
               else Map_Tree (om_insert M k v (om_of M es)))
      | _ \<Rightarrow> Map_Tree (om_insert M k v (case map_tree M m of Some t \<Rightarrow> t | None \<Rightarrow> om_of M [])))"

definition map_remove ::
  "('t, 'k :: linorder, 'v) ordmap \<Rightarrow> 'k \<Rightarrow> ('t, 'k, 'v) map_entries \<Rightarrow> ('t, 'k, 'v) map_entries" where
  "map_remove M k m =
     (case m of
        Map_Flat es \<Rightarrow> (case find_at fst es k of Inr at \<Rightarrow> Map_Flat (without_at es at) | Inl _ \<Rightarrow> m)
      | _ \<Rightarrow>
          if map_get M m k \<noteq> None
          then map_of_tree M (om_remove M k (case map_tree M m of Some t \<Rightarrow> t | None \<Rightarrow> om_of M []))
          else m)"

text \<open>The entries of both; of a key both have, the value of the second.\<close>

definition merge_pair :: "('k \<times> 'v) option \<times> ('k \<times> 'v) option \<Rightarrow> ('k \<times> 'v) list" where
  "merge_pair p =
     (case p of
        (Some (k, _), Some (_, v)) \<Rightarrow> [(k, v)]
      | (Some e, None) \<Rightarrow> [e]
      | (None, Some e) \<Rightarrow> [e]
      | (None, None) \<Rightarrow> [])"

definition map_merge ::
  "('t, 'k :: linorder, 'v) ordmap \<Rightarrow> ('t, 'k, 'v) map_entries \<Rightarrow> ('t, 'k, 'v) map_entries \<Rightarrow> ('t, 'k, 'v) map_entries" where
  "map_merge M m other =
     (if map_len M other = 0 then m
      else if map_len M m = 0 then other
      else
        let (larger, smaller, smaller_wins) =
              (if map_len M m \<ge> map_len M other then (m, other, True) else (other, m, False))
        in case map_tree M larger of
             None \<Rightarrow> map_of_sorted (concat (map merge_pair (side_by_side fst (map_iter M m) (map_iter M other))))
           | Some tree \<Rightarrow>
               Map_Tree (fold (\<lambda>(k, v) t. if smaller_wins \<or> om_get M t k = None then om_insert M k v t else t)
                 (map_iter M smaller) tree))"


lemma map_entries_cases:
  obtains es where "m = Map_Flat es" | es where "m = Map_Side es None" | es t where "m = Map_Side es (Some t)"
    | t where "m = Map_Tree t"
  by (cases m) (metis not_None_eq)+

section \<open>What is kept\<close>

text \<open>A small map is kept side by side, a large one is not; the tree of a map made in one go is of its
  entries.\<close>

definition map_ok :: "('t, 'k :: linorder, 'v) ordmap \<Rightarrow> ('t \<Rightarrow> bool) \<Rightarrow> ('t, 'k, 'v) map_entries \<Rightarrow> bool" where
  "map_ok M ok m \<longleftrightarrow>
     (case m of
        Map_Flat es \<Rightarrow> in_order fst es \<and> length es \<le> FLAT_MOST
      | Map_Side es made \<Rightarrow>
          in_order fst es \<and> FLAT_MOST < length es \<and>
          (case made of None \<Rightarrow> True | Some t \<Rightarrow> ok t \<and> map_of (om_iter M t) = map_of es)
      | Map_Tree t \<Rightarrow> ok t \<and> FLAT_MOST div 2 < om_len M t)"

abbreviation map_abs :: "('t, 'k, 'v) ordmap \<Rightarrow> ('t, 'k, 'v) map_entries \<Rightarrow> 'k \<rightharpoonup> 'v" where
  "map_abs M m \<equiv> map_of (map_iter M m)"

text \<open>Entries in order are one list per map.\<close>

lemma map_of_in_order: "in_order fst es \<Longrightarrow> map_of es k = Some v \<longleftrightarrow> (k, v) \<in> set es"
  by (rule map_of_eq_Some_iff) (use in_order_distinct in auto)

lemma in_order_unique:
  assumes "in_order fst es" and "in_order fst fs" and "map_of es = map_of fs"
  shows "es = fs"
proof -
  have "set es = set fs" using assms(3) map_of_in_order [OF assms(1)] map_of_in_order [OF assms(2)] by auto
  moreover have "inj_on fst (set es)" using in_order_distinct [OF assms(1)] by (simp add: distinct_map)
  ultimately show ?thesis
    using assms(1,2) by (intro map_sorted_distinct_set_unique [of fst]) (auto simp: strict_sorted_iff)
qed

lemma map_of_rev_in_order: "in_order fst es \<Longrightarrow> map_of (rev es) = map_of es"
  by (rule map_of_eqI) (use in_order_distinct [of fst es] in \<open>auto simp: map_of_eq_Some_iff rev_map [symmetric]\<close>)

lemma find_get:
  assumes "in_order fst es"
  shows "(case find_at fst es k of Inr at \<Rightarrow> Some (snd (es ! at)) | Inl _ \<Rightarrow> None) = map_of es k"
  using assms
proof (cases rule: find_at_cases [where k = k])
  case (found at ys e zs)
  then have "map_of es k = Some (snd e)" using map_of_in_order [OF assms, of k "snd e"] by (metis in_set_conv_decomp prod.collapse)
  then show ?thesis using found by simp
next
  case (missing at ys zs)
  then have "k \<notin> fst ` set es" by auto
  then show ?thesis using missing(1) by (simp add: map_of_eq_None_iff [THEN iffD2])
qed

lemma map_of_put:
  assumes "\<forall>y \<in> set ys. fst y \<noteq> k"
  shows "map_of (ys @ (k, v) # zs) = (map_of (ys @ zs))(k \<mapsto> v)"
  using assms by (induction ys) (auto simp: fun_upd_twist)

lemma map_of_cut:
  assumes "\<forall>y \<in> set ys. fst y \<noteq> k" and "\<forall>z \<in> set zs. fst z \<noteq> k"
  shows "map_of (ys @ zs) = (map_of (ys @ (k, v) # zs))(k := None)"
proof -
  have "map_of (ys @ zs) k = None" using assms by (auto simp: map_of_eq_None_iff)
  then show ?thesis unfolding map_of_put [OF assms(1)] by (metis fun_upd_triv fun_upd_upd)
qed

lemma length_in_order: "in_order fst es \<Longrightarrow> length es = card (dom (map_of es))"
  using in_order_distinct [of fst es] by (metis dom_map_of_conv_image_fst distinct_card length_map set_map)

text \<open>Of entries in any order the last of each key.\<close>

lemma dedup_last_hd: "es \<noteq> [] \<Longrightarrow> dedup_last es \<noteq> [] \<and> fst (hd (dedup_last es)) = fst (hd es)"
  by (induction es rule: dedup_last.induct) auto

lemma dedup_last_set: "set (dedup_last es) \<subseteq> set es"
  by (induction es rule: dedup_last.induct) auto

lemma dedup_last_in_order: "sorted (map fst es) \<Longrightarrow> in_order fst (dedup_last es)"
proof (induction es rule: dedup_last.induct)
  case (1 earlier later es)
  show ?case
  proof (cases "fst later = fst earlier")
    case False
    then have "fst earlier < fst later" "\<forall>e \<in> set es. fst later \<le> fst e" using 1(3) by auto
    then have "\<forall>e \<in> set (dedup_last (later # es)). fst earlier < fst e"
      using dedup_last_set [of "later # es"] by fastforce
    then show ?thesis using False 1 by simp
  qed (use 1 in simp)
qed simp_all

lemma map_add_one:
  "a \<in> dom m \<Longrightarrow> [a \<mapsto> b] ++ m = m" "a \<notin> dom m \<Longrightarrow> [a \<mapsto> b] ++ m = m(a \<mapsto> b)"
  by (auto simp: map_add_def fun_eq_iff split: option.splits)

lemma dedup_last_map_of: "sorted (map fst es) \<Longrightarrow> map_of (dedup_last es) = map_of (rev es)"
proof (induction es rule: dedup_last.induct)
  case (1 earlier later es)
  have IH: "map_of (dedup_last (later # es)) = map_of (rev (later # es))" using 1 by (cases "fst later = fst earlier") auto
  have rev: "map_of (rev (earlier # later # es)) = [fst earlier \<mapsto> snd earlier] ++ map_of (rev (later # es))"
    by (cases earlier) simp
  show ?case
  proof (cases "fst later = fst earlier")
    case True
    then have "fst earlier \<in> dom (map_of (rev (later # es)))" by (simp add: dom_map_of_conv_image_fst)
    then show ?thesis using True IH map_add_one(1) unfolding rev by simp
  next
    case False
    then have "\<forall>e \<in> set (later # es). fst e \<noteq> fst earlier" using 1(3) by fastforce
    then have "fst earlier \<notin> dom (map_of (rev (later # es)))" by (auto simp: dom_map_of_conv_image_fst)
    then show ?thesis unfolding rev map_add_one(2) [OF \<open>fst earlier \<notin> _\<close>] using False IH by (cases earlier) simp
  qed
qed simp_all

lemma map_of_filter: "map_of es k = map_of (filter (\<lambda>e. fst e = k) es) k"
  by (induction es) auto

lemma sorted_last: "map_of (rev (sort_key fst es)) = map_of (rev es)"
proof
  fix k
  have "filter (\<lambda>e. fst e = k) (sort_key fst es) = filter (\<lambda>e. fst e = k) es" by (rule sort_key_stable)
  then show "map_of (rev (sort_key fst es)) k = map_of (rev es) k"
    using map_of_filter [of "rev (sort_key fst es)" k] map_of_filter [of "rev es" k] by (simp add: rev_filter [symmetric])
qed

lemmas unsorted = dedup_last_in_order [OF sorted_sort_key] dedup_last_map_of [OF sorted_sort_key, unfolded sorted_last]

text \<open>Two maps side by side.\<close>

lemma merged:
  assumes "in_order fst as" and "in_order fst bs"
  shows "in_order fst (concat (map merge_pair (side_by_side fst as bs)))"
    and "map_of (concat (map merge_pair (side_by_side fst as bs))) = map_of as ++ map_of bs"
proof -
  let ?L = "side_by_side fst as bs" and ?f = "\<lambda>p. hd (merge_pair p)"
  have one: "merge_pair p = [?f p] \<and> fst (?f p) = item_key fst p" if "p \<in> set ?L" for p
    using that unfolding side_by_side_set [OF assms]
    by (cases p rule: option_pair_cases) (auto simp: merge_pair_def split: prod.splits)
  have made: "concat (map merge_pair ?L) = map ?f ?L"
    using one by (metis (no_types, lifting) concat_map_singleton map_cong)
  have keys: "map fst (map ?f ?L) = map (item_key fst) ?L" using one by simp
  show ordered: "in_order fst (concat (map merge_pair ?L))"
    using side_by_side_in_order [OF assms] unfolding made keys .
  have "(k, v) \<in> set (concat (map merge_pair ?L)) \<longleftrightarrow> (k, v) \<in> set bs \<or> k \<notin> fst ` set bs \<and> (k, v) \<in> set as" for k v
  proof
    assume "(k, v) \<in> set (concat (map merge_pair ?L))"
    then obtain p where "kept_beside fst (set as) (set bs) p" "(k, v) \<in> set (merge_pair p)"
      by (auto simp: side_by_side_set [OF assms])
    then show "(k, v) \<in> set bs \<or> k \<notin> fst ` set bs \<and> (k, v) \<in> set as"
      by (cases p rule: option_pair_cases) (force simp: merge_pair_def split: prod.splits)+
  next
    assume "(k, v) \<in> set bs \<or> k \<notin> fst ` set bs \<and> (k, v) \<in> set as"
    then consider a where "(k, v) \<in> set bs" "(k, a) \<in> set as" | "(k, v) \<in> set bs" "k \<notin> fst ` set as"
      | "k \<notin> fst ` set bs" "(k, v) \<in> set as" by force
    then have "\<exists>p. kept_beside fst (set as) (set bs) p \<and> (k, v) \<in> set (merge_pair p)"
    proof cases
      case (1 a)
      then show ?thesis by (intro exI [of _ "(Some (k, a), Some (k, v))"]) (simp add: merge_pair_def)
    next
      case 2
      then show ?thesis by (intro exI [of _ "(None, Some (k, v))"]) (simp add: merge_pair_def)
    next
      case 3
      then show ?thesis by (intro exI [of _ "(Some (k, v), None)"]) (simp add: merge_pair_def)
    qed
    then show "(k, v) \<in> set (concat (map merge_pair ?L))" by (auto simp: side_by_side_set [OF assms])
  qed
  then have "map_of (concat (map merge_pair ?L)) k = Some v \<longleftrightarrow> (map_of as ++ map_of bs) k = Some v" for k v
    using map_of_in_order [OF ordered] map_of_in_order [OF assms(1)] map_of_in_order [OF assms(2)]
    by (simp add: map_add_Some_iff map_of_eq_None_iff)
  then show "map_of (concat (map merge_pair ?L)) = map_of as ++ map_of bs"
    by (intro ext) (metis not_Some_eq)
qed

text \<open>Entries side by side, found by halving, are an ordered map themselves.\<close>

definition flat_insert :: "'k :: linorder \<Rightarrow> 'v \<Rightarrow> ('k \<times> 'v) list \<Rightarrow> ('k \<times> 'v) list" where
  "flat_insert k v es = (case find_at fst es k of Inr at \<Rightarrow> es[at := (k, v)] | Inl at \<Rightarrow> with_at es at (k, v))"

definition flat_remove :: "'k :: linorder \<Rightarrow> ('k \<times> 'v) list \<Rightarrow> ('k \<times> 'v) list" where
  "flat_remove k es = (case find_at fst es k of Inr at \<Rightarrow> without_at es at | Inl _ \<Rightarrow> es)"

definition flat_ops :: "(('k :: linorder \<times> 'v) list, 'k, 'v) ordmap" where
  "flat_ops =
     \<lparr>om_iter = (\<lambda>es. es), om_len = length,
      om_get = (\<lambda>es k. case find_at fst es k of Inr at \<Rightarrow> Some (snd (es ! at)) | Inl _ \<Rightarrow> None),
      om_insert = flat_insert, om_remove = flat_remove, om_of = (\<lambda>es. dedup_last (sort_key fst es))\<rparr>"

lemma flat_insert_spec:
  assumes "in_order fst es"
  shows "in_order fst (flat_insert k v es) \<and> map_of (flat_insert k v es) = (map_of es)(k \<mapsto> v)"
  using assms
proof (cases rule: find_at_cases [where k = k])
  case (found at ys e zs)
  have ne: "\<forall>y \<in> set ys. fst y \<noteq> k" using found by auto
  have "flat_insert k v es = ys @ (k, v) # zs" using found by (simp add: flat_insert_def)
  moreover have "in_order fst (ys @ (k, v) # zs)" using assms found by (auto simp: sorted_wrt_append)
  ultimately show ?thesis
    using map_of_put [OF ne, of v zs] map_of_put [OF ne, of "snd e" zs] found(2,4) by (cases e) (simp del: map_of_append)
next
  case (missing at ys zs)
  have ne: "\<forall>y \<in> set ys. fst y \<noteq> k" using missing by auto
  have "flat_insert k v es = ys @ (k, v) # zs" using missing by (simp add: flat_insert_def)
  moreover have "in_order fst (ys @ (k, v) # zs)" using in_order_insert [of fst ys zs "(k, v)"] assms missing by simp
  ultimately show ?thesis using map_of_put [OF ne, of v zs] missing(2) by (simp del: map_of_append)
qed

lemma flat_remove_spec:
  assumes "in_order fst es"
  shows "in_order fst (flat_remove k es) \<and> map_of (flat_remove k es) = (map_of es)(k := None)"
  using assms
proof (cases rule: find_at_cases [where k = k])
  case (found at ys e zs)
  have "\<forall>y \<in> set ys. fst y \<noteq> k" "\<forall>z \<in> set zs. fst z \<noteq> k" using found by auto
  from map_of_cut [OF this, of "snd e"] have "map_of (ys @ zs) = (map_of es)(k := None)"
    using found(2,4) by (cases e) (simp del: map_of_append)
  moreover have "flat_remove k es = ys @ zs" using found by (simp add: flat_remove_def)
  moreover have "in_order fst (ys @ zs)" using in_order_remove [of fst ys e zs] assms found(2) by simp
  ultimately show ?thesis by (simp del: map_of_append)
next
  case (missing at ys zs)
  then have "k \<notin> fst ` set es" by auto
  then have "(map_of es)(k := None) = map_of es" by (metis fun_upd_triv map_of_eq_None_iff)
  then show ?thesis using missing(1) assms by (simp add: flat_remove_def)
qed

lemma flat_insert_length:
  "in_order fst es \<Longrightarrow> length (flat_insert k v es) = (if k \<in> fst ` set es then length es else Suc (length es))"
  by (cases rule: find_at_cases [of fst es k]) (auto simp: flat_insert_def)

lemma flat_remove_length: "in_order fst es \<Longrightarrow> length (flat_remove k es) \<le> length es"
  by (cases rule: find_at_cases [of fst es k]) (auto simp: flat_remove_def)

section \<open>The map is an ordered map\<close>

context ordered_map
begin

lemma len_card: "ok t \<Longrightarrow> om_len M t = card (dom (map_of (om_iter M t)))"
  using len iter length_in_order by metis

lemma map_iter_in_order: "map_ok M ok m \<Longrightarrow> in_order fst (map_iter M m)"
  by (cases m) (auto simp: map_ok_def map_iter_def iter)

lemma map_tree_abs:
  assumes "map_ok M ok m" and "map_tree M m = Some t"
  shows "ok t" and "map_of (om_iter M t) = map_abs M m" and "FLAT_MOST div 2 < om_len M t"
proof -
  have "ok t \<and> map_of (om_iter M t) = map_abs M m"
    using assms of_list map_of_rev_in_order
    by (cases m rule: map_entries_cases) (auto simp: map_ok_def map_iter_def)
  then show "ok t" and abs: "map_of (om_iter M t) = map_abs M m" by auto
  show "FLAT_MOST div 2 < om_len M t"
  proof (cases m)
    case (Map_Side es made)
    then have "om_len M t = length es"
      using assms(1) len_card [OF \<open>ok t\<close>] abs length_in_order [of es] by (auto simp: map_ok_def map_iter_def)
    then show ?thesis using assms(1) Map_Side by (auto simp: map_ok_def)
  qed (use assms in \<open>auto simp: map_ok_def\<close>)
qed

lemma map_len_abs: "map_ok M ok m \<Longrightarrow> map_len M m = length (map_iter M m)"
  by (cases m) (auto simp: map_ok_def map_len_def map_iter_def len)

lemma map_get_abs: "map_ok M ok m \<Longrightarrow> map_get M m k = map_abs M m k"
  by (cases m) (auto simp: map_ok_def map_get_def map_iter_def get find_get)

lemma map_of_tree_abs:
  assumes "ok t"
  shows "map_ok M ok (map_of_tree M t) \<and> map_iter M (map_of_tree M t) = om_iter M t"
  using assms iter len by (auto simp: map_of_tree_def map_ok_def map_iter_def FLAT_MOST_def)

lemma map_of_sorted_abs:
  "in_order fst es \<Longrightarrow> map_ok M ok (map_of_sorted es) \<and> map_iter M (map_of_sorted es) = es"
  by (auto simp: map_of_sorted_def map_ok_def map_iter_def)

lemma grown:
  assumes "ok t" and "ok u" and "dom (map_of (om_iter M t)) \<subseteq> dom (map_of (om_iter M u))" and "FLAT_MOST div 2 < om_len M t"
  shows "map_ok M ok (Map_Tree u)"
  using assms card_mono [OF finite_dom_map_of assms(3)] by (simp add: map_ok_def len_card)

lemma map_insert_flat:
  assumes "in_order fst es"
  shows "map_insert M k v (Map_Flat es) =
    (if k \<in> fst ` set es \<or> length es < FLAT_MOST then Map_Flat (flat_insert k v es)
     else Map_Tree (om_insert M k v (om_of M es)))"
  using assms by (cases rule: find_at_cases [where k = k]) (auto simp: map_insert_def flat_insert_def)

lemma map_remove_flat: "map_remove M k (Map_Flat es) = Map_Flat (flat_remove k es)"
  by (simp add: map_remove_def flat_remove_def split: sum.splits)

lemma map_insert_abs:
  assumes "map_ok M ok m"
  shows "map_ok M ok (map_insert M k v m) \<and> map_abs M (map_insert M k v m) = (map_abs M m)(k \<mapsto> v)"
proof (cases "map_tree M m")
  case (Some t)
  note t = map_tree_abs [OF assms Some]
  have "map_insert M k v m = Map_Tree (om_insert M k v t)" using Some by (cases m) (simp_all add: map_insert_def)
  then show ?thesis using insert [OF t(1), of k v] t grown [OF t(1), of "om_insert M k v t"] by (auto simp: map_iter_def)
next
  case None
  then obtain es where m: "m = Map_Flat es" by (cases m rule: map_entries_cases) auto
  then have es: "in_order fst es" "length es \<le> FLAT_MOST" using assms by (simp_all add: map_ok_def)
  note put = map_insert_flat [OF es(1), of k v] flat_insert_spec [OF es(1), of k v] flat_insert_length [OF es(1), of k v]
  have of: "ok (om_of M es)" "map_of (om_iter M (om_of M es)) = map_of es"
    using of_list [of es] map_of_rev_in_order [OF es(1)] by auto
  have "map_ok M ok (Map_Tree (om_insert M k v (om_of M es)))" if "\<not> length es < FLAT_MOST"
    using that insert [OF of(1), of k v] of len_card [OF of(1)] length_in_order [OF es(1)] es(2)
    by (intro grown [OF of(1)]) (auto simp: FLAT_MOST_def)
  then show ?thesis using put m es(2) insert [OF of(1), of k v] of by (auto simp: map_ok_def map_iter_def)
qed

lemma map_remove_abs:
  assumes "map_ok M ok m"
  shows "map_ok M ok (map_remove M k m) \<and> map_abs M (map_remove M k m) = (map_abs M m)(k := None)"
proof (cases "map_tree M m")
  case (Some t)
  note t = map_tree_abs [OF assms Some]
  have "map_remove M k m = (if map_abs M m k \<noteq> None then map_of_tree M (om_remove M k t) else m)"
    using Some map_get_abs [OF assms, of k] by (cases m) (simp_all add: map_remove_def)
  then show ?thesis using remove [OF t(1), of k] t map_of_tree_abs assms by (auto simp: fun_upd_idem)
next
  case None
  then obtain es where m: "m = Map_Flat es" by (cases m rule: map_entries_cases) auto
  then have es: "in_order fst es" "length es \<le> FLAT_MOST" using assms by (simp_all add: map_ok_def)
  show ?thesis
    using flat_remove_spec [OF es(1), of k] flat_remove_length [OF es(1), of k] es(2)
    unfolding m map_remove_flat by (simp add: map_ok_def map_iter_def)
qed

lemma put_all:
  assumes "ok t" and "distinct (map fst es)" and "t' = fold (\<lambda>(k, v) t. if wins \<or> om_get M t k = None then om_insert M k v t else t) es t"
  shows "ok t' \<and> map_of (om_iter M t') = (if wins then map_of (om_iter M t) ++ map_of es else map_of es ++ map_of (om_iter M t))"
  using assms
proof (induction es arbitrary: t)
  case (Cons e es)
  obtain k v where e: "e = (k, v)" by (cases e)
  let ?t = "if wins \<or> om_get M t k = None then om_insert M k v t else t"
  have k: "map_of es k = None" using Cons.prems(2) e by (simp add: map_of_eq_None_iff)
  have t: "ok ?t" "map_of (om_iter M ?t) = (if wins \<or> map_of (om_iter M t) k = None then (map_of (om_iter M t))(k \<mapsto> v) else map_of (om_iter M t))"
    using insert [OF Cons.prems(1), of k v] get [OF Cons.prems(1), of k] Cons.prems(1) by auto
  let ?A = "map_of (om_iter M t)"
  have "?A(k \<mapsto> v) ++ map_of es = ?A ++ (map_of es)(k \<mapsto> v)"
    "?A k = None \<Longrightarrow> map_of es ++ ?A(k \<mapsto> v) = (map_of es)(k \<mapsto> v) ++ ?A"
    "?A k \<noteq> None \<Longrightarrow> map_of es ++ ?A = (map_of es)(k \<mapsto> v) ++ ?A"
    using k by (auto simp: map_add_def fun_eq_iff split: option.splits)
  moreover have "ok t' \<and> map_of (om_iter M t') =
      (if wins then map_of (om_iter M ?t) ++ map_of es else map_of es ++ map_of (om_iter M ?t))"
    using Cons.IH [OF t(1)] Cons.prems(2,3) e by simp
  ultimately show ?case unfolding t(2) e map_of.simps fst_conv snd_conv by (cases wins; cases "?A k = None") simp_all
qed simp

lemma map_merge_abs:
  assumes "map_ok M ok m" and "map_ok M ok other"
  shows "map_ok M ok (map_merge M m other) \<and> map_abs M (map_merge M m other) = map_abs M m ++ map_abs M other"
proof -
  consider "map_len M other = 0" | "map_len M other \<noteq> 0" "map_len M m = 0" | "map_len M other \<noteq> 0" "map_len M m \<noteq> 0" by blast
  then show ?thesis
  proof cases
    case 3
    define wins where "wins = (map_len M m \<ge> map_len M other)"
    define larger where "larger = (if wins then m else other)"
    define smaller where "smaller = (if wins then other else m)"
    have ok: "map_ok M ok larger" "map_ok M ok smaller" using assms by (simp_all add: larger_def smaller_def)
    have merge: "map_merge M m other =
      (case map_tree M larger of
         None \<Rightarrow> map_of_sorted (concat (map merge_pair (side_by_side fst (map_iter M m) (map_iter M other))))
       | Some tree \<Rightarrow>
           Map_Tree (fold (\<lambda>(k, v) t. if wins \<or> om_get M t k = None then om_insert M k v t else t) (map_iter M smaller) tree))"
      using 3 by (cases "map_len M other \<le> map_len M m")
        (simp_all add: map_merge_def larger_def smaller_def wins_def Let_def split: option.splits)
    show ?thesis
    proof (cases "map_tree M larger")
      case None
      then show ?thesis
        using merge merged [OF map_iter_in_order [OF assms(1)] map_iter_in_order [OF assms(2)]] map_of_sorted_abs by simp
    next
      case (Some t)
      note t = map_tree_abs [OF ok(1) Some]
      define t' where "t' = fold (\<lambda>(k, v) t. if wins \<or> om_get M t k = None then om_insert M k v t else t) (map_iter M smaller) t"
      have "ok t' \<and> map_of (om_iter M t') =
        (if wins then map_of (om_iter M t) ++ map_abs M smaller else map_abs M smaller ++ map_of (om_iter M t))"
        using put_all [OF t(1) in_order_distinct [OF map_iter_in_order [OF ok(2)]] t'_def] .
      then have t': "ok t'" "map_of (om_iter M t') = map_abs M m ++ map_abs M other"
        using t(2) by (auto simp: larger_def smaller_def)
      have "dom (map_of (om_iter M t)) \<subseteq> dom (map_of (om_iter M t'))" using t(2) t'(2) by (auto simp: larger_def)
      then show ?thesis using merge Some t' grown [OF t(1) t'(1) _ t(3)] by (simp add: t'_def map_iter_def)
    qed
  qed (use assms map_len_abs in \<open>auto simp: map_merge_def\<close>)
qed

lemma map_of_unsorted_abs: "map_ok M ok (map_of_unsorted es) \<and> map_abs M (map_of_unsorted es) = map_of (rev es)"
  using map_of_sorted_abs [OF unsorted(1)] unsorted(2) by (metis map_of_unsorted_def)

lemma map_tree_made_abs: "map_ok M ok m \<Longrightarrow> map_ok M ok (map_tree_made M m) \<and> map_iter M (map_tree_made M m) = map_iter M m"
  using of_list map_of_rev_in_order by (cases m rule: map_entries_cases) (auto simp: map_ok_def map_iter_def)

end

text \<open>The map as a record of its operations: it promises what it relies on its tree for.\<close>

definition map_ops :: "('t, 'k :: linorder, 'v) ordmap \<Rightarrow> (('t, 'k, 'v) map_entries, 'k, 'v) ordmap" where
  "map_ops M =
     \<lparr>om_iter = map_iter M, om_len = map_len M, om_get = map_get M, om_insert = map_insert M, om_remove = map_remove M,
      om_of = map_of_unsorted\<rparr>"

lemma map_keeps_contract:
  assumes "ordered_map M ok"
  shows "ordered_map (map_ops M) (map_ok M ok)"
proof -
  note laws = ordered_map.map_iter_in_order [OF assms] ordered_map.map_len_abs [OF assms] ordered_map.map_get_abs [OF assms]
    ordered_map.map_insert_abs [OF assms] ordered_map.map_remove_abs [OF assms] ordered_map.map_of_unsorted_abs [OF assms]
  show ?thesis by unfold_locales (use laws in \<open>simp_all add: map_ops_def\<close>)
qed

interpretation flat: ordered_map flat_ops "in_order fst"
  by unfold_locales (simp_all add: flat_ops_def find_get flat_insert_spec flat_remove_spec unsorted)

interpretation stored: ordered_map "map_ops flat_ops" "map_ok flat_ops (in_order fst)"
  by (rule map_keeps_contract) (rule flat.ordered_map_axioms)

section \<open>What the map promises\<close>

text \<open>C36: a map, whichever of its three ways it is kept in, is the finite map of its entries, for every
  tree that is an ordered map: its size, lookups, insertions, removals and merges, and the map of
  entries in any order, are those of the finite map, its entries come in the order of the keys, and
  every operation leaves it kept as its size asks for.\<close>

theorem map_is_finite_map:
  assumes "ordered_map M ok" and "map_ok M ok m" and "map_ok M ok other"
  shows "map_len M m = card (dom (map_abs M m)) \<and> in_order fst (map_iter M m) \<and>
    map_get M m = map_abs M m \<and>
    map_abs M (map_insert M k v m) = (map_abs M m)(k \<mapsto> v) \<and> map_ok M ok (map_insert M k v m) \<and>
    map_abs M (map_remove M k m) = (map_abs M m)(k := None) \<and> map_ok M ok (map_remove M k m) \<and>
    map_abs M (map_merge M m other) = map_abs M m ++ map_abs M other \<and> map_ok M ok (map_merge M m other) \<and>
    map_abs M (map_of_unsorted es) = map_of (rev es) \<and> map_ok M ok (map_of_unsorted es :: ('t, 'k :: linorder, 'v) map_entries) \<and>
    map_iter M (map_tree_made M m) = map_iter M m \<and> map_ok M ok (map_tree_made M m)"
  using ordered_map.map_iter_in_order [OF assms(1,2)] ordered_map.map_len_abs [OF assms(1,2)] ordered_map.map_get_abs [OF assms(1,2)]
    ordered_map.map_insert_abs [OF assms(1,2)] ordered_map.map_remove_abs [OF assms(1,2)] ordered_map.map_merge_abs [OF assms]
    ordered_map.map_of_unsorted_abs [OF assms(1)] ordered_map.map_tree_made_abs [OF assms(1,2)] length_in_order
  by (metis ext)

theorem map_is_finite_map_witness:
  "map_len flat_ops (Map_Flat [(1 :: int, ''a''), (2, ''b'')]) = card {1 :: int, 2} \<and>
   map_abs flat_ops (map_merge flat_ops (Map_Flat [(1 :: int, ''a''), (2, ''b'')]) (Map_Tree (map (\<lambda>n. (n, ''c'')) [2..40]))) 1 = Some ''a'' \<and>
   map_abs flat_ops (map_merge flat_ops (Map_Flat [(1 :: int, ''a''), (2, ''b'')]) (Map_Tree (map (\<lambda>n. (n, ''c'')) [2..40]))) 2 = Some ''c''"
proof -
  have other: "map_ok flat_ops (in_order fst) (Map_Tree (map (\<lambda>n. (n :: int, ''c'')) [2..40]))"
    by (simp add: map_ok_def flat_ops_def FLAT_MOST_def comp_def)
  have m: "map_ok flat_ops (in_order fst) (Map_Flat [(1 :: int, ''a''), (2, ''b'')])"
    by (simp add: map_ok_def FLAT_MOST_def)
  have "map_of (map (\<lambda>n. (n :: int, ''c'')) [2..40]) 1 = None" "map_of (map (\<lambda>n. (n :: int, ''c'')) [2..40]) 2 = Some ''c''"
    by (simp_all add: map_of_eq_None_iff upto_rec1)
  then show ?thesis
    using map_is_finite_map [OF flat.ordered_map_axioms m other] by (simp add: map_iter_def flat_ops_def map_add_def)
qed

end
