(* ===== verification/Set_Value.thy ===== *)
theory Set_Value
  imports Sorted_Storage
begin

text \<open>
  The set value (\<^verbatim>\<open>value/map.rs\<close>): kept in the three ways a map is, with the answer to whether a member
  is, or has in it, a function, once that is known. Where an operation gives back a set it was given,
  the answer that is stored is stored with that set too: it is of the same members. Whether a value
  has a function in it (\<open>contains_fn\<close>) and whether it is known to have none (\<open>is_no_fn\<close>) are arguments,
  as the members are of any ordered type; for the machine's values the two are defined in \<open>Vm_Value\<close>,
  where the law that binds them is proved (\<open>is_no_fn_holds_none\<close>).
\<close>

section \<open>Ordered sets\<close>

record ('t, 'a) ordset =
  os_iter :: "'t \<Rightarrow> 'a list"
  os_len :: "'t \<Rightarrow> nat"
  os_has :: "'t \<Rightarrow> 'a \<Rightarrow> bool"
  os_insert :: "'a \<Rightarrow> 't \<Rightarrow> 't"
  os_remove :: "'a \<Rightarrow> 't \<Rightarrow> 't"
  os_of :: "'a list \<Rightarrow> 't"

abbreviation ascending :: "'a :: linorder list \<Rightarrow> bool" where
  "ascending \<equiv> sorted_wrt (<)"

locale ordered_set =
  fixes S :: "('t, 'a :: linorder) ordset" and ok :: "'t \<Rightarrow> bool"
  assumes iter: "ok t \<Longrightarrow> ascending (os_iter S t)"
    and len: "ok t \<Longrightarrow> os_len S t = length (os_iter S t)"
    and has: "ok t \<Longrightarrow> os_has S t x \<longleftrightarrow> x \<in> set (os_iter S t)"
    and insert: "ok t \<Longrightarrow> ok (os_insert S x t) \<and> set (os_iter S (os_insert S x t)) = Set.insert x (set (os_iter S t))"
    and remove: "ok t \<Longrightarrow> ok (os_remove S x t) \<and> set (os_iter S (os_remove S x t)) = set (os_iter S t) - {x}"
    and of_list: "ok (os_of S xs) \<and> set (os_iter S (os_of S xs)) = set xs"

section \<open>The set\<close>

datatype ('t, 'a) members =
    Set_Flat "'a list"
  | Set_Side "'a list" "'t option"
  | Set_Tree 't

datatype fns = Fns_Unknown | Fns_No | Fns_Yes

definition fns_either :: "fns \<Rightarrow> fns \<Rightarrow> fns" where
  "fns_either a b =
     (if a = Fns_Yes \<or> b = Fns_Yes then Fns_Yes else if a = Fns_No \<and> b = Fns_No then Fns_No else Fns_Unknown)"

definition fns_some_of :: "fns \<Rightarrow> fns" where
  "fns_some_of a = (if a = Fns_No then Fns_No else Fns_Unknown)"

record ('t, 'a) set_value =
  s_members :: "('t, 'a) members"
  s_fns :: fns

definition set_of :: "('t, 'a) members \<Rightarrow> ('t, 'a) set_value" where
  "set_of ms = \<lparr>s_members = ms, s_fns = Fns_Unknown\<rparr>"

definition knowing :: "fns \<Rightarrow> ('t, 'a) set_value \<Rightarrow> ('t, 'a) set_value" where
  "knowing f s = (if f \<noteq> Fns_Unknown then s\<lparr>s_fns := f\<rparr> else s)"

definition set_new :: "('t, 'a) set_value" where
  "set_new = set_of (Set_Flat [])"

definition set_of_sorted :: "'a list \<Rightarrow> ('t, 'a) set_value" where
  "set_of_sorted xs = set_of (if length xs \<le> FLAT_MOST then Set_Flat xs else Set_Side xs None)"

definition set_of_tree :: "('t, 'a) ordset \<Rightarrow> 't \<Rightarrow> ('t, 'a) set_value" where
  "set_of_tree S t = set_of (if os_len S t > FLAT_MOST div 2 then Set_Tree t else Set_Flat (os_iter S t))"

fun members_side :: "('t, 'a) members \<Rightarrow> 'a list option" where
  "members_side (Set_Flat xs) = Some xs"
| "members_side (Set_Side xs _) = Some xs"
| "members_side (Set_Tree _) = None"

fun members_tree :: "('t, 'a) ordset \<Rightarrow> ('t, 'a) members \<Rightarrow> 't option" where
  "members_tree S (Set_Flat _) = None"
| "members_tree S (Set_Side xs (Some t)) = Some t"
| "members_tree S (Set_Side xs None) = Some (os_of S xs)"
| "members_tree S (Set_Tree t) = Some t"

abbreviation set_tree :: "('t, 'a) ordset \<Rightarrow> ('t, 'a) set_value \<Rightarrow> 't option" where
  "set_tree S s \<equiv> members_tree S (s_members s)"

definition set_len :: "('t, 'a) ordset \<Rightarrow> ('t, 'a) set_value \<Rightarrow> nat" where
  "set_len S s =
     (case members_side (s_members s) of
        Some xs \<Rightarrow> length xs
      | None \<Rightarrow> (case set_tree S s of Some t \<Rightarrow> os_len S t | None \<Rightarrow> 0))"

definition set_contains :: "('t, 'a :: linorder) ordset \<Rightarrow> ('t, 'a) set_value \<Rightarrow> 'a \<Rightarrow> bool" where
  "set_contains S s x =
     (case members_side (s_members s) of
        Some xs \<Rightarrow> (case find_at (\<lambda>y. y) xs x of Inr _ \<Rightarrow> True | Inl _ \<Rightarrow> False)
      | None \<Rightarrow> (case set_tree S s of Some t \<Rightarrow> os_has S t x | None \<Rightarrow> False))"

definition set_iter :: "('t, 'a) ordset \<Rightarrow> ('t, 'a) set_value \<Rightarrow> 'a list" where
  "set_iter S s =
     (case (members_side (s_members s), s_members s) of
        (Some xs, _) \<Rightarrow> xs
      | (None, Set_Tree t) \<Rightarrow> os_iter S t
      | (None, _) \<Rightarrow> [])"

text \<open>Whether a member has a function in it, and the set with the answer.\<close>

definition holds_fn :: "('a \<Rightarrow> bool) \<Rightarrow> ('t, 'a) ordset \<Rightarrow> ('t, 'a) set_value \<Rightarrow> bool \<times> ('t, 'a) set_value" where
  "holds_fn contains_fn S s =
     (case s_fns s of
        Fns_Yes \<Rightarrow> (True, s)
      | Fns_No \<Rightarrow> (False, s)
      | Fns_Unknown \<Rightarrow>
          (let holds = list_ex contains_fn (set_iter S s)
           in (holds, knowing (if holds then Fns_Yes else Fns_No) s)))"

definition holds_fn_known :: "('t, 'a) set_value \<Rightarrow> bool option" where
  "holds_fn_known s = (case s_fns s of Fns_Yes \<Rightarrow> Some True | Fns_No \<Rightarrow> Some False | Fns_Unknown \<Rightarrow> None)"

definition set_inserted :: "('t, 'a :: linorder) ordset \<Rightarrow> 'a \<Rightarrow> ('t, 'a) set_value \<Rightarrow> ('t, 'a) set_value" where
  "set_inserted S x s =
     (case s_members s of
        Set_Flat xs \<Rightarrow>
          (case find_at (\<lambda>y. y) xs x of
             Inr _ \<Rightarrow> s
           | Inl at \<Rightarrow>
               set_of (if length xs < FLAT_MOST then Set_Flat (with_at xs at x) else Set_Tree (os_insert S x (os_of S xs))))
      | _ \<Rightarrow>
          if set_contains S s x then s
          else set_of (Set_Tree (os_insert S x (case set_tree S s of Some t \<Rightarrow> t | None \<Rightarrow> os_of S []))))"

definition set_insert :: "('a \<Rightarrow> bool) \<Rightarrow> ('t, 'a :: linorder) ordset \<Rightarrow> 'a \<Rightarrow> ('t, 'a) set_value \<Rightarrow> ('t, 'a) set_value" where
  "set_insert is_no_fn S x s =
     knowing (case s_fns s of Fns_Yes \<Rightarrow> Fns_Yes | Fns_No \<Rightarrow> if is_no_fn x then Fns_No else Fns_Unknown | _ \<Rightarrow> Fns_Unknown)
       (set_inserted S x s)"

definition set_removed :: "('t, 'a :: linorder) ordset \<Rightarrow> 'a \<Rightarrow> ('t, 'a) set_value \<Rightarrow> ('t, 'a) set_value" where
  "set_removed S x s =
     (case s_members s of
        Set_Flat xs \<Rightarrow> (case find_at (\<lambda>y. y) xs x of Inr at \<Rightarrow> set_of (Set_Flat (without_at xs at)) | Inl _ \<Rightarrow> s)
      | _ \<Rightarrow>
          if set_contains S s x
          then set_of_tree S (os_remove S x (case set_tree S s of Some t \<Rightarrow> t | None \<Rightarrow> os_of S []))
          else s)"

definition set_remove :: "('t, 'a :: linorder) ordset \<Rightarrow> 'a \<Rightarrow> ('t, 'a) set_value \<Rightarrow> ('t, 'a) set_value" where
  "set_remove S x s = knowing (fns_some_of (s_fns s)) (set_removed S x s)"

definition by_size :: "('t, 'a) ordset \<Rightarrow> ('t, 'a) set_value \<Rightarrow> ('t, 'a) set_value \<Rightarrow> ('t, 'a) set_value \<times> ('t, 'a) set_value" where
  "by_size S s other = (if set_len S s \<ge> set_len S other then (s, other) else (other, s))"

definition either_of :: "'a option \<times> 'a option \<Rightarrow> 'a list" where
  "either_of p = (case p of (Some a, _) \<Rightarrow> [a] | (None, Some b) \<Rightarrow> [b] | (None, None) \<Rightarrow> [])"

definition one_of :: "'a option \<times> 'a option \<Rightarrow> 'a list" where
  "one_of p = (case p of (Some a, None) \<Rightarrow> [a] | (None, Some b) \<Rightarrow> [b] | _ \<Rightarrow> [])"

text \<open>A tree that is changed where it must be: \<open>None\<close> while nothing was.\<close>

definition changed :: "('a \<Rightarrow> bool) \<Rightarrow> ('a \<Rightarrow> 't \<Rightarrow> 't) \<Rightarrow> 't \<Rightarrow> 'a list \<Rightarrow> 't option" where
  "changed must change t xs =
     fold (\<lambda>x made. if must x then Some (change x (case made of Some u \<Rightarrow> u | None \<Rightarrow> t)) else made) xs None"

definition set_united :: "('t, 'a :: linorder) ordset \<Rightarrow> ('t, 'a) set_value \<Rightarrow> ('t, 'a) set_value \<Rightarrow> ('t, 'a) set_value" where
  "set_united S s other =
     (let (larger, smaller) = by_size S s other
      in if set_len S smaller = 0 then larger
         else case set_tree S larger of
                None \<Rightarrow> set_of_sorted (concat (map either_of (side_by_side (\<lambda>y. y) (set_iter S s) (set_iter S other))))
              | Some tree \<Rightarrow>
                  (case changed (\<lambda>x. \<not> os_has S tree x) (os_insert S) tree (set_iter S smaller) of
                     Some made \<Rightarrow> set_of (Set_Tree made)
                   | None \<Rightarrow> larger))"

definition set_union :: "('t, 'a :: linorder) ordset \<Rightarrow> ('t, 'a) set_value \<Rightarrow> ('t, 'a) set_value \<Rightarrow> ('t, 'a) set_value" where
  "set_union S s other = knowing (fns_either (s_fns s) (s_fns other)) (set_united S s other)"

definition set_intersection :: "('t, 'a :: linorder) ordset \<Rightarrow> ('t, 'a) set_value \<Rightarrow> ('t, 'a) set_value \<Rightarrow> ('t, 'a) set_value" where
  "set_intersection S s other =
     (let (larger, smaller) = by_size S s other
      in knowing (if s_fns s = Fns_No \<or> s_fns other = Fns_No then Fns_No else Fns_Unknown)
           (set_of_sorted (filter (set_contains S larger) (set_iter S smaller))))"

definition set_differed :: "('t, 'a :: linorder) ordset \<Rightarrow> ('t, 'a) set_value \<Rightarrow> ('t, 'a) set_value \<Rightarrow> ('t, 'a) set_value" where
  "set_differed S s other =
     (case (if set_len S s > set_len S other then set_tree S s else None) of
        Some tree \<Rightarrow>
          (case changed (os_has S tree) (os_remove S) tree (set_iter S other) of
             Some made \<Rightarrow> set_of_tree S made
           | None \<Rightarrow> s)
      | None \<Rightarrow>
          (let kept = filter (\<lambda>x. \<not> set_contains S other x) (set_iter S s)
           in if length kept = set_len S s then s else set_of_sorted kept))"

definition set_difference :: "('t, 'a :: linorder) ordset \<Rightarrow> ('t, 'a) set_value \<Rightarrow> ('t, 'a) set_value \<Rightarrow> ('t, 'a) set_value" where
  "set_difference S s other = knowing (fns_some_of (s_fns s)) (set_differed S s other)"

definition set_symmetric_differed ::
  "('t, 'a :: linorder) ordset \<Rightarrow> ('t, 'a) set_value \<Rightarrow> ('t, 'a) set_value \<Rightarrow> ('t, 'a) set_value" where
  "set_symmetric_differed S s other =
     (let (larger, smaller) = by_size S s other
      in if set_len S smaller = 0 then larger
         else case set_tree S larger of
                None \<Rightarrow> set_of_sorted (concat (map one_of (side_by_side (\<lambda>y. y) (set_iter S s) (set_iter S other))))
              | Some tree \<Rightarrow>
                  set_of_tree S (fold (\<lambda>x t. if os_has S t x then os_remove S x t else os_insert S x t) (set_iter S smaller) tree))"

definition set_symmetric_difference ::
  "('t, 'a :: linorder) ordset \<Rightarrow> ('t, 'a) set_value \<Rightarrow> ('t, 'a) set_value \<Rightarrow> ('t, 'a) set_value" where
  "set_symmetric_difference S s other =
     knowing (fns_some_of (fns_either (s_fns s) (s_fns other))) (set_symmetric_differed S s other)"

definition set_is_subset :: "('t, 'a :: linorder) ordset \<Rightarrow> ('t, 'a) set_value \<Rightarrow> ('t, 'a) set_value \<Rightarrow> bool" where
  "set_is_subset S s other \<longleftrightarrow> set_len S s \<le> set_len S other \<and> list_all (set_contains S other) (set_iter S s)"

definition set_from :: "'a :: linorder list \<Rightarrow> ('t, 'a) set_value" where
  "set_from xs = set_of_sorted (remdups_adj (sort xs))"

definition without_fn :: "'a :: linorder list \<Rightarrow> ('t, 'a) set_value" where
  "without_fn xs = knowing Fns_No (set_from xs)"


section \<open>What is kept\<close>

definition set_ok :: "('t, 'a :: linorder) ordset \<Rightarrow> ('t \<Rightarrow> bool) \<Rightarrow> ('t, 'a) set_value \<Rightarrow> bool" where
  "set_ok S ok s \<longleftrightarrow>
     (case s_members s of
        Set_Flat xs \<Rightarrow> ascending xs \<and> length xs \<le> FLAT_MOST
      | Set_Side xs made \<Rightarrow>
          ascending xs \<and> FLAT_MOST < length xs \<and>
          (case made of None \<Rightarrow> True | Some t \<Rightarrow> ok t \<and> set (os_iter S t) = set xs)
      | Set_Tree t \<Rightarrow> ok t \<and> FLAT_MOST div 2 < os_len S t)"

abbreviation set_abs :: "('t, 'a) ordset \<Rightarrow> ('t, 'a) set_value \<Rightarrow> 'a set" where
  "set_abs S s \<equiv> set (set_iter S s)"

text \<open>The answer that is stored is right.\<close>

definition fns_ok :: "('a \<Rightarrow> bool) \<Rightarrow> ('t, 'a) ordset \<Rightarrow> ('t, 'a) set_value \<Rightarrow> bool" where
  "fns_ok contains_fn S s \<longleftrightarrow>
     (case s_fns s of
        Fns_Yes \<Rightarrow> \<exists>x \<in> set_abs S s. contains_fn x
      | Fns_No \<Rightarrow> \<forall>x \<in> set_abs S s. \<not> contains_fn x
      | Fns_Unknown \<Rightarrow> True)"

definition fns_right :: "('a \<Rightarrow> bool) \<Rightarrow> fns \<Rightarrow> 'a set \<Rightarrow> bool" where
  "fns_right contains_fn f A \<longleftrightarrow>
     (case f of Fns_Yes \<Rightarrow> \<exists>x \<in> A. contains_fn x | Fns_No \<Rightarrow> \<forall>x \<in> A. \<not> contains_fn x | Fns_Unknown \<Rightarrow> True)"

lemma fns_ok_right: "fns_ok contains_fn S s \<longleftrightarrow> fns_right contains_fn (s_fns s) (set_abs S s)"
  by (simp add: fns_ok_def fns_right_def)

lemma knowing_iter [simp]: "set_iter S (knowing f s) = set_iter S s"
  by (simp add: knowing_def set_iter_def split: option.splits)

lemma knowing_ok [simp]: "set_ok S ok (knowing f s) = set_ok S ok s"
  by (simp add: knowing_def set_ok_def)

lemma knowing_right: "fns_ok P S s \<Longrightarrow> fns_right P f (set_abs S s) \<Longrightarrow> fns_ok P S (knowing f s)"
  using knowing_iter [of S f s] by (cases f) (simp_all add: knowing_def fns_ok_right)

lemma unknown_right: "s_fns s = Fns_Unknown \<Longrightarrow> fns_ok P S s"
  by (simp add: fns_ok_def)

lemma set_of_unknown [simp]: "s_fns (set_of m) = Fns_Unknown" "s_fns (set_of_sorted xs) = Fns_Unknown" "s_fns (set_of_tree S t) = Fns_Unknown"
  by (simp_all add: set_of_def set_of_sorted_def set_of_tree_def)

text \<open>What an operation gives has no answer yet, or is a set it was given.\<close>

lemma given_or_unknown:
  "set_inserted S x s = s \<or> s_fns (set_inserted S x s) = Fns_Unknown"
  "set_removed S x s = s \<or> s_fns (set_removed S x s) = Fns_Unknown"
  "set_united S s other \<in> {s, other} \<or> s_fns (set_united S s other) = Fns_Unknown"
  "set_differed S s other = s \<or> s_fns (set_differed S s other) = Fns_Unknown"
  "set_symmetric_differed S s other \<in> {s, other} \<or> s_fns (set_symmetric_differed S s other) = Fns_Unknown"
  by (auto simp: set_inserted_def set_removed_def set_united_def set_differed_def set_symmetric_differed_def by_size_def Let_def
      split: members.splits sum.splits option.splits prod.splits if_splits)

lemma find_member_cases:
  assumes "ascending xs"
  obtains (found) at ys zs where "find_at (\<lambda>y. y) xs x = Inr at" "xs = ys @ x # zs" "at = length ys"
      "\<forall>y \<in> set ys. y < x" "\<forall>z \<in> set zs. x < z"
    | (missing) at ys zs where "find_at (\<lambda>y. y) xs x = Inl at" "xs = ys @ zs" "at = length ys"
      "\<forall>y \<in> set ys. y < x" "\<forall>z \<in> set zs. x < z"
  using find_at_cases [of "\<lambda>y. y" xs x thesis] assms by simp

lemma find_member: "ascending xs \<Longrightarrow> (case find_at (\<lambda>y. y) xs x of Inr _ \<Rightarrow> True | Inl _ \<Rightarrow> False) \<longleftrightarrow> x \<in> set xs"
  by (cases rule: find_member_cases [of xs x]) auto

lemma ascending_card: "ascending xs \<Longrightarrow> length xs = card (set xs)"
  by (simp add: distinct_card strict_sorted_iff)

lemma sorted_remdups: "sorted ys \<Longrightarrow> ascending (remdups_adj ys)"
  by (induction ys rule: remdups_adj.induct) (auto simp: order_less_le)

lemmas ascending_remdups = sorted_remdups [OF sorted_sort]

lemma changed_filter:
  "changed must change t xs = (if filter must xs = [] then None else Some (fold change (filter must xs) t))"
proof -
  have "fold (\<lambda>x made. if must x then Some (change x (case made of Some u \<Rightarrow> u | None \<Rightarrow> t)) else made) xs (Some u) =
    Some (fold change (filter must xs) u)" for u
    by (induction xs arbitrary: u) auto
  then show ?thesis unfolding changed_def by (induction xs) auto
qed

text \<open>Of the walk through two sequences, the members that are picked.\<close>

lemma picked:
  assumes "ascending as" and "ascending bs" and "\<forall>p \<in> set (side_by_side (\<lambda>y. y) as bs). f p = [item_key (\<lambda>y. y) p] \<or> f p = []"
  shows "ascending (concat (map f (side_by_side (\<lambda>y. y) as bs)))"
proof -
  let ?L = "side_by_side (\<lambda>y. y) as bs" and ?k = "item_key (\<lambda>y. y)"
  have "concat (map f xs) = map ?k (filter (\<lambda>p. f p \<noteq> []) xs)" if "\<forall>p \<in> set xs. f p = [?k p] \<or> f p = []" for xs
    using that by (induction xs) auto
  moreover have "ascending (map ?k ?L)" using side_by_side_in_order [of "\<lambda>y. y" as bs] assms(1,2) by simp
  ultimately show ?thesis using assms(3) by (simp add: sorted_wrt_map sorted_wrt_filter)
qed

lemma side_by_side_members:
  "ascending as \<Longrightarrow> ascending bs \<Longrightarrow> p \<in> set (side_by_side (\<lambda>y. y) as bs) \<longleftrightarrow> kept_beside (\<lambda>y. y) (set as) (set bs) p"
  using side_by_side_set [of "\<lambda>y. y" as bs] by simp

lemma picked_set:
  assumes "ascending as" and "ascending bs"
  shows "x \<in> set (concat (map f (side_by_side (\<lambda>y. y) as bs))) \<longleftrightarrow> (\<exists>p. kept_beside (\<lambda>y. y) (set as) (set bs) p \<and> x \<in> set (f p))"
  unfolding set_concat set_map using side_by_side_members [OF assms] by blast

lemma united:
  assumes "ascending as" and "ascending bs"
  shows "ascending (concat (map either_of (side_by_side (\<lambda>y. y) as bs)))"
    and "set (concat (map either_of (side_by_side (\<lambda>y. y) as bs))) = set as \<union> set bs"
proof -
  note L = side_by_side_members [OF assms]
  show "ascending (concat (map either_of (side_by_side (\<lambda>y. y) as bs)))"
    by (rule picked [OF assms]) (auto simp: L either_of_def split: option.splits)
  show "set (concat (map either_of (side_by_side (\<lambda>y. y) as bs))) = set as \<union> set bs" (is "?l = ?r")
  proof (rule set_eqI)
    fix x
    note picked_set [OF assms]
    also have "(\<exists>p. kept_beside (\<lambda>y. y) (set as) (set bs) p \<and> x \<in> set (either_of p)) \<longleftrightarrow> x \<in> ?r"
    proof
      assume "\<exists>p. kept_beside (\<lambda>y. y) (set as) (set bs) p \<and> x \<in> set (either_of p)"
      then obtain p where "kept_beside (\<lambda>y. y) (set as) (set bs) p" "x \<in> set (either_of p)" by blast
      then show "x \<in> ?r" by (cases p rule: option_pair_cases) (auto simp: either_of_def)
    next
      assume "x \<in> ?r"
      then consider "x \<in> set as" "x \<in> set bs" | "x \<in> set as" "x \<notin> set bs" | "x \<notin> set as" "x \<in> set bs" by blast
      then show "\<exists>p. kept_beside (\<lambda>y. y) (set as) (set bs) p \<and> x \<in> set (either_of p)"
      proof cases
        case 1
        then show ?thesis by (intro exI [of _ "(Some x, Some x)"]) (simp add: either_of_def)
      next
        case 2
        then show ?thesis by (intro exI [of _ "(Some x, None)"]) (simp add: either_of_def)
      next
        case 3
        then show ?thesis by (intro exI [of _ "(None, Some x)"]) (simp add: either_of_def)
      qed
    qed
    finally show "x \<in> ?l \<longleftrightarrow> x \<in> ?r" .
  qed
qed

lemma apart:
  assumes "ascending as" and "ascending bs"
  shows "ascending (concat (map one_of (side_by_side (\<lambda>y. y) as bs)))"
    and "set (concat (map one_of (side_by_side (\<lambda>y. y) as bs))) = (set as - set bs) \<union> (set bs - set as)"
proof -
  note L = side_by_side_members [OF assms]
  show "ascending (concat (map one_of (side_by_side (\<lambda>y. y) as bs)))"
    by (rule picked [OF assms]) (auto simp: L one_of_def split: option.splits)
  show "set (concat (map one_of (side_by_side (\<lambda>y. y) as bs))) = (set as - set bs) \<union> (set bs - set as)" (is "?l = ?r")
  proof (rule set_eqI)
    fix x
    note picked_set [OF assms]
    also have "(\<exists>p. kept_beside (\<lambda>y. y) (set as) (set bs) p \<and> x \<in> set (one_of p)) \<longleftrightarrow> kept_beside (\<lambda>y. y) (set as) (set bs) (Some x, None) \<or> kept_beside (\<lambda>y. y) (set as) (set bs) (None, Some x)"
    proof
      assume "\<exists>p. kept_beside (\<lambda>y. y) (set as) (set bs) p \<and> x \<in> set (one_of p)"
      then obtain p where p: "kept_beside (\<lambda>y. y) (set as) (set bs) p" "x \<in> set (one_of p)" by blast
      then have "p = (Some x, None) \<or> p = (None, Some x)" by (cases p rule: option_pair_cases) (auto simp: one_of_def)
      then show "kept_beside (\<lambda>y. y) (set as) (set bs) (Some x, None) \<or> kept_beside (\<lambda>y. y) (set as) (set bs) (None, Some x)"
        using p(1) by blast
    next
      assume "kept_beside (\<lambda>y. y) (set as) (set bs) (Some x, None) \<or> kept_beside (\<lambda>y. y) (set as) (set bs) (None, Some x)"
      moreover have "x \<in> set (one_of (Some x, None))" "x \<in> set (one_of (None, Some x))" by (simp_all add: one_of_def)
      ultimately show "\<exists>p. kept_beside (\<lambda>y. y) (set as) (set bs) p \<and> x \<in> set (one_of p)" by blast
    qed
    finally show "x \<in> ?l \<longleftrightarrow> x \<in> ?r" by auto
  qed
qed

section \<open>The set is an ordered set\<close>

context ordered_set
begin

lemma len_card: "ok t \<Longrightarrow> os_len S t = card (set (os_iter S t))"
  using len iter ascending_card by metis

lemma set_iter_ascending: "set_ok S ok s \<Longrightarrow> ascending (set_iter S s)"
  by (cases "s_members s") (auto simp: set_ok_def set_iter_def iter)

lemma set_tree_abs:
  assumes "set_ok S ok s" and "set_tree S s = Some t"
  shows "ok t" and "set (os_iter S t) = set_abs S s" and "FLAT_MOST div 2 < os_len S t"
proof -
  have "ok t \<and> set (os_iter S t) = set_abs S s \<and> FLAT_MOST div 2 < os_len S t"
  proof (cases "s_members s")
    case (Set_Side xs made)
    then have "ok t \<and> set (os_iter S t) = set xs" using assms of_list by (cases made) (auto simp: set_ok_def)
    then show ?thesis using Set_Side assms(1) len_card [of t] ascending_card [of xs] by (auto simp: set_ok_def set_iter_def)
  qed (use assms in \<open>auto simp: set_ok_def set_iter_def\<close>)
  then show "ok t" and "set (os_iter S t) = set_abs S s" and "FLAT_MOST div 2 < os_len S t" by auto
qed

lemma set_tree_none: "set_tree S s = None \<longleftrightarrow> (\<exists>xs. s_members s = Set_Flat xs)"
proof (cases "s_members s")
  case (Set_Side xs made)
  then show ?thesis by (cases made) simp_all
qed simp_all

lemma set_len_abs: "set_ok S ok s \<Longrightarrow> set_len S s = card (set_abs S s)"
  using ascending_card [OF set_iter_ascending, of s] len
  by (cases "s_members s") (auto simp: set_ok_def set_len_def set_iter_def)

lemma set_contains_abs: "set_ok S ok s \<Longrightarrow> set_contains S s x \<longleftrightarrow> x \<in> set_abs S s"
  by (cases "s_members s") (auto simp: set_ok_def set_contains_def set_iter_def has find_member)

lemma set_of_tree_abs: "ok t \<Longrightarrow> set_ok S ok (set_of_tree S t) \<and> set_iter S (set_of_tree S t) = os_iter S t"
  using iter len by (auto simp: set_of_tree_def set_of_def set_ok_def set_iter_def FLAT_MOST_def)

lemma set_of_sorted_abs: "ascending xs \<Longrightarrow> set_ok S ok (set_of_sorted xs) \<and> set_iter S (set_of_sorted xs) = xs"
  by (auto simp: set_of_sorted_def set_of_def set_ok_def set_iter_def)

lemma grown:
  assumes "ok t" and "ok u" and "set (os_iter S t) \<subseteq> set (os_iter S u)" and "FLAT_MOST div 2 < os_len S t"
  shows "set_ok S ok (set_of (Set_Tree u))"
  using assms card_mono [OF finite_set assms(3)] by (simp add: set_ok_def set_of_def len_card)

lemma set_of_iter [simp]: "set_iter S (set_of (Set_Tree t)) = os_iter S t" "set_iter S (set_of (Set_Flat xs)) = xs"
  by (simp_all add: set_iter_def set_of_def)

lemma set_inserted_abs:
  assumes "set_ok S ok s"
  shows "set_ok S ok (set_inserted S x s) \<and> set_abs S (set_inserted S x s) = Set.insert x (set_abs S s)"
proof (cases "set_tree S s")
  case (Some t)
  note t = set_tree_abs [OF assms Some]
  have "set_inserted S x s = (if x \<in> set_abs S s then s else set_of (Set_Tree (os_insert S x t)))"
    using Some set_contains_abs [OF assms, of x] by (cases "s_members s") (simp_all add: set_inserted_def)
  then show ?thesis using insert [OF t(1), of x] t grown [OF t(1), of "os_insert S x t"] assms by auto
next
  case None
  then obtain xs where s: "s_members s = Set_Flat xs" by (auto simp: set_tree_none)
  then have xs: "ascending xs" "length xs \<le> FLAT_MOST" "set_abs S s = set xs" using assms by (simp_all add: set_ok_def set_iter_def)
  from xs(1) show ?thesis
  proof (cases rule: find_member_cases [where x = x])
    case (found at ys zs)
    then show ?thesis using s xs assms by (simp add: set_inserted_def insert_absorb)
  next
    case (missing at ys zs)
    have "ascending (ys @ x # zs)" using in_order_insert [of "\<lambda>y. y" ys zs x] xs(1) missing by simp
    then have "set_ok S ok (set_of (Set_Flat (ys @ x # zs)))" if "length xs < FLAT_MOST"
      using that missing by (simp add: set_ok_def set_of_def)
    moreover have of: "ok (os_of S xs)" "set (os_iter S (os_of S xs)) = set xs" using of_list [of xs] by auto
    moreover have "set_ok S ok (set_of (Set_Tree (os_insert S x (os_of S xs))))" if "\<not> length xs < FLAT_MOST"
      using that insert [OF of(1), of x] of len_card [OF of(1)] ascending_card [OF xs(1)]
      by (intro grown [OF of(1)]) (auto simp: FLAT_MOST_def)
    ultimately show ?thesis
      using s xs missing insert [OF of(1), of x] by (auto simp: set_inserted_def)
  qed
qed

lemma set_removed_abs:
  assumes "set_ok S ok s"
  shows "set_ok S ok (set_removed S x s) \<and> set_abs S (set_removed S x s) = set_abs S s - {x}"
proof (cases "set_tree S s")
  case (Some t)
  note t = set_tree_abs [OF assms Some]
  have "set_removed S x s = (if x \<in> set_abs S s then set_of_tree S (os_remove S x t) else s)"
    using Some set_contains_abs [OF assms, of x] by (cases "s_members s") (simp_all add: set_removed_def)
  then show ?thesis using remove [OF t(1), of x] t set_of_tree_abs assms by auto
next
  case None
  then obtain xs where s: "s_members s = Set_Flat xs" by (auto simp: set_tree_none)
  then have xs: "ascending xs" "length xs \<le> FLAT_MOST" "set_abs S s = set xs" using assms by (simp_all add: set_ok_def set_iter_def)
  from xs(1) show ?thesis
  proof (cases rule: find_member_cases [where x = x])
    case (found at ys zs)
    have "ascending (ys @ zs)" using in_order_remove [of "\<lambda>y. y" ys x zs] xs(1) found(2) by simp
    then show ?thesis using s xs found by (auto simp: set_removed_def set_ok_def set_of_def set_iter_def)
  next
    case (missing at ys zs)
    then show ?thesis using s xs assms by (auto simp: set_removed_def)
  qed
qed

lemma insert_all: "ok t \<Longrightarrow> ok (fold (os_insert S) xs t) \<and> set (os_iter S (fold (os_insert S) xs t)) = set xs \<union> set (os_iter S t)"
  by (induction xs arbitrary: t) (auto simp: insert)

lemma remove_all: "ok t \<Longrightarrow> ok (fold (os_remove S) xs t) \<and> set (os_iter S (fold (os_remove S) xs t)) = set (os_iter S t) - set xs"
  by (induction xs arbitrary: t) (auto simp: remove)

lemma toggle_all:
  assumes "ok t" and "distinct xs" and "u = fold (\<lambda>x t. if os_has S t x then os_remove S x t else os_insert S x t) xs t"
  shows "ok u \<and> set (os_iter S u) = (set (os_iter S t) - set xs) \<union> (set xs - set (os_iter S t))"
  using assms
proof (induction xs arbitrary: t)
  case (Cons x xs)
  let ?t = "if os_has S t x then os_remove S x t else os_insert S x t"
  have "ok ?t" "set (os_iter S ?t) = (if x \<in> set (os_iter S t) then set (os_iter S t) - {x} else Set.insert x (set (os_iter S t)))"
    using insert [OF Cons.prems(1), of x] remove [OF Cons.prems(1), of x] has [OF Cons.prems(1), of x] by simp_all
  then show ?case using Cons.IH [of ?t] Cons.prems(2,3) by auto
qed simp

lemma by_size_ok:
  assumes "set_ok S ok s" and "set_ok S ok other" and "by_size S s other = (larger, smaller)"
  shows "set_ok S ok larger" "set_ok S ok smaller" "set_abs S larger \<union> set_abs S smaller = set_abs S s \<union> set_abs S other"
    "set_abs S larger \<inter> set_abs S smaller = set_abs S s \<inter> set_abs S other" "card (set_abs S smaller) \<le> card (set_abs S larger)"
  using assms set_len_abs by (auto simp: by_size_def split: if_splits)

lemma set_united_abs:
  assumes "set_ok S ok s" and "set_ok S ok other"
  shows "set_ok S ok (set_united S s other) \<and> set_abs S (set_united S s other) = set_abs S s \<union> set_abs S other"
proof -
  obtain larger smaller where size: "by_size S s other = (larger, smaller)" by (cases "by_size S s other")
  note b = by_size_ok [OF assms size]
  consider "set_len S smaller = 0" | "set_len S smaller \<noteq> 0" "set_tree S larger = None"
    | t where "set_len S smaller \<noteq> 0" "set_tree S larger = Some t" by (cases "set_tree S larger") auto
  then show ?thesis
  proof cases
    case 1
    then show ?thesis using size b set_len_abs [OF b(2)] by (auto simp: set_united_def)
  next
    case 2
    then show ?thesis
      using size united [OF set_iter_ascending [OF assms(1)] set_iter_ascending [OF assms(2)]] set_of_sorted_abs
      by (simp add: set_united_def)
  next
    case (3 t)
    note t = set_tree_abs [OF b(1) 3(2)]
    let ?new = "filter (\<lambda>x. \<not> os_has S t x) (set_iter S smaller)"
    have new: "set ?new = set_abs S smaller - set_abs S larger" using has [OF t(1)] t(2) by auto
    have all: "ok (fold (os_insert S) ?new t)" "set (os_iter S (fold (os_insert S) ?new t)) = set_abs S smaller \<union> set_abs S larger"
      using insert_all [OF t(1), of ?new] new t(2) by auto
    have "set_united S s other = (if ?new = [] then larger else set_of (Set_Tree (fold (os_insert S) ?new t)))"
      using size 3 by (simp add: set_united_def changed_filter)
    moreover have "set_ok S ok (set_of (Set_Tree (fold (os_insert S) ?new t)))"
      using all t(2) by (intro grown [OF t(1) all(1) _ t(3)]) auto
    moreover have "set_abs S smaller \<subseteq> set_abs S larger" if "?new = []" using new that by (metis Diff_eq_empty_iff empty_set)
    ultimately show ?thesis using all b by (cases "?new = []") (auto simp del: filter_empty_conv)
  qed
qed

lemma set_intersection_abs:
  assumes "set_ok S ok s" and "set_ok S ok other"
  shows "set_ok S ok (set_intersection S s other) \<and> set_abs S (set_intersection S s other) = set_abs S s \<inter> set_abs S other"
proof -
  obtain larger smaller where size: "by_size S s other = (larger, smaller)" by (cases "by_size S s other")
  note b = by_size_ok [OF assms size]
  have "ascending (filter (set_contains S larger) (set_iter S smaller))" using set_iter_ascending [OF b(2)] by (rule sorted_wrt_filter)
  from set_of_sorted_abs [OF this] show ?thesis
    using size b(4) set_contains_abs [OF b(1)]
    by (auto simp: set_intersection_def)
qed

lemma set_differed_abs:
  assumes "set_ok S ok s" and "set_ok S ok other"
  shows "set_ok S ok (set_differed S s other) \<and> set_abs S (set_differed S s other) = set_abs S s - set_abs S other"
proof (cases "if set_len S s > set_len S other then set_tree S s else None")
  case None
  let ?kept = "filter (\<lambda>x. \<not> set_contains S other x) (set_iter S s)"
  have kept: "ascending ?kept" "set ?kept = set_abs S s - set_abs S other"
    using set_iter_ascending [OF assms(1)] set_contains_abs [OF assms(2)] by (auto intro: sorted_wrt_filter)
  have "set ?kept = set_abs S s" if "length ?kept = set_len S s"
    using that ascending_card [OF kept(1)] set_len_abs [OF assms(1)] by (intro card_subset_eq) auto
  then show ?thesis
    using None kept set_of_sorted_abs [OF kept(1)] assms(1) by (auto simp: set_differed_def Let_def)
next
  case (Some t)
  then have "set_tree S s = Some t" by (simp split: if_splits)
  note t = set_tree_abs [OF assms(1) this]
  let ?old = "filter (os_has S t) (set_iter S other)"
  have old: "set ?old = set_abs S other \<inter> set_abs S s" using has [OF t(1)] t(2) by auto
  have all: "ok (fold (os_remove S) ?old t)" "set (os_iter S (fold (os_remove S) ?old t)) = set_abs S s - set_abs S other"
    using remove_all [OF t(1), of ?old] old t(2) by auto
  have "set_differed S s other = (if ?old = [] then s else set_of_tree S (fold (os_remove S) ?old t))"
    using Some by (simp add: set_differed_def changed_filter)
  moreover have "set_abs S other \<inter> set_abs S s = {}" if "?old = []" using old that by (metis empty_set)
  ultimately show ?thesis using all set_of_tree_abs [OF all(1)] assms(1) by (cases "?old = []") (auto simp del: filter_empty_conv)
qed

lemma set_symmetric_differed_abs:
  assumes "set_ok S ok s" and "set_ok S ok other"
  shows "set_ok S ok (set_symmetric_differed S s other) \<and>
    set_abs S (set_symmetric_differed S s other) = (set_abs S s - set_abs S other) \<union> (set_abs S other - set_abs S s)"
proof -
  obtain larger smaller where size: "by_size S s other = (larger, smaller)" by (cases "by_size S s other")
  note b = by_size_ok [OF assms size]
  have sides: "(set_abs S s - set_abs S other) \<union> (set_abs S other - set_abs S s) =
    (set_abs S larger - set_abs S smaller) \<union> (set_abs S smaller - set_abs S larger)" using b(3,4) by blast
  consider "set_len S smaller = 0" | "set_len S smaller \<noteq> 0" "set_tree S larger = None"
    | t where "set_len S smaller \<noteq> 0" "set_tree S larger = Some t" by (cases "set_tree S larger") auto
  then show ?thesis
  proof cases
    case 1
    then show ?thesis unfolding sides using size b set_len_abs [OF b(2)] by (auto simp: set_symmetric_differed_def)
  next
    case 2
    then show ?thesis
      using size apart [OF set_iter_ascending [OF assms(1)] set_iter_ascending [OF assms(2)]] set_of_sorted_abs
      by (simp add: set_symmetric_differed_def)
  next
    case (3 t)
    note t = set_tree_abs [OF b(1) 3(2)]
    define u where "u = fold (\<lambda>x t. if os_has S t x then os_remove S x t else os_insert S x t) (set_iter S smaller) t"
    have u: "ok u" "set (os_iter S u) = (set_abs S larger - set_abs S smaller) \<union> (set_abs S smaller - set_abs S larger)"
      using toggle_all [OF t(1) _ u_def] set_iter_ascending [OF b(2)] t(2) by (auto simp: strict_sorted_iff)
    show ?thesis unfolding sides using size 3 u set_of_tree_abs [OF u(1)] by (simp add: set_symmetric_differed_def u_def)
  qed
qed

lemma set_is_subset_abs:
  assumes "set_ok S ok s" and "set_ok S ok other"
  shows "set_is_subset S s other \<longleftrightarrow> set_abs S s \<subseteq> set_abs S other"
  using set_len_abs [OF assms(1)] set_len_abs [OF assms(2)] set_contains_abs [OF assms(2)] card_mono [of "set_abs S other" "set_abs S s"]
  by (auto simp: set_is_subset_def list_all_iff)

lemma set_from_abs: "set_ok S ok (set_from xs) \<and> set_abs S (set_from xs) = set xs"
  using set_of_sorted_abs [OF ascending_remdups, of xs] by (simp add: set_from_def)

end

text \<open>The set as a record of its operations, and members side by side as an ordered set.\<close>

definition set_ops :: "('a \<Rightarrow> bool) \<Rightarrow> ('t, 'a :: linorder) ordset \<Rightarrow> (('t, 'a) set_value, 'a) ordset" where
  "set_ops is_no_fn S =
     \<lparr>os_iter = set_iter S, os_len = set_len S, os_has = set_contains S, os_insert = set_insert is_no_fn S,
      os_remove = set_remove S, os_of = set_from\<rparr>"

lemma set_keeps_contract:
  assumes "ordered_set S ok"
  shows "ordered_set (set_ops is_no_fn S) (set_ok S ok)"
proof -
  have "set_len S s = length (set_iter S s)" if "set_ok S ok s" for s
    using ordered_set.set_len_abs [OF assms that] ascending_card [OF ordered_set.set_iter_ascending [OF assms that]] by simp
  note laws = this ordered_set.set_iter_ascending [OF assms] ordered_set.set_contains_abs [OF assms] ordered_set.set_inserted_abs [OF assms] ordered_set.set_removed_abs [OF assms] ordered_set.set_from_abs [OF assms]
  show ?thesis
    by unfold_locales (use laws in \<open>simp_all add: set_ops_def set_insert_def set_remove_def\<close>)
qed

definition flat_set_ops :: "('a :: linorder list, 'a) ordset" where
  "flat_set_ops =
     \<lparr>os_iter = (\<lambda>xs. xs), os_len = length,
      os_has = (\<lambda>xs x. case find_at (\<lambda>y. y) xs x of Inr _ \<Rightarrow> True | Inl _ \<Rightarrow> False),
      os_insert = (\<lambda>x xs. case find_at (\<lambda>y. y) xs x of Inr _ \<Rightarrow> xs | Inl at \<Rightarrow> with_at xs at x),
      os_remove = (\<lambda>x xs. case find_at (\<lambda>y. y) xs x of Inr at \<Rightarrow> without_at xs at | Inl _ \<Rightarrow> xs),
      os_of = (\<lambda>xs. remdups_adj (sort xs))\<rparr>"

lemma flat_set_insert:
  assumes "ascending xs" and "ys = (case find_at (\<lambda>y. y) xs x of Inr _ \<Rightarrow> xs | Inl at \<Rightarrow> with_at xs at x)"
  shows "ascending ys \<and> set ys = insert x (set xs)"
  using assms(1)
proof (cases rule: find_member_cases [where x = x])
  case (missing at us vs)
  then show ?thesis using assms in_order_insert [of "\<lambda>y. y" us vs x] by auto
qed (use assms in auto)

lemma flat_set_remove:
  assumes "ascending xs" and "ys = (case find_at (\<lambda>y. y) xs x of Inr at \<Rightarrow> without_at xs at | Inl _ \<Rightarrow> xs)"
  shows "ascending ys \<and> set ys = set xs - {x}"
  using assms(1)
proof (cases rule: find_member_cases [where x = x])
  case (found at us vs)
  then show ?thesis using assms in_order_remove [of "\<lambda>y. y" us x vs] by auto
qed (use assms in auto)

interpretation flat_set: ordered_set flat_set_ops ascending
  by unfold_locales
    (simp_all add: flat_set_ops_def flat_set_insert [OF _ refl] flat_set_remove [OF _ refl] find_member ascending_remdups)

interpretation stored_set: ordered_set "set_ops is_no_fn flat_set_ops" "set_ok flat_set_ops ascending"
  by (rule set_keeps_contract) (rule flat_set.ordered_set_axioms)

section \<open>What the set promises\<close>

lemma fns_right_laws:
  "fns_right P f A \<Longrightarrow> (no \<Longrightarrow> \<not> P x) \<Longrightarrow>
    fns_right P (case f of Fns_Yes \<Rightarrow> Fns_Yes | Fns_No \<Rightarrow> if no then Fns_No else Fns_Unknown | _ \<Rightarrow> Fns_Unknown) (insert x A)"
  "fns_right P f A \<Longrightarrow> B \<subseteq> A \<Longrightarrow> fns_right P (fns_some_of f) B"
  "fns_right P f A \<Longrightarrow> fns_right P g B \<Longrightarrow> fns_right P (fns_either f g) (A \<union> B)"
  "fns_right P f A \<Longrightarrow> fns_right P g B \<Longrightarrow> fns_right P (if f = Fns_No \<or> g = Fns_No then Fns_No else Fns_Unknown) (A \<inter> B)"
  by (cases f; auto simp: fns_right_def fns_some_of_def fns_either_def split: fns.splits)+

lemma set_answers:
  assumes "ordered_set S ok" and "set_ok S ok s" and "set_ok S ok other" and "fns_ok P S s" and "fns_ok P S other"
    and "\<And>x. is_no_fn x \<Longrightarrow> \<not> P x"
  shows "fns_ok P S (set_insert is_no_fn S x s)" "fns_ok P S (set_remove S x s)" "fns_ok P S (set_union S s other)"
    "fns_ok P S (set_intersection S s other)" "fns_ok P S (set_difference S s other)"
    "fns_ok P S (set_symmetric_difference S s other)"
proof -
  note abs = ordered_set.set_inserted_abs [OF assms(1,2), of x] ordered_set.set_removed_abs [OF assms(1,2), of x]
    ordered_set.set_united_abs [OF assms(1-3)] ordered_set.set_intersection_abs [OF assms(1-3)]
    ordered_set.set_differed_abs [OF assms(1-3)] ordered_set.set_symmetric_differed_abs [OF assms(1-3)]
  have given: "fns_ok P S r" if "r = s \<or> s_fns r = Fns_Unknown" for r
    using that assms(4) unknown_right by metis
  have given2: "fns_ok P S r" if "r \<in> {s, other} \<or> s_fns r = Fns_Unknown" for r
    using that assms(4,5) unknown_right by blast
  note right = assms(4) [unfolded fns_ok_right] assms(5) [unfolded fns_ok_right]
  show "fns_ok P S (set_insert is_no_fn S x s)"
    unfolding set_insert_def
    by (rule knowing_right [OF given [OF given_or_unknown(1)]])
      (unfold conjunct2 [OF abs(1)], rule fns_right_laws(1) [OF right(1) assms(6)])
  show "fns_ok P S (set_remove S x s)"
    unfolding set_remove_def
    by (rule knowing_right [OF given [OF given_or_unknown(2)]])
      (unfold conjunct2 [OF abs(2)], rule fns_right_laws(2) [OF right(1) Diff_subset])
  show "fns_ok P S (set_union S s other)"
    unfolding set_union_def
    by (rule knowing_right [OF given2 [OF given_or_unknown(3)]])
      (unfold conjunct2 [OF abs(3)], rule fns_right_laws(3) [OF right])
  show "fns_ok P S (set_difference S s other)"
    unfolding set_difference_def
    by (rule knowing_right [OF given [OF given_or_unknown(4)]])
      (unfold conjunct2 [OF abs(5)], rule fns_right_laws(2) [OF right(1) Diff_subset])
  show "fns_ok P S (set_symmetric_difference S s other)"
    unfolding set_symmetric_difference_def
    by (rule knowing_right [OF given2 [OF given_or_unknown(5)]])
      (unfold conjunct2 [OF abs(6)], rule fns_right_laws(2) [OF fns_right_laws(3) [OF right]], blast)
  show "fns_ok P S (set_intersection S s other)"
  proof -
    obtain larger smaller where size: "by_size S s other = (larger, smaller)" by (cases "by_size S s other")
    have "set_intersection S s other = knowing (if s_fns s = Fns_No \<or> s_fns other = Fns_No then Fns_No else Fns_Unknown)
      (set_of_sorted (filter (set_contains S larger) (set_iter S smaller)))" (is "_ = knowing ?f ?made")
      by (simp add: set_intersection_def size)
    moreover have "set_abs S ?made = set_abs S s \<inter> set_abs S other"
      using abs(4) calculation by (metis knowing_iter)
    ultimately show ?thesis
      using knowing_right [OF unknown_right [of ?made P S], of ?f] fns_right_laws(4) [OF right] by simp
  qed
qed

text \<open>C37: a set, whichever of its three ways it is kept in, is the finite set of its members, for every
  tree that is an ordered set: membership, size, order, insertion, removal, union, intersection,
  difference, symmetric difference and the subset test are those of finite sets, and the stored answer
  to whether a member has a function in it is right after each of them.\<close>

theorem set_is_finite_set:
  assumes "ordered_set S ok" and "set_ok S ok s" and "set_ok S ok other" and "fns_ok contains_fn S s" and "fns_ok contains_fn S other"
    and "\<And>x. is_no_fn x \<Longrightarrow> \<not> contains_fn x"
  shows "ascending (set_iter S s) \<and> set_len S s = card (set_abs S s) \<and> (set_contains S s x \<longleftrightarrow> x \<in> set_abs S s) \<and>
    (set_is_subset S s other \<longleftrightarrow> set_abs S s \<subseteq> set_abs S other) \<and>
    (fst (holds_fn contains_fn S s) \<longleftrightarrow> (\<exists>y \<in> set_abs S s. contains_fn y)) \<and>
    list_all (\<lambda>(made, members). set_ok S ok made \<and> fns_ok contains_fn S made \<and> set_abs S made = members)
      [(set_insert is_no_fn S x s, insert x (set_abs S s)), (set_remove S x s, set_abs S s - {x}),
       (set_union S s other, set_abs S s \<union> set_abs S other), (set_intersection S s other, set_abs S s \<inter> set_abs S other),
       (set_difference S s other, set_abs S s - set_abs S other),
       (set_symmetric_difference S s other, (set_abs S s - set_abs S other) \<union> (set_abs S other - set_abs S s)),
       (set_from xs, set xs), (snd (holds_fn contains_fn S s), set_abs S s)]"
proof -
  note abs = ordered_set.set_iter_ascending [OF assms(1,2)] ordered_set.set_len_abs [OF assms(1,2)]
    ordered_set.set_contains_abs [OF assms(1,2)] ordered_set.set_is_subset_abs [OF assms(1-3)]
    ordered_set.set_inserted_abs [OF assms(1,2), of x] ordered_set.set_removed_abs [OF assms(1,2), of x]
    ordered_set.set_united_abs [OF assms(1-3)] ordered_set.set_intersection_abs [OF assms(1-3)]
    ordered_set.set_differed_abs [OF assms(1-3)] ordered_set.set_symmetric_differed_abs [OF assms(1-3)]
    ordered_set.set_from_abs [OF assms(1), of xs]
  have walked: "(fst (holds_fn contains_fn S s) \<longleftrightarrow> (\<exists>y \<in> set_abs S s. contains_fn y))"
    "set_ok S ok (snd (holds_fn contains_fn S s))" "set_iter S (snd (holds_fn contains_fn S s)) = set_iter S s"
    "fns_ok contains_fn S (snd (holds_fn contains_fn S s))"
    using assms(2,4) by (auto simp: holds_fn_def Let_def fns_ok_right fns_right_def list_ex_iff split: fns.splits)
      (auto simp: knowing_def fns_right_def)
  have "fns_ok contains_fn S (set_from xs)" by (rule unknown_right) (simp add: set_from_def)
  then show ?thesis
    using abs walked set_answers(1,2) [OF assms] set_answers(3-6) [OF assms]
    by (simp add: set_insert_def set_remove_def set_union_def set_difference_def set_symmetric_difference_def)
qed

theorem set_is_finite_set_witness:
  "set_len flat_set_ops (without_fn [3, 1, 3 :: int]) = 2 \<and>
   set_abs flat_set_ops (set_union flat_set_ops (without_fn [3, 1, 3]) (set_of (Set_Tree [2..20]))) = {1 :: int..20} \<and>
   set_abs flat_set_ops (set_difference flat_set_ops (set_of (Set_Tree [2..20])) (without_fn [3, 1, 3])) = {2 :: int, 4} \<union> {5..20}"
proof -
  have one: "set_ok flat_set_ops ascending (without_fn [3, 1, 3 :: int])" "fns_ok (\<lambda>x. x = 7) flat_set_ops (without_fn [3, 1, 3 :: int])"
    "set_abs flat_set_ops (without_fn [3, 1, 3 :: int]) = {1, 3}"
    by (simp_all add: without_fn_def set_from_def set_of_sorted_def set_of_def set_ok_def fns_ok_def knowing_def set_iter_def FLAT_MOST_def)
  have two: "set_ok flat_set_ops ascending (set_of (Set_Tree [2..20 :: int]))" "fns_ok (\<lambda>x. x = 7) flat_set_ops (set_of (Set_Tree [2..20 :: int]))"
    "set_iter flat_set_ops (set_of (Set_Tree [2..20 :: int])) = [2..20]"
    by (simp_all add: set_of_def set_ok_def fns_ok_def set_iter_def flat_set_ops_def FLAT_MOST_def)
  show ?thesis
    using set_is_finite_set [OF flat_set.ordered_set_axioms one(1) two(1) one(2) two(2), of "\<lambda>_. False"]
      set_is_finite_set [OF flat_set.ordered_set_axioms two(1) one(1) two(2) one(2), of "\<lambda>_. False"]
    unfolding one(3) two(3) set_upto by auto
qed

end
