(* ===== verification/Machine_Int.thy ===== *)
theory Machine_Int
  imports Prelude "HOL-Library.Signed_Division"
begin

text \<open>
  Signed integers of a width as the Rust of the program computes with them: the operations that tell an
  overflow (\<^verbatim>\<open>checked_add\<close> and its like) and the division that rounds towards zero.
\<close>

definition in_i64 :: "int \<Rightarrow> bool" where
  "in_i64 n \<longleftrightarrow> - (2 ^ 63) \<le> n \<and> n < 2 ^ 63"

definition in_i128 :: "int \<Rightarrow> bool" where
  "in_i128 n \<longleftrightarrow> - (2 ^ 127) \<le> n \<and> n < 2 ^ 127"

definition checked :: "int \<Rightarrow> int option" where
  "checked n = (if in_i64 n then Some n else None)"

definition checked_add :: "int \<Rightarrow> int \<Rightarrow> int option" where
  "checked_add a b = checked (a + b)"

definition checked_sub :: "int \<Rightarrow> int \<Rightarrow> int option" where
  "checked_sub a b = checked (a - b)"

definition checked_mul :: "int \<Rightarrow> int \<Rightarrow> int option" where
  "checked_mul a b = checked (a * b)"

definition checked_div :: "int \<Rightarrow> int \<Rightarrow> int option" where
  "checked_div a b = (if b = 0 then None else checked (a sdiv b))"

definition wrapping_add :: "int \<Rightarrow> int \<Rightarrow> int" where
  "wrapping_add a b = (a + b + 2 ^ 63) mod 2 ^ 64 - 2 ^ 63"

lemma wrapping_add_exact: "in_i64 (a + b) \<Longrightarrow> wrapping_add a b = a + b"
  by (simp add: wrapping_add_def in_i64_def)

lemma wrapping_add_in_i64: "in_i64 (wrapping_add a b)"
proof -
  have "0 \<le> (a + b + 2 ^ 63) mod 2 ^ 64" "(a + b + 2 ^ 63) mod 2 ^ 64 < (2 :: int) ^ 64" by simp_all
  then show ?thesis by (simp add: wrapping_add_def in_i64_def)
qed

lemma checked_eq [simp]:
  "checked n = Some m \<longleftrightarrow> n = m \<and> in_i64 n"
  "checked n = None \<longleftrightarrow> \<not> in_i64 n"
  by (auto simp: checked_def)

end
