(* ===== verification/List_Value.thy ===== *)
theory List_Value
  imports Value Machine_Int
begin

text \<open>
  The list value (\<^verbatim>\<open>value/list.rs\<close>): a short list is a part of a buffer, a long one a part of elements
  side by side or of a tree, a range its two ends. The tree is the vector of a library, a record of
  its operations here, of which the contract of a sequence is relied on. That a change leaves the tree
  of a list made in one go behind for the next one is \<open>list_tree_made\<close>.
\<close>

section \<open>Sequences\<close>

record ('t, 'a) vec =
  tv_iter :: "'t \<Rightarrow> 'a list"
  tv_len :: "'t \<Rightarrow> nat"
  tv_get :: "'t \<Rightarrow> nat \<Rightarrow> 'a"
  tv_leaves :: "'t \<Rightarrow> 'a list list"
  tv_chunk_at :: "'t \<Rightarrow> nat \<Rightarrow> nat \<times> 'a list"
  tv_of :: "'a list \<Rightarrow> 't"
  tv_push_front :: "'a \<Rightarrow> 't \<Rightarrow> 't"
  tv_push_back :: "'a \<Rightarrow> 't \<Rightarrow> 't"
  tv_set :: "nat \<Rightarrow> 'a \<Rightarrow> 't \<Rightarrow> 't"
  tv_remove :: "nat \<Rightarrow> 't \<Rightarrow> 't"
  tv_append :: "'t \<Rightarrow> 't \<Rightarrow> 't"
  tv_skip :: "nat \<Rightarrow> 't \<Rightarrow> 't"
  tv_truncate :: "nat \<Rightarrow> 't \<Rightarrow> 't"

text \<open>A sequence, held in leaves, some of which may be empty.\<close>

locale vector =
  fixes V :: "('t, 'a) vec" and ok :: "'t \<Rightarrow> bool"
  assumes len: "ok t \<Longrightarrow> tv_len V t = length (tv_iter V t)"
    and get: "ok t \<Longrightarrow> i < length (tv_iter V t) \<Longrightarrow> tv_get V t i = tv_iter V t ! i"
    and leaves: "ok t \<Longrightarrow> concat (tv_leaves V t) = tv_iter V t"
    and chunk_at: "ok t \<Longrightarrow> i < length (tv_iter V t) \<Longrightarrow> tv_chunk_at V t i = (at, leaf) \<Longrightarrow>
      at \<le> i \<and> i < at + length leaf \<and> leaf = take (length leaf) (drop at (tv_iter V t))"
    and of_list: "ok (tv_of V xs) \<and> tv_iter V (tv_of V xs) = xs"
    and push_front: "ok t \<Longrightarrow> ok (tv_push_front V x t) \<and> tv_iter V (tv_push_front V x t) = x # tv_iter V t"
    and push_back: "ok t \<Longrightarrow> ok (tv_push_back V x t) \<and> tv_iter V (tv_push_back V x t) = tv_iter V t @ [x]"
    and set: "ok t \<Longrightarrow> i < length (tv_iter V t) \<Longrightarrow> ok (tv_set V i x t) \<and> tv_iter V (tv_set V i x t) = (tv_iter V t)[i := x]"
    and remove: "ok t \<Longrightarrow> i < length (tv_iter V t) \<Longrightarrow>
      ok (tv_remove V i t) \<and> tv_iter V (tv_remove V i t) = take i (tv_iter V t) @ drop (Suc i) (tv_iter V t)"
    and append: "ok t \<Longrightarrow> ok u \<Longrightarrow> ok (tv_append V t u) \<and> tv_iter V (tv_append V t u) = tv_iter V t @ tv_iter V u"
    and skip: "ok t \<Longrightarrow> n \<le> length (tv_iter V t) \<Longrightarrow> ok (tv_skip V n t) \<and> tv_iter V (tv_skip V n t) = drop n (tv_iter V t)"
    and truncate: "ok t \<Longrightarrow> n \<le> length (tv_iter V t) \<Longrightarrow> ok (tv_truncate V n t) \<and> tv_iter V (tv_truncate V n t) = take n (tv_iter V t)"

section \<open>The list\<close>

definition MAX_COLLECTION_LEN :: nat where
  "MAX_COLLECTION_LEN = 10000000"

definition LIST_FLAT_MOST :: nat where
  "LIST_FLAT_MOST = 64"

definition PUSHED_MOST :: nat where
  "PUSHED_MOST = 1024"

datatype 't long_items = Long_Side "val list" "'t option" | Long_Tree 't

datatype 't list_value =
    LV_Items "val list" nat nat
  | LV_Long "'t long_items" nat nat
  | LV_Ints int int

text \<open>A range has too many elements: its ends, and how many there may be.\<close>

datatype too_long = Too_Long int int nat

fun long_len :: "('t, val) vec \<Rightarrow> 't long_items \<Rightarrow> nat" where
  "long_len V (Long_Side items _) = length items"
| "long_len V (Long_Tree t) = tv_len V t"

text \<open>The Int \<open>i\<close> places after another.\<close>

definition int_at :: "int \<Rightarrow> nat \<Rightarrow> int" where
  "int_at lo i = wrapping_add lo (int i)"

fun lv_len :: "'t list_value \<Rightarrow> nat" where
  "lv_len (LV_Items _ _ n) = n"
| "lv_len (LV_Long _ _ n) = n"
| "lv_len (LV_Ints lo hi) = nat \<bar>hi - lo\<bar> + 1"

fun lv_get :: "('t, val) vec \<Rightarrow> 't list_value \<Rightarrow> nat \<Rightarrow> val option" where
  "lv_get V (LV_Items buf start n) i = (if i < n then Some (take n (drop start buf) ! i) else None)"
| "lv_get V (LV_Long (Long_Side items _) start n) i = (if i < n then Some (items ! (start + i)) else None)"
| "lv_get V (LV_Long (Long_Tree t) start n) i = (if i < n then Some (tv_get V t (start + i)) else None)"
| "lv_get V (LV_Ints lo hi) i = (if i < lv_len (LV_Ints lo hi :: 't list_value) then Some (Int_Val (int_at lo i)) else None)"

definition lv_first :: "('t, val) vec \<Rightarrow> 't list_value \<Rightarrow> val option" where
  "lv_first V l = lv_get V l 0"

definition lv_last :: "('t, val) vec \<Rightarrow> 't list_value \<Rightarrow> val option" where
  "lv_last V l = (if lv_len l = 0 then None else lv_get V l (lv_len l - 1))"

text \<open>The elements from one index up to another.\<close>

fun lv_iter_part :: "('t, val) vec \<Rightarrow> 't list_value \<Rightarrow> nat \<Rightarrow> nat \<Rightarrow> val list" where
  "lv_iter_part V (LV_Items buf start n) lo_i hi_i = take (hi_i - lo_i) (drop lo_i (take n (drop start buf)))"
| "lv_iter_part V (LV_Long (Long_Side items _) start n) lo_i hi_i = take (hi_i - lo_i) (drop lo_i (take n (drop start items)))"
| "lv_iter_part V (LV_Long (Long_Tree t) start n) lo_i hi_i = take (hi_i - lo_i) (drop (start + lo_i) (tv_iter V t))"
| "lv_iter_part V (LV_Ints lo hi) lo_i hi_i = map (\<lambda>i. Int_Val (int_at (int_at lo lo_i) i)) [0..<hi_i - lo_i]"

definition lv_iter :: "('t, val) vec \<Rightarrow> 't list_value \<Rightarrow> val list" where
  "lv_iter V l = lv_iter_part V l 0 (lv_len l)"

text \<open>The elements that are held, as runs of them.\<close>

fun leaf_runs :: "val list list \<Rightarrow> nat \<Rightarrow> nat \<Rightarrow> val list list" where
  "leaf_runs [] skip left = []"
| "leaf_runs (leaf # leaves) skip left =
     (if left = 0 then []
      else if length leaf \<le> skip then leaf_runs leaves (skip - length leaf) left
      else let run = drop skip (take (min (length leaf) (skip + left)) leaf)
           in run # leaf_runs leaves 0 (left - length run))"

definition side_runs :: "val list \<Rightarrow> val list list" where
  "side_runs items = (if items = [] then [] else [items])"

fun lv_runs :: "('t, val) vec \<Rightarrow> 't list_value \<Rightarrow> val list list" where
  "lv_runs V (LV_Items buf start n) = side_runs (take n (drop start buf))"
| "lv_runs V (LV_Long (Long_Side items _) start n) = side_runs (take n (drop start items))"
| "lv_runs V (LV_Long (Long_Tree t) start n) = leaf_runs (tv_leaves V t) start n"
| "lv_runs V (LV_Ints _ _) = []"

text \<open>The list as the walk through values sees it.\<close>

definition lv_val :: "('t, val) vec \<Rightarrow> 't list_value \<Rightarrow> val" where
  "lv_val V l = (case l of LV_Ints lo hi \<Rightarrow> Range_Val lo hi | _ \<Rightarrow> List_Val (lv_runs V l))"

subsection \<open>Making lists\<close>

definition lv_flat :: "val list \<Rightarrow> 't list_value" where
  "lv_flat items = LV_Items items 0 (length items)"

definition lv_of_vec :: "val list \<Rightarrow> 't list_value" where
  "lv_of_vec items =
     (if length items \<le> LIST_FLAT_MOST then lv_flat items else LV_Long (Long_Side items None) 0 (length items))"

definition lv_new :: "'t list_value" where
  "lv_new = lv_of_vec []"

definition lv_of_tree :: "('t, val) vec \<Rightarrow> 't \<Rightarrow> 't list_value" where
  "lv_of_tree V t = LV_Long (Long_Tree t) 0 (tv_len V t)"

text \<open>A range; its length, one more than the difference of its ends, is counted in 64 bits.\<close>

definition lv_ints :: "int \<Rightarrow> int \<Rightarrow> too_long + 't list_value" where
  "lv_ints lo hi =
     (if hi < lo then Inr lv_new
      else if nat (hi - lo) + 1 < 2 ^ 64 then Inr (LV_Ints lo hi)
      else Inl (Too_Long lo hi (2 ^ 64 - 1)))"

fun writable :: "'t list_value \<Rightarrow> too_long + unit" where
  "writable (LV_Ints lo hi) =
     (if nat \<bar>hi - lo\<bar> \<ge> MAX_COLLECTION_LEN then Inl (Too_Long lo hi MAX_COLLECTION_LEN) else Inr ())"
| "writable _ = Inr ()"

fun written_out :: "'t list_value \<Rightarrow> bool" where
  "written_out (LV_Ints _ _) = True"
| "written_out _ = False"

fun in_long :: "'t list_value \<Rightarrow> bool" where
  "in_long (LV_Long _ _ _) = True"
| "in_long _ = False"

fun flat_for :: "'t list_value \<Rightarrow> nat \<Rightarrow> bool" where
  "flat_for (LV_Long (Long_Tree _) _ _) n = (n \<le> LIST_FLAT_MOST div 2)"
| "flat_for _ n = (n \<le> LIST_FLAT_MOST)"

text \<open>The elements written out: those of a range, or the runs of a list that holds them.\<close>

fun write_into :: "('t, val) vec \<Rightarrow> 't list_value \<Rightarrow> val list" where
  "write_into V (LV_Ints lo hi) = map Int_Val [lo..hi]"
| "write_into V l = concat (lv_runs V l)"

definition lv_to_vec :: "('t, val) vec \<Rightarrow> 't list_value \<Rightarrow> too_long + val list" where
  "lv_to_vec V l = (case writable l of Inl e \<Rightarrow> Inl e | Inr _ \<Rightarrow> Inr (write_into V l))"

definition part_of_tree :: "('t, val) vec \<Rightarrow> 't \<Rightarrow> nat \<Rightarrow> nat \<Rightarrow> 't" where
  "part_of_tree V t start n = tv_truncate V n (if start = 0 then t else tv_skip V start t)"

fun to_tree :: "('t, val) vec \<Rightarrow> 't list_value \<Rightarrow> 't" where
  "to_tree V (LV_Long (Long_Tree t) start n) = part_of_tree V t start n"
| "to_tree V (LV_Long (Long_Side items made) start n) =
     part_of_tree V (case made of Some t \<Rightarrow> t | None \<Rightarrow> tv_of V items) start n"
| "to_tree V l = tv_of V (lv_iter V l)"

fun list_tree_made :: "('t, val) vec \<Rightarrow> 't list_value \<Rightarrow> 't list_value" where
  "list_tree_made V (LV_Long (Long_Side items None) start n) = LV_Long (Long_Side items (Some (tv_of V items))) start n"
| "list_tree_made V l = l"

subsection \<open>Parts and changes\<close>

definition lv_slice :: "('t, val) vec \<Rightarrow> 't list_value \<Rightarrow> nat \<Rightarrow> nat \<Rightarrow> 't list_value" where
  "lv_slice V l from0 to0 =
     (let hi_i = min to0 (lv_len l); lo_i = min from0 hi_i; n = hi_i - lo_i
      in if lo_i = hi_i then lv_new
         else case l of
                LV_Items buf start _ \<Rightarrow>
                  if n < length buf div 4 then lv_flat (take n (drop (start + lo_i) buf))
                  else LV_Items buf (start + lo_i) n
              | LV_Long long start _ \<Rightarrow>
                  if n < long_len V long div 4
                  then if flat_for l n then lv_flat (lv_iter_part V l lo_i hi_i)
                       else case long of
                              Long_Side items _ \<Rightarrow> lv_of_vec (take n (drop (start + lo_i) items))
                            | Long_Tree t \<Rightarrow> lv_of_tree V (part_of_tree V t (start + lo_i) n)
                  else LV_Long long (start + lo_i) n
              | LV_Ints lo _ \<Rightarrow> LV_Ints (int_at lo lo_i) (int_at lo (hi_i - 1)))"

definition lv_concat :: "('t, val) vec \<Rightarrow> 't list_value \<Rightarrow> 't list_value \<Rightarrow> too_long + 't list_value" where
  "lv_concat V l other =
     (case writable l of
        Inl e \<Rightarrow> Inl e
      | Inr _ \<Rightarrow>
          (case writable other of
             Inl e \<Rightarrow> Inl e
           | Inr _ \<Rightarrow>
               if lv_len other = 0 then Inr l
               else if lv_len l = 0 then Inr other
               else
                 let n = lv_len l + lv_len other
                 in if flat_for l n \<and> flat_for other n \<or> written_out l \<and> \<not> in_long other \<or> written_out other \<and> \<not> in_long l
                    then Inr (lv_of_vec (write_into V l @ write_into V other))
                    else Inr (lv_of_tree V
                      (if lv_len l \<le> PUSHED_MOST \<and> lv_len l \<le> lv_len other
                       then fold (tv_push_front V) (rev (lv_iter V l)) (to_tree V other)
                       else if lv_len other \<le> PUSHED_MOST
                       then fold (tv_push_back V) (lv_iter V other) (to_tree V l)
                       else tv_append V (to_tree V l) (to_tree V other)))))"

definition lv_push_front :: "('t, val) vec \<Rightarrow> val \<Rightarrow> 't list_value \<Rightarrow> too_long + 't list_value" where
  "lv_push_front V x l =
     (case writable l of
        Inl e \<Rightarrow> Inl e
      | Inr _ \<Rightarrow>
          if flat_for l (lv_len l + 1) \<or> written_out l then Inr (lv_of_vec (x # write_into V l))
          else Inr (lv_of_tree V (tv_push_front V x (to_tree V l))))"

definition lv_push_back :: "('t, val) vec \<Rightarrow> val \<Rightarrow> 't list_value \<Rightarrow> too_long + 't list_value" where
  "lv_push_back V x l =
     (case writable l of
        Inl e \<Rightarrow> Inl e
      | Inr _ \<Rightarrow>
          if flat_for l (lv_len l + 1) \<or> written_out l then Inr (lv_of_vec (write_into V l @ [x]))
          else Inr (lv_of_tree V (tv_push_back V x (to_tree V l))))"

definition lv_set :: "('t, val) vec \<Rightarrow> nat \<Rightarrow> val \<Rightarrow> 't list_value \<Rightarrow> too_long + 't list_value option" where
  "lv_set V i x l =
     (if lv_len l \<le> i then Inr None
      else case writable l of
             Inl e \<Rightarrow> Inl e
           | Inr _ \<Rightarrow>
               if flat_for l (lv_len l) \<or> written_out l
               then (case lv_to_vec V l of Inl e \<Rightarrow> Inl e | Inr items \<Rightarrow> Inr (Some (lv_of_vec (items[i := x]))))
               else Inr (Some (lv_of_tree V (tv_set V i x (to_tree V l)))))"

definition lv_remove_at :: "('t, val) vec \<Rightarrow> nat \<Rightarrow> 't list_value \<Rightarrow> too_long + 't list_value option" where
  "lv_remove_at V i l =
     (if lv_len l \<le> i then Inr None
      else case writable l of
             Inl e \<Rightarrow> Inl e
           | Inr _ \<Rightarrow>
               if flat_for l (lv_len l - 1) \<or> written_out l
               then (case lv_to_vec V l of
                       Inl e \<Rightarrow> Inl e
                     | Inr items \<Rightarrow> Inr (Some (lv_of_vec (take i items @ drop (Suc i) items))))
               else Inr (Some (lv_of_tree V (tv_remove V i (to_tree V l)))))"

subsection \<open>What is asked of the elements\<close>

definition lv_position :: "('t, val) vec \<Rightarrow> val \<Rightarrow> 't list_value \<Rightarrow> nat option" where
  "lv_position V x l =
     (case l of
        LV_Ints lo hi \<Rightarrow> (case x of Int_Val n \<Rightarrow> if lo \<le> n \<and> n \<le> hi then Some (nat \<bar>n - lo\<bar>) else None | _ \<Rightarrow> None)
      | _ \<Rightarrow> map_option fst (List.find (\<lambda>(i, y). value_eq y x) (enumerate 0 (concat (lv_runs V l)))))"

definition lv_contains :: "('t, val) vec \<Rightarrow> val \<Rightarrow> 't list_value \<Rightarrow> bool" where
  "lv_contains V x l \<longleftrightarrow> lv_position V x l \<noteq> None"

datatype int_total = Total int | Overflow | Not_Ints

fun sum_from :: "int \<Rightarrow> val list \<Rightarrow> int_total" where
  "sum_from s [] = Total s"
| "sum_from s (Int_Val n # xs) = (case checked_add s n of None \<Rightarrow> Overflow | Some s' \<Rightarrow> sum_from s' xs)"
| "sum_from s (_ # xs) = Not_Ints"

text \<open>Half of the count times the sum of the ends, in 128 bits.\<close>

definition range_sum :: "int \<Rightarrow> int \<Rightarrow> int_total" where
  "range_sum lo hi =
     (let twice = (lo + hi) * (hi - lo + 1)
      in if in_i128 twice then (case checked (twice sdiv 2) of Some s \<Rightarrow> Total s | None \<Rightarrow> Overflow) else Overflow)"

definition lv_sum_ints :: "('t, val) vec \<Rightarrow> 't list_value \<Rightarrow> int_total" where
  "lv_sum_ints V l = (case l of LV_Ints lo hi \<Rightarrow> range_sum lo hi | _ \<Rightarrow> sum_from 0 (concat (lv_runs V l)))"

fun product_from :: "int option \<Rightarrow> val list \<Rightarrow> int_total" where
  "product_from p [] = (case p of None \<Rightarrow> Overflow | Some n \<Rightarrow> Total n)"
| "product_from p (Int_Val n # xs) =
     (if n = 0 then Total 0 else product_from (case p of None \<Rightarrow> None | Some q \<Rightarrow> checked_mul q n) xs)"
| "product_from p (_ # xs) = Not_Ints"

function range_product :: "int \<Rightarrow> int \<Rightarrow> int \<Rightarrow> int_total" where
  "range_product p n hi =
     (if hi < n then Total p
      else case checked_mul p n of None \<Rightarrow> Overflow | Some q \<Rightarrow> range_product q (n + 1) hi)"
  by pat_completeness auto
termination
  by (relation "measure (\<lambda>(p, n, hi). nat (hi + 1 - n))") auto

declare range_product.simps [simp del]

definition lv_product_ints :: "('t, val) vec \<Rightarrow> 't list_value \<Rightarrow> int_total" where
  "lv_product_ints V l =
     (case l of
        LV_Ints lo hi \<Rightarrow> if lo \<le> 0 \<and> 0 \<le> hi then Total 0 else range_product 1 lo hi
      | _ \<Rightarrow> product_from (Some 1) (concat (lv_runs V l)))"

text \<open>The sort of the library is stable: elements that are equal stay in the order they had.\<close>

fun value_insort :: "val \<Rightarrow> val list \<Rightarrow> val list" where
  "value_insort x [] = [x]"
| "value_insort x (y # ys) = (if value_cmp x y = Greater then y # value_insort x ys else x # y # ys)"

definition value_sort :: "val list \<Rightarrow> val list" where
  "value_sort xs = foldr value_insort xs []"

definition lv_sorted :: "('t, val) vec \<Rightarrow> 't list_value \<Rightarrow> 't list_value" where
  "lv_sorted V l = (case l of LV_Ints _ _ \<Rightarrow> l | _ \<Rightarrow> lv_of_vec (value_sort (concat (lv_runs V l))))"

text \<open>The elements whose insertion into the set of those seen puts them there.\<close>

fun not_seen :: "val list \<Rightarrow> val list \<Rightarrow> val list" where
  "not_seen seen [] = []"
| "not_seen seen (x # xs) =
     (if list_ex (\<lambda>y. value_cmp x y = Equal) seen then not_seen seen xs else x # not_seen (x # seen) xs)"

definition lv_unique :: "('t, val) vec \<Rightarrow> 't list_value \<Rightarrow> 't list_value" where
  "lv_unique V l = (case l of LV_Ints _ _ \<Rightarrow> l | _ \<Rightarrow> lv_of_vec (not_seen [] (concat (lv_runs V l))))"

subsection \<open>The elements one by one\<close>

text \<open>What is left of a list that is gone through: the elements of a leaf of a tree are taken out
  together, the last first.\<close>

datatype 't into_iter =
    II_Items "val list" nat nat
  | II_Side "'t long_items" nat nat
  | II_Tree "'t long_items" nat nat "val list"
  | II_Ints int nat

fun lv_into_iter :: "'t list_value \<Rightarrow> 't into_iter" where
  "lv_into_iter (LV_Items buf start n) = II_Items buf start (start + n)"
| "lv_into_iter (LV_Long (Long_Side xs made) start n) = II_Side (Long_Side xs made) start (start + n)"
| "lv_into_iter (LV_Long (Long_Tree t) start n) = II_Tree (Long_Tree t) start (start + n) []"
| "lv_into_iter (LV_Ints lo hi) = II_Ints lo (lv_len (LV_Ints lo hi :: 't list_value))"

text \<open>The next of the Ints that are left, and the last of them.\<close>

definition ints_next :: "int \<Rightarrow> nat \<Rightarrow> (val \<times> int \<times> nat) option" where
  "ints_next n left = (if left = 0 then None else Some (Int_Val n, wrapping_add n 1, left - 1))"

definition ints_next_back :: "int \<Rightarrow> nat \<Rightarrow> (val \<times> int \<times> nat) option" where
  "ints_next_back n left = (if left = 0 then None else Some (Int_Val (int_at n (left - 1)), n, left - 1))"

text \<open>The element and the leaf after it, the last first, or none.\<close>

definition next_of_long :: "('t, val) vec \<Rightarrow> 't long_items \<Rightarrow> nat \<Rightarrow> nat \<Rightarrow> (val \<times> nat \<times> val list) option" where
  "next_of_long V long n end_i =
     (if n = end_i then None
      else case long of
             Long_Side xs _ \<Rightarrow> Some (xs ! n, n + 1, [])
           | Long_Tree t \<Rightarrow>
               let (at, leaf) = tv_chunk_at V t n;
                   until = min (at + length leaf) end_i;
                   left = rev (drop (n - at) (take (until - at) leaf))
               in if left = [] then None else Some (List.last left, until, butlast left))"

fun into_next :: "('t, val) vec \<Rightarrow> 't into_iter \<Rightarrow> (val \<times> 't into_iter) option" where
  "into_next V (II_Items buf n end_i) = (if n = end_i then None else Some (buf ! n, II_Items buf (n + 1) end_i))"
| "into_next V (II_Side (Long_Side xs made) n end_i) =
     (if n = end_i then None else Some (xs ! n, II_Side (Long_Side xs made) (n + 1) end_i))"
| "into_next V (II_Side (Long_Tree t) n end_i) =
     (if n = end_i then None else Some (tv_get V t n, II_Side (Long_Tree t) (n + 1) end_i))"
| "into_next V (II_Tree long n end_i leaf) =
     (if leaf \<noteq> [] then Some (List.last leaf, II_Tree long n end_i (butlast leaf))
      else map_option (\<lambda>(x, n', leaf'). (x, II_Tree long n' end_i leaf')) (next_of_long V long n end_i))"
| "into_next V (II_Ints n left) = map_option (\<lambda>(x, n', left'). (x, II_Ints n' left')) (ints_next n left)"

text \<open>The number of elements left, and the elements up to the end, if the calls are enough.\<close>

fun into_left :: "'t into_iter \<Rightarrow> nat" where
  "into_left (II_Items _ n end_i) = end_i - n"
| "into_left (II_Side _ n end_i) = end_i - n"
| "into_left (II_Tree _ n end_i leaf) = length leaf + (end_i - n)"
| "into_left (II_Ints _ left) = left"

fun into_all :: "nat \<Rightarrow> ('t, val) vec \<Rightarrow> 't into_iter \<Rightarrow> val list option" where
  "into_all 0 V it = None"
| "into_all (Suc calls) V it =
     (case into_next V it of None \<Rightarrow> Some [] | Some (x, it') \<Rightarrow> map_option ((#) x) (into_all calls V it'))"

end
