(* ===== verification/List_Refine.thy ===== *)
theory List_Refine
  imports List_Value Value_Order
begin

text \<open>
  A list is the sequence of its elements, whichever way it is stored: the invariant of the storage, and
  what every operation keeps of it and makes of the elements. A list that holds its elements keeps the
  contract of a sequence that it asks of the tree.
\<close>

section \<open>The invariant\<close>

definition tree_made_ok :: "('t, val) vec \<Rightarrow> ('t \<Rightarrow> bool) \<Rightarrow> val list \<Rightarrow> 't option \<Rightarrow> bool" where
  "tree_made_ok V ok xs made = (case made of None \<Rightarrow> True | Some t \<Rightarrow> ok t \<and> tv_iter V t = xs)"

definition part_ok :: "nat \<Rightarrow> nat \<Rightarrow> nat \<Rightarrow> bool" where
  "part_ok stored start n \<longleftrightarrow> start + n \<le> stored \<and> stored div 4 \<le> n"

fun list_ok :: "('t, val) vec \<Rightarrow> ('t \<Rightarrow> bool) \<Rightarrow> 't list_value \<Rightarrow> bool" where
  "list_ok V ok (LV_Items buf start n) = (part_ok (length buf) start n \<and> length buf \<le> LIST_FLAT_MOST)"
| "list_ok V ok (LV_Long (Long_Side xs made) start n) =
     (part_ok (length xs) start n \<and> LIST_FLAT_MOST < length xs \<and> tree_made_ok V ok xs made)"
| "list_ok V ok (LV_Long (Long_Tree t) start n) =
     (ok t \<and> part_ok (tv_len V t) start n \<and> LIST_FLAT_MOST div 2 < tv_len V t)"
| "list_ok V ok (LV_Ints lo hi) = (in_i64 lo \<and> in_i64 hi \<and> lo \<le> hi \<and> hi - lo + 1 < 2 ^ 64)"

text \<open>How many elements a list keeps from being freed.\<close>

fun lv_stored :: "('t, val) vec \<Rightarrow> 't list_value \<Rightarrow> nat" where
  "lv_stored V (LV_Items buf _ _) = length buf"
| "lv_stored V (LV_Long long _ _) = long_len V long"
| "lv_stored V (LV_Ints _ _) = 0"

text \<open>The list is one of these elements.\<close>

definition lv_is :: "('t, val) vec \<Rightarrow> ('t \<Rightarrow> bool) \<Rightarrow> val list \<Rightarrow> 't list_value \<Rightarrow> bool" where
  "lv_is V ok xs l \<longleftrightarrow> list_ok V ok l \<and> lv_iter V l = xs"

lemma list_ok_cases:
  assumes "list_ok V ok l"
  obtains
    (Items) buf start n where "l = LV_Items buf start n" "part_ok (length buf) start n" "length buf \<le> LIST_FLAT_MOST"
  | (Side) xs made start n where "l = LV_Long (Long_Side xs made) start n" "part_ok (length xs) start n"
      "LIST_FLAT_MOST < length xs" "tree_made_ok V ok xs made"
  | (Tree) t start n where "l = LV_Long (Long_Tree t) start n" "ok t" "part_ok (tv_len V t) start n"
      "LIST_FLAT_MOST div 2 < tv_len V t"
  | (Ints) lo hi where "l = LV_Ints lo hi" "in_i64 lo" "in_i64 hi" "lo \<le> hi" "hi - lo + 1 < 2 ^ 64"
  using assms by (cases "(V, ok, l)" rule: list_ok.cases) auto

section \<open>Storage\<close>

lemma int_at_exact: "in_i64 lo \<Longrightarrow> in_i64 hi \<Longrightarrow> lo + int i \<le> hi \<Longrightarrow> int_at lo i = lo + int i"
  unfolding int_at_def by (rule wrapping_add_exact) (auto simp: in_i64_def)

lemma int_at_part:
  assumes "in_i64 lo" and "in_i64 hi" and "a + i < nat (hi - lo + 1)"
  shows "int_at lo a = lo + int a" "int_at (int_at lo a) i = lo + int a + int i"
proof -
  show at: "int_at lo a = lo + int a" using assms by (intro int_at_exact [of lo hi]) auto
  show "int_at (int_at lo a) i = lo + int a + int i"
    unfolding at using assms by (intro int_at_exact [of _ hi]) (auto simp: in_i64_def)
qed

lemma int_at_zero [simp]: "in_i64 lo \<Longrightarrow> int_at lo 0 = lo"
  using int_at_exact [of lo lo 0] by simp

lemma upto_map: "[lo..hi] = map (\<lambda>i. lo + int i) [0..<nat (hi - lo + 1)]"
  by (rule nth_equalityI) auto

lemma concat_leaf_runs: "concat (leaf_runs ls a n) = take n (drop a (concat ls))"
proof (induction ls a n rule: leaf_runs.induct)
  case (2 leaf ls a n)
  show ?case
  proof (cases "n = 0 \<or> length leaf \<le> a")
    case True
    with 2(1) show ?thesis by auto
  next
    case False
    then have "drop a (take (min (length leaf) (a + n)) leaf) = take n (drop a leaf)"
      by (simp add: take_drop add.commute min_def)
    moreover have "n - min (length leaf - a) n = n + a - length leaf" using False by auto
    ultimately show ?thesis using False 2(2) [OF _ _ refl] by (simp add: Let_def)
  qed
qed simp

lemma leaf_runs_nonempty: "r \<in> set (leaf_runs ls a n) \<Longrightarrow> r \<noteq> []"
proof (induction ls a n rule: leaf_runs.induct)
  case (2 leaf ls a n)
  show ?case
  proof (cases "n = 0 \<or> length leaf \<le> a")
    case True
    with 2(1,3) show ?thesis by (auto split: if_splits)
  next
    case False
    with 2(2) [OF _ _ refl] 2(3) show ?thesis by (auto simp: Let_def)
  qed
qed simp

lemma side_runs_simps [simp]: "concat (side_runs xs) = xs" "r \<in> set (side_runs xs) \<Longrightarrow> r \<noteq> []"
  by (auto simp: side_runs_def split: if_splits)

lemma lv_iter_held [simp]:
  "lv_iter V (LV_Items buf start n) = take n (drop start buf)"
  "lv_iter V (LV_Long (Long_Side xs made) start n) = take n (drop start xs)"
  "lv_iter V (LV_Long (Long_Tree t) start n) = take n (drop start (tv_iter V t))"
  by (simp_all add: lv_iter_def)

lemma lv_flat_simps [simp]:
  "lv_len (lv_flat xs) = length xs" "lv_iter V (lv_flat xs) = xs" "list_ok V ok (lv_flat xs) \<longleftrightarrow> length xs \<le> LIST_FLAT_MOST"
  by (auto simp: lv_flat_def part_ok_def)

lemma lv_of_vec_simps [simp]:
  "lv_len (lv_of_vec xs) = length xs" "lv_iter V (lv_of_vec xs) = xs" "list_ok V ok (lv_of_vec xs)"
  "\<not> written_out (lv_of_vec xs)"
  by (auto simp: lv_of_vec_def part_ok_def tree_made_ok_def lv_flat_def)

lemma lv_new_simps [simp]: "lv_len lv_new = 0" "lv_iter V lv_new = []" "list_ok V ok lv_new" "\<not> written_out lv_new"
  by (simp_all add: lv_new_def)


section \<open>Elements\<close>

text \<open>The tree of a list: a sequence of values.\<close>

locale value_tree = vector V ok for V :: "('t, val) vec" and ok :: "'t \<Rightarrow> bool"
begin

lemma range_len: "lo \<le> hi \<Longrightarrow> lv_len (LV_Ints lo hi) = nat (hi - lo + 1)"
  by simp

lemma range_iter:
  assumes "list_ok V ok (LV_Ints lo hi)"
  shows "lv_iter V (LV_Ints lo hi) = map Int_Val [lo..hi]"
proof -
  have at: "int_at lo i = lo + int i" if "i < nat (hi - lo + 1)" for i
    using that assms by (intro int_at_part(1) [of lo hi i 0]) auto
  have "lv_iter V (LV_Ints lo hi) = map (\<lambda>i. Int_Val (int_at lo i)) [0..<nat (hi - lo + 1)]"
    unfolding lv_iter_def using assms by (subst range_len) simp_all
  also have "\<dots> = map Int_Val [lo..hi]" unfolding upto_map by (simp add: at)
  finally show ?thesis .
qed

lemma iter_part:
  assumes "list_ok V ok l" and "a \<le> b" and "b \<le> lv_len l"
  shows "lv_iter_part V l a b = take (b - a) (drop a (lv_iter V l))"
  using assms(1)
proof (cases rule: list_ok_cases)
  case (Tree t start n)
  then show ?thesis using assms(2,3) by (simp add: lv_iter_def drop_take add.commute)
next
  case (Ints lo hi)
  then have at: "int_at (int_at lo a) i = lo + int a + int i" if "a + i < nat (hi - lo + 1)" for a i
    using that by (intro int_at_part(2))
  have b: "b \<le> nat (hi - lo + 1)" using assms(3) unfolding Ints(1) range_len [OF Ints(4)] .
  have "map (\<lambda>i. Int_Val (int_at (int_at lo a) i)) [0..<b - a] = take (b - a) (drop a (map Int_Val [lo..hi]))"
    using b at assms(2) by (intro nth_equalityI) auto
  then show ?thesis using Ints assms(1) range_iter [of lo hi] by simp
qed (use assms(2,3) in \<open>auto simp: lv_iter_def\<close>)

lemma len_iter: "list_ok V ok l \<Longrightarrow> length (lv_iter V l) = lv_len l"
  by (erule list_ok_cases) (auto simp: lv_iter_def part_ok_def len)

lemma get_iter:
  assumes "list_ok V ok l"
  shows "lv_get V l i = (if i < length (lv_iter V l) then Some (lv_iter V l ! i) else None)"
  using assms
proof (cases rule: list_ok_cases)
  case (Ints lo hi)
  have "int_at lo i = lo + int i" if "i < nat (hi - lo + 1)"
    using that Ints by (intro int_at_part(1) [of lo hi i 0]) auto
  then show ?thesis using Ints assms range_iter [of lo hi] by auto
next
  case (Tree t start n)
  then show ?thesis by (auto simp: lv_iter_def part_ok_def len get)
qed (auto simp: lv_iter_def part_ok_def)

lemma runs_iter: "list_ok V ok l \<Longrightarrow> \<not> written_out l \<Longrightarrow> concat (lv_runs V l) = lv_iter V l"
  by (erule list_ok_cases) (auto simp: lv_iter_def concat_leaf_runs leaves)

lemma write_into_iter: "list_ok V ok l \<Longrightarrow> write_into V l = lv_iter V l"
  using runs_iter [of l] by (cases l) (auto simp: range_iter)

lemma to_vec_iter: "list_ok V ok l \<Longrightarrow> lv_to_vec V l = map_sum (\<lambda>e. e) (\<lambda>_. lv_iter V l) (writable l)"
  by (cases "writable l") (auto simp: lv_to_vec_def write_into_iter)

section \<open>Trees\<close>

lemma part_of_tree_iter:
  assumes "ok t" and "start + n \<le> tv_len V t"
  shows "ok (part_of_tree V t start n)" "tv_iter V (part_of_tree V t start n) = take n (drop start (tv_iter V t))"
  using assms skip [of t start] truncate [of "tv_skip V start t" n] truncate [of t n] len [of t]
  by (auto simp: part_of_tree_def)

lemma to_tree_iter:
  assumes "list_ok V ok l"
  shows "ok (to_tree V l) \<and> tv_iter V (to_tree V l) = lv_iter V l"
  using assms
proof (cases rule: list_ok_cases)
  case (Side xs made start n)
  let ?t = "case made of Some t \<Rightarrow> t | None \<Rightarrow> tv_of V xs"
  have "ok ?t \<and> tv_iter V ?t = xs" using Side(4) of_list by (auto simp: tree_made_ok_def split: option.splits)
  then show ?thesis using Side part_of_tree_iter [of ?t start n] len by (simp add: lv_iter_def part_ok_def)
next
  case (Tree t start n)
  then show ?thesis using part_of_tree_iter [of t start n] by (auto simp: lv_iter_def part_ok_def)
qed (simp_all add: of_list)

lemma of_tree_simps:
  assumes "ok t"
  shows "lv_len (lv_of_tree V t) = length (tv_iter V t)" "lv_iter V (lv_of_tree V t) = tv_iter V t"
    "list_ok V ok (lv_of_tree V t) \<longleftrightarrow> LIST_FLAT_MOST div 2 < length (tv_iter V t)"
    "\<not> written_out (lv_of_tree V t)"
  using assms by (simp_all add: lv_of_tree_def lv_iter_def part_ok_def len)

lemma push_all:
  assumes "ok t"
  shows "ok (fold (tv_push_front V) xs t) \<and> tv_iter V (fold (tv_push_front V) xs t) = rev xs @ tv_iter V t"
    and "ok (fold (tv_push_back V) xs t) \<and> tv_iter V (fold (tv_push_back V) xs t) = tv_iter V t @ xs"
  using assms push_front push_back by (induction xs arbitrary: t) auto

text \<open>A list made of a tree that is too long for a buffer.\<close>

lemma tree_result:
  assumes "ok t" and "tv_iter V t = xs" and "LIST_FLAT_MOST div 2 < length xs"
  shows "lv_is V ok xs (lv_of_tree V t)"
  using of_tree_simps [OF assms(1)] assms(2,3) by (simp add: lv_is_def)

lemma not_flat_for: "\<not> flat_for l n \<Longrightarrow> LIST_FLAT_MOST div 2 < n"
  by (cases "(l, n)" rule: flat_for.cases) (auto simp: LIST_FLAT_MOST_def)

section \<open>Operations\<close>

lemma of_vec_is: "lv_is V ok xs (lv_of_vec xs)"
  by (simp add: lv_is_def)

lemma slice_is:
  assumes "list_ok V ok l"
  shows "lv_is V ok (drop a (take b (lv_iter V l))) (lv_slice V l a b)"
proof -
  define hi lo where "hi = min b (lv_len l)" and "lo = min a hi"
  have part: "drop a (take b (lv_iter V l)) = take (hi - lo) (drop lo (lv_iter V l))"
    using len_iter [OF assms] by (auto simp: hi_def lo_def drop_take min_def)
  show ?thesis
  proof (cases "lo = hi")
    case True
    then show ?thesis by (simp add: part lv_slice_def lv_is_def flip: hi_def lo_def)
  next
    case False
    then have le: "lo < hi" "hi \<le> lv_len l" by (auto simp: hi_def lo_def)
    have within: "lo \<le> hi" "hi \<le> lv_len l" using le by simp_all
    have part_is: "lv_iter_part V l lo hi = take (hi - lo) (drop lo (lv_iter V l))"
      using within by (rule iter_part [OF assms])
    note slice = lv_slice_def [of V l a b, unfolded Let_def, folded hi_def, folded lo_def]
    from assms show ?thesis
    proof (cases rule: list_ok_cases)
      case (Items buf start n)
      then show ?thesis unfolding part slice
        using le by (auto simp: lv_is_def  part_ok_def drop_take add.commute min_def)
    next
      case (Side xs made start n)
      then show ?thesis unfolding part slice
        using le by (auto simp: lv_is_def  part_ok_def drop_take add.commute min_def)
    next
      case (Tree t start n)
      then have "start + lo + (hi - lo) \<le> tv_len V t" using le by (auto simp: part_ok_def)
      note cut = part_of_tree_iter [OF Tree(2) this]
      let ?xs = "take (hi - lo) (drop lo (lv_iter V l))"
      have xs: "?xs = take (hi - lo) (drop (start + lo) (tv_iter V t))" "length ?xs = hi - lo"
        using Tree le len [OF Tree(2)] by (auto simp: drop_take part_ok_def add.commute)
      have flat: "lv_is V ok ?xs (lv_flat ?xs)" if "flat_for l (hi - lo)"
        using that Tree(1) xs(2) by (simp add: lv_is_def)
      have cut_is: "lv_is V ok ?xs (lv_of_tree V (part_of_tree V t (start + lo) (hi - lo)))" if "\<not> flat_for l (hi - lo)"
        using that not_flat_for [OF that] xs by (intro tree_result cut(1)) (simp_all add: cut(2))
      have shared: "lv_is V ok ?xs (LV_Long (Long_Tree t) (start + lo) (hi - lo))" if "\<not> hi - lo < tv_len V t div 4"
        using that Tree le xs(1) by (auto simp: lv_is_def part_ok_def)
      show ?thesis unfolding part slice
        using False flat cut_is shared Tree(1) part_is by simp
    next
      case (Ints x y)
      then have at: "int_at x lo = x + int lo" "int_at x (hi - 1) = x + int hi - 1"
        using le int_at_part(1) [of x y lo 0] int_at_part(1) [of x y "hi - 1" 0] by auto
      have ok: "list_ok V ok (LV_Ints (x + int lo) (x + int hi - 1))"
        using le Ints by (auto simp: in_i64_def)
      have "map Int_Val [x + int lo..x + int hi - 1] = take (hi - lo) (drop lo (map Int_Val [x..y]))"
        using le Ints by (intro nth_equalityI) auto
      then show ?thesis unfolding part slice
        using Ints False at assms range_iter [of x y] range_iter [OF ok] ok by (simp add: slice lv_is_def)
    qed
  qed
qed

lemma push_front_is:
  assumes "list_ok V ok l" and "writable l = Inr u"
  shows "\<exists>r. lv_push_front V x l = Inr r \<and> lv_is V ok (x # lv_iter V l) r"
proof (cases "flat_for l (lv_len l + 1) \<or> written_out l")
  case True
  then show ?thesis using assms of_vec_is by (auto simp: lv_push_front_def write_into_iter)
next
  case False
  then have "LIST_FLAT_MOST div 2 < length (x # lv_iter V l)"
    using not_flat_for [of l "lv_len l + 1"] len_iter [OF assms(1)] by simp
  then show ?thesis
    using False assms(2) tree_result push_front [of "to_tree V l" x] to_tree_iter [OF assms(1)]
    by (auto simp: lv_push_front_def)
qed

lemma push_back_is:
  assumes "list_ok V ok l" and "writable l = Inr u"
  shows "\<exists>r. lv_push_back V x l = Inr r \<and> lv_is V ok (lv_iter V l @ [x]) r"
proof (cases "flat_for l (lv_len l + 1) \<or> written_out l")
  case True
  then show ?thesis using assms of_vec_is by (auto simp: lv_push_back_def write_into_iter)
next
  case False
  then have "LIST_FLAT_MOST div 2 < length (lv_iter V l @ [x])"
    using not_flat_for [of l "lv_len l + 1"] len_iter [OF assms(1)] by simp
  then show ?thesis
    using False assms(2) tree_result push_back [of "to_tree V l" x] to_tree_iter [OF assms(1)]
    by (auto simp: lv_push_back_def)
qed

lemma set_is:
  assumes "list_ok V ok l" and "writable l = Inr u" and "i < lv_len l"
  shows "\<exists>r. lv_set V i x l = Inr (Some r) \<and> lv_is V ok ((lv_iter V l)[i := x]) r"
proof (cases "flat_for l (lv_len l) \<or> written_out l")
  case True
  then show ?thesis using assms of_vec_is by (auto simp: lv_set_def to_vec_iter)
next
  case False
  then have "LIST_FLAT_MOST div 2 < length ((lv_iter V l)[i := x])"
    using not_flat_for [of l "lv_len l"] len_iter [OF assms(1)] by simp
  then show ?thesis
    using False assms tree_result set [of "to_tree V l" i x] to_tree_iter [OF assms(1)] len_iter [OF assms(1)]
    by (auto simp: lv_set_def)
qed

lemma remove_at_is:
  assumes "list_ok V ok l" and "writable l = Inr u" and "i < lv_len l"
  shows "\<exists>r. lv_remove_at V i l = Inr (Some r) \<and> lv_is V ok (take i (lv_iter V l) @ drop (Suc i) (lv_iter V l)) r"
proof (cases "flat_for l (lv_len l - 1) \<or> written_out l")
  case True
  then show ?thesis using assms of_vec_is by (auto simp: lv_remove_at_def to_vec_iter)
next
  case False
  then have "LIST_FLAT_MOST div 2 < length (take i (lv_iter V l) @ drop (Suc i) (lv_iter V l))"
    using not_flat_for [of l "lv_len l - 1"] len_iter [OF assms(1)] assms(3) by simp
  then show ?thesis
    using False assms tree_result remove [of "to_tree V l" i] to_tree_iter [OF assms(1)] len_iter [OF assms(1)]
    by (auto simp: lv_remove_at_def)
qed

lemma concat_is:
  assumes l: "list_ok V ok l" "writable l = Inr u" and m: "list_ok V ok m" "writable m = Inr v"
  shows "\<exists>r. lv_concat V l m = Inr r \<and> lv_is V ok (lv_iter V l @ lv_iter V m) r"
proof -
  note n = len_iter [OF l(1)] len_iter [OF m(1)]
  let ?tree = "if lv_len l \<le> PUSHED_MOST \<and> lv_len l \<le> lv_len m
     then fold (tv_push_front V) (rev (lv_iter V l)) (to_tree V m)
     else if lv_len m \<le> PUSHED_MOST then fold (tv_push_back V) (lv_iter V m) (to_tree V l)
     else tv_append V (to_tree V l) (to_tree V m)"
  have tree: "ok ?tree" "tv_iter V ?tree = lv_iter V l @ lv_iter V m"
    using to_tree_iter [OF l(1)] to_tree_iter [OF m(1)] push_all append by auto
  consider "lv_len m = 0" | "lv_len l = 0" "lv_len m \<noteq> 0"
    | "flat_for l (lv_len l + lv_len m) \<and> flat_for m (lv_len l + lv_len m) \<or>
       written_out l \<and> \<not> in_long m \<or> written_out m \<and> \<not> in_long l" "lv_len l \<noteq> 0" "lv_len m \<noteq> 0"
    | "\<not> (flat_for l (lv_len l + lv_len m) \<and> flat_for m (lv_len l + lv_len m))"
      "\<not> (written_out l \<and> \<not> in_long m \<or> written_out m \<and> \<not> in_long l)" "lv_len l \<noteq> 0" "lv_len m \<noteq> 0"
    by blast
  then show ?thesis
  proof cases
    case 4
    then have "LIST_FLAT_MOST div 2 < length (lv_iter V l @ lv_iter V m)"
      using not_flat_for n by auto
    then have "lv_is V ok (lv_iter V l @ lv_iter V m) (lv_of_tree V ?tree)" by (rule tree_result [OF tree])
    moreover have "lv_concat V l m = Inr (lv_of_tree V ?tree)"
      unfolding lv_concat_def Let_def using 4 l(2) m(2) by (simp only: sum.case if_False) metis
    ultimately show ?thesis by blast
  qed (use l m n in \<open>auto simp: lv_concat_def lv_is_def Let_def write_into_iter\<close>)
qed

lemma stored_bound: "list_ok V ok l \<Longrightarrow> lv_stored V l < 4 * lv_len l + 4"
  by (erule list_ok_cases) (auto simp: part_ok_def)

lemma runs_nonempty: "r \<in> set (lv_runs V l) \<Longrightarrow> r \<noteq> []"
  by (cases "(V, l)" rule: lv_runs.cases) (auto dest: leaf_runs_nonempty side_runs_simps(2))

end

section \<open>A list that holds its elements keeps the contract\<close>

definition lv_changed :: "'t list_value \<Rightarrow> too_long + 't list_value \<Rightarrow> 't list_value" where
  "lv_changed l r = (case r of Inl _ \<Rightarrow> l | Inr m \<Rightarrow> m)"

definition lv_changed_at :: "'t list_value \<Rightarrow> too_long + 't list_value option \<Rightarrow> 't list_value" where
  "lv_changed_at l r = (case r of Inr (Some m) \<Rightarrow> m | _ \<Rightarrow> l)"

definition lv_vec :: "('t, val) vec \<Rightarrow> ('t list_value, val) vec" where
  "lv_vec V = \<lparr>tv_iter = lv_iter V, tv_len = lv_len, tv_get = (\<lambda>l i. case lv_get V l i of Some x \<Rightarrow> x | None \<Rightarrow> Unit_Val),
     tv_leaves = lv_runs V, tv_chunk_at = (\<lambda>l _. (0, lv_iter V l)), tv_of = lv_of_vec,
     tv_push_front = (\<lambda>x l. lv_changed l (lv_push_front V x l)),
     tv_push_back = (\<lambda>x l. lv_changed l (lv_push_back V x l)),
     tv_set = (\<lambda>i x l. lv_changed_at l (lv_set V i x l)),
     tv_remove = (\<lambda>i l. lv_changed_at l (lv_remove_at V i l)),
     tv_append = (\<lambda>l m. lv_changed l (lv_concat V l m)),
     tv_skip = (\<lambda>n l. lv_slice V l n (lv_len l)),
     tv_truncate = (\<lambda>n l. lv_slice V l 0 n)\<rparr>"

definition lv_held :: "('t, val) vec \<Rightarrow> ('t \<Rightarrow> bool) \<Rightarrow> 't list_value \<Rightarrow> bool" where
  "lv_held V ok l \<longleftrightarrow> list_ok V ok l \<and> \<not> written_out l"

text \<open>The elements of a list, held side by side in one leaf.\<close>

definition items_vec :: "('a list, 'a) vec" where
  "items_vec = \<lparr>tv_iter = (\<lambda>xs. xs), tv_len = length, tv_get = nth, tv_leaves = (\<lambda>xs. [xs]),
     tv_chunk_at = (\<lambda>xs _. (0, xs)), tv_of = (\<lambda>xs. xs),
     tv_push_front = (#), tv_push_back = (\<lambda>x xs. xs @ [x]), tv_set = (\<lambda>i x xs. xs[i := x]),
     tv_remove = (\<lambda>i xs. take i xs @ drop (Suc i) xs), tv_append = (@), tv_skip = drop, tv_truncate = take\<rparr>"

interpretation side: value_tree items_vec "\<lambda>_. True"
  by unfold_locales (auto simp: items_vec_def)

context value_tree
begin

lemma held_writable: "lv_held V ok l \<Longrightarrow> writable l = Inr ()"
  by (cases l) (auto simp: lv_held_def)

lemma tree_not_written: "\<not> written_out (lv_of_tree V t)"
  by (simp add: lv_of_tree_def)

text \<open>A change gives a list that holds its elements.\<close>

lemma changes_held:
  assumes "\<not> written_out l"
  shows "lv_push_front V x l = Inr r \<Longrightarrow> \<not> written_out r"
    and "lv_push_back V x l = Inr r \<Longrightarrow> \<not> written_out r"
    and "lv_set V i x l = Inr (Some r) \<Longrightarrow> \<not> written_out r"
    and "lv_remove_at V i l = Inr (Some r) \<Longrightarrow> \<not> written_out r"
    and "\<not> written_out m \<Longrightarrow> lv_concat V l m = Inr r \<Longrightarrow> \<not> written_out r"
  using assms tree_not_written
  by (auto simp: lv_push_front_def lv_push_back_def lv_set_def lv_remove_at_def lv_concat_def Let_def
      split: sum.splits if_splits)

lemma slice_held: "\<not> written_out l \<Longrightarrow> \<not> written_out (lv_slice V l a b)"
  using tree_not_written
  by (auto simp: lv_slice_def Let_def lv_flat_def split: list_value.splits long_items.splits)

lemma changed_by:
  "\<exists>r. c = Inr r \<and> P r \<Longrightarrow> (\<And>r. c = Inr r \<Longrightarrow> \<not> written_out r) \<Longrightarrow>
    P (lv_changed l c) \<and> \<not> written_out (lv_changed l c)"
  "\<exists>r. d = Inr (Some r) \<and> P r \<Longrightarrow> (\<And>r. d = Inr (Some r) \<Longrightarrow> \<not> written_out r) \<Longrightarrow>
    P (lv_changed_at l d) \<and> \<not> written_out (lv_changed_at l d)"
  by (auto simp: lv_changed_def lv_changed_at_def)

lemma heldD: "lv_held V ok l \<Longrightarrow> list_ok V ok l" "lv_held V ok l \<Longrightarrow> \<not> written_out l"
  by (simp_all add: lv_held_def)

lemmas changed_held =
  changed_by(1) [OF push_front_is [OF heldD(1) held_writable] changes_held(1) [OF heldD(2)]]
  changed_by(1) [OF push_back_is [OF heldD(1) held_writable] changes_held(2) [OF heldD(2)]]
  changed_by(1) [OF concat_is [OF heldD(1) held_writable heldD(1) held_writable] changes_held(5) [OF heldD(2) heldD(2)]]

lemmas changed_at_held =
  changed_by(2) [OF set_is [OF heldD(1) held_writable] changes_held(3) [OF heldD(2)]]
  changed_by(2) [OF remove_at_is [OF heldD(1) held_writable] changes_held(4) [OF heldD(2)]]

lemma lv_vector: "value_tree (lv_vec V) (lv_held V ok)"
proof
  fix l m x i n xs
  show "lv_held V ok (tv_of (lv_vec V) xs) \<and> tv_iter (lv_vec V) (tv_of (lv_vec V) xs) = xs"
    by (simp add: lv_vec_def lv_held_def)
  assume l: "lv_held V ok l"
  then show "tv_len (lv_vec V) l = length (tv_iter (lv_vec V) l)"
    by (simp add: lv_vec_def lv_held_def len_iter)
  show "concat (tv_leaves (lv_vec V) l) = tv_iter (lv_vec V) l"
    using l by (simp add: lv_vec_def lv_held_def runs_iter)
  show "lv_held V ok (tv_push_front (lv_vec V) x l) \<and>
      tv_iter (lv_vec V) (tv_push_front (lv_vec V) x l) = x # tv_iter (lv_vec V) l"
    "lv_held V ok (tv_push_back (lv_vec V) x l) \<and>
      tv_iter (lv_vec V) (tv_push_back (lv_vec V) x l) = tv_iter (lv_vec V) l @ [x]"
    using changed_held(1,2) [OF l l l, of x] by (simp_all add: lv_vec_def lv_held_def lv_is_def)
  show "lv_held V ok (tv_append (lv_vec V) l m) \<and>
      tv_iter (lv_vec V) (tv_append (lv_vec V) l m) = tv_iter (lv_vec V) l @ tv_iter (lv_vec V) m"
    if "lv_held V ok m"
    using changed_held(3) [OF l l that that l that] by (simp add: lv_vec_def lv_held_def lv_is_def)
  show "lv_held V ok (tv_skip (lv_vec V) n l) \<and> tv_iter (lv_vec V) (tv_skip (lv_vec V) n l) = drop n (tv_iter (lv_vec V) l)"
    "lv_held V ok (tv_truncate (lv_vec V) n l) \<and>
      tv_iter (lv_vec V) (tv_truncate (lv_vec V) n l) = take n (tv_iter (lv_vec V) l)"
    using slice_is [OF heldD(1) [OF l], of n "lv_len l"] slice_is [OF heldD(1) [OF l], of 0 n]
      slice_held [OF heldD(2) [OF l]] len_iter [OF heldD(1) [OF l]]
    by (simp_all add: lv_vec_def lv_held_def lv_is_def)
  assume i: "i < length (tv_iter (lv_vec V) l)"
  show "at \<le> i \<and> i < at + length leaf \<and> leaf = take (length leaf) (drop at (tv_iter (lv_vec V) l))"
    if "tv_chunk_at (lv_vec V) l i = (at, leaf)" for at leaf
    using that i by (auto simp: lv_vec_def)
  then show "tv_get (lv_vec V) l i = tv_iter (lv_vec V) l ! i"
    using l by (simp add: lv_vec_def lv_held_def get_iter)
  show "lv_held V ok (tv_set (lv_vec V) i x l) \<and> tv_iter (lv_vec V) (tv_set (lv_vec V) i x l) = (tv_iter (lv_vec V) l)[i := x]"
    "lv_held V ok (tv_remove (lv_vec V) i l) \<and> tv_iter (lv_vec V) (tv_remove (lv_vec V) i l) =
      take i (tv_iter (lv_vec V) l) @ drop (Suc i) (tv_iter (lv_vec V) l)"
    using changed_at_held(1) [OF l l _ l, of i x] changed_at_held(2) [OF l l _ l, of i] i len_iter [OF heldD(1) [OF l]]
    by (simp_all add: lv_vec_def lv_held_def lv_is_def)
qed

end

interpretation stored: value_tree "lv_vec items_vec" "lv_held items_vec (\<lambda>_. True)"
  by (rule side.lv_vector)

end
