(* ===== verification/List_Sequence.thy ===== *)
theory List_Sequence
  imports List_Refine
begin

text \<open>
  What a list promises: every operation is the one of the sequence of its elements, and what a range
  answers from its two ends is what the list that holds its elements answers.
\<close>

section \<open>Every operation\<close>

text \<open>What a change of a list gives: a list of these elements, or the error of a range that is too long.\<close>

definition lv_gives :: "('t, val) vec \<Rightarrow> ('t \<Rightarrow> bool) \<Rightarrow> too_long + unit \<Rightarrow> val list \<Rightarrow> too_long + 't list_value \<Rightarrow> bool" where
  "lv_gives V ok w xs c = (case w of Inl e \<Rightarrow> c = Inl e | Inr _ \<Rightarrow> (\<exists>r. c = Inr r \<and> lv_is V ok xs r))"

definition lv_gives_at :: "('t, val) vec \<Rightarrow> ('t \<Rightarrow> bool) \<Rightarrow> too_long + unit \<Rightarrow> val list \<Rightarrow> too_long + 't list_value option \<Rightarrow> bool" where
  "lv_gives_at V ok w xs c = (case w of Inl e \<Rightarrow> c = Inl e | Inr _ \<Rightarrow> (\<exists>r. c = Inr (Some r) \<and> lv_is V ok xs r))"

lemma changes_refused:
  assumes "writable l = Inl e"
  shows "lv_push_front V x l = Inl e" "lv_push_back V x l = Inl e"
    "i < lv_len l \<Longrightarrow> lv_set V i x l = Inl e" "i < lv_len l \<Longrightarrow> lv_remove_at V i l = Inl e"
  using assms by (simp_all add: lv_push_front_def lv_push_back_def lv_set_def lv_remove_at_def)

context value_tree
begin

lemma changes_give:
  assumes "list_ok V ok l"
  shows "lv_gives V ok (writable l) (x # lv_iter V l) (lv_push_front V x l)"
    and "lv_gives V ok (writable l) (lv_iter V l @ [x]) (lv_push_back V x l)"
    and "i < lv_len l \<Longrightarrow> lv_gives_at V ok (writable l) ((lv_iter V l)[i := x]) (lv_set V i x l)"
    and "i < lv_len l \<Longrightarrow>
      lv_gives_at V ok (writable l) (take i (lv_iter V l) @ drop (Suc i) (lv_iter V l)) (lv_remove_at V i l)"
  using push_front_is [OF assms] push_back_is [OF assms] set_is [OF assms] remove_at_is [OF assms]
  by (auto simp: lv_gives_def lv_gives_at_def changes_refused split: sum.splits)

lemma concat_gives:
  assumes "list_ok V ok l" and "list_ok V ok m"
  shows "lv_gives V ok (case writable l of Inl e \<Rightarrow> Inl e | Inr _ \<Rightarrow> writable m) (lv_iter V l @ lv_iter V m) (lv_concat V l m)"
  using concat_is [OF assms(1) _ assms(2)]
  by (cases "writable l"; cases "writable m") (auto simp: lv_gives_def, auto simp: lv_concat_def)

lemma ints_is:
  assumes "in_i64 lo" and "in_i64 hi"
  shows "case lv_ints lo hi of Inr r \<Rightarrow> lv_is V ok (map Int_Val [lo..hi]) r | Inl _ \<Rightarrow> lo = - (2 ^ 63) \<and> hi = 2 ^ 63 - 1"
proof (cases "hi < lo")
  case True
  then show ?thesis by (simp add: lv_ints_def lv_is_def)
next
  case False
  then have "list_ok V ok (LV_Ints lo hi)" if "nat (hi - lo) + 1 < 2 ^ 64" using that assms by simp
  moreover have "lo = - (2 ^ 63) \<and> hi = 2 ^ 63 - 1" if "\<not> nat (hi - lo) + 1 < 2 ^ 64"
    using that assms False by (auto simp: in_i64_def)
  ultimately show ?thesis using False range_iter [of lo hi] by (auto simp: lv_ints_def lv_is_def)
qed

lemma tree_made_is: "list_ok V ok l \<Longrightarrow> lv_is V ok (lv_iter V l) (list_tree_made V l)"
  using of_list by (cases "(V, l)" rule: list_tree_made.cases) (auto simp: lv_is_def tree_made_ok_def)

lemma first_last:
  assumes "list_ok V ok l"
  shows "lv_first V l = (if lv_iter V l = [] then None else Some (hd (lv_iter V l)))"
    "lv_last V l = (if lv_iter V l = [] then None else Some (List.last (lv_iter V l)))"
  using len_iter [OF assms]
  by (auto simp: lv_first_def lv_last_def get_iter [OF assms] hd_conv_nth last_conv_nth)

end

section \<open>The elements one by one\<close>

fun into_rest :: "('t, val) vec \<Rightarrow> 't into_iter \<Rightarrow> val list" where
  "into_rest V (II_Items buf n end_i) = drop n (take end_i buf)"
| "into_rest V (II_Side (Long_Side xs _) n end_i) = drop n (take end_i xs)"
| "into_rest V (II_Side (Long_Tree t) n end_i) = drop n (take end_i (tv_iter V t))"
| "into_rest V (II_Tree (Long_Tree t) n end_i leaf) = rev leaf @ drop n (take end_i (tv_iter V t))"
| "into_rest V (II_Tree (Long_Side xs _) n end_i leaf) = rev leaf @ drop n (take end_i xs)"
| "into_rest V (II_Ints n left) = map Int_Val [n..n + int left - 1]"

fun into_ok :: "('t, val) vec \<Rightarrow> ('t \<Rightarrow> bool) \<Rightarrow> 't into_iter \<Rightarrow> bool" where
  "into_ok V ok (II_Items buf n end_i) = (n \<le> end_i \<and> end_i \<le> length buf)"
| "into_ok V ok (II_Side (Long_Side xs _) n end_i) = (n \<le> end_i \<and> end_i \<le> length xs)"
| "into_ok V ok (II_Side (Long_Tree t) n end_i) = (ok t \<and> n \<le> end_i \<and> end_i \<le> length (tv_iter V t))"
| "into_ok V ok (II_Tree (Long_Tree t) n end_i _) = (ok t \<and> n \<le> end_i \<and> end_i \<le> length (tv_iter V t))"
| "into_ok V ok (II_Tree (Long_Side xs _) n end_i _) = (n \<le> end_i \<and> end_i \<le> length xs)"
| "into_ok V ok (II_Ints n left) = (left = 0 \<or> in_i64 n \<and> in_i64 (n + int left - 1))"

lemma drop_take_Cons: "n < m \<Longrightarrow> m \<le> length xs \<Longrightarrow> drop n (take m xs) = xs ! n # drop (Suc n) (take m xs)"
  using Cons_nth_drop_Suc [of n "take m xs"] by simp

context value_tree
begin

lemma next_of_tree:
  assumes "ok t" and "n < end_i" and "end_i \<le> length (tv_iter V t)"
  shows "\<exists>x until leaf. next_of_long V (Long_Tree t) n end_i = Some (x, until, leaf) \<and> until \<le> end_i \<and>
    drop n (take end_i (tv_iter V t)) = x # rev leaf @ drop until (take end_i (tv_iter V t))"
proof -
  obtain at leaf where chunk: "tv_chunk_at V t n = (at, leaf)" by (cases "tv_chunk_at V t n")
  let ?xs = "tv_iter V t" and ?until = "min (at + length leaf) end_i"
  have at: "at \<le> n" "n < at + length leaf" "leaf = take (length leaf) (drop at ?xs)"
    using chunk_at [OF assms(1) _ chunk] assms by auto
  have leaf: "take k leaf = take k (drop at ?xs)" if "k \<le> length leaf" for k
    using at(3) that by (metis min_absorb1 take_take)
  have "drop (n - at) (take (?until - at) leaf) = drop n (take ?until ?xs)"
    using at(1,2) assms by (subst leaf) (auto simp: take_drop)
  moreover have until: "n < ?until" "?until \<le> end_i" "?until \<le> length ?xs" using at assms by auto
  moreover have "take end_i ?xs = take ?until ?xs @ drop ?until (take end_i ?xs)"
    using until(2) append_take_drop_id [of ?until "take end_i ?xs"] by (simp add: min_def)
  then have "drop n (take end_i ?xs) = drop n (take ?until ?xs) @ drop ?until (take end_i ?xs)"
    using until by (metis drop_append length_take min_absorb2 drop0 diff_is_0_eq' less_imp_le_nat)
  ultimately show ?thesis
    using assms(2) chunk at(1,2) drop_take_Cons [of n ?until ?xs]
    by (simp add: next_of_long_def Let_def last_rev butlast_rev)
qed

lemma ints_rest:
  assumes "into_ok V ok (II_Ints n (Suc left))"
  shows "map Int_Val [n..n + int (Suc left) - 1] = Int_Val n # map Int_Val [wrapping_add n 1..wrapping_add n 1 + int left - 1]"
    and "into_ok V ok (II_Ints (wrapping_add n 1) left)"
proof -
  have "[n..n + int (Suc left) - 1] = n # [n + 1..n + 1 + int left - 1]"
    using upto_rec1 [of n "n + int (Suc left) - 1"] by (simp add: algebra_simps)
  moreover have "wrapping_add n 1 = n + 1" if "left \<noteq> 0"
    using that assms by (intro wrapping_add_exact) (auto simp: in_i64_def)
  ultimately show "map Int_Val [n..n + int (Suc left) - 1] =
      Int_Val n # map Int_Val [wrapping_add n 1..wrapping_add n 1 + int left - 1]"
    "into_ok V ok (II_Ints (wrapping_add n 1) left)"
    using assms by (cases left; auto simp: in_i64_def)+
qed

lemma into_next_rest:
  assumes "into_ok V ok it"
  shows "case into_rest V it of
      [] \<Rightarrow> into_next V it = None
    | x # xs \<Rightarrow> \<exists>it'. into_next V it = Some (x, it') \<and> into_ok V ok it' \<and> into_rest V it' = xs"
proof (cases "(V, it)" rule: into_next.cases)
  case (4 W long n end_i leaf)
  show ?thesis
  proof (cases "leaf = []")
    case leaf: True
    show ?thesis
    proof (cases "n = end_i")
      case True
      then show ?thesis using 4 leaf by (cases long) (simp_all add: next_of_long_def)
    next
      case False
      show ?thesis
      proof (cases long)
        case (Long_Tree t)
        then obtain x until leaf' where "next_of_long V (Long_Tree t) n end_i = Some (x, until, leaf')" "until \<le> end_i"
          "drop n (take end_i (tv_iter V t)) = x # rev leaf' @ drop until (take end_i (tv_iter V t))"
          using next_of_tree [of t n end_i] assms 4 False by auto
        then show ?thesis using 4 leaf Long_Tree assms by simp
      next
        case (Long_Side xs made)
        then show ?thesis
          using 4 leaf False assms drop_take_Cons [of n end_i xs] by (simp add: next_of_long_def)
      qed
    qed
  next
    case False
    then show ?thesis using 4 assms by (cases long; cases leaf rule: rev_cases) simp_all
  qed
next
  case (5 W n left)
  then show ?thesis using assms ints_rest [of n "left - 1"] by (cases left) (auto simp: ints_next_def)
next
  case (1 W buf n end_i)
  then show ?thesis using assms drop_take_Cons [of n end_i buf] by (cases "n = end_i") auto
next
  case (2 W xs made n end_i)
  then show ?thesis using assms drop_take_Cons [of n end_i xs] by (cases "n = end_i") auto
next
  case (3 W t n end_i)
  then show ?thesis using assms drop_take_Cons [of n end_i "tv_iter V t"] get [of t n] by (cases "n = end_i") auto
qed

lemma into_all_rest: "into_ok V ok it \<Longrightarrow> length (into_rest V it) < calls \<Longrightarrow> into_all calls V it = Some (into_rest V it)"
proof (induction calls arbitrary: it)
  case (Suc calls)
  then show ?case using into_next_rest [of it] by (cases "into_rest V it") auto
qed simp

lemma into_iter_all:
  assumes "list_ok V ok l"
  shows "into_all (lv_len l + 1) V (lv_into_iter l) = Some (lv_iter V l) \<and> into_left (lv_into_iter l) = lv_len l"
proof -
  have "into_ok V ok (lv_into_iter l) \<and> into_rest V (lv_into_iter l) = lv_iter V l"
    using assms
  proof (cases rule: list_ok_cases)
    case (Ints lo hi)
    then show ?thesis using range_iter [of lo hi] assms by simp
  qed (auto simp: part_ok_def len drop_take)
  moreover have "into_left (lv_into_iter l) = lv_len l" by (cases l rule: lv_into_iter.cases) auto
  ultimately show ?thesis using into_all_rest [of "lv_into_iter l" "lv_len l + 1"] len_iter [OF assms] by simp
qed

end

section \<open>What a range answers\<close>






subsection \<open>Sums\<close>




lemma take_upto: "take k [lo..hi] = [lo..min hi (lo + int k - 1)]"
  by (intro nth_equalityI) auto






subsection \<open>Products\<close>




text \<open>The loop of a product stops before the 65th element: a product of Ints none of which is 0 doubles
  with every element but one.\<close>

lemma range_product_total: "range_product p n hi = Total t \<Longrightarrow> in_i64 p \<Longrightarrow> t = p * prod_list [n..hi] \<and> in_i64 t"
proof (induction p n hi rule: range_product.induct)
  case (1 p n hi)
  show ?case
  proof (cases "hi < n")
    case True
    then show ?thesis using 1(2,3) by (simp add: range_product.simps [of p n])
  next
    case False
    then obtain q where q: "checked_mul p n = Some q" "range_product q (n + 1) hi = Total t"
      using 1(2) by (auto simp: range_product.simps [of p n] split: option.splits)
    then have "q = p * n" "in_i64 q" by (auto simp: checked_mul_def)
    then show ?thesis using 1(1) [OF False q(1) q(2)] False by (auto simp: upto_rec1 mult.assoc)
  qed
qed

lemma range_product_overflow:
  "range_product p n h = Overflow \<Longrightarrow> h \<le> hi \<Longrightarrow> range_product p n hi = Overflow"
proof (induction p n h rule: range_product.induct)
  case (1 p n h)
  then have le: "\<not> h < n" by (auto simp: range_product.simps [of p n h])
  with 1 show ?case
    by (auto simp: range_product.simps [of p n h] range_product.simps [of p n hi] split: option.splits)
qed

lemma range_product_ints: "range_product p n hi \<noteq> Not_Ints"
  by (induction p n hi rule: range_product.induct) (subst range_product.simps, auto split: option.splits)

lemma doubles: "a \<le> \<bar>p\<bar> \<Longrightarrow> 2 \<le> \<bar>n\<bar> \<Longrightarrow> 0 \<le> a \<Longrightarrow> 2 * a \<le> \<bar>n * p\<bar>" for a n p :: int
  unfolding abs_mult by (intro mult_mono) auto

lemma prod_doubles:
  assumes "\<not> (lo \<le> 0 \<and> 0 \<le> lo + int k)"
  shows "2 ^ k \<le> \<bar>prod_list [lo..lo + int k]\<bar>"
  using assms
proof (induction k arbitrary: lo)
  case (Suc k)
  consider "1 \<le> lo" | "lo + int (Suc k) \<le> - 1" using Suc.prems by linarith
  then show ?case
  proof cases
    case 1
    have "[lo..lo + int (Suc k)] = [lo..lo + int k] @ [lo + int (Suc k)]"
      using upto_rec2 [of lo "lo + int (Suc k)"] by simp
    then show ?thesis using doubles [of "2 ^ k" "prod_list [lo..lo + int k]" "lo + int (Suc k)"] Suc.IH [of lo] 1
      by (simp add: mult.commute)
  next
    case 2
    have "[lo..lo + int (Suc k)] = lo # [lo + 1..lo + 1 + int k]"
      using upto_rec1 [of lo "lo + int (Suc k)"] by (simp add: algebra_simps)
    then show ?thesis using doubles [of "2 ^ k" "prod_list [lo + 1..lo + 1 + int k]" lo] Suc.IH [of "lo + 1"] 2
      by simp
  qed
qed auto

subsection \<open>Order\<close>





section \<open>What a list promises\<close>

text \<open>C39: a list is the sequence of its elements, however it is stored: its length, its elements by index,
  its ends, its elements one by one, every part of it and every change of it are those of the sequence, a change of a range of
  more than ten million elements apart, which is refused; every list an operation makes keeps the
  invariant of the storage, and so keeps fewer than \<open>4 * n + 4\<close> elements from being freed for its \<open>n\<close>.
  A range can be made of all ends but the least and the greatest Int.
\<close>

theorem list_is_sequence:
  assumes "value_tree V ok" and "list_ok V ok l" and "list_ok V ok m" and "in_i64 lo" and "in_i64 hi"
  shows "lv_len l = length (lv_iter V l) \<and>
    lv_get V l i = (if i < length (lv_iter V l) then Some (lv_iter V l ! i) else None) \<and>
    lv_first V l = (if lv_iter V l = [] then None else Some (hd (lv_iter V l))) \<and>
    lv_last V l = (if lv_iter V l = [] then None else Some (List.last (lv_iter V l))) \<and>
    lv_to_vec V l = map_sum (\<lambda>e. e) (\<lambda>_. lv_iter V l) (writable l) \<and>
    lv_is V ok (drop a (take b (lv_iter V l))) (lv_slice V l a b) \<and>
    lv_gives V ok (writable l) (x # lv_iter V l) (lv_push_front V x l) \<and>
    lv_gives V ok (writable l) (lv_iter V l @ [x]) (lv_push_back V x l) \<and>
    (if i < lv_len l then lv_gives_at V ok (writable l) ((lv_iter V l)[i := x]) (lv_set V i x l)
     else lv_set V i x l = Inr None) \<and>
    (if i < lv_len l
     then lv_gives_at V ok (writable l) (take i (lv_iter V l) @ drop (Suc i) (lv_iter V l)) (lv_remove_at V i l)
     else lv_remove_at V i l = Inr None) \<and>
    lv_gives V ok (case writable l of Inl e \<Rightarrow> Inl e | Inr _ \<Rightarrow> writable m) (lv_iter V l @ lv_iter V m) (lv_concat V l m) \<and>
    into_all (lv_len l + 1) V (lv_into_iter l) = Some (lv_iter V l) \<and>
    lv_stored V l < 4 * lv_len l + 4 \<and> lv_is V ok (lv_iter V l) (list_tree_made V l) \<and> lv_is V ok xs (lv_of_vec xs) \<and>
    (case lv_ints lo hi of Inr r \<Rightarrow> lv_is V ok (map Int_Val [lo..hi]) r | Inl _ \<Rightarrow> lo = - (2 ^ 63) \<and> hi = 2 ^ 63 - 1)"
proof -
  note tree = value_tree.get_iter value_tree.first_last value_tree.to_vec_iter value_tree.slice_is
    value_tree.changes_give(1,2) value_tree.stored_bound value_tree.tree_made_is
    value_tree.into_iter_all [THEN conjunct1]
  have "lv_len l = length (lv_iter V l)" using value_tree.len_iter [OF assms(1,2)] by simp
  moreover have "if i < lv_len l then lv_gives_at V ok (writable l) ((lv_iter V l)[i := x]) (lv_set V i x l)
      else lv_set V i x l = Inr None"
    "if i < lv_len l
      then lv_gives_at V ok (writable l) (take i (lv_iter V l) @ drop (Suc i) (lv_iter V l)) (lv_remove_at V i l)
      else lv_remove_at V i l = Inr None"
    using value_tree.changes_give(3,4) [OF assms(1,2)] by (auto simp: lv_set_def lv_remove_at_def)
  ultimately show ?thesis
    by (intro conjI value_tree.of_vec_is [OF assms(1)] value_tree.concat_gives [OF assms(1-3)]
        value_tree.ints_is [OF assms(1,4,5)] tree [OF assms(1,2)])
qed

theorem list_is_sequence_witness:
  "lv_is items_vec (\<lambda>_. True) [Int_Val 5] (lv_slice items_vec (LV_Ints 4 8) 1 2) \<and>
   lv_gives items_vec (\<lambda>_. True) (Inr ()) [Unit_Val, Int_Val 4, Int_Val 5] (lv_push_front items_vec Unit_Val (LV_Ints 4 5))"
proof -
  have ok: "list_ok items_vec (\<lambda>_. True) (LV_Ints 4 8)" "list_ok items_vec (\<lambda>_. True) (LV_Ints 4 5)"
    by (simp_all add: in_i64_def)
  have it: "lv_iter items_vec (LV_Ints 4 8) = map Int_Val [4..8]" "lv_iter items_vec (LV_Ints 4 5) = map Int_Val [4..5]"
    using side.range_iter ok by blast+
  show ?thesis
    using list_is_sequence [OF side.value_tree_axioms ok(1) ok(1), of 0 0 _ 1 2]
      list_is_sequence [OF side.value_tree_axioms ok(2) ok(2), of 0 0 _ _ _ Unit_Val]
    unfolding it by (simp add: upto_rec1 MAX_COLLECTION_LEN_def in_i64_def)
qed



text \<open>The product of a range that does not hold 0 is known by its 65th element, however many it has:
  the loop of the product has overflowed by then. (Every element but one is 2 or more, or -2 or less.)
\<close>

lemma range_product_stops:
  assumes "\<not> (lo \<le> 0 \<and> 0 \<le> hi)" and "lo + 64 \<le> hi"
  shows "range_product 1 lo hi = Overflow \<and> range_product 1 lo (lo + 64) = Overflow"
proof -
  have "2 ^ 64 \<le> \<bar>prod_list [lo..lo + 64]\<bar>" using prod_doubles [of lo 64] assms by auto
  then have "\<not> in_i64 (prod_list [lo..lo + 64])" by (auto simp: in_i64_def abs_if split: if_splits)
  then have "range_product 1 lo (lo + 64) \<noteq> Total t" for t
    using range_product_total [of 1 lo "lo + 64" t] by (auto simp: in_i64_def)
  then have "range_product 1 lo (lo + 64) = Overflow"
    using range_product_ints [of 1 lo "lo + 64"] by (cases "range_product 1 lo (lo + 64)") auto
  then show ?thesis using range_product_overflow [OF _ assms(2)] by blast
qed

end
