(* ===== verification/Vm_Value.thy ===== *)
theory Vm_Value
  imports Value_Order Machine_Int Bytecode
begin

text \<open>
  What an instruction of the virtual machine computes of its operands (\<^verbatim>\<open>vm/arithmetic.rs\<close>, the
  comparisons of \<^verbatim>\<open>vm/run.rs\<close>, the methods of \<^verbatim>\<open>vm/dispatch.rs\<close>, \<^verbatim>\<open>value/float.rs\<close>): arithmetic of Ints and
  Floats, the order and the equality of two values with their gate for functions, negation.

  A Float is its bits. What the processor computes of two of them is an argument; which bits are a
  number, a zero or negative is read off them. The message of an error is a constructor with what the
  message names; one that says the checker was wrong (\<^verbatim>\<open>VmError::type_confusion\<close>) is told by
  \<open>is_confusion\<close>.
\<close>

section \<open>Kinds\<close>

primrec kind_name :: "val \<Rightarrow> string" where
  "kind_name Unit_Val = ''Unit''"
| "kind_name (Bool_Val _) = ''Bool''"
| "kind_name (Int_Val _) = ''Int''"
| "kind_name (Float_Val _) = ''Float''"
| "kind_name (String_Val _) = ''String''"
| "kind_name (List_Val _) = ''List''"
| "kind_name (Range_Val _ _) = ''List''"
| "kind_name (Tuple_Val _) = ''Tuple''"
| "kind_name (Map_Val _) = ''Map''"
| "kind_name (Set_Val _) = ''Set''"
| "kind_name (Record_Val _ _) = ''Record''"
| "kind_name (Variant_Val _ _ _) = ''Variant''"
| "kind_name (Channel_Val _) = ''Channel''"
| "kind_name (Handle_Val _) = ''Handle''"
| "kind_name (Bytes_Val _) = ''Bytes''"
| "kind_name (Listener_Val _) = ''TcpListener''"
| "kind_name (Stream_Val _) = ''TcpStream''"
| "kind_name (Closure_Val _ _ _) = ''Fn''"
| "kind_name (Builtin_Val _) = ''BuiltinFn''"
| "kind_name (Ctor_Val _ _) = ''VariantConstructor''"
| "kind_name (Type_Val _) = ''TypeDescriptor''"
| "kind_name (Primitive_Val _) = ''PrimitiveDescriptor''"
| "kind_name (Host_Val _) = ''HostFn''"
| "kind_name (Dict_Val _ _) = ''Dict''"

datatype vm_error =
    Division_By_Zero
  | Float_Division_By_Zero
  | Modulo_By_Zero
  | Int_Overflow basic_op int int
  | Float_Overflow basic_op nat nat
  | Negate_Overflow int
  | Mixed_Numbers
  | Cannot_Apply basic_op string string bool  \<comment> \<open>whether strings are to be interpolated\<close>
  | Cannot_Compare string string
  | No_Compare
  | No_Equal
  | No_Hash
  | Cannot_Negate val
  | Cannot_Not val
  | Compare_Arguments
  | Compare_Of_Fn
  | Hash_Arguments
  | Compare_Unsupported string string
  | Range_Too_Long int int
  | Range_Of val val
  | Not_A_List
  | Literal_Too_Long nat
  | Wrong_Fields
  | Update_Of val
  | Update_No_Field
  | No_Field nat val
  | No_Field_Named string
  | No_Record_For string val
  | Tuple_Too_Short nat nat
  | Variant_Too_Short nat nat
  | List_Too_Short nat nat
  | Rest_Too_Far nat nat
  | No_Map_Key string
  | Not_Destructed val
  | Not_Tried val
  | Wrong_Arity nat nat nat  \<comment> \<open>of which function, its arity, the arguments given\<close>
  | Ctor_Arguments nat nat nat nat
  | Cannot_Call val
  | Stack_Overflow
  | Of_Builtin nat  \<comment> \<open>an error of a builtin or a host function\<close>
  | Calls_Without_Frame nat
  | Unreachable  \<comment> \<open>a panic: an operator that is none, a remainder that overflows\<close>

definition is_confusion :: "vm_error \<Rightarrow> bool" where
  "is_confusion e = (case e of
       Division_By_Zero \<Rightarrow> False | Float_Division_By_Zero \<Rightarrow> False | Modulo_By_Zero \<Rightarrow> False
     | Int_Overflow _ _ _ \<Rightarrow> False | Float_Overflow _ _ _ \<Rightarrow> False | Negate_Overflow _ \<Rightarrow> False
     | No_Hash \<Rightarrow> False | Compare_Arguments \<Rightarrow> False | Compare_Of_Fn \<Rightarrow> False | Hash_Arguments \<Rightarrow> False | Compare_Unsupported _ _ \<Rightarrow> False
     | Range_Too_Long _ _ \<Rightarrow> False | Literal_Too_Long _ \<Rightarrow> False | Stack_Overflow \<Rightarrow> False
     | Of_Builtin _ \<Rightarrow> False | Calls_Without_Frame _ \<Rightarrow> False | Unreachable \<Rightarrow> False | _ \<Rightarrow> True)"

section \<open>Ints\<close>

text \<open>The remainder of the language panics for a divisor 0, and where the quotient overflows.\<close>

definition rust_rem :: "int \<Rightarrow> int \<Rightarrow> int option" where
  "rust_rem a b = (if b = 0 \<or> \<not> in_i64 (a sdiv b) then None else Some (a smod b))"

definition floored_div :: "int \<Rightarrow> int \<Rightarrow> vm_error + int option" where
  "floored_div a b =
     (case checked_div a b of
        None \<Rightarrow> Inr None
      | Some q \<Rightarrow>
          (case rust_rem a b of
             None \<Rightarrow> Inl Unreachable
           | Some r \<Rightarrow> Inr (Some (if r \<noteq> 0 \<and> (a < 0) \<noteq> (b < 0) then wrapping_add q (- 1) else q))))"

definition floored_mod :: "int \<Rightarrow> int \<Rightarrow> vm_error + int" where
  "floored_mod a b =
     (if b = - 1 then Inr 0
      else case rust_rem a b of
             None \<Rightarrow> Inl Unreachable
           | Some r \<Rightarrow> Inr (if r \<noteq> 0 \<and> (r < 0) \<noteq> (b < 0) then wrapping_add r b else r))"

definition int_result :: "basic_op \<Rightarrow> int \<Rightarrow> int \<Rightarrow> int option \<Rightarrow> vm_error + int" where
  "int_result op a b r = (case r of Some v \<Rightarrow> Inr v | None \<Rightarrow> Inl (Int_Overflow op a b))"

definition int_arithmetic :: "basic_op \<Rightarrow> int \<Rightarrow> int \<Rightarrow> vm_error + int" where
  "int_arithmetic op a b =
     (case op of
        Op_Add \<Rightarrow> int_result op a b (checked_add a b)
      | Op_Sub \<Rightarrow> int_result op a b (checked_sub a b)
      | Op_Mul \<Rightarrow> int_result op a b (checked_mul a b)
      | Op_Div \<Rightarrow>
          if b = 0 then Inl Division_By_Zero
          else (case floored_div a b of Inl e \<Rightarrow> Inl e | Inr r \<Rightarrow> int_result op a b r)
      | Op_Mod \<Rightarrow> if b = 0 then Inl Modulo_By_Zero else floored_mod a b
      | _ \<Rightarrow> Inl Unreachable)"

text \<open>\<^verbatim>\<open>checked_neg\<close> of the instruction \<^verbatim>\<open>Negate\<close>.\<close>

definition checked_neg :: "int \<Rightarrow> int option" where
  "checked_neg n = checked (- n)"

section \<open>Floats\<close>

definition f64_exponent :: "nat \<Rightarrow> nat" where
  "f64_exponent bits = bits div 2 ^ 52 mod 2048"

definition f64_finite :: "nat \<Rightarrow> bool" where
  "f64_finite bits \<longleftrightarrow> f64_exponent bits \<noteq> 2047"

definition f64_zero :: "nat \<Rightarrow> bool" where
  "f64_zero bits \<longleftrightarrow> bits mod 2 ^ 63 = 0"

definition f64_nan :: "nat \<Rightarrow> bool" where
  "f64_nan bits \<longleftrightarrow> f64_exponent bits = 2047 \<and> bits mod 2 ^ 52 \<noteq> 0"

definition f64_negative :: "nat \<Rightarrow> bool" where
  "f64_negative bits \<longleftrightarrow> 2 ^ 63 \<le> bits \<and> \<not> f64_zero bits \<and> \<not> f64_nan bits"

definition float_new :: "nat \<Rightarrow> nat option" where
  "float_new bits = (if f64_finite bits then Some (if f64_zero bits then 0 else bits) else None)"

definition float_neg :: "nat \<Rightarrow> nat" where
  "float_neg bits = (if f64_zero bits then 0 else if bits < 2 ^ 63 then bits + 2 ^ 63 else bits - 2 ^ 63)"

text \<open>What the processor computes.\<close>

record f64 =
  f_add :: "nat \<Rightarrow> nat \<Rightarrow> nat"
  f_sub :: "nat \<Rightarrow> nat \<Rightarrow> nat"
  f_mul :: "nat \<Rightarrow> nat \<Rightarrow> nat"
  f_div :: "nat \<Rightarrow> nat \<Rightarrow> nat"
  f_rem :: "nat \<Rightarrow> nat \<Rightarrow> nat"

definition floored_float_mod :: "f64 \<Rightarrow> nat \<Rightarrow> nat \<Rightarrow> nat" where
  "floored_float_mod F x y =
     (let r = f_rem F x y in if \<not> f64_zero r \<and> f64_negative r \<noteq> f64_negative y then f_add F r y else r)"

definition float_result :: "basic_op \<Rightarrow> nat \<Rightarrow> nat \<Rightarrow> nat \<Rightarrow> vm_error + nat" where
  "float_result op x y r = (case float_new r of Some f \<Rightarrow> Inr f | None \<Rightarrow> Inl (Float_Overflow op x y))"

definition apply_error :: "basic_op \<Rightarrow> val \<Rightarrow> val \<Rightarrow> vm_error" where
  "apply_error op a b =
     (let ka = kind_name a; kb = kind_name b
      in if ka = ''Int'' \<and> kb = ''Float'' \<or> ka = ''Float'' \<and> kb = ''Int'' then Mixed_Numbers
         else Cannot_Apply op ka kb (op = Op_Add \<and> (ka = ''String'' \<or> kb = ''String'')))"

definition float_arithmetic :: "f64 \<Rightarrow> basic_op \<Rightarrow> val \<Rightarrow> val \<Rightarrow> vm_error + nat" where
  "float_arithmetic F op a b =
     (case (a, b) of
        (Float_Val x, Float_Val y) \<Rightarrow>
          (case op of
             Op_Add \<Rightarrow> float_result op x y (f_add F x y)
           | Op_Sub \<Rightarrow> float_result op x y (f_sub F x y)
           | Op_Mul \<Rightarrow> float_result op x y (f_mul F x y)
           | Op_Div \<Rightarrow> if f64_zero y then Inl Float_Division_By_Zero else float_result op x y (f_div F x y)
           | Op_Mod \<Rightarrow> if f64_zero y then Inl Modulo_By_Zero else float_result op x y (floored_float_mod F x y)
           | _ \<Rightarrow> Inl Unreachable)
      | _ \<Rightarrow> Inl (apply_error op a b))"

text \<open>The instruction of an operator: two Ints in the loop, anything else by a call.\<close>

definition arithmetic :: "f64 \<Rightarrow> basic_op \<Rightarrow> val \<Rightarrow> val \<Rightarrow> vm_error + val" where
  "arithmetic F op a b =
     (case (a, b) of
        (Int_Val x, Int_Val y) \<Rightarrow> (case int_arithmetic op x y of Inl e \<Rightarrow> Inl e | Inr n \<Rightarrow> Inr (Int_Val n))
      | _ \<Rightarrow> (case float_arithmetic F op a b of Inl e \<Rightarrow> Inl e | Inr f \<Rightarrow> Inr (Float_Val f)))"

definition negate :: "val \<Rightarrow> vm_error + val" where
  "negate v =
     (case v of
        Int_Val n \<Rightarrow> (case checked_neg n of Some m \<Rightarrow> Inr (Int_Val m) | None \<Rightarrow> Inl (Negate_Overflow n))
      | Float_Val f \<Rightarrow> Inr (Float_Val (float_neg f))
      | _ \<Rightarrow> Inl (Cannot_Negate v))"

section \<open>Functions inside values\<close>

definition is_fn :: "val \<Rightarrow> bool" where
  "is_fn v = (case v of Closure_Val _ _ _ \<Rightarrow> True | Builtin_Val _ \<Rightarrow> True | Host_Val _ \<Rightarrow> True | Ctor_Val _ _ \<Rightarrow> True | _ \<Rightarrow> False)"

text \<open>The parts of a value that the search for a function goes on with. A list that is not held has
  none.\<close>

definition fn_parts :: "val \<Rightarrow> val list" where
  "fn_parts v =
     (case v of
        List_Val runs \<Rightarrow> concat runs
      | Tuple_Val xs \<Rightarrow> xs
      | Variant_Val _ _ xs \<Rightarrow> xs
      | Set_Val xs \<Rightarrow> xs
      | Map_Val es \<Rightarrow> flat_entries es
      | Record_Val _ xs \<Rightarrow> xs
      | _ \<Rightarrow> [])"

lemma fn_parts_size: "vs_size (fn_parts v) \<le> size v"
  using concat_size by (cases v) (auto simp: fn_parts_def flat_entries_size intro: le_SucI)

lemma vs_size_rev: "vs_size (rev xs) = vs_size xs"
  by (simp add: vs_size_sum rev_map [symmetric])

text \<open>A set may know whether it holds a function.\<close>

definition set_known :: "(val list \<Rightarrow> bool option) \<Rightarrow> val \<Rightarrow> bool option" where
  "set_known known v = (case v of Set_Val xs \<Rightarrow> known xs | _ \<Rightarrow> None)"

text \<open>The work list, the value to be looked at next first.\<close>

function fn_loop :: "(val list \<Rightarrow> bool option) \<Rightarrow> val list \<Rightarrow> bool" where
  "fn_loop known [] = False"
| "fn_loop known (v # pending) =
     (if is_fn v then True
      else case set_known known v of
             Some True \<Rightarrow> True
           | Some False \<Rightarrow> fn_loop known pending
           | None \<Rightarrow> fn_loop known (rev (fn_parts v) @ pending))"
  by pat_completeness auto
termination
  by (relation "measure (\<lambda>(known, pending). vs_size pending)")
    (auto simp: vs_size_rev intro: le_imp_less_Suc fn_parts_size)

declare fn_loop.simps(2) [simp del]

definition contains_fn :: "(val list \<Rightarrow> bool option) \<Rightarrow> val \<Rightarrow> bool" where
  "contains_fn known v =
     (case v of
        List_Val _ \<Rightarrow> fn_loop known [v]
      | Range_Val _ _ \<Rightarrow> fn_loop known [v]
      | Tuple_Val _ \<Rightarrow> fn_loop known [v]
      | Variant_Val _ _ _ \<Rightarrow> fn_loop known [v]
      | Set_Val _ \<Rightarrow> fn_loop known [v]
      | Map_Val _ \<Rightarrow> fn_loop known [v]
      | Record_Val _ _ \<Rightarrow> fn_loop known [v]
      | _ \<Rightarrow> is_fn v)"

text \<open>What is known of a value without a walk (\<^verbatim>\<open>is_no_fn\<close> of \<^verbatim>\<open>value/map.rs\<close>): the answer an insertion
  into a set goes by.\<close>

definition is_no_fn :: "(val list \<Rightarrow> bool option) \<Rightarrow> val \<Rightarrow> bool" where
  "is_no_fn known v =
     (case v of
        Set_Val xs \<Rightarrow> known xs = Some False
      | List_Val _ \<Rightarrow> False
      | Range_Val _ _ \<Rightarrow> False
      | Tuple_Val _ \<Rightarrow> False
      | Map_Val _ \<Rightarrow> False
      | Record_Val _ _ \<Rightarrow> False
      | Variant_Val _ _ _ \<Rightarrow> False
      | _ \<Rightarrow> \<not> is_fn v)"

text \<open>The law the sets rely on.\<close>

lemma is_no_fn_holds_none: "is_no_fn known v \<Longrightarrow> \<not> contains_fn known v"
  by (cases v) (simp_all add: is_no_fn_def contains_fn_def fn_loop.simps set_known_def is_fn_def)

section \<open>Order and equality\<close>

definition ordering_with_fn_gate :: "(val list \<Rightarrow> bool option) \<Rightarrow> val \<Rightarrow> val \<Rightarrow> vm_error + ordering" where
  "ordering_with_fn_gate known a b =
     (if contains_fn known a \<or> contains_fn known b then Inl No_Compare else Inr (value_cmp a b))"

text \<open>The kinds of two values that are ordered as values are.\<close>

definition list_kind :: "val \<Rightarrow> bool" where
  "list_kind v = (case v of List_Val _ \<Rightarrow> True | Range_Val _ _ \<Rightarrow> True | _ \<Rightarrow> False)"

definition both_ordered :: "val \<Rightarrow> val \<Rightarrow> bool" where
  "both_ordered a b \<longleftrightarrow> list_kind a \<and> list_kind b \<or>
     (case (a, b) of
        (Record_Val t _, Record_Val u _) \<Rightarrow> rt_id t = rt_id u
      | (Variant_Val _ _ _, Variant_Val _ _ _) \<Rightarrow> True
      | (Tuple_Val _, Tuple_Val _) \<Rightarrow> True
      | _ \<Rightarrow> is_fn a \<and> is_fn b)"

definition other_ordering :: "(val list \<Rightarrow> bool option) \<Rightarrow> val \<Rightarrow> val \<Rightarrow> vm_error + ordering" where
  "other_ordering known a b =
     (case (a, b) of
        (Float_Val x, Float_Val y) \<Rightarrow> Inr (cmp (float_place x) (float_place y))
      | (String_Val x, String_Val y) \<Rightarrow> Inr (cmp x y)
      | (Bool_Val x, Bool_Val y) \<Rightarrow> Inr (cmp x y)
      | (Unit_Val, Unit_Val) \<Rightarrow> Inr Equal
      | _ \<Rightarrow>
          if both_ordered a b then ordering_with_fn_gate known a b
          else Inl (Cannot_Compare (kind_name a) (kind_name b)))"

definition vm_ordering :: "(val list \<Rightarrow> bool option) \<Rightarrow> val \<Rightarrow> val \<Rightarrow> vm_error + ordering" where
  "vm_ordering known a b =
     (case (a, b) of (Int_Val x, Int_Val y) \<Rightarrow> Inr (cmp x y) | _ \<Rightarrow> other_ordering known a b)"

text \<open>Two values of one Rust constructor have one rank.\<close>

definition check_same_type :: "val \<Rightarrow> val \<Rightarrow> vm_error + unit" where
  "check_same_type a b =
     (if rank a \<noteq> rank b \<and> \<not> (is_fn a \<and> is_fn b) then Inl (Cannot_Compare (kind_name a) (kind_name b)) else Inr ())"

definition equality_operand_violation :: "(val list \<Rightarrow> bool option) \<Rightarrow> val \<Rightarrow> string option" where
  "equality_operand_violation known v = (if contains_fn known v then Some ''Fn'' else None)"

definition equality_operands :: "(val list \<Rightarrow> bool option) \<Rightarrow> val \<Rightarrow> val \<Rightarrow> vm_error + unit" where
  "equality_operands known a b =
     (case check_same_type a b of
        Inl e \<Rightarrow> Inl e
      | Inr _ \<Rightarrow>
          (case equality_operand_violation known a of
             Some _ \<Rightarrow> Inl No_Equal
           | None \<Rightarrow> (case equality_operand_violation known b of Some _ \<Rightarrow> Inl No_Equal | None \<Rightarrow> Inr ())))"

definition other_equal :: "(val list \<Rightarrow> bool option) \<Rightarrow> val \<Rightarrow> val \<Rightarrow> vm_error + bool" where
  "other_equal known a b = (case equality_operands known a b of Inl e \<Rightarrow> Inl e | Inr _ \<Rightarrow> Inr (value_eq a b))"

definition vm_equal :: "(val list \<Rightarrow> bool option) \<Rightarrow> val \<Rightarrow> val \<Rightarrow> vm_error + bool" where
  "vm_equal known a b = (case (a, b) of (Int_Val x, Int_Val y) \<Rightarrow> Inr (x = y) | _ \<Rightarrow> other_equal known a b)"

section \<open>The methods of the structural traits\<close>

definition ordering_int :: "ordering \<Rightarrow> int" where
  "ordering_int c = (case c of Less \<Rightarrow> - 1 | Equal \<Rightarrow> 0 | Greater \<Rightarrow> 1)"

definition compare_of :: "val \<Rightarrow> val \<Rightarrow> ordering option" where
  "compare_of a b =
     (case (a, b) of
        (Int_Val x, Int_Val y) \<Rightarrow> Some (cmp x y)
      | (Float_Val x, Float_Val y) \<Rightarrow> Some (cmp (float_place x) (float_place y))
      | (String_Val x, String_Val y) \<Rightarrow> Some (cmp x y)
      | (Bool_Val x, Bool_Val y) \<Rightarrow> Some (cmp x y)
      | (Variant_Val _ _ _, Variant_Val _ _ _) \<Rightarrow> Some (value_cmp a b)
      | (Record_Val _ _, Record_Val _ _) \<Rightarrow> Some (value_cmp a b)
      | (Unit_Val, Unit_Val) \<Rightarrow> Some Equal
      | (Tuple_Val _, Tuple_Val _) \<Rightarrow> Some (value_cmp a b)
      | _ \<Rightarrow> if list_kind a \<and> list_kind b then Some (value_cmp a b) else None)"

definition compare_method :: "(val list \<Rightarrow> bool option) \<Rightarrow> val \<Rightarrow> val list \<Rightarrow> vm_error + val" where
  "compare_method known receiver extra =
     (if length extra \<noteq> 1 then Inl Compare_Arguments
      else let other = extra ! 0
           in if contains_fn known receiver \<or> contains_fn known other then Inl Compare_Of_Fn
              else case compare_of receiver other of
                     Some c \<Rightarrow> Inr (Int_Val (ordering_int c))
                   | None \<Rightarrow> Inl (Compare_Unsupported (kind_name receiver) (kind_name other)))"

text \<open>A hash: what the hasher makes of what is written to it, 64 bits, read as an Int.\<close>

definition has_hash :: "val \<Rightarrow> bool" where
  "has_hash v = (case v of
      Int_Val _ \<Rightarrow> True | Float_Val _ \<Rightarrow> True | Bool_Val _ \<Rightarrow> True | String_Val _ \<Rightarrow> True | List_Val _ \<Rightarrow> True
    | Range_Val _ _ \<Rightarrow> True | Tuple_Val _ \<Rightarrow> True | Map_Val _ \<Rightarrow> True | Set_Val _ \<Rightarrow> True | Variant_Val _ _ _ \<Rightarrow> True
    | Record_Val _ _ \<Rightarrow> True | Bytes_Val _ \<Rightarrow> True | Unit_Val \<Rightarrow> True | _ \<Rightarrow> False)"

definition hash_method ::
  "(hashed list \<Rightarrow> nat) \<Rightarrow> (val list \<Rightarrow> bool option) \<Rightarrow> val \<Rightarrow> val list \<Rightarrow> (vm_error + val) option" where
  "hash_method finish known receiver extra =
     (if extra \<noteq> [] then Some (Inl Hash_Arguments)
      else if contains_fn known receiver then Some (Inl No_Hash)
      else if has_hash receiver then Some (Inr (Int_Val (wrapping_add (int (finish (value_hash receiver []))) 0)))
      else None)"

definition dispatch_trait_method ::
  "(hashed list \<Rightarrow> nat) \<Rightarrow> (val list \<Rightarrow> bool option) \<Rightarrow> val \<Rightarrow> string \<Rightarrow> val list \<Rightarrow> (vm_error + val) option" where
  "dispatch_trait_method finish known receiver method_name extra =
     (if method_name = ''compare'' then Some (compare_method known receiver extra)
      else if method_name = ''hash'' then hash_method finish known receiver extra
      else None)"

end
