(* ===== verification/Record_Value.thy ===== *)
theory Record_Value
  imports Value
begin

text \<open>
  The record value (\<^verbatim>\<open>value/obj.rs\<close>): its fields by index and by name, the record a literal writes, the
  record with some fields replaced or added, the rest of a record. A record is its type and its fields in
  the type's order. The address of the description of an anonymous record's type, one for each list of
  names (\<^verbatim>\<open>anon_record_type\<close>), is an argument.
\<close>

type_synonym record_value = "rtype \<times> val list"

text \<open>The place of the first item that is this one.\<close>

definition position :: "'a \<Rightarrow> 'a list \<Rightarrow> nat option" where
  "position x xs = (if x \<in> set xs then Some (length (takeWhile (\<lambda>y. y \<noteq> x) xs)) else None)"

definition field_index :: "rtype \<Rightarrow> string \<Rightarrow> nat option" where
  "field_index t name = position name (rt_fields t)"

definition field_at :: "val list \<Rightarrow> nat \<Rightarrow> val option" where
  "field_at xs i = (if i < length xs then Some (xs ! i) else None)"

definition record_get :: "record_value \<Rightarrow> string \<Rightarrow> val option" where
  "record_get r name = (case field_index (fst r) name of None \<Rightarrow> None | Some i \<Rightarrow> field_at (snd r) i)"

definition record_named :: "record_value \<Rightarrow> (string \<times> val) list" where
  "record_named r = zip (rt_fields (fst r)) (snd r)"

definition anon_record_type :: "(string list \<Rightarrow> nat) \<Rightarrow> string list \<Rightarrow> rtype" where
  "anon_record_type addr names = \<lparr>rt_addr = addr names, rt_id = ANON_RECORD, rt_fields = names\<rparr>"

definition record_anon :: "(string list \<Rightarrow> nat) \<Rightarrow> (string \<times> val) list \<Rightarrow> record_value" where
  "record_anon addr named =
     (let sorted = sort_key fst named in (anon_record_type addr (map fst sorted), map snd sorted))"

text \<open>The values of the declared fields, each taken from where the literal gives it.\<close>

fun take_written :: "string list \<Rightarrow> string list \<Rightarrow> val list \<Rightarrow> val list option" where
  "take_written [] names vs = Some []"
| "take_written (d # ds) names vs =
     (case position d names of
        None \<Rightarrow> None
      | Some i \<Rightarrow> map_option (Cons (vs ! i)) (take_written ds names (vs[i := Unit_Val])))"

definition record_written :: "rtype \<Rightarrow> string list \<Rightarrow> val list \<Rightarrow> record_value option" where
  "record_written t names vs =
     (if length (rt_fields t) \<noteq> length vs then None
      else if rt_fields t = names then Some (t, vs)
      else map_option (Pair t) (take_written (rt_fields t) names vs))"

fun set_fields :: "rtype \<Rightarrow> (string \<times> val) list \<Rightarrow> val list \<Rightarrow> val list option" where
  "set_fields t [] xs = Some xs"
| "set_fields t ((name, v) # rest) xs =
     (case field_index t name of None \<Rightarrow> None | Some i \<Rightarrow> set_fields t rest (xs[i := v]))"

definition record_updated :: "(string list \<Rightarrow> nat) \<Rightarrow> record_value \<Rightarrow> string list \<Rightarrow> val list \<Rightarrow> record_value option" where
  "record_updated addr r names vs =
     (if list_all (\<lambda>name. field_index (fst r) name \<noteq> None) names
      then map_option (Pair (fst r)) (set_fields (fst r) (zip names vs) (snd r))
      else if \<not> is_anon (fst r) then None
      else Some (record_anon addr (filter (\<lambda>(name, _). \<not> List.member names name) (record_named r) @ zip names vs)))"

definition record_rest :: "(string list \<Rightarrow> nat) \<Rightarrow> record_value \<Rightarrow> string list \<Rightarrow> record_value" where
  "record_rest addr r excluded =
     (if is_anon (fst r) \<and> list_all (\<lambda>(name, _). \<not> List.member excluded name) (record_named r) then r
      else record_anon addr (filter (\<lambda>(name, _). \<not> List.member excluded name) (record_named r)))"

section \<open>Fields after an update\<close>

text \<open>A record is well formed: as many fields as its type names, each name once.\<close>

definition record_ok :: "record_value \<Rightarrow> bool" where
  "record_ok r \<longleftrightarrow> length (snd r) = length (rt_fields (fst r)) \<and> distinct (rt_fields (fst r))"

lemma position_nth: "position x xs = Some i \<Longrightarrow> i < length xs \<and> xs ! i = x"
proof (induction xs arbitrary: i)
  case (Cons y ys)
  then show ?case by (cases "y = x") (auto simp: position_def nth_Cons' split: if_splits)
qed (simp add: position_def)

lemma position_distinct: "distinct xs \<Longrightarrow> i < length xs \<Longrightarrow> position (xs ! i) xs = Some i"
  by (metis nth_eq_iff_index_eq nth_mem position_def position_nth)

lemma set_fields_get:
  assumes "record_ok (t, xs)" and "set_fields t named xs = Some ys"
  shows "record_ok (t, ys) \<and>
    record_get (t, ys) name = (case map_of (rev named) name of Some v \<Rightarrow> Some v | None \<Rightarrow> record_get (t, xs) name)"
  using assms
proof (induction t named xs arbitrary: ys rule: set_fields.induct)
  case (2 t n v rest xs)
  then obtain i where i: "field_index t n = Some i" "set_fields t rest (xs[i := v]) = Some ys"
    by (auto split: option.splits)
  have at: "i < length (rt_fields t)" "rt_fields t ! i = n" using position_nth [of n "rt_fields t" i] i(1) by (auto simp: field_index_def)
  have ok: "record_ok (t, xs[i := v])" using 2(2) by (simp add: record_ok_def)
  have "record_get (t, xs[i := v]) name = (if name = n then Some v else record_get (t, xs) name)"
  proof (cases "name = n")
    case True
    then show ?thesis using i(1) at 2(2) by (simp add: record_get_def field_at_def record_ok_def)
  next
    case False
    then have "field_index t name \<noteq> Some i" using position_nth [of name "rt_fields t" i] at(2) by (auto simp: field_index_def)
    then show ?thesis using False by (auto simp: record_get_def field_at_def split: option.splits)
  qed
  then show ?case using 2(1) [OF i(1) ok i(2)] by (auto simp: map_add_def split: option.splits)
qed simp

end
