(* ===== verification/Vm_Loop.thy ===== *)
theory Vm_Loop
  imports Vm_Value Record_Value List_Refine
begin

text \<open>
  The instruction loop of the virtual machine in the frame of one function (\<^verbatim>\<open>vm/run.rs\<close>): the instructions
  that work on the stack, the constants and the frame, the jumps, the instructions that fuse two, which a
  slice may end in the middle of, and the slice with its budget of steps.

  An instruction that calls a function or a builtin, asks for a global or a dictionary, or makes a text, a
  map, a set or a type, leaves the loop (\<open>Elsewhere\<close>). The lowest value of the stack is the first of the
  list. An index out of range, and every other place where the code panics, is the outcome \<open>Vm_Panics\<close>.
\<close>

section \<open>The machine\<close>

text \<open>The code of a function: the type a type constant describes, and where the type of an anonymous record
  with these names is, go with it.\<close>

record vm_code =
  vc_code :: "byte list"
  vc_constants :: "val list"
  vc_type :: "nat \<Rightarrow> rtype"
  vc_anon :: "string list \<Rightarrow> nat"

record vm_frame =
  vf_base :: nat
  vf_fn :: nat
  vf_upvalues :: "val list"
  vf_bound :: "val list"

datatype half = Half_Arith basic_op | Half_Branch nat | Half_Jump nat

record vm =
  vm_stack :: "val list"
  vm_ip :: nat
  vm_half :: "half option"

text \<open>The processor's arithmetic, and which sets know whether they hold a function.\<close>

record vm_env =
  ve_f64 :: f64
  ve_known :: "val list \<Rightarrow> bool option"

datatype vm_outcome =
    Goes vm
  | Fails vm_error vm
  | Returned val vm
  | Elsewhere instr vm
  | Vm_Panics

text \<open>What an instruction that works on the stack makes of it.\<close>

datatype stacked = Stack "val list" | Refused vm_error "val list" | Out_Of_Range | Not_Here

section \<open>Stacks\<close>

definition push_val :: "val \<Rightarrow> val list \<Rightarrow> stacked" where
  "push_val v st = Stack (st @ [v])"

definition push_opt :: "val option \<Rightarrow> val list \<Rightarrow> stacked" where
  "push_opt v st = (case v of Some x \<Rightarrow> Stack (st @ [x]) | None \<Rightarrow> Out_Of_Range)"

text \<open>An instruction of two operands writes its result over the first and drops the second; refused, both
  leave the stack. One of one operand writes its result over it; refused, it leaves the stack.\<close>

definition two_operands :: "(val \<Rightarrow> val \<Rightarrow> vm_error + val) \<Rightarrow> val list \<Rightarrow> stacked" where
  "two_operands f st =
     (if length st < 2 then Out_Of_Range
      else let below = take (length st - 2) st
           in case f (st ! (length st - 2)) (st ! (length st - 1)) of
                Inr v \<Rightarrow> Stack (below @ [v])
              | Inl e \<Rightarrow> Refused e below)"

definition one_operand :: "(val \<Rightarrow> vm_error + val) \<Rightarrow> val list \<Rightarrow> stacked" where
  "one_operand f st =
     (if st = [] then Out_Of_Range
      else case f (last st) of
             Inr v \<Rightarrow> Stack (butlast st @ [v])
           | Inl e \<Rightarrow> Refused e (butlast st))"

text \<open>A test looks at the value on top and pushes a Bool; a pattern's read of a part pushes the part, and
  leaves the stack as it is if there is none.\<close>

definition test_top :: "(val \<Rightarrow> bool) \<Rightarrow> val list \<Rightarrow> stacked" where
  "test_top p st = (if st = [] then Out_Of_Range else Stack (st @ [Bool_Val (p (last st))]))"

definition read_top :: "(val \<Rightarrow> vm_error + val) \<Rightarrow> val list \<Rightarrow> stacked" where
  "read_top f st =
     (if st = [] then Out_Of_Range
      else case f (last st) of Inr v \<Rightarrow> Stack (st @ [v]) | Inl e \<Rightarrow> Refused e st)"

text \<open>The values on top in place of which a value is put; refused, they leave the stack.\<close>

definition make_of :: "nat \<Rightarrow> (val list \<Rightarrow> vm_error + val) \<Rightarrow> val list \<Rightarrow> stacked" where
  "make_of n f st =
     (if length st < n then Out_Of_Range
      else let start = length st - n
           in case f (drop start st) of
                Inr v \<Rightarrow> Stack (take start st @ [v])
              | Inl e \<Rightarrow> Refused e (take start st))"

definition chunk_constant :: "vm_code \<Rightarrow> nat \<Rightarrow> val option" where
  "chunk_constant c k = (if k < length (vc_constants c) then Some (vc_constants c ! k) else None)"

definition string_constant :: "vm_code \<Rightarrow> nat \<Rightarrow> string option" where
  "string_constant c k = (case chunk_constant c k of Some (String_Val s) \<Rightarrow> Some s | _ \<Rightarrow> None)"

definition type_constant :: "vm_code \<Rightarrow> nat \<Rightarrow> rtype option" where
  "type_constant c k = (case chunk_constant c k of Some (Type_Val t) \<Rightarrow> Some (vc_type c t) | _ \<Rightarrow> None)"

fun all_some :: "'a option list \<Rightarrow> 'a list option" where
  "all_some [] = Some []"
| "all_some (x # xs) = (case x of None \<Rightarrow> None | Some y \<Rightarrow> map_option (Cons y) (all_some xs))"

fun names_at :: "vm_code \<Rightarrow> arg \<Rightarrow> string list option" where
  "names_at c (Items at n) = all_some (map (string_constant c) (str_items (vc_code c) at n))"
| "names_at c _ = None"

section \<open>Instructions\<close>

definition is_truthy :: "val \<Rightarrow> bool" where
  "is_truthy v = (case v of Bool_Val b \<Rightarrow> b | Unit_Val \<Rightarrow> False | _ \<Rightarrow> True)"

definition is_lt :: "ordering \<Rightarrow> bool" where "is_lt c \<longleftrightarrow> c = Less"
definition is_gt :: "ordering \<Rightarrow> bool" where "is_gt c \<longleftrightarrow> c = Greater"
definition is_le :: "ordering \<Rightarrow> bool" where "is_le c \<longleftrightarrow> c \<noteq> Greater"
definition is_ge :: "ordering \<Rightarrow> bool" where "is_ge c \<longleftrightarrow> c \<noteq> Less"

definition compared :: "vm_env \<Rightarrow> (ordering \<Rightarrow> bool) \<Rightarrow> val \<Rightarrow> val \<Rightarrow> vm_error + val" where
  "compared E holds a b =
     (case vm_ordering (ve_known E) a b of Inl e \<Rightarrow> Inl e | Inr c \<Rightarrow> Inr (Bool_Val (holds c)))"

definition equated :: "vm_env \<Rightarrow> bool \<Rightarrow> val \<Rightarrow> val \<Rightarrow> vm_error + val" where
  "equated E wanted a b =
     (case vm_equal (ve_known E) a b of Inl e \<Rightarrow> Inl e | Inr holds \<Rightarrow> Inr (Bool_Val (holds = wanted)))"

definition not_of :: "val \<Rightarrow> vm_error + val" where
  "not_of v = (case v of Bool_Val b \<Rightarrow> Inr (Bool_Val (\<not> b)) | _ \<Rightarrow> Inl (Cannot_Not v))"

definition arithmetic_const :: "vm_env \<Rightarrow> vm_code \<Rightarrow> basic_op \<Rightarrow> nat \<Rightarrow> val list \<Rightarrow> stacked" where
  "arithmetic_const E c op k st =
     (case chunk_constant c k of
        None \<Rightarrow> Out_Of_Range
      | Some b \<Rightarrow> one_operand (\<lambda>a. arithmetic (ve_f64 E) op a b) st)"

text \<open>A value that stays as it is where it is shown inside a string.\<close>

definition shown_plain :: "val \<Rightarrow> bool" where
  "shown_plain v = (case v of String_Val _ \<Rightarrow> True | Int_Val _ \<Rightarrow> True | Float_Val _ \<Rightarrow> True | Bool_Val _ \<Rightarrow> True | _ \<Rightarrow> False)"

definition slot_at :: "nat \<Rightarrow> val list \<Rightarrow> val option" where
  "slot_at i st = (if i < length st then Some (st ! i) else None)"

definition set_slot :: "nat \<Rightarrow> val list \<Rightarrow> stacked" where
  "set_slot i st = (if st = [] \<or> length st \<le> i then Out_Of_Range else Stack (st[i := last st]))"

definition basic_instr :: "vm_env \<Rightarrow> vm_code \<Rightarrow> vm_frame \<Rightarrow> basic_op \<Rightarrow> arg list \<Rightarrow> val list \<Rightarrow> stacked" where
  "basic_instr E c fr op args st =
     (case op of
        Op_Constant \<Rightarrow> push_opt (chunk_constant c (num (args ! 0))) st
      | Op_Unit \<Rightarrow> push_val Unit_Val st
      | Op_True \<Rightarrow> push_val (Bool_Val True) st
      | Op_False \<Rightarrow> push_val (Bool_Val False) st
      | Op_Add \<Rightarrow> two_operands (arithmetic (ve_f64 E) Op_Add) st
      | Op_Sub \<Rightarrow> two_operands (arithmetic (ve_f64 E) Op_Sub) st
      | Op_Mul \<Rightarrow> two_operands (arithmetic (ve_f64 E) Op_Mul) st
      | Op_Div \<Rightarrow> two_operands (arithmetic (ve_f64 E) Op_Div) st
      | Op_Mod \<Rightarrow> two_operands (arithmetic (ve_f64 E) Op_Mod) st
      | Op_AddConst \<Rightarrow> arithmetic_const E c Op_Add (num (args ! 0)) st
      | Op_SubConst \<Rightarrow> arithmetic_const E c Op_Sub (num (args ! 0)) st
      | Op_Eq \<Rightarrow> two_operands (equated E True) st
      | Op_Neq \<Rightarrow> two_operands (equated E False) st
      | Op_Lt \<Rightarrow> two_operands (compared E is_lt) st
      | Op_Gt \<Rightarrow> two_operands (compared E is_gt) st
      | Op_Leq \<Rightarrow> two_operands (compared E is_le) st
      | Op_Geq \<Rightarrow> two_operands (compared E is_ge) st
      | Op_Negate \<Rightarrow> one_operand negate st
      | Op_Not \<Rightarrow> one_operand not_of st
      | Op_DisplayValue \<Rightarrow> if st = [] then Out_Of_Range else if shown_plain (last st) then Stack st else Not_Here
      | Op_GetLocal \<Rightarrow> push_opt (slot_at (vf_base fr + num (args ! 0)) st) st
      | Op_SetLocal \<Rightarrow> set_slot (vf_base fr + num (args ! 0)) st
      | Op_GetUpvalue \<Rightarrow> push_opt (slot_at (num (args ! 0)) (vf_upvalues fr)) st
      | Op_GetClosure \<Rightarrow> push_val (Closure_Val (vf_fn fr) (vf_upvalues fr) (vf_bound fr)) st
      | Op_Interpolate \<Rightarrow> Not_Here
      | Op_GetGlobal \<Rightarrow> Not_Here
      | Op_SetGlobal \<Rightarrow> Not_Here)"

text \<open>The values a closure captures.\<close>

definition captured :: "vm_code \<Rightarrow> vm_frame \<Rightarrow> val list \<Rightarrow> arg \<Rightarrow> val list option" where
  "captured c fr st a =
     (case a of
        Items at n \<Rightarrow>
          all_some (map (\<lambda>cap. if is_local cap then slot_at (vf_base fr + uv_index cap) st
                              else slot_at (uv_index cap) (vf_upvalues fr)) (capture_items (vc_code c) at n))
      | _ \<Rightarrow> None)"

definition make_closure :: "vm_code \<Rightarrow> vm_frame \<Rightarrow> nat \<Rightarrow> arg \<Rightarrow> val list \<Rightarrow> stacked" where
  "make_closure c fr k a st =
     (case (captured c fr st a, chunk_constant c k) of
        (Some ups, Some (Closure_Val f _ _)) \<Rightarrow> push_val (Closure_Val f ups []) st
      | _ \<Rightarrow> Out_Of_Range)"

text \<open>A list of these elements; the elements of a list. How a list that an instruction made is held (its
  leaves, its shared parts) is the list's own and does not show: it is held here as a new one is.\<close>

definition list_of :: "val list \<Rightarrow> val" where
  "list_of xs = List_Val (side_runs xs)"

definition list_elements :: "val \<Rightarrow> val list" where
  "list_elements v = (case v of Range_Val lo hi \<Rightarrow> map Int_Val [lo..hi] | _ \<Rightarrow> concat (list_runs v))"

definition val_writable :: "val \<Rightarrow> vm_error option" where
  "val_writable v =
     (case v of
        Range_Val lo hi \<Rightarrow> if nat \<bar>hi - lo\<bar> \<ge> MAX_COLLECTION_LEN then Some (Range_Too_Long lo hi) else None
      | _ \<Rightarrow> None)"

text \<open>The list of a literal with spreads (\<^verbatim>\<open>builtins::collections::concat\<close>); how the joined list is stored is
  the list's own.\<close>

definition list_concat :: "val \<Rightarrow> val \<Rightarrow> vm_error + val" where
  "list_concat a b =
     (if \<not> (list_kind a \<and> list_kind b) then Inl Not_A_List
      else case val_writable a of
             Some e \<Rightarrow> Inl e
           | None \<Rightarrow>
               (case val_writable b of
                  Some e \<Rightarrow> Inl e
                | None \<Rightarrow>
                    let n = list_len a + list_len b
                    in if MAX_COLLECTION_LEN < n then Inl (Literal_Too_Long n)
                       else if list_len b = 0 then Inr a
                       else if list_len a = 0 then Inr b
                       else Inr (list_of (list_elements a @ list_elements b))))"

definition make_range :: "val \<Rightarrow> val \<Rightarrow> vm_error + val" where
  "make_range a b =
     (case (a, b) of
        (Int_Val lo, Int_Val hi) \<Rightarrow>
          (case (lv_ints lo hi :: too_long + val list list_value) of
             Inl _ \<Rightarrow> Inl (Range_Too_Long lo hi)
           | Inr l \<Rightarrow> Inr (lv_val items_vec l))
      | _ \<Rightarrow> Inl (Range_Of a b))"

definition get_field :: "nat \<Rightarrow> val \<Rightarrow> vm_error + val" where
  "get_field i v =
     (case v of
        Record_Val _ xs \<Rightarrow> (case field_at xs i of Some x \<Rightarrow> Inr x | None \<Rightarrow> Inl (No_Field i v))
      | _ \<Rightarrow> Inl (No_Field i v))"

definition get_field_named :: "string \<Rightarrow> val \<Rightarrow> vm_error + val" where
  "get_field_named name v =
     (case v of
        Record_Val t xs \<Rightarrow> (case record_get (t, xs) name of Some x \<Rightarrow> Inr x | None \<Rightarrow> Inl (No_Field_Named name))
      | _ \<Rightarrow> Inl (No_Record_For name v))"

definition make_record :: "rtype \<Rightarrow> string list \<Rightarrow> val list \<Rightarrow> vm_error + val" where
  "make_record t names vs =
     (case record_written t names vs of Some (u, xs) \<Rightarrow> Inr (Record_Val u xs) | None \<Rightarrow> Inl Wrong_Fields)"

text \<open>The record is below its new fields.\<close>

definition record_update :: "vm_code \<Rightarrow> string list \<Rightarrow> val list \<Rightarrow> vm_error + val" where
  "record_update c names vs =
     (case vs of
        Record_Val t xs # news \<Rightarrow>
          (case record_updated (vc_anon c) (t, xs) names news of
             Some (u, ys) \<Rightarrow> Inr (Record_Val u ys)
           | None \<Rightarrow> Inl Update_No_Field)
      | v # _ \<Rightarrow> Inl (Update_Of v)
      | [] \<Rightarrow> Inl Unreachable)"

definition data_instr :: "vm_code \<Rightarrow> vm_frame \<Rightarrow> data_op \<Rightarrow> arg list \<Rightarrow> val list \<Rightarrow> stacked" where
  "data_instr c fr op args st =
     (case op of
        Op_MakeClosure \<Rightarrow> make_closure c fr (num (args ! 0)) (args ! 1) st
      | Op_MakeTuple \<Rightarrow> make_of (num (args ! 0)) (\<lambda>vs. Inr (Tuple_Val vs)) st
      | Op_MakeList \<Rightarrow> make_of (num (args ! 0)) (\<lambda>vs. Inr (list_of vs)) st
      | Op_MakeRecord \<Rightarrow>
          (case (type_constant c (num (args ! 0)), names_at c (args ! 1)) of
             (Some t, Some names) \<Rightarrow> make_of (count (args ! 1)) (make_record t names) st
           | _ \<Rightarrow> Out_Of_Range)
      | Op_RecordUpdate \<Rightarrow>
          (case names_at c (args ! 0) of
             Some names \<Rightarrow> make_of (count (args ! 0) + 1) (record_update c names) st
           | None \<Rightarrow> Out_Of_Range)
      | Op_MakeRange \<Rightarrow> two_operands make_range st
      | Op_ListConcat \<Rightarrow> two_operands list_concat st
      | Op_GetField \<Rightarrow> one_operand (get_field (num (args ! 0))) st
      | Op_GetFieldNamed \<Rightarrow>
          (case string_constant c (num (args ! 0)) of
             Some name \<Rightarrow> one_operand (get_field_named name) st
           | None \<Rightarrow> Out_Of_Range)
      | _ \<Rightarrow> Not_Here)"

subsection \<open>Patterns\<close>

definition has_tag :: "vm_code \<Rightarrow> nat \<Rightarrow> val \<Rightarrow> bool option" where
  "has_tag c k v =
     (case chunk_constant c k of
        Some (Ctor_Val t n) \<Rightarrow> Some (case v of Variant_Val u m _ \<Rightarrow> m = n \<and> u = t | _ \<Rightarrow> False)
      | _ \<Rightarrow> None)"

definition int_range :: "vm_code \<Rightarrow> nat \<Rightarrow> nat \<Rightarrow> val \<Rightarrow> bool option" where
  "int_range c lo hi v =
     (case (chunk_constant c lo, chunk_constant c hi) of
        (Some l, Some h) \<Rightarrow>
          Some (case (v, l, h) of (Int_Val n, Int_Val a, Int_Val b) \<Rightarrow> a \<le> n \<and> n \<le> b | _ \<Rightarrow> False)
      | _ \<Rightarrow> None)"

definition float_range :: "vm_code \<Rightarrow> nat \<Rightarrow> nat \<Rightarrow> val \<Rightarrow> bool option" where
  "float_range c lo hi v =
     (case (chunk_constant c lo, chunk_constant c hi) of
        (Some l, Some h) \<Rightarrow>
          Some (case (v, l, h) of
                  (Float_Val n, Float_Val a, Float_Val b) \<Rightarrow>
                    float_place a \<le> float_place n \<and> float_place n \<le> float_place b
                | _ \<Rightarrow> False)
      | _ \<Rightarrow> None)"

definition destruct_tuple :: "nat \<Rightarrow> val \<Rightarrow> vm_error + val" where
  "destruct_tuple i v =
     (case v of
        Tuple_Val xs \<Rightarrow> if i < length xs then Inr (xs ! i) else Inl (Tuple_Too_Short (i + 1) (length xs))
      | _ \<Rightarrow> Inl (Not_Destructed v))"

definition destruct_variant :: "nat \<Rightarrow> val \<Rightarrow> vm_error + val" where
  "destruct_variant i v =
     (case v of
        Variant_Val _ _ xs \<Rightarrow> if i < length xs then Inr (xs ! i) else Inl (Variant_Too_Short i (length xs))
      | _ \<Rightarrow> Inl (Not_Destructed v))"

definition destruct_list :: "nat \<Rightarrow> val \<Rightarrow> vm_error + val" where
  "destruct_list i v =
     (case v of
        List_Val runs \<Rightarrow>
          if i < list_len v then Inr (concat runs ! i) else Inl (List_Too_Short (i + 1) (list_len v))
      | Range_Val lo _ \<Rightarrow>
          if i < list_len v then Inr (Int_Val (int_at lo i)) else Inl (List_Too_Short (i + 1) (list_len v))
      | _ \<Rightarrow> Inl (Not_Destructed v))"

definition destruct_rest :: "nat \<Rightarrow> val \<Rightarrow> vm_error + val" where
  "destruct_rest start v =
     (case v of
        List_Val runs \<Rightarrow>
          if start \<le> list_len v then Inr (list_of (drop start (concat runs))) else Inl (Rest_Too_Far start (list_len v))
      | Range_Val lo hi \<Rightarrow>
          if start < list_len v then Inr (Range_Val (int_at lo start) (int_at lo (list_len v - 1)))
          else if start = list_len v then Inr (list_of [])
          else Inl (Rest_Too_Far start (list_len v))
      | _ \<Rightarrow> Inl (Not_Destructed v))"

definition destruct_named :: "string \<Rightarrow> val \<Rightarrow> vm_error + val" where
  "destruct_named name v =
     (case v of
        Record_Val t xs \<Rightarrow> (case record_get (t, xs) name of Some x \<Rightarrow> Inr x | None \<Rightarrow> Inl (No_Field_Named name))
      | _ \<Rightarrow> Inl (Not_Destructed v))"

definition destruct_record_rest :: "vm_code \<Rightarrow> string list \<Rightarrow> val \<Rightarrow> vm_error + val" where
  "destruct_record_rest c names v =
     (case v of
        Record_Val t xs \<Rightarrow> (case record_rest (vc_anon c) (t, xs) names of (u, ys) \<Rightarrow> Inr (Record_Val u ys))
      | _ \<Rightarrow> Inl (Not_Destructed v))"

definition map_find :: "val \<Rightarrow> val \<Rightarrow> val option" where
  "map_find key_val v =
     (case v of
        Map_Val es \<Rightarrow> map_option snd (List.find (\<lambda>e. value_cmp (fst e) key_val = Equal) es)
      | _ \<Rightarrow> None)"

definition destruct_map :: "val \<Rightarrow> string \<Rightarrow> val \<Rightarrow> vm_error + val" where
  "destruct_map key_val name v =
     (case v of
        Map_Val _ \<Rightarrow> (case map_find key_val v of Some x \<Rightarrow> Inr x | None \<Rightarrow> Inl (No_Map_Key name))
      | _ \<Rightarrow> Inl (Not_Destructed v))"

text \<open>A test that asks a constant, which may be none.\<close>

definition test_const :: "(val \<Rightarrow> bool option) \<Rightarrow> val list \<Rightarrow> stacked" where
  "test_const p st =
     (if st = [] then Out_Of_Range
      else case p (last st) of Some b \<Rightarrow> Stack (st @ [Bool_Val b]) | None \<Rightarrow> Out_Of_Range)"

definition match_instr :: "vm_code \<Rightarrow> match_op \<Rightarrow> arg list \<Rightarrow> val list \<Rightarrow> stacked" where
  "match_instr c op args st =
     (let n = num (args ! 0)
      in case op of
           Op_TestTag \<Rightarrow> test_const (has_tag c n) st
         | Op_TestEqual \<Rightarrow> test_const (\<lambda>v. map_option (value_eq v) (chunk_constant c n)) st
         | Op_TestTupleLen \<Rightarrow> test_top (\<lambda>v. case v of Tuple_Val xs \<Rightarrow> length xs = n | _ \<Rightarrow> False) st
         | Op_TestListMin \<Rightarrow> test_top (\<lambda>v. list_kind v \<and> n \<le> list_len v) st
         | Op_TestListExact \<Rightarrow> test_top (\<lambda>v. list_kind v \<and> list_len v = n) st
         | Op_TestIntRange \<Rightarrow> test_const (int_range c n (num (args ! 1))) st
         | Op_TestFloatRange \<Rightarrow> test_const (float_range c n (num (args ! 1))) st
         | Op_DestructTuple \<Rightarrow> read_top (destruct_tuple n) st
         | Op_DestructVariant \<Rightarrow> read_top (destruct_variant n) st
         | Op_DestructList \<Rightarrow> read_top (destruct_list n) st
         | Op_DestructListRest \<Rightarrow> read_top (destruct_rest n) st
         | Op_DestructRecordField \<Rightarrow> read_top (get_field n) st
         | Op_DestructRecordFieldNamed \<Rightarrow>
             (case string_constant c n of Some name \<Rightarrow> read_top (destruct_named name) st | None \<Rightarrow> Out_Of_Range)
         | Op_DestructRecordRest \<Rightarrow>
             (case names_at c (args ! 0) of
                Some names \<Rightarrow> one_operand (destruct_record_rest c names) st
              | None \<Rightarrow> Out_Of_Range)
         | Op_TestRecordTag \<Rightarrow>
             (case type_constant c n of
                Some t \<Rightarrow> test_top (\<lambda>v. case v of Record_Val u _ \<Rightarrow> rt_id u = rt_id t | _ \<Rightarrow> False) st
              | None \<Rightarrow> Out_Of_Range)
         | Op_TestMapHasKey \<Rightarrow>
             test_const (\<lambda>v. map_option (\<lambda>k. map_find k v \<noteq> None) (chunk_constant c n)) st
         | Op_DestructMapValue \<Rightarrow>
             (case string_constant c n of
                Some name \<Rightarrow> read_top (destruct_map (String_Val name) name) st
              | None \<Rightarrow> Out_Of_Range))"

subsection \<open>Frames\<close>

definition frame_dict :: "vm_frame \<Rightarrow> val list \<Rightarrow> stacked" where
  "frame_dict fr st = (if vf_base fr = 0 then Out_Of_Range else push_opt (slot_at (vf_base fr - 1) st) st)"

text \<open>Keep the value on top and cut the frame back to so many values below it.\<close>

definition slide :: "nat \<Rightarrow> val list \<Rightarrow> stacked" where
  "slide to st =
     (if st = [] then Out_Of_Range
      else if to < length st - 1 then Stack (take (to + 1) (st[to := last st]))
      else Stack st)"

definition dict_instr :: "vm_frame \<Rightarrow> dict_op \<Rightarrow> arg list \<Rightarrow> val list \<Rightarrow> stacked" where
  "dict_instr fr op args st =
     (case op of
        Op_FrameDict \<Rightarrow> frame_dict fr st
      | Op_Slide \<Rightarrow> slide (vf_base fr + num (args ! 0)) st
      | _ \<Rightarrow> Not_Here)"

definition pop_top :: "val list \<Rightarrow> stacked" where
  "pop_top st = (if st = [] then Out_Of_Range else Stack (butlast st))"

definition dup_top :: "val list \<Rightarrow> stacked" where
  "dup_top st = (if st = [] then Out_Of_Range else Stack (st @ [last st]))"

text \<open>The instructions that go on with the next one.\<close>

fun stack_instr :: "vm_env \<Rightarrow> vm_code \<Rightarrow> vm_frame \<Rightarrow> instr \<Rightarrow> val list \<Rightarrow> stacked" where
  "stack_instr E c fr (Basic op, args) st = basic_instr E c fr op args st"
| "stack_instr E c fr (Data op, args) st = data_instr c fr op args st"
| "stack_instr E c fr (Match op, args) st = match_instr c op args st"
| "stack_instr E c fr (Dict op, args) st = dict_instr fr op args st"
| "stack_instr E c fr (Control Op_Pop, args) st = pop_top st"
| "stack_instr E c fr (Control Op_Dup, args) st = dup_top st"
| "stack_instr E c fr (Control _, args) st = Not_Here"

subsection \<open>Jumps\<close>

definition at_ip :: "vm \<Rightarrow> val list \<Rightarrow> nat \<Rightarrow> vm" where
  "at_ip m st ip = m\<lparr>vm_stack := st, vm_ip := ip\<rparr>"

text \<open>Take the value on top off, and jump if it is so.\<close>

definition jump_on :: "(val \<Rightarrow> bool) \<Rightarrow> nat \<Rightarrow> nat \<Rightarrow> vm \<Rightarrow> vm_outcome" where
  "jump_on p to nx m =
     (if vm_stack m = [] then Vm_Panics
      else Goes (at_ip m (butlast (vm_stack m)) (if p (last (vm_stack m)) then to else nx)))"

text \<open>A comparison fused with the jump after it: both operands leave the stack, and the jump is taken unless
  the comparison holds.\<close>

definition jump_unless_holds :: "(val \<Rightarrow> val \<Rightarrow> vm_error + val) \<Rightarrow> nat \<Rightarrow> nat \<Rightarrow> vm \<Rightarrow> vm_outcome" where
  "jump_unless_holds f to nx m =
     (case two_operands f (vm_stack m) of
        Stack st \<Rightarrow> Goes (at_ip m (butlast st) (if last st = Bool_Val False then to else nx))
      | Refused e st \<Rightarrow> Fails e (at_ip m st nx)
      | _ \<Rightarrow> Vm_Panics)"

text \<open>The values on top over the bindings of a loop, one after the other, and the frame cut back to just
  above them.\<close>

definition recur_stack :: "nat \<Rightarrow> nat \<Rightarrow> val list \<Rightarrow> val list option" where
  "recur_stack to argc st =
     (if length st < argc \<or> 0 < argc \<and> length st < to + argc then None
      else let start = length st - argc
           in Some (take (to + argc) (fold (\<lambda>i s. s[to + i := s ! (start + i)]) [0..<argc] st)))"

definition recur_parted :: "nat \<Rightarrow> nat \<Rightarrow> val list \<Rightarrow> val list option" where
  "recur_parted to argc st =
     (let start = length st - argc
      in if length st < argc \<or> 0 < argc \<and> start < to + argc then None
         else Some (take (to + argc) (fold (\<lambda>i s. s[to + i := drop start st ! i]) [0..<argc] (take start st))))"

text \<open>\<^verbatim>\<open>?\<close>: what an \<^verbatim>\<open>Ok\<close> or a \<^verbatim>\<open>Some\<close> holds is written over it; an \<^verbatim>\<open>Err\<close> or a \<^verbatim>\<open>None\<close> is returned.\<close>

definition TY_RESULT :: nat where "TY_RESULT = 0"
definition TY_OPTION :: nat where "TY_OPTION = 1"

definition return_from :: "vm_frame \<Rightarrow> vm \<Rightarrow> val \<Rightarrow> vm_outcome" where
  "return_from fr m v = Returned v (m\<lparr>vm_stack := take (vf_base fr - 1) (vm_stack m)\<rparr>)"

definition question_mark :: "vm_frame \<Rightarrow> nat \<Rightarrow> vm \<Rightarrow> vm_outcome" where
  "question_mark fr nx m =
     (let st = vm_stack m
      in if st = [] then Vm_Panics
         else case last st of
                Variant_Val t n xs \<Rightarrow>
                  if n = 0 \<and> (t = TY_RESULT \<or> t = TY_OPTION)
                  then Goes (at_ip m (butlast st @ [case xs of [x] \<Rightarrow> x | _ \<Rightarrow> Unit_Val]) nx)
                  else if n = 1 \<and> (t = TY_RESULT \<or> t = TY_OPTION)
                  then return_from fr (at_ip m (butlast st) nx) (last st)
                  else Fails (Not_Tried (last st)) (at_ip m st nx)
              | v \<Rightarrow> Fails (Not_Tried v) (at_ip m st nx))"

definition control_instr :: "vm_env \<Rightarrow> vm_frame \<Rightarrow> instr \<Rightarrow> nat \<Rightarrow> vm \<Rightarrow> vm_outcome option" where
  "control_instr E fr i nx m =
     (let args = snd i; to = num (args ! 0)
      in case fst i of
           Control Op_Jump \<Rightarrow> Some (Goes (at_ip m (vm_stack m) to))
         | Control Op_JumpIfFalse \<Rightarrow> Some (jump_on (\<lambda>v. \<not> is_truthy v) to nx m)
         | Control Op_JumpIfTrue \<Rightarrow> Some (jump_on is_truthy to nx m)
         | Control Op_JumpIfNotLt \<Rightarrow> Some (jump_unless_holds (compared E is_lt) to nx m)
         | Control Op_JumpIfNotGt \<Rightarrow> Some (jump_unless_holds (compared E is_gt) to nx m)
         | Control Op_JumpIfNotLeq \<Rightarrow> Some (jump_unless_holds (compared E is_le) to nx m)
         | Control Op_JumpIfNotGeq \<Rightarrow> Some (jump_unless_holds (compared E is_ge) to nx m)
         | Control Op_JumpIfNotEq \<Rightarrow> Some (jump_unless_holds (equated E True) to nx m)
         | Control Op_JumpIfNotNeq \<Rightarrow> Some (jump_unless_holds (equated E False) to nx m)
         | Dict Op_Recur \<Rightarrow>
             Some (case recur_stack (vf_base fr + num (args ! 1)) (num (args ! 0)) (vm_stack m) of
                     Some st \<Rightarrow> Goes (at_ip m st (num (args ! 2)))
                   | None \<Rightarrow> Vm_Panics)
         | Dict Op_QuestionMark \<Rightarrow> Some (question_mark fr nx m)
         | Data Op_Return \<Rightarrow>
             Some (if vm_stack m = [] then Vm_Panics
                   else return_from fr (at_ip m (butlast (vm_stack m)) nx) (last (vm_stack m)))
         | _ \<Rightarrow> None)"

text \<open>One instruction of the loop.\<close>

definition run_instr :: "vm_env \<Rightarrow> vm_code \<Rightarrow> vm_frame \<Rightarrow> instr \<Rightarrow> nat \<Rightarrow> vm \<Rightarrow> vm_outcome" where
  "run_instr E c fr i nx m =
     (case control_instr E fr i nx m of
        Some r \<Rightarrow> r
      | None \<Rightarrow>
          (case stack_instr E c fr i (vm_stack m) of
             Stack st \<Rightarrow> Goes (at_ip m st nx)
           | Refused e st \<Rightarrow> Fails e (at_ip m st nx)
           | Out_Of_Range \<Rightarrow> Vm_Panics
           | Not_Here \<Rightarrow> Elsewhere i (at_ip m (vm_stack m) nx)))"

definition vm_step :: "vm_env \<Rightarrow> vm_code \<Rightarrow> vm_frame \<Rightarrow> vm \<Rightarrow> vm_outcome" where
  "vm_step E c fr m =
     (case decode (vc_code c) (vm_ip m) of None \<Rightarrow> Vm_Panics | Some (i, nx) \<Rightarrow> run_instr E c fr i nx m)"

section \<open>Slices\<close>

definition fused_ops :: "op list" where
  "fused_ops = [Basic Op_AddConst, Basic Op_SubConst, Control Op_JumpIfNotLt, Control Op_JumpIfNotGt,
     Control Op_JumpIfNotLeq, Control Op_JumpIfNotGeq, Control Op_JumpIfNotEq, Control Op_JumpIfNotNeq, Dict Op_Recur]"

definition fuses_two :: "byte \<Rightarrow> bool" where
  "fuses_two b = list_ex (\<lambda>op. op_byte op = b) fused_ops"

definition equated_by_call :: "vm_env \<Rightarrow> bool \<Rightarrow> val \<Rightarrow> val \<Rightarrow> vm_error + val" where
  "equated_by_call E wanted a b =
     (case other_equal (ve_known E) a b of Inl e \<Rightarrow> Inl e | Inr holds \<Rightarrow> Inr (Bool_Val (holds = wanted)))"

text \<open>The first part of an instruction that fuses two, with the last step of a slice; the second, with the
  first step of the next.\<close>

definition half_const :: "vm_code \<Rightarrow> basic_op \<Rightarrow> nat \<Rightarrow> nat \<Rightarrow> vm \<Rightarrow> vm_outcome" where
  "half_const c op k nx m =
     (case chunk_constant c k of
        None \<Rightarrow> Vm_Panics
      | Some v \<Rightarrow> Goes ((at_ip m (vm_stack m @ [v]) nx)\<lparr>vm_half := Some (Half_Arith op)\<rparr>))"

definition half_compared :: "(val \<Rightarrow> val \<Rightarrow> vm_error + val) \<Rightarrow> nat \<Rightarrow> nat \<Rightarrow> vm \<Rightarrow> vm_outcome" where
  "half_compared f to nx m =
     (case two_operands f (vm_stack m) of
        Stack st \<Rightarrow> Goes ((at_ip m st nx)\<lparr>vm_half := Some (Half_Branch to)\<rparr>)
      | Refused e st \<Rightarrow> Fails e (at_ip m st nx)
      | _ \<Rightarrow> Vm_Panics)"

definition first_part :: "vm_env \<Rightarrow> vm_code \<Rightarrow> vm_frame \<Rightarrow> vm \<Rightarrow> vm_outcome" where
  "first_part E c fr m =
     (case decode (vc_code c) (vm_ip m) of
        None \<Rightarrow> Vm_Panics
      | Some ((op, args), nx) \<Rightarrow>
          let to = num (args ! 0)
          in case op of
               Basic Op_AddConst \<Rightarrow> half_const c Op_Add (num (args ! 0)) nx m
             | Basic Op_SubConst \<Rightarrow> half_const c Op_Sub (num (args ! 0)) nx m
             | Control Op_JumpIfNotLt \<Rightarrow> half_compared (compared E is_lt) to nx m
             | Control Op_JumpIfNotGt \<Rightarrow> half_compared (compared E is_gt) to nx m
             | Control Op_JumpIfNotLeq \<Rightarrow> half_compared (compared E is_le) to nx m
             | Control Op_JumpIfNotGeq \<Rightarrow> half_compared (compared E is_ge) to nx m
             | Control Op_JumpIfNotEq \<Rightarrow> half_compared (equated_by_call E True) to nx m
             | Control Op_JumpIfNotNeq \<Rightarrow> half_compared (equated_by_call E False) to nx m
             | Dict Op_Recur \<Rightarrow>
                 (case recur_parted (vf_base fr + num (args ! 1)) (num (args ! 0)) (vm_stack m) of
                    Some st \<Rightarrow> Goes ((at_ip m st nx)\<lparr>vm_half := Some (Half_Jump (num (args ! 2)))\<rparr>)
                  | None \<Rightarrow> Vm_Panics)
             | _ \<Rightarrow> Vm_Panics)"

definition second_part :: "vm_env \<Rightarrow> half \<Rightarrow> vm \<Rightarrow> vm_outcome" where
  "second_part E half m =
     (case half of
        Half_Arith op \<Rightarrow>
          (case two_operands (arithmetic (ve_f64 E) op) (vm_stack m) of
             Stack st \<Rightarrow> Goes (at_ip m st (vm_ip m))
           | Refused e st \<Rightarrow> Fails e (at_ip m st (vm_ip m))
           | _ \<Rightarrow> Vm_Panics)
      | Half_Branch to \<Rightarrow> jump_on (\<lambda>v. v = Bool_Val False) to (vm_ip m) m
      | Half_Jump to \<Rightarrow> Goes (at_ip m (vm_stack m) to))"

datatype slice =
    Out_Of_Budget vm
  | Slice_Fails vm_error vm
  | Slice_Returned val vm nat  \<comment> \<open>with the budget that is left\<close>
  | Slice_Elsewhere instr vm nat
  | Slice_Panics

fun slice_end :: "nat \<Rightarrow> vm_outcome \<Rightarrow> slice" where
  "slice_end left (Goes m) = Out_Of_Budget m"
| "slice_end left (Fails e m) = Slice_Fails e m"
| "slice_end left (Returned v m) = Slice_Returned v m left"
| "slice_end left (Elsewhere i m) = Slice_Elsewhere i m left"
| "slice_end left Vm_Panics = Slice_Panics"

text \<open>Whether the instruction at hand fuses two; none if there is no code there.\<close>

definition fuses_at :: "vm_code \<Rightarrow> vm \<Rightarrow> bool option" where
  "fuses_at c m = (if vm_ip m < length (vc_code c) then Some (fuses_two (vc_code c ! vm_ip m)) else None)"

fun run_loop :: "vm_env \<Rightarrow> vm_code \<Rightarrow> vm_frame \<Rightarrow> nat \<Rightarrow> vm \<Rightarrow> slice" where
  "run_loop E c fr 0 m = Out_Of_Budget m"
| "run_loop E c fr (Suc 0) m =
     (case fuses_at c m of
        None \<Rightarrow> Slice_Panics
      | Some True \<Rightarrow> slice_end 0 (first_part E c fr m)
      | Some False \<Rightarrow> slice_end 0 (vm_step E c fr m))"
| "run_loop E c fr (Suc (Suc n)) m =
     (let fused = fuses_at c m = Some True
      in case vm_step E c fr m of
           Goes m1 \<Rightarrow> if fused then run_loop E c fr n m1 else run_loop E c fr (Suc n) m1
         | r \<Rightarrow> slice_end (if fused then n else Suc n) r)"

definition run_slice :: "vm_env \<Rightarrow> vm_code \<Rightarrow> vm_frame \<Rightarrow> nat \<Rightarrow> vm \<Rightarrow> slice" where
  "run_slice E c fr budget m =
     (case vm_half m of
        None \<Rightarrow> run_loop E c fr budget m
      | Some half \<Rightarrow>
          if budget = 0 then Out_Of_Budget m
          else (case second_part E half (m\<lparr>vm_half := None\<rparr>) of
                  Goes m1 \<Rightarrow> run_loop E c fr (budget - 1) m1
                | r \<Rightarrow> slice_end (budget - 1) r))"

end
