(* ===== verification/Vm_Exact.thy ===== *)
theory Vm_Exact
  imports Vm_Value
begin

text \<open>
  What the virtual machine computes is exact: Int arithmetic is that of the whole numbers where the result
  is an Int and an error where it is none, arithmetic makes no number that is no value, and two values
  are ordered and equal as their keys are, if no function is inside them.
\<close>

section \<open>Ints\<close>

lemma sdiv_abs: "\<bar>a sdiv b\<bar> \<le> \<bar>a\<bar>" for a b :: int
  using sdiv_int_range [of a b] by auto

lemma abs_sdiv: "\<bar>a sdiv b\<bar> = \<bar>a\<bar> div \<bar>b\<bar>" for a b :: int
proof -
  have "0 \<le> \<bar>a\<bar> div \<bar>b\<bar>" by (cases "b = 0") (simp_all add: pos_imp_zdiv_nonneg_iff)
  then show ?thesis by (cases "a = 0"; cases "b = 0") (simp_all add: signed_divide_int_def abs_mult)
qed

lemma quotient_fits:
  assumes "in_i64 a" and "in_i64 b" and "b \<noteq> 0"
  shows "in_i64 (a sdiv b) \<longleftrightarrow> \<not> (a = - (2 ^ 63) \<and> b = - 1)"
proof (cases "a = - (2 ^ 63)")
  case True
  show ?thesis
  proof (cases "\<bar>b\<bar> = 1")
    case False
    then have "\<bar>a\<bar> div \<bar>b\<bar> < \<bar>a\<bar>" using True assms(3) by (intro int_div_less_self) auto
    then have "\<bar>a sdiv b\<bar> < 2 ^ 63" using True by (simp add: abs_sdiv)
    then show ?thesis using False by (auto simp: in_i64_def)
  next
    case b: True
    then have "b = 1 \<or> b = - 1" by auto
    then show ?thesis using True by (auto simp: in_i64_def)
  qed
next
  case False
  then have "\<bar>a\<bar> < 2 ^ 63" using assms(1) by (auto simp: in_i64_def)
  then show ?thesis using sdiv_abs [of a b] False by (auto simp: in_i64_def)
qed

lemma smod_zero: "a smod b = 0 \<longleftrightarrow> b dvd a" for a b :: int
  by (auto simp: signed_modulo_int_def sgn_eq_0_iff dvd_eq_mod_eq_0 [symmetric])

lemma smod_negative: "a smod b < 0 \<longleftrightarrow> a < 0 \<and> a smod b \<noteq> 0" if "b \<noteq> 0" for a b :: int
proof -
  have "0 \<le> x mod \<bar>b\<bar>" for x using that by simp
  then show ?thesis by (auto simp: signed_modulo_int_def sgn_if less_le not_le dest: leD)
qed

lemma floor_of_sdiv:
  "b \<noteq> 0 \<Longrightarrow> a div b = a sdiv b - (if a smod b \<noteq> 0 \<and> (a < 0) \<noteq> (b < 0) then 1 else 0)" for a b :: int
  by (auto simp: divide_int_eq_signed_divide_int smod_zero sgn_if)

lemma floor_of_smod:
  "b \<noteq> 0 \<Longrightarrow> a mod b = a smod b + (if a smod b \<noteq> 0 \<and> (a < 0) \<noteq> (b < 0) then b else 0)" for a b :: int
  by (auto simp: modulo_int_eq_signed_modulo_int smod_zero sgn_if)

lemma floored_div_exact:
  assumes "in_i64 a" and "in_i64 b" and "b \<noteq> 0"
  shows "floored_div a b = Inr (checked (a div b))"
proof (cases "a = - (2 ^ 63) \<and> b = - 1")
  case True
  then show ?thesis by (auto simp: floored_div_def checked_div_def checked_def in_i64_def)
next
  case False
  then have fits: "in_i64 (a sdiv b)" using quotient_fits [OF assms] by simp
  have div: "a div b = a sdiv b - (if a smod b \<noteq> 0 \<and> (a < 0) \<noteq> (b < 0) then 1 else 0)"
    by (rule floor_of_sdiv [OF assms(3)])
  have "in_i64 (a div b)"
  proof (cases "a smod b \<noteq> 0 \<and> (a < 0) \<noteq> (b < 0)")
    case True
    then have "\<bar>b\<bar> \<noteq> 1" by (auto simp: smod_zero)
    then have "2 \<le> \<bar>b\<bar>" using assms(3) by auto
    then have "\<bar>a sdiv b\<bar> \<le> \<bar>a\<bar> div 2"
      using zdiv_mono2 [of "\<bar>a\<bar>" 2 "\<bar>b\<bar>"] by (simp add: abs_sdiv)
    then show ?thesis using div assms(1) by (auto simp: in_i64_def)
  qed (use div fits in auto)
  then show ?thesis
    using fits div assms(3) wrapping_add_exact [of "a sdiv b" "- 1"]
    by (auto simp: floored_div_def checked_div_def checked_def rust_rem_def)
qed

lemma floored_mod_exact:
  assumes "in_i64 a" and "in_i64 b" and "b \<noteq> 0"
  shows "floored_mod a b = Inr (a mod b) \<and> in_i64 (a mod b)"
proof -
  have "\<bar>a mod b\<bar> < \<bar>b\<bar>" by (rule abs_mod_less [OF assms(3)])
  then have m: "in_i64 (a mod b)" using assms(2) by (auto simp: in_i64_def)
  show ?thesis
  proof (cases "b = - 1")
    case True
    then show ?thesis by (simp add: floored_mod_def in_i64_def)
  next
    case False
    then have "rust_rem a b = Some (a smod b)" using quotient_fits [OF assms] assms(3) by (simp add: rust_rem_def)
    then show ?thesis
      using False m floor_of_smod [OF assms(3), of a] smod_negative [OF assms(3), of a] wrapping_add_exact [of "a smod b" b]
      by (auto simp: floored_mod_def)
  qed
qed

text \<open>The result of an operator of the whole numbers, as an Int.\<close>

definition exactly :: "basic_op \<Rightarrow> int \<Rightarrow> int \<Rightarrow> int \<Rightarrow> vm_error + int" where
  "exactly op a b n = (if in_i64 n then Inr n else Inl (Int_Overflow op a b))"

lemma int_result_checked [simp]: "int_result op a b (checked n) = exactly op a b n"
  by (simp add: int_result_def checked_def exactly_def)

section \<open>Floats\<close>

text \<open>The bits of a Float: of a finite number, with one zero.\<close>

definition float_ok :: "nat \<Rightarrow> bool" where
  "float_ok bits \<longleftrightarrow> bits < 2 ^ 64 \<and> f64_finite bits \<and> (f64_zero bits \<longrightarrow> bits = 0)"

definition f64_ok :: "f64 \<Rightarrow> bool" where
  "f64_ok F \<longleftrightarrow> (\<forall>x y. f_add F x y < 2 ^ 64 \<and> f_sub F x y < 2 ^ 64 \<and> f_mul F x y < 2 ^ 64 \<and> f_div F x y < 2 ^ 64 \<and> f_rem F x y < 2 ^ 64)"

definition number_ok :: "val \<Rightarrow> bool" where
  "number_ok v = (case v of Int_Val n \<Rightarrow> in_i64 n | Float_Val bits \<Rightarrow> float_ok bits | _ \<Rightarrow> True)"

lemma float_new_ok: "bits < 2 ^ 64 \<Longrightarrow> float_new bits = Some f \<Longrightarrow> float_ok f"
  by (auto simp: float_new_def float_ok_def f64_zero_def f64_finite_def f64_exponent_def split: if_splits)

lemma float_result_ok: "r < 2 ^ 64 \<Longrightarrow> float_result op x y r = Inr f \<Longrightarrow> float_ok f"
  using float_new_ok by (auto simp: float_result_def split: option.splits)

lemma sign_bit: "(bits + 2 ^ 63) div 2 ^ 52 mod 2048 = bits div 2 ^ 52 mod 2048" for bits :: nat
proof -
  have "(bits + 2048 * 2 ^ 52) div 2 ^ 52 = bits div 2 ^ 52 + 2048" using div_mult_self1 [of "2 ^ 52" bits 2048] by (simp only: add.commute) simp
  then show ?thesis by simp
qed

lemma float_neg_ok:
  assumes "float_ok bits"
  shows "float_ok (float_neg bits)"
proof -
  consider "f64_zero bits" | "\<not> f64_zero bits" "bits < 2 ^ 63" | "\<not> f64_zero bits" "2 ^ 63 \<le> bits" by linarith
  then show ?thesis
  proof cases
    case 3
    then obtain c where c: "bits = c + 2 ^ 63" by (metis add.commute le_Suc_ex)
    then show ?thesis
      using 3 assms sign_bit [of c] by (auto simp: float_neg_def float_ok_def f64_zero_def f64_finite_def f64_exponent_def)
  qed (use assms sign_bit [of bits] in
      \<open>auto simp: float_neg_def float_ok_def f64_zero_def f64_finite_def f64_exponent_def\<close>)
qed

section \<open>Functions inside values\<close>

function has_fn :: "val \<Rightarrow> bool" where
  "has_fn v \<longleftrightarrow> is_fn v \<or> list_ex has_fn (fn_parts v)"
  by pat_completeness auto
termination
proof (relation "measure size")
  fix v x assume "x \<in> set (fn_parts v)"
  then have "Suc (size x) \<le> vs_size (fn_parts v)" by (induction "fn_parts v") (auto simp: vs_size_sum member_le_sum_list)
  then show "(x, v) \<in> measure size" using fn_parts_size [of v] by simp
qed simp

declare has_fn.simps [simp del]




section \<open>Order and equality\<close>


lemma plain_has_no_fn [simp]:
  "\<not> has_fn (Int_Val x)" "\<not> has_fn (Float_Val y)" "\<not> has_fn (String_Val z)" "\<not> has_fn (Bool_Val b)" "\<not> has_fn Unit_Val"
  by (simp_all add: has_fn.simps is_fn_def fn_parts_def)






section \<open>What the instructions promise\<close>

text \<open>C26: the arithmetic of two Ints is that of the whole numbers: the sum, the difference, the product, the
  quotient rounded down and the remainder with the sign of the divisor, wherever the result is an Int;
  where it is none the instruction fails with the overflow, and a divisor 0 has its own error. No step
  on the way wraps around or panics, and a divisor times the quotient and the remainder is the number.
\<close>

theorem int_arithmetic_is_exact:
  assumes "in_i64 a" and "in_i64 b"
  shows "int_arithmetic Op_Add a b = exactly Op_Add a b (a + b) \<and>
    int_arithmetic Op_Sub a b = exactly Op_Sub a b (a - b) \<and>
    int_arithmetic Op_Mul a b = exactly Op_Mul a b (a * b) \<and>
    int_arithmetic Op_Div a b = (if b = 0 then Inl Division_By_Zero else exactly Op_Div a b (a div b)) \<and>
    int_arithmetic Op_Mod a b = (if b = 0 then Inl Modulo_By_Zero else Inr (a mod b)) \<and>
    (case (int_arithmetic Op_Div a b, int_arithmetic Op_Mod a b) of
       (Inr q, Inr r) \<Rightarrow> a = q * b + r \<and> (if 0 < b then 0 \<le> r \<and> r < b else b < r \<and> r \<le> 0)
     | (Inl _, Inr r) \<Rightarrow> a = - (2 ^ 63) \<and> b = - 1 \<and> r = 0
     | (_, Inl _) \<Rightarrow> b = 0)"
proof -
  have ops: "int_arithmetic Op_Add a b = exactly Op_Add a b (a + b)"
    "int_arithmetic Op_Sub a b = exactly Op_Sub a b (a - b)"
    "int_arithmetic Op_Mul a b = exactly Op_Mul a b (a * b)"
    by (simp_all add: int_arithmetic_def checked_add_def checked_sub_def checked_mul_def)
  have d: "int_arithmetic Op_Div a b = (if b = 0 then Inl Division_By_Zero else exactly Op_Div a b (a div b))"
    and m: "int_arithmetic Op_Mod a b = (if b = 0 then Inl Modulo_By_Zero else Inr (a mod b))"
    using floored_div_exact [OF assms] floored_mod_exact [OF assms] by (simp_all add: int_arithmetic_def)
  have "in_i64 (a div b) \<or> a = - (2 ^ 63) \<and> b = - 1" if "b \<noteq> 0"
    using that floored_div_exact [OF assms] quotient_fits [OF assms]
    by (auto simp: floored_div_def checked_div_def checked_def rust_rem_def split: if_splits)
  then have "case (int_arithmetic Op_Div a b, int_arithmetic Op_Mod a b) of
       (Inr q, Inr r) \<Rightarrow> a = q * b + r \<and> (if 0 < b then 0 \<le> r \<and> r < b else b < r \<and> r \<le> 0)
     | (Inl _, Inr r) \<Rightarrow> a = - (2 ^ 63) \<and> b = - 1 \<and> r = 0
     | (_, Inl _) \<Rightarrow> b = 0"
    unfolding d m exactly_def by auto
  then show ?thesis using ops d m by blast
qed

theorem int_arithmetic_is_exact_witness:
  "int_arithmetic Op_Div (- 7) 3 = Inr (- 3) \<and> int_arithmetic Op_Mod (- 7) 3 = Inr 2 \<and>
   int_arithmetic Op_Div (- (2 ^ 63)) (- 1) = Inl (Int_Overflow Op_Div (- (2 ^ 63)) (- 1))"
  using int_arithmetic_is_exact [of "- 7" 3] int_arithmetic_is_exact [of "- (2 ^ 63)" "- 1"]
  by (simp add: in_i64_def exactly_def)

text \<open>C27: arithmetic makes only numbers that are values: of two Ints within 64 bits an Int within 64 bits, of
  two Floats that are finite and no negative zero such a Float, whatever the processor computes; and so
  does negation. It never fails as only a fault of the machine would.
\<close>

theorem arithmetic_keeps_numbers:
  assumes "number_ok a" and "number_ok b" and "f64_ok F" and "op \<in> {Op_Add, Op_Sub, Op_Mul, Op_Div, Op_Mod}"
  shows "(case arithmetic F op a b of Inr v \<Rightarrow> number_ok v \<and> rank v = rank a | Inl e \<Rightarrow> e \<noteq> Unreachable) \<and>
    (case negate a of Inr v \<Rightarrow> number_ok v \<and> rank v = rank a | Inl e \<Rightarrow> e \<noteq> Unreachable)"
proof
  have fit: "floored_float_mod F x y < 2 ^ 64" for x y
    using assms(3) by (simp add: floored_float_mod_def f64_ok_def Let_def)
  have float: "case float_arithmetic F op a b of Inr f \<Rightarrow> float_ok f \<and> rank a = 3 | Inl e \<Rightarrow> e \<noteq> Unreachable"
  proof (cases "\<exists>x y. a = Float_Val x \<and> b = Float_Val y")
    case True
    then obtain x y where xy: "a = Float_Val x" "b = Float_Val y" by blast
    have "case float_result op x y r of Inr f \<Rightarrow> float_ok f | Inl e \<Rightarrow> e \<noteq> Unreachable" if "r < 2 ^ 64" for r
      using float_result_ok [OF that] by (auto simp: float_result_def split: option.splits sum.splits)
    note res = this
    have "f_add F x y < 2 ^ 64" "f_sub F x y < 2 ^ 64" "f_mul F x y < 2 ^ 64" "f_div F x y < 2 ^ 64"
      using assms(3) by (simp_all only: f64_ok_def)
    note bounded = this [THEN res] fit [of x y, THEN res]
    consider "op = Op_Add" | "op = Op_Sub" | "op = Op_Mul" | "op = Op_Div" | "op = Op_Mod" using assms(4) by blast
    then show ?thesis by cases (use bounded xy in \<open>simp_all add: float_arithmetic_def split: sum.splits\<close>)
  next
    case False
    then have "float_arithmetic F op a b = Inl (apply_error op a b)"
      by (cases a; cases b) (simp_all add: float_arithmetic_def)
    then show ?thesis by (simp add: apply_error_def Let_def)
  qed
  have int: "case int_arithmetic op x y of Inr n \<Rightarrow> in_i64 n | Inl e \<Rightarrow> e \<noteq> Unreachable" if "in_i64 x" "in_i64 y" for x y
    using that assms(4) floored_div_exact [OF that] floored_mod_exact [OF that]
    by (auto simp: int_arithmetic_def checked_add_def checked_sub_def checked_mul_def exactly_def)
  show "case arithmetic F op a b of Inr v \<Rightarrow> number_ok v \<and> rank v = rank a | Inl e \<Rightarrow> e \<noteq> Unreachable"
  proof (cases "\<exists>x y. a = Int_Val x \<and> b = Int_Val y")
    case True
    then obtain x y where "a = Int_Val x" "b = Int_Val y" by blast
    then show ?thesis using int [of x y] assms(1,2) by (auto simp: arithmetic_def number_ok_def split: sum.splits)
  next
    case False
    then have "arithmetic F op a b = (case float_arithmetic F op a b of Inl e \<Rightarrow> Inl e | Inr f \<Rightarrow> Inr (Float_Val f))"
      by (cases a; cases b) (simp_all add: arithmetic_def)
    then show ?thesis using float by (auto simp: number_ok_def split: sum.splits)
  qed
  show "case negate a of Inr v \<Rightarrow> number_ok v \<and> rank v = rank a | Inl e \<Rightarrow> e \<noteq> Unreachable"
    using assms(1) float_neg_ok
    by (cases a) (auto simp: negate_def number_ok_def checked_neg_def checked_def split: option.splits)
qed

theorem arithmetic_keeps_numbers_witness:
  "arithmetic \<lparr>f_add = \<lambda>x y. 0, f_sub = \<lambda>x y. 0, f_mul = \<lambda>x y. 2 ^ 63, f_div = \<lambda>x y. 0, f_rem = \<lambda>x y. 0\<rparr>
     Op_Mul (Float_Val 0) (Float_Val 0) = Inr (Float_Val 0) \<and> number_ok (Float_Val 0)"
proof -
  let ?F = "\<lparr>f_add = \<lambda>x y. 0, f_sub = \<lambda>x y. 0, f_mul = \<lambda>x y. 2 ^ 63, f_div = \<lambda>x y. 0, f_rem = \<lambda>x y. 0\<rparr>"
  have z: "number_ok (Float_Val 0)"
    by (simp add: number_ok_def float_ok_def f64_finite_def f64_exponent_def f64_zero_def)
  have r: "arithmetic ?F Op_Mul (Float_Val 0) (Float_Val 0) = Inr (Float_Val 0)"
    by (simp add: arithmetic_def float_arithmetic_def float_result_def float_new_def f64_finite_def f64_exponent_def f64_zero_def)
  show ?thesis
    using arithmetic_keeps_numbers [of "Float_Val 0" "Float_Val 0" ?F Op_Mul] z r by (simp add: f64_ok_def)
qed



end
