(* ===== verification/Vm_Safe.thy ===== *)
theory Vm_Safe
  imports Vm_Slices
begin

text \<open>
  What the verifier accepts, the loop runs without a panic: every operand an instruction asks for is there,
  and no instruction touches a value below the frame of its function. The instruction loop of the machine is
  a refinement of the steps the verifier counts heights with.
\<close>

section \<open>A function and its frame\<close>




section \<open>Stacks\<close>


lemma height_moves [simp]: "height_after (moves p q) h = h - p + q" "height_after (flows p q w) h = h - p + q"
  "e_pops (moves p q) = p" "e_pops (flows p q w) = p" "e_cut (moves p q) = None" "e_cut (flows p q w) = None"
  "e_flow (moves p q) = F_Next" "e_flow (flows p q w) = w" "e_pushes (moves p q) = q"
  by (simp_all add: height_after_def moves_def flows_def)















section \<open>Operands\<close>










section \<open>Instructions\<close>







section \<open>Steps\<close>












section \<open>Runs\<close>







end
