(* ===== verification/Vm_Calls.thy ===== *)
theory Vm_Calls
  imports Vm_Loop
begin

text \<open>
  Calls (\<^verbatim>\<open>vm/calls.rs\<close>, the frames and the loop of \<^verbatim>\<open>vm/run.rs\<close>, \<^verbatim>\<open>vm/runtime.rs\<close>): the machine with its frames, of
  functions and of builtins that call back, the call, the tail call, the return, the delivery of a value to
  the frame on top, and the loop over all of them with its budget.

  What a builtin does, called or resumed, and what a host function does, are arguments: each gets the stack
  and gives the stack back, with a step. The frame on top is the first of the list; the log of tail calls,
  which an error message is written from, is left out.
\<close>

section \<open>Frames\<close>

record fn_info =
  fi_code :: vm_code
  fi_arity :: nat
  fi_dict_slot :: bool

text \<open>The frame of a function with its instruction pointer, and that of a builtin.\<close>

datatype 'n call_frame = Code_Frame vm_frame nat | Native_Frame 'n

datatype ('n, 'w) native_step = Step_Done val | Step_Call val nat | Step_Run 'n | Step_Park 'w | Step_Yield

record ('n, 'w) program =
  pg_env :: vm_env
  pg_fn :: "nat \<Rightarrow> fn_info"
  pg_ctor_arity :: "nat \<Rightarrow> nat \<Rightarrow> nat"
  pg_builtin :: "nat \<Rightarrow> val list \<Rightarrow> val list \<Rightarrow> (vm_error + ('n, 'w) native_step) \<times> val list"
  pg_host :: "string \<Rightarrow> val list \<Rightarrow> vm_error + val"
  pg_resume :: "'n \<Rightarrow> val \<Rightarrow> val list \<Rightarrow> (vm_error + ('n, 'w) native_step) \<times> 'n \<times> val list"

record 'n machine =
  mc_stack :: "val list"
  mc_frames :: "'n call_frame list"
  mc_natives :: nat
  mc_half :: "half option"
  mc_pending :: "val option"

datatype entered = Entered_Value val | Entered_Code | Entered_Native

datatype ('a, 'n) vm_result = Ok_With 'a "'n machine" | Err_With vm_error "'n machine" | Panic

datatype 'w slice_how = Ended_Done val | Ended_Budget | Ended_Yielded | Ended_Parked 'w

datatype ('n, 'w) machine_step =
    M_Goes nat "'n machine"  \<comment> \<open>with the budget that is left\<close>
  | M_Ends "'w slice_how" "'n machine"
  | M_Fails vm_error "'n machine"
  | M_Leaves instr "'n machine" nat
  | M_Panics

definition MAX_FRAMES :: nat where
  "MAX_FRAMES = 100000"

section \<open>Calls\<close>

definition splice :: "nat \<Rightarrow> 'a list \<Rightarrow> 'a list \<Rightarrow> 'a list option" where
  "splice at xs st = (if length st < at then None else Some (take at st @ xs @ drop at st))"

text \<open>The values bound to a closure go before the arguments, the first into the slot below them if the
  function takes its dictionary from there.\<close>

definition with_bound :: "fn_info \<Rightarrow> val list \<Rightarrow> nat \<Rightarrow> nat \<Rightarrow> val list \<Rightarrow> (val list \<times> nat) option" where
  "with_bound f bound at argc st =
     (case bound of
        [] \<Rightarrow> Some (st, argc)
      | first # rest \<Rightarrow>
          if fi_dict_slot f
          then if at = 0 \<or> length st < at then None
               else map_option (\<lambda>s. (s, argc + length rest)) (splice at rest (st[at - 1 := first]))
          else map_option (\<lambda>s. (s, argc + length bound)) (splice at bound st))"

definition push_code_frame :: "vm_frame \<Rightarrow> 'n machine \<Rightarrow> (unit, 'n) vm_result" where
  "push_code_frame fr m =
     (if length (mc_frames m) < mc_natives m then Panic
      else if MAX_FRAMES \<le> length (mc_frames m) - mc_natives m then Err_With Stack_Overflow m
      else Ok_With () (m\<lparr>mc_frames := Code_Frame fr 0 # mc_frames m\<rparr>))"

definition push_native_frame :: "'n \<Rightarrow> 'n machine \<Rightarrow> 'n machine" where
  "push_native_frame n m = m\<lparr>mc_frames := Native_Frame n # mc_frames m, mc_natives := mc_natives m + 1\<rparr>"

definition push_value :: "val \<Rightarrow> 'n machine \<Rightarrow> 'n machine" where
  "push_value v m = m\<lparr>mc_stack := mc_stack m @ [v]\<rparr>"

definition call_closure ::
  "('n, 'w) program \<Rightarrow> nat \<Rightarrow> val list \<Rightarrow> val list \<Rightarrow> nat \<Rightarrow> nat \<Rightarrow> 'n machine \<Rightarrow> (entered, 'n) vm_result" where
  "call_closure P f ups bound argc func_slot m =
     (case with_bound (pg_fn P f) bound (func_slot + 1) argc (mc_stack m) of
        None \<Rightarrow> Panic
      | Some (st, given) \<Rightarrow>
          let m1 = m\<lparr>mc_stack := st\<rparr>
          in if given \<noteq> fi_arity (pg_fn P f) then Err_With (Wrong_Arity f (fi_arity (pg_fn P f)) given) m1
             else case push_code_frame \<lparr>vf_base = func_slot + 1, vf_fn = f, vf_upvalues = ups, vf_bound = bound\<rparr> m1 of
                    Ok_With _ m2 \<Rightarrow> Ok_With Entered_Code m2
                  | Err_With e m2 \<Rightarrow> Err_With e m2
                  | Panic \<Rightarrow> Panic)"

text \<open>What a builtin's body, called with these arguments, comes to.\<close>

definition enter_builtin :: "('n, 'w) program \<Rightarrow> nat \<Rightarrow> val list \<Rightarrow> 'n machine \<Rightarrow> (entered, 'n) vm_result" where
  "enter_builtin P b args m =
     (case pg_builtin P b args (mc_stack m) of
        (r, st) \<Rightarrow>
          let m1 = m\<lparr>mc_stack := st\<rparr>
          in case r of
               Inl e \<Rightarrow> Err_With e m1
             | Inr (Step_Done v) \<Rightarrow> Ok_With (Entered_Value v) m1
             | Inr (Step_Run n) \<Rightarrow> Ok_With Entered_Native (push_native_frame n m1)
             | Inr _ \<Rightarrow> Err_With (Calls_Without_Frame b) m1)"

text \<open>The values from this place on leave the stack and are the arguments.\<close>

definition with_args :: "nat \<Rightarrow> (val list \<Rightarrow> 'n machine \<Rightarrow> ('a, 'n) vm_result) \<Rightarrow> 'n machine \<Rightarrow> ('a, 'n) vm_result" where
  "with_args at call m =
     (if length (mc_stack m) < at then Panic
      else call (drop at (mc_stack m)) (m\<lparr>mc_stack := take at (mc_stack m)\<rparr>))"

definition call_other :: "('n, 'w) program \<Rightarrow> val \<Rightarrow> nat \<Rightarrow> 'n machine \<Rightarrow> (entered, 'n) vm_result" where
  "call_other P callee func_slot m =
     (let cut = (\<lambda>m. m\<lparr>mc_stack := take func_slot (mc_stack m)\<rparr>)
      in case callee of
           Builtin_Val b \<Rightarrow> with_args (func_slot + 1) (\<lambda>args m. enter_builtin P b args (cut m)) m
         | Host_Val name \<Rightarrow>
             with_args (func_slot + 1)
               (\<lambda>args m. case pg_host P name args of
                           Inl e \<Rightarrow> Err_With e (cut m)
                         | Inr v \<Rightarrow> Ok_With (Entered_Value v) (cut m)) m
         | Ctor_Val t n \<Rightarrow>
             (if length (mc_stack m) < func_slot + 1 then Panic
              else let arity = pg_ctor_arity P t n; given = length (mc_stack m) - func_slot - 1
                   in if given \<noteq> arity then Err_With (Ctor_Arguments t n arity given) (cut m)
                      else Ok_With (Entered_Value (Variant_Val t n (drop (func_slot + 1) (mc_stack m)))) (cut m))
         | v \<Rightarrow> Err_With (Cannot_Call v) (cut m))"

definition call_value :: "('n, 'w) program \<Rightarrow> val \<Rightarrow> nat \<Rightarrow> nat \<Rightarrow> 'n machine \<Rightarrow> (entered, 'n) vm_result" where
  "call_value P callee argc func_slot m =
     (case callee of
        Closure_Val f ups bound \<Rightarrow> call_closure P f ups bound argc func_slot m
      | v \<Rightarrow> call_other P v func_slot m)"

text \<open>The frame on top is taken over by another function, with these values as its arguments, after the
  first values of the frame that are kept.\<close>

definition reuse_frame_after ::
  "fn_info \<Rightarrow> nat \<Rightarrow> val list \<Rightarrow> val list \<Rightarrow> nat \<Rightarrow> nat \<Rightarrow> nat \<Rightarrow> 'n machine \<Rightarrow> (unit, 'n) vm_result" where
  "reuse_frame_after info f ups bound args_at argc keep m =
     (case mc_frames m of
        Code_Frame fr ip # fs \<Rightarrow>
          let base = vf_base fr; st = mc_stack m
          in if fi_dict_slot info \<and> (base = 0 \<or> args_at = 0 \<or> length st < base \<or> length st < args_at) then Panic
             else if 0 < argc \<and> (length st < args_at + argc \<or> length st < base + keep + argc) then Panic
             else let st1 = if fi_dict_slot info then st[base - 1 := st ! (args_at - 1)] else st;
                      st2 = take (base + keep + argc)
                              (fold (\<lambda>i s. s[base + keep + i := s ! (args_at + i)]) [0..<argc] st1)
                  in Ok_With () (m\<lparr>mc_stack := st2,
                       mc_frames := Code_Frame \<lparr>vf_base = base, vf_fn = f, vf_upvalues = ups, vf_bound = bound\<rparr> 0 # fs\<rparr>)
      | _ \<Rightarrow> Panic)"

text \<open>The closure takes the frame over, if it is given as many arguments as it has parameters.\<close>

definition tail_closure ::
  "('n, 'w) program \<Rightarrow> nat \<Rightarrow> val list \<Rightarrow> val list \<Rightarrow> nat \<Rightarrow> nat \<Rightarrow> 'n machine \<Rightarrow> (unit, 'n) vm_result" where
  "tail_closure P f ups bound argc func_slot m =
     (case with_bound (pg_fn P f) bound (func_slot + 1) argc (mc_stack m) of
        None \<Rightarrow> Panic
      | Some (st, given) \<Rightarrow>
          let m1 = m\<lparr>mc_stack := st\<rparr>
          in if given \<noteq> fi_arity (pg_fn P f) then Err_With (Wrong_Arity f (fi_arity (pg_fn P f)) given) m1
             else reuse_frame_after (pg_fn P f) f ups bound (func_slot + 1) given 0 m1)"

definition tail_call_keep :: "('n, 'w) program \<Rightarrow> nat \<Rightarrow> nat \<Rightarrow> 'n machine \<Rightarrow> (unit, 'n) vm_result" where
  "tail_call_keep P argc keep m =
     (let st = mc_stack m; func_slot = length st - 1 - argc
      in if length st < argc + 1 then Panic
         else case (st ! func_slot, mc_frames m) of
                (Closure_Val f ups bound, Code_Frame fr ip # fs) \<Rightarrow>
                  if bound = [] \<and> keep + argc = fi_arity (pg_fn P f)
                  then reuse_frame_after (pg_fn P f) f ups bound (func_slot + 1) argc keep m
                  else if length st < vf_base fr + keep then Panic
                  else let kept = take keep (drop (vf_base fr) st)
                       in tail_closure P f ups bound (argc + keep) func_slot
                            (m\<lparr>mc_stack := take (func_slot + 1) st @ kept @ drop (func_slot + 1) st\<rparr>)
              | (v, Code_Frame fr ip # fs) \<Rightarrow>
                  if length st < vf_base fr + keep then Panic
                  else let kept = take keep (drop (vf_base fr) st)
                       in Err_With (Cannot_Call v) (m\<lparr>mc_stack := take (func_slot + 1) st @ kept @ drop (func_slot + 1) st\<rparr>)
              | _ \<Rightarrow> Panic)"

section \<open>Values delivered\<close>

text \<open>The frame of a builtin is resumed with a value: a value for the frame that is on top then, a function
  to run, or an end.\<close>

datatype ('n, 'w) resumed =
    Gives val "'n machine"
  | Runs "'n machine"
  | Stops "'w slice_how" "'n machine"
  | Stops_With vm_error "'n machine"
  | Resume_Panics

definition resumed_call :: "(entered, 'n) vm_result \<Rightarrow> ('n, 'w) resumed" where
  "resumed_call r =
     (case r of
        Ok_With (Entered_Value x) m \<Rightarrow> Gives x m
      | Ok_With Entered_Native m \<Rightarrow> Gives Unit_Val m
      | Ok_With Entered_Code m \<Rightarrow> Runs m
      | Err_With e m \<Rightarrow> Stops_With e m
      | Panic \<Rightarrow> Resume_Panics)"

definition resume_top :: "('n, 'w) program \<Rightarrow> 'n \<Rightarrow> 'n call_frame list \<Rightarrow> val \<Rightarrow> 'n machine \<Rightarrow> ('n, 'w) resumed" where
  "resume_top P n fs v m =
     (case pg_resume P n v (mc_stack m) of
        (r, n1, st) \<Rightarrow>
          let on = m\<lparr>mc_stack := st, mc_frames := Native_Frame n1 # fs\<rparr>
          in case r of
               Inl e \<Rightarrow> Stops_With e on
             | Inr (Step_Done x) \<Rightarrow> Gives x (m\<lparr>mc_stack := st, mc_frames := fs, mc_natives := mc_natives m - 1\<rparr>)
             | Inr (Step_Run k) \<Rightarrow> Gives Unit_Val (m\<lparr>mc_stack := st, mc_frames := Native_Frame k # fs\<rparr>)
             | Inr (Step_Park w) \<Rightarrow> Stops (Ended_Parked w) on
             | Inr Step_Yield \<Rightarrow> Stops Ended_Yielded on
             | Inr (Step_Call callee argc) \<Rightarrow>
                 if length st < argc + 1 then Resume_Panics
                 else resumed_call (call_value P callee argc (length st - argc - 1) on))"

fun deliver_native :: "('n, 'w) program \<Rightarrow> nat \<Rightarrow> nat \<Rightarrow> val \<Rightarrow> 'n machine \<Rightarrow> ('n, 'w) machine_step" where
  "deliver_native P floor budget v m =
     (if length (mc_frames m) = floor then M_Ends (Ended_Done v) m
      else case mc_frames m of
             [] \<Rightarrow> M_Panics
           | Code_Frame _ _ # _ \<Rightarrow> M_Goes budget (push_value v m)
           | Native_Frame n # fs \<Rightarrow>
               (case budget of
                  0 \<Rightarrow> M_Ends Ended_Budget (m\<lparr>mc_pending := Some v\<rparr>)
                | Suc left \<Rightarrow>
                    (case resume_top P n fs v m of
                       Gives x m1 \<Rightarrow> deliver_native P floor left x m1
                     | Runs m1 \<Rightarrow> M_Goes left m1
                     | Stops how m1 \<Rightarrow> M_Ends how m1
                     | Stops_With e m1 \<Rightarrow> M_Fails e m1
                     | Resume_Panics \<Rightarrow> M_Panics)))"

declare deliver_native.simps [simp del]

definition deliver_value :: "('n, 'w) program \<Rightarrow> nat \<Rightarrow> nat \<Rightarrow> val \<Rightarrow> 'n machine \<Rightarrow> ('n, 'w) machine_step" where
  "deliver_value P floor budget v m =
     (if length (mc_frames m) = floor then M_Ends (Ended_Done v) m
      else case mc_frames m of
             Code_Frame _ _ # _ \<Rightarrow> M_Goes budget (push_value v m)
           | _ \<Rightarrow> deliver_native P floor budget v m)"

section \<open>The loop\<close>

text \<open>After a call an instruction made: a value is the instruction's result, a builtin's frame is resumed.\<close>

definition go_on_after ::
  "('n, 'w) program \<Rightarrow> nat \<Rightarrow> nat \<Rightarrow> (entered, 'n) vm_result \<Rightarrow> ('n, 'w) machine_step" where
  "go_on_after P floor budget r =
     (case r of
        Ok_With (Entered_Value v) m \<Rightarrow> M_Goes budget (push_value v m)
      | Ok_With Entered_Code m \<Rightarrow> M_Goes budget m
      | Ok_With Entered_Native m \<Rightarrow> deliver_value P floor budget Unit_Val m
      | Err_With e m \<Rightarrow> M_Fails e m
      | Panic \<Rightarrow> M_Panics)"

definition tail_done :: "nat \<Rightarrow> (unit, 'n) vm_result \<Rightarrow> ('n, 'w) machine_step" where
  "tail_done budget r =
     (case r of Ok_With _ m \<Rightarrow> M_Goes budget m | Err_With e m \<Rightarrow> M_Fails e m | Panic \<Rightarrow> M_Panics)"

definition call_instr :: "('n, 'w) program \<Rightarrow> nat \<Rightarrow> nat \<Rightarrow> nat \<Rightarrow> 'n machine \<Rightarrow> ('n, 'w) machine_step" where
  "call_instr P floor budget argc m =
     (let st = mc_stack m; func_slot = length st - 1 - argc
      in if length st < argc + 1 then M_Panics
         else go_on_after P floor budget (call_value P (st ! func_slot) argc func_slot m))"

definition tail_call_instr :: "('n, 'w) program \<Rightarrow> nat \<Rightarrow> nat \<Rightarrow> nat \<Rightarrow> 'n machine \<Rightarrow> ('n, 'w) machine_step" where
  "tail_call_instr P floor budget argc m =
     (let st = mc_stack m; func_slot = length st - 1 - argc
      in if length st < argc + 1 then M_Panics
         else case st ! func_slot of
                Closure_Val f ups bound \<Rightarrow> tail_done budget (tail_closure P f ups bound argc func_slot m)
              | v \<Rightarrow> go_on_after P floor budget (call_value P v argc func_slot m))"

definition call_builtin_instr :: "('n, 'w) program \<Rightarrow> nat \<Rightarrow> nat \<Rightarrow> nat \<Rightarrow> nat \<Rightarrow> 'n machine \<Rightarrow> ('n, 'w) machine_step" where
  "call_builtin_instr P floor budget b argc m =
     (if length (mc_stack m) < argc then M_Panics
      else go_on_after P floor budget (with_args (length (mc_stack m) - argc) (enter_builtin P b) m))"

text \<open>An instruction that leaves the loop of one frame: the calls; the others leave the machine.\<close>

definition other_instr :: "('n, 'w) program \<Rightarrow> nat \<Rightarrow> nat \<Rightarrow> instr \<Rightarrow> 'n machine \<Rightarrow> ('n, 'w) machine_step" where
  "other_instr P floor budget i m =
     (let args = snd i
      in case fst i of
           Data Op_Call \<Rightarrow> call_instr P floor budget (num (args ! 0)) m
         | Data Op_TailCall \<Rightarrow> tail_call_instr P floor budget (num (args ! 0)) m
         | Data Op_TailCallKeep \<Rightarrow> tail_done budget (tail_call_keep P (num (args ! 0)) (num (args ! 1)) m)
         | Data Op_CallBuiltin \<Rightarrow> call_builtin_instr P floor budget (num (args ! 0)) (num (args ! 1)) m
         | _ \<Rightarrow> M_Leaves i m budget)"

text \<open>The state of the loop in the frame on top, and back.\<close>

definition in_loop :: "'n machine \<Rightarrow> nat \<Rightarrow> vm" where
  "in_loop m ip = \<lparr>vm_stack = mc_stack m, vm_ip = ip, vm_half = None\<rparr>"

definition saved :: "vm_frame \<Rightarrow> 'n call_frame list \<Rightarrow> vm \<Rightarrow> 'n machine \<Rightarrow> 'n machine" where
  "saved fr fs s m = m\<lparr>mc_stack := vm_stack s, mc_frames := Code_Frame fr (vm_ip s) # fs, mc_half := vm_half s\<rparr>"

text \<open>What an instruction of the frame on top comes to.\<close>

definition machine_after ::
  "('n, 'w) program \<Rightarrow> nat \<Rightarrow> nat \<Rightarrow> vm_frame \<Rightarrow> 'n call_frame list \<Rightarrow> 'n machine \<Rightarrow> vm_outcome \<Rightarrow> ('n, 'w) machine_step" where
  "machine_after P floor budget fr fs m r =
     (case r of
        Goes s \<Rightarrow> M_Goes budget (saved fr fs s m)
      | Fails e s \<Rightarrow> M_Fails e (saved fr fs s m)
      | Returned v s \<Rightarrow> deliver_value P floor budget v (m\<lparr>mc_stack := vm_stack s, mc_frames := fs\<rparr>)
      | Elsewhere i s \<Rightarrow> other_instr P floor budget i (saved fr fs s m)
      | Vm_Panics \<Rightarrow> M_Panics)"

definition loop_once :: "('n, 'w) program \<Rightarrow> nat \<Rightarrow> nat \<Rightarrow> 'n machine \<Rightarrow> ('n, 'w) machine_step" where
  "loop_once P floor budget m =
     (case mc_frames m of
        Code_Frame fr ip # fs \<Rightarrow>
          let E = pg_env P; c = fi_code (pg_fn P (vf_fn fr)); s = in_loop m ip
          in (case budget of
                0 \<Rightarrow> M_Ends Ended_Budget m
              | Suc left \<Rightarrow>
                  (case fuses_at c s of
                     None \<Rightarrow> M_Panics
                   | Some fused \<Rightarrow>
                       if fused
                       then (case left of
                               0 \<Rightarrow>
                                 (case first_part E c fr s of
                                    Goes s1 \<Rightarrow> M_Ends Ended_Budget (saved fr fs s1 m)
                                  | Fails e s1 \<Rightarrow> M_Fails e (saved fr fs s1 m)
                                  | _ \<Rightarrow> M_Panics)
                             | Suc left1 \<Rightarrow> machine_after P floor left1 fr fs m (vm_step E c fr s))
                       else machine_after P floor left fr fs m (vm_step E c fr s)))
      | _ \<Rightarrow> M_Panics)"

text \<open>The budget that is left never grows, and each instruction takes of it: the loop ends.\<close>

lemma deliver_native_left: "deliver_native P floor budget v m = M_Goes left m1 \<Longrightarrow> left \<le> budget"
proof (induction budget arbitrary: v m)
  case 0
  then show ?case by (simp add: deliver_native.simps [of P floor 0] split: if_splits list.splits call_frame.splits)
next
  case (Suc k)
  then show ?case
    by (fastforce simp: deliver_native.simps [of P floor "Suc k"] le_Suc_eq
        split: if_splits list.splits call_frame.splits resumed.splits)
qed

lemma deliver_value_left: "deliver_value P floor budget v m = M_Goes left m1 \<Longrightarrow> left \<le> budget"
  using deliver_native_left by (auto simp: deliver_value_def split: if_splits list.splits call_frame.splits)

lemma go_on_after_left: "go_on_after P floor budget r = M_Goes left m1 \<Longrightarrow> left \<le> budget"
  using deliver_value_left by (auto simp: go_on_after_def split: vm_result.splits entered.splits)

lemma tail_done_left: "tail_done budget r = M_Goes left m1 \<Longrightarrow> left \<le> budget"
  by (auto simp: tail_done_def split: vm_result.splits)

lemma other_instr_left: "other_instr P floor budget i m = M_Goes left m1 \<Longrightarrow> left \<le> budget"
  using go_on_after_left tail_done_left
  by (fastforce simp: other_instr_def call_instr_def tail_call_instr_def call_builtin_instr_def Let_def
      split: op.splits data_op.splits if_splits val.splits)

lemma machine_after_left: "machine_after P floor budget fr fs m r = M_Goes left m1 \<Longrightarrow> left \<le> budget"
  using deliver_value_left other_instr_left by (fastforce simp: machine_after_def split: vm_outcome.splits)

lemma loop_once_left: "loop_once P floor budget m = M_Goes left m1 \<Longrightarrow> left < budget"
  using machine_after_left
  by (fastforce simp: loop_once_def Let_def le_less_Suc_eq less_Suc_eq_le
      split: list.splits call_frame.splits nat.splits option.splits if_splits vm_outcome.splits)

function frames_loop :: "('n, 'w) program \<Rightarrow> nat \<Rightarrow> nat \<Rightarrow> 'n machine \<Rightarrow> ('n, 'w) machine_step" where
  "frames_loop P floor budget m =
     (case loop_once P floor budget m of
        M_Goes left m1 \<Rightarrow> frames_loop P floor left m1
      | r \<Rightarrow> r)"
  by pat_completeness auto
termination
  by (relation "measure (\<lambda>(P, floor, budget, m). budget)") (auto dest: loop_once_left)

declare frames_loop.simps [simp del]

text \<open>A run of the loop: what an earlier one left is finished first, the second part of an instruction, and
  the value for the frame of a builtin.\<close>

definition finish_half :: "('n, 'w) program \<Rightarrow> nat \<Rightarrow> 'n machine \<Rightarrow> ('n, 'w) machine_step" where
  "finish_half P budget m =
     (case mc_half m of
        None \<Rightarrow> M_Goes budget m
      | Some half \<Rightarrow>
          (case budget of
             0 \<Rightarrow> M_Ends Ended_Budget m
           | Suc left \<Rightarrow>
               (case mc_frames m of
                  Code_Frame fr ip # fs \<Rightarrow>
                    (case second_part (pg_env P) half (in_loop m ip) of
                       Goes s \<Rightarrow> M_Goes left (saved fr fs s m)
                     | Fails e s \<Rightarrow> M_Fails e (saved fr fs s m)
                     | _ \<Rightarrow> M_Panics)
                | _ \<Rightarrow> M_Panics)))"

definition run_frames :: "('n, 'w) program \<Rightarrow> nat \<Rightarrow> nat \<Rightarrow> 'n machine \<Rightarrow> ('n, 'w) machine_step" where
  "run_frames P floor budget m =
     (if length (mc_frames m) = floor then M_Ends (Ended_Done Unit_Val) m
      else case finish_half P budget m of
             M_Goes left m1 \<Rightarrow>
               (case mc_frames m1 of
                  Native_Frame _ # _ \<Rightarrow>
                    let input = (case mc_pending m1 of Some v \<Rightarrow> v | None \<Rightarrow> Unit_Val)
                    in (case deliver_value P floor left input (m1\<lparr>mc_pending := None\<rparr>) of
                          M_Goes left2 m2 \<Rightarrow> frames_loop P floor left2 m2
                        | r \<Rightarrow> r)
                | _ \<Rightarrow> frames_loop P floor left m1)
           | r \<Rightarrow> r)"

section \<open>The count of the frames\<close>

text \<open>The depth of the calls is bounded: the frames of functions are the frames less those of builtins, of
  which the machine keeps the count, and there are never more than \<open>MAX_FRAMES\<close> of them. Every step of
  the loop keeps the count right, so that the difference is never taken of a count too large.\<close>

definition natives :: "'n call_frame list \<Rightarrow> nat" where
  "natives fs = length (filter (\<lambda>f. case f of Native_Frame _ \<Rightarrow> True | _ \<Rightarrow> False) fs)"

definition frames_ok :: "'n machine \<Rightarrow> bool" where
  "frames_ok m \<longleftrightarrow> mc_natives m = natives (mc_frames m) \<and> length (mc_frames m) - natives (mc_frames m) \<le> MAX_FRAMES"

definition result_ok :: "('a, 'n) vm_result \<Rightarrow> bool" where
  "result_ok r = (case r of Ok_With _ m \<Rightarrow> frames_ok m | Err_With _ m \<Rightarrow> frames_ok m | Panic \<Rightarrow> True)"

definition resumed_ok :: "('n, 'w) resumed \<Rightarrow> bool" where
  "resumed_ok r =
     (case r of Gives _ m \<Rightarrow> frames_ok m | Runs m \<Rightarrow> frames_ok m | Stops _ m \<Rightarrow> frames_ok m | Stops_With _ m \<Rightarrow> frames_ok m
      | Resume_Panics \<Rightarrow> True)"

definition step_ok :: "('n, 'w) machine_step \<Rightarrow> bool" where
  "step_ok r =
     (case r of M_Goes _ m \<Rightarrow> frames_ok m | M_Ends _ m \<Rightarrow> frames_ok m | M_Fails _ m \<Rightarrow> frames_ok m | M_Leaves _ m _ \<Rightarrow> frames_ok m
      | M_Panics \<Rightarrow> True)"

lemma natives_simps [simp]:
  "natives [] = 0" "natives (Code_Frame fr ip # fs) = natives fs" "natives (Native_Frame n # fs) = Suc (natives fs)"
  by (simp_all add: natives_def)

lemma natives_le [simp]: "natives fs \<le> length fs" by (simp add: natives_def)

lemma frames_ok_same [simp]:
  "frames_ok (m\<lparr>mc_stack := st\<rparr>) = frames_ok m" "frames_ok (m\<lparr>mc_pending := p\<rparr>) = frames_ok m"
  "frames_ok (push_value v m) = frames_ok m"
  by (simp_all add: frames_ok_def push_value_def)

lemma push_frame_ok:
  "frames_ok m \<Longrightarrow> push_code_frame fr m = Ok_With u m1 \<Longrightarrow> frames_ok m1"
  "frames_ok m \<Longrightarrow> push_code_frame fr m = Err_With e m1 \<Longrightarrow> frames_ok m1"
  "frames_ok m \<Longrightarrow> frames_ok (push_native_frame n m)"
  by (auto simp: frames_ok_def push_code_frame_def push_native_frame_def split: if_splits)

lemma same_frame_ok [simp]:
  "mc_frames m = Code_Frame fr ip # fs \<Longrightarrow>
   frames_ok (m\<lparr>mc_stack := st, mc_frames := Code_Frame fr' ip' # fs\<rparr>) = frames_ok m"
  "mc_frames m = Code_Frame fr ip # fs \<Longrightarrow> frames_ok (saved fr' fs s m) = frames_ok m"
  "mc_frames m = Native_Frame n # fs \<Longrightarrow>
   frames_ok (m\<lparr>mc_stack := st, mc_frames := Native_Frame n' # fs\<rparr>) = frames_ok m"
  by (simp_all add: frames_ok_def saved_def)

lemma left_frame_ok:
  "mc_frames m = Code_Frame fr ip # fs \<Longrightarrow> frames_ok m \<Longrightarrow> frames_ok (m\<lparr>mc_stack := st, mc_frames := fs\<rparr>)"
  "mc_frames m = Native_Frame n # fs \<Longrightarrow> frames_ok m \<Longrightarrow>
   frames_ok (m\<lparr>mc_stack := st, mc_frames := fs, mc_natives := mc_natives m - 1\<rparr>)"
  by (auto simp: frames_ok_def)

lemma call_closure_ok: "frames_ok m \<Longrightarrow> result_ok (call_closure P f ups bound argc slot m)"
  by (auto simp: call_closure_def Let_def result_ok_def dest: push_frame_ok(1,2) [of "m\<lparr>mc_stack := st\<rparr>" for st, rotated]
      split: option.splits vm_result.splits)

lemma enter_builtin_ok: "frames_ok m \<Longrightarrow> result_ok (enter_builtin P b args m)"
  by (auto simp: enter_builtin_def Let_def result_ok_def push_frame_ok(3) split: prod.splits sum.splits native_step.splits)

lemma call_other_ok: "frames_ok m \<Longrightarrow> result_ok (call_other P callee slot m)"
  using enter_builtin_ok [of "m\<lparr>mc_stack := st\<rparr>" for st]
  by (auto simp: call_other_def with_args_def Let_def result_ok_def split: val.splits sum.splits)

lemma call_value_ok: "frames_ok m \<Longrightarrow> result_ok (call_value P callee argc slot m)"
  using call_closure_ok call_other_ok by (auto simp: call_value_def split: val.splits)

lemma reuse_frame_ok: "frames_ok m \<Longrightarrow> result_ok (reuse_frame_after info f ups bound at argc keep m)"
  by (auto simp: reuse_frame_after_def Let_def result_ok_def split: list.splits call_frame.splits)

lemma tail_closure_ok: "frames_ok m \<Longrightarrow> result_ok (tail_closure P f ups bound argc slot m)"
  using reuse_frame_ok [of "m\<lparr>mc_stack := st\<rparr>" for st]
  by (auto simp: tail_closure_def Let_def result_ok_def split: option.splits)

lemma tail_call_keep_ok: "frames_ok m \<Longrightarrow> result_ok (tail_call_keep P argc keep m)"
  using reuse_frame_ok [of m] tail_closure_ok [of "m\<lparr>mc_stack := st\<rparr>" for st]
  by (auto simp: tail_call_keep_def Let_def result_ok_def [of Panic] result_ok_def [of "Err_With _ _"]
      split: val.splits list.splits call_frame.splits)

lemma resume_top_ok:
  assumes "frames_ok m" and "mc_frames m = Native_Frame n # fs"
  shows "resumed_ok (resume_top P n fs v m)"
proof -
  obtain r n1 st where r: "pg_resume P n v (mc_stack m) = (r, n1, st)" by (cases "pg_resume P n v (mc_stack m)")
  let ?on = "m\<lparr>mc_stack := st, mc_frames := Native_Frame n1 # fs\<rparr>"
  have on: "frames_ok ?on" using assms by simp
  have "resumed_ok (resumed_call (call_value P callee argc slot ?on))" for callee argc slot
    using call_value_ok [OF on, of P callee argc slot]
    by (auto simp: resumed_call_def resumed_ok_def result_ok_def split: vm_result.splits entered.splits)
  then show ?thesis
    using on assms left_frame_ok(2) [OF assms(2,1)]
    by (auto simp: resume_top_def r Let_def resumed_ok_def split: sum.splits native_step.splits)
qed

lemma deliver_native_ok: "frames_ok m \<Longrightarrow> step_ok (deliver_native P floor budget v m)"
proof (induction budget arbitrary: v m)
  case 0
  then show ?case
    by (auto simp: deliver_native.simps [of P floor 0] step_ok_def split: list.splits call_frame.splits)
next
  case (Suc k)
  show ?case
  proof (cases "\<exists>n fs. mc_frames m = Native_Frame n # fs")
    case True
    then obtain n fs where top: "mc_frames m = Native_Frame n # fs" by blast
    show ?thesis
      using resume_top_ok [OF Suc.prems top, of P v] Suc.prems Suc.IH top
      by (auto simp: deliver_native.simps [of P floor "Suc k"] step_ok_def [of "M_Ends _ _"] step_ok_def [of "M_Goes _ _"]
          step_ok_def [of "M_Fails _ _"] step_ok_def [of M_Panics] resumed_ok_def split: resumed.splits)
  next
    case False
    then show ?thesis
      using Suc.prems by (auto simp: deliver_native.simps [of P floor "Suc k"] step_ok_def split: list.splits call_frame.splits)
  qed
qed

lemma deliver_value_ok: "frames_ok m \<Longrightarrow> step_ok (deliver_value P floor budget v m)"
  using deliver_native_ok [of m P floor budget v]
  by (auto simp: deliver_value_def step_ok_def [of "M_Ends _ _"] step_ok_def [of "M_Goes _ _"] split: list.splits call_frame.splits)

lemma after_call_ok:
  "result_ok r \<Longrightarrow> step_ok (go_on_after P floor budget r)" "result_ok q \<Longrightarrow> step_ok (tail_done budget q)"
  by (auto simp: go_on_after_def tail_done_def result_ok_def deliver_value_ok step_ok_def [of "M_Goes _ _"]
      step_ok_def [of "M_Fails _ _"] step_ok_def [of M_Panics] split: vm_result.splits entered.splits)

lemma call_instrs_ok:
  assumes "frames_ok m"
  shows "step_ok (call_instr P floor budget argc m)" "step_ok (tail_call_instr P floor budget argc m)"
    "step_ok (call_builtin_instr P floor budget b argc m)"
  using assms
  by (auto simp: call_instr_def tail_call_instr_def call_builtin_instr_def with_args_def Let_def step_ok_def [of M_Panics]
      result_ok_def [of Panic] intro!: after_call_ok call_value_ok tail_closure_ok enter_builtin_ok split: val.split)

lemma other_instr_ok: "frames_ok m \<Longrightarrow> step_ok (other_instr P floor budget i m)"
  by (auto simp: other_instr_def Let_def call_instrs_ok after_call_ok(2) [OF tail_call_keep_ok] step_ok_def [of "M_Leaves _ _ _"]
      split: op.split data_op.split)

lemma loop_once_ok:
  assumes "frames_ok m"
  shows "step_ok (loop_once P floor budget m)"
proof (cases "\<exists>fr ip fs. mc_frames m = Code_Frame fr ip # fs")
  case True
  then obtain fr ip fs where top: "mc_frames m = Code_Frame fr ip # fs" by blast
  have "step_ok (machine_after P floor left fr fs m r)" for left r
    using assms top
    by (auto simp: machine_after_def step_ok_def [of "M_Goes _ _"] step_ok_def [of "M_Fails _ _"] step_ok_def [of M_Panics]
        intro!: deliver_value_ok [OF left_frame_ok(1)] other_instr_ok split: vm_outcome.split)
  then show ?thesis
    using assms top
    by (auto simp: loop_once_def Let_def step_ok_def [of "M_Ends _ _"] step_ok_def [of "M_Fails _ _"] step_ok_def [of M_Panics]
        split: nat.split option.split vm_outcome.split)
qed (use assms in \<open>auto simp: loop_once_def step_ok_def split: list.splits call_frame.splits\<close>)

lemma frames_loop_ok: "frames_ok m \<Longrightarrow> step_ok (frames_loop P floor budget m)"
proof (induction P floor budget m rule: frames_loop.induct)
  case (1 P floor budget m)
  then show ?case
    using loop_once_ok [OF 1(2), of P floor budget]
    by (auto simp: frames_loop.simps [of P floor budget] step_ok_def [of "M_Goes _ _"] split: machine_step.splits)
qed

lemma run_frames_bounded:
  assumes "frames_ok m"
  shows "step_ok (run_frames P floor budget m)"
proof -
  have half: "step_ok (finish_half P budget m)"
    using assms by (auto simp: finish_half_def step_ok_def split: option.splits nat.splits list.splits call_frame.splits vm_outcome.splits)
  have delivered: "step_ok (case deliver_value P floor left v m1 of M_Goes left2 m2 \<Rightarrow> frames_loop P floor left2 m2 | r \<Rightarrow> r)"
    if "frames_ok m1" for left v m1
    using deliver_value_ok [OF that, of P floor left v] frames_loop_ok
    by (cases "deliver_value P floor left v m1") (auto simp: step_ok_def [of "M_Goes _ _"])
  have "step_ok (run_frames P floor budget m)" if "finish_half P budget m = M_Goes left m1" for left m1
  proof -
    have m1: "frames_ok m1" using half that by (simp add: step_ok_def)
    then show ?thesis
      using that assms frames_loop_ok [OF m1, of P floor left] delivered [of "m1\<lparr>mc_pending := None\<rparr>"]
      by (simp add: run_frames_def Let_def step_ok_def [of "M_Ends _ _"] split: list.split call_frame.split option.split)
  qed
  then show ?thesis
    using half assms by (cases "finish_half P budget m") (simp_all add: run_frames_def step_ok_def)
qed

end
