(* ===== verification/Spec2Isabelle.thy ===== *)
theory Spec2Isabelle
  imports Park_Protocol Exhaustiveness_Sound Doc_Layout Emit_Decode Chunk_Spans Value_Order Map_Value Set_Value List_Sequence Vm_Safe Vm_Calls
begin

text \<open>
  A verification development for the silt language: its runtime's synchronisation, its values, its
  bytecode and the machine that runs it, its check of pattern matches and the layout of its formatter,
  translated from the Rust code under \<^verbatim>\<open>src/src\<close>.

  \<^bold>\<open>The program.\<close> A silt program is parsed (\<^verbatim>\<open>parser.rs\<close>), checked (\<^verbatim>\<open>typechecker/\<close>), compiled to
  bytecode (\<^verbatim>\<open>compiler/\<close>, \<^verbatim>\<open>bytecode/\<close>) and run by a virtual machine (\<^verbatim>\<open>vm/\<close>) on a runtime of tasks
  (\<^verbatim>\<open>runtime/sync\<close>, \<^verbatim>\<open>scheduler.rs\<close>); the same syntax tree is printed by a formatter (\<^verbatim>\<open>format/\<close>). The
  parts modelled here are those that carry a promise the other parts rely on: a task that waits is
  woken once, verified bytecode cannot go wrong, an accepted match misses no value, formatting
  loses nothing.

  \<^bold>\<open>The synchronisation core\<close> (\<^verbatim>\<open>runtime/sync\<close>).
  \<^item> \<open>Prelude\<close>: the stores of shared objects, 64-bit counters, facts on lists and folds.
  \<^item> \<open>Token\<close> (\<^verbatim>\<open>token.rs\<close>, \<^verbatim>\<open>queue.rs\<close>): the token of one wait, a small state machine; who claims it ends
    the wait. One wake per wait, one result per wait, whatever is done to the token.
  \<^item> \<open>Channel\<close> (\<^verbatim>\<open>channel.rs\<close>): the state under a channel's lock, and every method. Values come out once
    and in order; nobody is left waiting who could go on; a close stands. The runs these are about have
    selects too, with any arms on the channel, several of them if the program says so.
  \<^item> \<open>Cell\<close> (\<^verbatim>\<open>cell.rs\<close>): a value set once, its waiters drained in a second lock section.
  \<^item> \<open>Timer\<close> (\<^verbatim>\<open>timer.rs\<close>, clock of \<^verbatim>\<open>vm/io.rs\<close>): the ordered entries and what is due.
  \<^item> \<open>Wait\<close> (\<^verbatim>\<open>wait.rs\<close>): the arms of a wait, the search for a ready one, joining and leaving the queues;
    the fast path for one channel does what the general one does.
  \<^item> \<open>Wake_Contract\<close>: what a wake promises, as a locale over the operations that can wake, interpreted
    on the registry.
  \<^item> \<open>Parking\<close>, \<open>Park_Protocol\<close> (\<^verbatim>\<open>parking.rs\<close>): the registry of parked tasks. \<open>Parking\<close> takes each
    operation as one step; \<open>Park_Protocol\<close> takes the sections of the registry's locks as steps of their own, with
    program counters for the parks, cancels and shutdowns that are under way, and shows by rule
    induction that every task is in exactly one place, that no wake and no cancel is lost and that no
    assertion of the code fails, for every interleaving. Joining the queues of a wait, a wake, the
    completion of a cell and a run of the timer are one step each there; the set and the drain of a
    cell are taken apart in \<open>Cell\<close>.

  \<^bold>\<open>The bytecode\<close> (\<^verbatim>\<open>bytecode/\<close>).
  \<^item> \<open>Bytecode\<close> (\<^verbatim>\<open>ops.rs\<close>): the instruction table (opcodes, operand kinds, effects on the frame) and the
    decoder. The macro that makes one constructor per row is an opcode with a list of operands; the
    opcodes are grouped in five datatypes.
  \<^item> \<open>Verify\<close>, \<open>Verify_Sound\<close> (\<^verbatim>\<open>verify.rs\<close>): the verifier with its work list. Its loop ends because a
    frame that is news is lower than the one known before (\<open>lower\<close>). Code it accepts is safe
    wherever a run comes to, has one height per instruction but where the rules allow several, and
    the verifier never panics itself: reading a constant that is missing or of another kind, or a list
    of items outside the code, is the error \<open>Panics\<close> in the model, as it is a panic in the code.
  \<^item> \<open>Emit\<close>, \<open>Emit_Sound\<close>, \<open>Emit_Decode\<close> (\<^verbatim>\<open>emit.rs\<close>, the encoder of \<^verbatim>\<open>ops.rs\<close>, the chunk of \<^verbatim>\<open>mod.rs\<close>): the
    emitter with labels, fusing and limits. The proof keeps symbolic code in which a jump names its
    label, and shows that the bytes are always this code with the bound labels filled in; so the code
    of a finished function decodes to what the compiler gave, instructions and labels in the order they
    were given in (\<open>says\<close>), two that can be one as that one, and never two with a label between them.
  \<^item> \<open>Chunk_Spans\<close>: the run-length encoded spans and the pool of constants, where only constants that
    are the same to a program share an index.

  \<^bold>\<open>Pattern matches\<close> (\<^verbatim>\<open>typechecker/exhaustiveness.rs\<close>): \<open>Exhaustiveness\<close> has the lowered patterns and the
  matrix search, \<open>Exhaustiveness_Proofs\<close> the values and the lemmas on one step of the search,
  \<open>Exhaustiveness_Sound\<close> that an accepted match is exhaustive and that what is shown as missing is
  missing: a value of the type is as the shown one, and no pattern matches any that is. A literal, a pinned
  name and a map pattern (\<open>Lit\<close>) match some values the model does not look into: for the first theorem
  they count as matching none, and the second is about the patterns without them. The search is bounded as in the code (\<open>MAX_CELLS\<close>): a search that gives up gives no
  verdict, and the theorems are about those that answer.

  \<^bold>\<open>The formatter's documents\<close> (\<^verbatim>\<open>format/doc.rs\<close>): \<open>Doc\<close> has the document type and the renderer,
  \<open>Doc_Proofs\<close> a locale for laws every write keeps, with its interpretations, \<open>Doc_Layout\<close> what
  measuring decides. The loops over stacks of documents end by the size of what is on the stack.

  \<^bold>\<open>Values\<close> (\<^verbatim>\<open>value/key.rs\<close>): \<open>Value\<close> has values as the walk sees them, the walk by calls and with its
  own stack (both end: what is left of the first value gets smaller), and the visitors for equality,
  order and hash; \<open>Value_Walk\<close> shows the walk to be a plain recursion, once for all visitors (locale
  \<open>visitor\<close>, interpreted on the three); \<open>Value_Order\<close> has the keys of values, a linear order of trees,
  and shows that order, equality and hash are those of the keys.

  \<^bold>\<open>Maps and sets\<close> (\<^verbatim>\<open>value/map.rs\<close>): \<open>Sorted_Storage\<close> has the search among entries that are kept side by
  side and the walk through two of them, \<open>Map_Value\<close> and \<open>Set_Value\<close> the two values with their three
  ways of being kept. The tree of a large map is a library's: a record of its operations, an argument
  of the definitions, of which the contract of an ordered map is relied on (locales \<open>ordered_map\<close> and
  \<open>ordered_set\<close>). Entries side by side keep this contract, and so do the map and the set themselves,
  over every tree that does. Elements are of any linear order, as the values are by \<open>Value_Order\<close>.

  \<^bold>\<open>Lists\<close> (\<^verbatim>\<open>value/list.rs\<close>): \<open>Machine_Int\<close> has the checked and the wrapping arithmetic of 64 and 128
  bits; \<open>List_Value\<close> a list in its four ways of being stored (a range of Ints, elements side by side, a
  part of such a buffer, a library's tree of chunks) and every operation; \<open>List_Refine\<close> the contract of the
  library's tree (locale \<open>vector\<close>) and that each operation is the one of plain lists; \<open>List_Sequence\<close> the
  properties, the answers that are computed without the elements of a range among them. The product of a
  range ends by overflow after 65 elements at most.

  \<^bold>\<open>The virtual machine\<close> (\<^verbatim>\<open>vm/\<close>).
  \<^item> \<open>Vm_Value\<close>, \<open>Vm_Exact\<close> (\<^verbatim>\<open>vm/arithmetic.rs\<close>, \<^verbatim>\<open>vm/dispatch.rs\<close>, \<^verbatim>\<open>value/mod.rs\<close>, \<^verbatim>\<open>value/float.rs\<close>): arithmetic,
    order and equality of two operands with the search for a function inside them. Arithmetic of Ints is
    exact or an error; numbers stay numbers; comparisons are those of the keys. A Float is its bits, what
    the processor computes of two is an argument.
  \<^item> \<open>Record_Value\<close> (\<^verbatim>\<open>value/obj.rs\<close>): reading, writing, updating records, the rest of a pattern.
  \<^item> \<open>Vm_Loop\<close> (\<^verbatim>\<open>vm/run.rs\<close>): the instruction loop in the frame of one function, the two parts of an
    instruction that fuses two, and the slice with its budget.
  \<^item> \<open>Vm_Calls\<close> (\<^verbatim>\<open>vm/calls.rs\<close>, \<^verbatim>\<open>vm/run.rs\<close>): the machine with its frames, calls, tail calls, the frames of builtins
    that call back and the loop over all of them, with what a builtin does as an argument. The loop ends
    with its budget, and the count of frames stays right and bounded; that verified code does not panic is
    shown for one frame only (\<open>Vm_Safe\<close>).
  \<^item> \<open>Vm_Slices\<close>: the two parts do what the instruction does, and slices compose.
  \<^item> \<open>Vm_Safe\<close>: what the verifier accepts, the loop runs without a panic; the loop refines the steps the
    verifier counts heights with.

  \<^bold>\<open>Conventions.\<close> An operation of a Rust object is a function from the state to the result and the new
  state; a lock section is one step. An error is a value of a sum or an option; an index out of range
  or another panic of the code is an error constructor of its own (\<open>Panics\<close>, \<open>E_Panic\<close>, \<open>broken\<close>),
  so that its absence is a theorem. Numbers that cannot overflow are naturals; counters that wrap
  are written with their modulus; bytes are 8-bit words. The builtin registry, stored closures and
  the clock are arguments of the definitions that use them.

  \<^bold>\<open>Not modelled.\<close> The lexer, the parser, type inference and the solver, the compiler from the syntax tree
  to instructions, the language server, the package tools and the builtins over libraries and the
  operating system (sockets, files, databases). Of the virtual machine: the builtins,
  globals, dictionaries, and the texts, maps, sets and types an instruction makes; such an instruction
  leaves the loop, and the theorems on the loop of one frame are about whatever it, or a call, comes back
  with. The scheduler's threads and the sleeping of the timer
  thread are outside: the models say what happens in each lock section, not when it runs. Wordings of
  messages are constructors that carry what a message names.
\<close>

end
